(* ===== verification/Xv6_Prelude.thy ===== *)
theory Xv6_Prelude
  imports Main "HOL-Library.Word"
begin

text \<open>
  Shared vocabulary of the development: the machine integer types, the result type of a
  kernel operation with its sequencing operator, counted loops, little-endian encodings and
  the byte-addressed physical memory with 64-bit loads and stores. Lemmas every component
  uses are collected in \<open>res_simps\<close> (sequencing) and \<open>mem_simps\<close> (memory).
\<close>

unbundle bit_operations_syntax

named_theorems res_simps \<open>equations and inversion rules of sequenced kernel operations\<close>
named_theorems mem_simps \<open>loads after stores, loads after block operations\<close>

section \<open>Machine integers\<close>

type_synonym u8 = "8 word"
type_synonym u16 = "16 word"
type_synonym u32 = "32 word"
type_synonym u64 = "64 word"

text \<open>A C conversion of a 64-bit value to \<^verbatim>\<open>int\<close>: the low 32 bits read as two's complement.\<close>

definition to_int :: "u64 \<Rightarrow> int" where
  "to_int w = sint (ucast w :: u32)"

section \<open>Results of kernel operations\<close>

text \<open>
  The channels kernel code sleeps on. In C they are addresses of kernel objects; distinct
  objects have distinct addresses, so one constructor per object kind is enough.
\<close>

datatype chan =
    Chan_log
  | Chan_ticks
  | Chan_proc nat
  | Chan_nread u64
  | Chan_nwrite u64
  | Chan_uart_tx_r
  | Chan_cons_r
  | Chan_disk_free
  | Chan_buf nat
  | Chan_buf_lock nat
  | Chan_inode_lock nat

text \<open>
  An operation on a state \<open>'s\<close> returns a value with the new state, blocks in \<^verbatim>\<open>sleep\<close> on a
  channel with the state it leaves behind, switches to the scheduler without sleeping (in \<^verbatim>\<open>yield\<close>
  and at the end of \<^verbatim>\<open>exit\<close>), stops the machine in \<^verbatim>\<open>panic\<close>, or runs into behaviour C leaves
  undefined (a null or out-of-range access).
\<close>

datatype ('s, 'a) res =
    Ok 'a 's
  | Sleep chan 's
  | Switch 's
  | Panic string
  | Fault string

primrec andthen :: "('s, 'a) res \<Rightarrow> ('a \<Rightarrow> 's \<Rightarrow> ('s, 'b) res) \<Rightarrow> ('s, 'b) res" where
  "andthen (Ok x s) f = f x s"
| "andthen (Sleep c s) f = Sleep c s"
| "andthen (Switch s) f = Switch s"
| "andthen (Panic msg) f = Panic msg"
| "andthen (Fault msg) f = Fault msg"

lemma andthen_cong [fundef_cong]:
  assumes "r = r'" and "\<And>x s. r' = Ok x s \<Longrightarrow> f x s = g x s"
  shows "andthen r f = andthen r' g"
  using assms by (cases r') auto

lemma andthen_Ok_iff [res_simps]:
  "andthen r f = Ok y t \<longleftrightarrow> (\<exists>x s. r = Ok x s \<and> f x s = Ok y t)"
  by (cases r) auto

lemma andthen_Panic_iff:
  "andthen r f = Panic msg \<longleftrightarrow> r = Panic msg \<or> (\<exists>x s. r = Ok x s \<and> f x s = Panic msg)"
  by (cases r) auto

lemma andthen_assoc [res_simps]:
  "andthen (andthen r f) g = andthen r (\<lambda>x s. andthen (f x s) g)"
  by (cases r) auto

text \<open>A loop over a list of indices, in order: \<^verbatim>\<open>for(i = 0; i < n; i++)\<close> is
  \<open>for_each [0..<n]\<close>.\<close>

fun for_each :: "'i list \<Rightarrow> ('i \<Rightarrow> 's \<Rightarrow> ('s, unit) res) \<Rightarrow> 's \<Rightarrow> ('s, unit) res" where
  "for_each [] f s = Ok () s"
| "for_each (i # is) f s = andthen (f i s) (\<lambda>_. for_each is f)"

lemma for_each_cong [fundef_cong]:
  assumes "is = is'" and "s = s'" and "\<And>i t. i \<in> set is' \<Longrightarrow> f i t = g i t"
  shows "for_each is f s = for_each is' g s'"
proof -
  have "(\<And>i t. i \<in> set js \<Longrightarrow> f i t = g i t) \<Longrightarrow> for_each js f u = for_each js g u" for js u
    by (induction js arbitrary: u) (auto intro!: andthen_cong)
  then show ?thesis using assms by simp
qed

lemma for_each_append:
  "for_each (is @ js) f s = andthen (for_each is f s) (\<lambda>_. for_each js f)"
  by (induction "is" arbitrary: s) (auto simp: andthen_assoc intro!: andthen_cong)

text \<open>Rule of invariants for a counted loop.\<close>

lemma for_each_invariant:
  assumes "for_each is f s = Ok u t" and "P s"
    and "\<And>i a b. i \<in> set is \<Longrightarrow> P a \<Longrightarrow> f i a = Ok () b \<Longrightarrow> P b"
  shows "P t"
  using assms
proof (induction "is" arbitrary: s)
  case Nil
  then show ?case by simp
next
  case (Cons i "is")
  from Cons.prems(1) obtain v a where a: "f i s = Ok v a" "for_each is f a = Ok u t"
    by (auto simp: andthen_Ok_iff)
  have "P a" using Cons.prems(2,3) a(1) by (cases v) auto
  with a(2) show ?case using Cons.prems(3) by (intro Cons.IH) auto
qed

section \<open>Little-endian encodings\<close>

definition le_word :: "u8 list \<Rightarrow> 'a::len word" where
  "le_word bs = word_of_int (horner_sum uint 256 bs)"

definition word_le :: "nat \<Rightarrow> 'a::len word \<Rightarrow> u8 list" where
  "word_le n w = map (\<lambda>i. ucast (drop_bit (8 * i) w)) [0..<n]"

lemma bit_le_word:
  "bit (le_word bs :: 'a::len word) n \<longleftrightarrow>
     n < LENGTH('a) \<and> n div 8 < length bs \<and> bit (bs ! (n div 8)) (n mod 8)"
  by (auto simp: le_word_def bit_word_of_int_iff bit_horner_sum_uint_exp_iff [where 'a = 8, simplified])

lemma nth_word_le: "i < n \<Longrightarrow> word_le n w ! i = ucast (drop_bit (8 * i) w)"
  by (simp add: word_le_def del: upt_rec_numeral)

lemma length_word_le [simp]: "length (word_le n w) = n"
  by (simp add: word_le_def del: upt_rec_numeral)

lemma le_word_le: "LENGTH('a) \<le> 8 * k \<Longrightarrow> le_word (word_le k w) = (w :: 'a::len word)"
  by (rule bit_word_eqI) (auto simp: bit_le_word word_le_def bit_simps simp del: upt_rec_numeral)

lemma word_le_le:
  assumes "length bs = k" and "LENGTH('a) = 8 * k"
  shows "word_le k (le_word bs :: 'a::len word) = bs"
proof (rule nth_equalityI)
  show "length (word_le k (le_word bs :: 'a word)) = length bs" using assms by simp
  fix i assume "i < length (word_le k (le_word bs :: 'a word))"
  then have "i < k" by simp
  then show "word_le k (le_word bs :: 'a word) ! i = bs ! i"
    using assms by (intro bit_word_eqI) (auto simp: nth_word_le bit_le_word bit_simps)
qed

section \<open>Physical memory\<close>

text \<open>
  The kernel runs with a direct map of RAM, so a kernel pointer is a physical address and
  memory is a total function from addresses to bytes. \<open>ld64\<close> and \<open>st64\<close> are a load and a
  store of a \<^verbatim>\<open>uint64\<close>.
\<close>

type_synonym memory = "u64 \<Rightarrow> u8"

definition ld64 :: "memory \<Rightarrow> u64 \<Rightarrow> u64" where
  "ld64 m a = le_word (map (\<lambda>i. m (a + of_nat i)) [0..<8])"

definition st64 :: "memory \<Rightarrow> u64 \<Rightarrow> u64 \<Rightarrow> memory" where
  "st64 m a v = (\<lambda>x. if x - a < 8 then word_le 8 v ! unat (x - a) else m x)"

text \<open>Reading and writing a run of bytes, for copies between memory and kernel buffers.\<close>

definition mem_bytes :: "memory \<Rightarrow> u64 \<Rightarrow> nat \<Rightarrow> u8 list" where
  "mem_bytes m a n = map (\<lambda>i. m (a + of_nat i)) [0..<n]"

definition put_bytes :: "memory \<Rightarrow> u64 \<Rightarrow> u8 list \<Rightarrow> memory" where
  "put_bytes m a bs = (\<lambda>x. if unat (x - a) < length bs then bs ! unat (x - a) else m x)"

lemma length_mem_bytes [simp]: "length (mem_bytes m a n) = n"
  by (simp add: mem_bytes_def)

lemma nth_mem_bytes [simp]: "i < n \<Longrightarrow> mem_bytes m a n ! i = m (a + of_nat i)"
  by (simp add: mem_bytes_def)

lemma unat_of_nat_64 [simp]: "n < 2 ^ 64 \<Longrightarrow> unat (of_nat n :: u64) = n"
  by (simp add: unat_of_nat)

lemma eq_plus_of_nat_iff:
  fixes x d :: u64
  assumes "n < 2 ^ 64"
  shows "x = d + of_nat n \<longleftrightarrow> unat (x - d) = n"
proof
  assume "unat (x - d) = n"
  then have "of_nat n = x - d" by (metis of_nat_unat ucast_id)
  then show "x = d + of_nat n" by simp
qed (use assms in simp)

lemma of_nat_unat_64 [simp]: "(of_nat (unat w) :: u64) = w" for w :: u64
  by simp

lemma of_nat_less_8: "k < 8 \<Longrightarrow> (of_nat k :: u64) < 8"
  by (simp add: word_less_nat_alt)

lemma ld64_st64_same [simp, mem_simps]: "ld64 (st64 m a v) a = v"
proof -
  have "map (\<lambda>i. st64 m a v (a + of_nat i)) [0..<8] = word_le 8 v"
    by (rule nth_equalityI) (auto simp: st64_def of_nat_less_8 simp del: upt_rec_numeral)
  then show ?thesis by (simp add: ld64_def le_word_le del: upt_rec_numeral)
qed

lemma ld64_cong:
  assumes "\<And>i. i < 8 \<Longrightarrow> m (a + i) = m' (a + i)"
  shows "ld64 m a = ld64 m' a"
proof -
  have "m (a + of_nat i) = m' (a + of_nat i)" if "i \<in> set [0..<8]" for i
    using that by (intro assms) (auto simp: of_nat_less_8)
  then show ?thesis unfolding ld64_def by (metis (no_types, lifting) map_cong)
qed

lemma st64_other: "\<not> x - a < 8 \<Longrightarrow> st64 m a v x = m x"
  by (simp add: st64_def)

lemma mem_bytes_put_bytes:
  "length bs \<le> 2 ^ 64 \<Longrightarrow> mem_bytes (put_bytes m a bs) a (length bs) = bs"
  by (rule nth_equalityI) (auto simp: put_bytes_def)

lemma ld64_const_zero: "(\<And>i. i < 8 \<Longrightarrow> m (a + i) = 0) \<Longrightarrow> ld64 m a = 0"
  by (rule bit_word_eqI) (auto simp: ld64_def bit_le_word of_nat_less_8 simp del: upt_rec_numeral)

end
