(* ===== verification/Riscv.thy ===== *)
theory Riscv
  imports Xv6_Prelude
begin

text \<open>
  The RISC-V definitions of \<^verbatim>\<open>kernel/riscv.h\<close> and \<^verbatim>\<open>kernel/memlayout.h\<close>: page size and
  rounding, page-table entries and their flag bits, the Sv39 index of a virtual address, the
  memory layout, and the control and status registers of a hart with their accessors. The
  lemmas show that an entry built from a page and flags decodes to them, and that addresses
  inside distinct pages never coincide.
\<close>

named_theorems pte_simps \<open>flag tests and decoding of page-table entries\<close>

section \<open>Pages\<close>

definition PGSIZE :: u64 where
  "PGSIZE = 4096"

definition PGSHIFT :: nat where
  "PGSHIFT = 12"

definition PGROUNDUP :: "u64 \<Rightarrow> u64" where
  "PGROUNDUP sz = (sz + PGSIZE - 1) AND NOT (PGSIZE - 1)"

definition PGROUNDDOWN :: "u64 \<Rightarrow> u64" where
  "PGROUNDDOWN a = a AND NOT (PGSIZE - 1)"

section \<open>Page-table entries\<close>

definition PTE_V :: u64 where
  "PTE_V = 1"

definition PTE_R :: u64 where
  "PTE_R = 2"

definition PTE_W :: u64 where
  "PTE_W = 4"

definition PTE_X :: u64 where
  "PTE_X = 8"

definition PTE_U :: u64 where
  "PTE_U = 16"

definition PTE_COW :: u64 where
  "PTE_COW = 256"

definition PA2PTE :: "u64 \<Rightarrow> u64" where
  "PA2PTE pa = push_bit 10 (drop_bit 12 pa)"

definition PTE2PA :: "u64 \<Rightarrow> u64" where
  "PTE2PA pte = push_bit 12 (drop_bit 10 pte)"

definition PTE_FLAGS :: "u64 \<Rightarrow> u64" where
  "PTE_FLAGS pte = pte AND 0x3FF"

definition PX :: "nat \<Rightarrow> u64 \<Rightarrow> u64" where
  "PX level va = drop_bit (PGSHIFT + 9 * level) va AND 0x1FF"

definition MAXVA :: u64 where
  "MAXVA = 2 ^ 38"

definition SATP_SV39 :: u64 where
  "SATP_SV39 = push_bit 60 8"

definition MAKE_SATP :: "u64 \<Rightarrow> u64" where
  "MAKE_SATP pagetable = SATP_SV39 OR drop_bit 12 pagetable"

section \<open>Memory layout\<close>

definition UART0 :: u64 where
  "UART0 = 0x10000000"

definition VIRTIO0 :: u64 where
  "VIRTIO0 = 0x10001000"

definition PLIC :: u64 where
  "PLIC = 0x0c000000"

definition KERNBASE :: u64 where
  "KERNBASE = 0x80000000"

definition PHYSTOP :: u64 where
  "PHYSTOP = KERNBASE + 128 * 1024 * 1024"

definition TRAMPOLINE :: u64 where
  "TRAMPOLINE = MAXVA - PGSIZE"

definition KSTACK :: "u64 \<Rightarrow> u64" where
  "KSTACK p = TRAMPOLINE - (p + 1) * 2 * PGSIZE"

definition TRAPFRAME :: u64 where
  "TRAPFRAME = TRAMPOLINE - PGSIZE"

section \<open>Control and status registers\<close>

text \<open>
  The registers of one hart the kernel reads and writes. \<open>hart_time\<close> stands for the free
  running \<^verbatim>\<open>time\<close> counter; \<open>tp\<close> is the general register that holds the hart number.
\<close>

record hart =
  mhartid :: u64
  mstatus :: u64
  mepc :: u64
  sstatus :: u64
  sip :: u64
  sie :: u64
  mie :: u64
  sepc :: u64
  medeleg :: u64
  mideleg :: u64
  stvec :: u64
  stimecmp :: u64
  menvcfg :: u64
  pmpcfg0 :: u64
  pmpaddr0 :: u64
  satp :: u64
  scause :: u64
  stval :: u64
  mcounteren :: u64
  hart_time :: u64
  tp :: u64

definition SSTATUS_SPP :: u64 where
  "SSTATUS_SPP = push_bit 8 1"

definition SSTATUS_SPIE :: u64 where
  "SSTATUS_SPIE = push_bit 5 1"

definition SSTATUS_SIE :: u64 where
  "SSTATUS_SIE = push_bit 1 1"

definition SIE_SEIE :: u64 where
  "SIE_SEIE = push_bit 9 1"

definition SIE_STIE :: u64 where
  "SIE_STIE = push_bit 5 1"

definition SIE_SSIE :: u64 where
  "SIE_SSIE = push_bit 1 1"

definition MIE_STIE :: u64 where
  "MIE_STIE = push_bit 5 1"

definition MSTATUS_MPP_MASK :: u64 where
  "MSTATUS_MPP_MASK = push_bit 11 3"

definition MSTATUS_MPP_S :: u64 where
  "MSTATUS_MPP_S = push_bit 11 1"

definition r_mhartid :: "hart \<Rightarrow> u64" where
  "r_mhartid h = mhartid h"

definition r_mstatus :: "hart \<Rightarrow> u64" where
  "r_mstatus h = mstatus h"

definition w_mstatus :: "u64 \<Rightarrow> hart \<Rightarrow> hart" where
  "w_mstatus x h = h\<lparr>mstatus := x\<rparr>"

definition w_mepc :: "u64 \<Rightarrow> hart \<Rightarrow> hart" where
  "w_mepc x h = h\<lparr>mepc := x\<rparr>"

definition r_sstatus :: "hart \<Rightarrow> u64" where
  "r_sstatus h = sstatus h"

definition w_sstatus :: "u64 \<Rightarrow> hart \<Rightarrow> hart" where
  "w_sstatus x h = h\<lparr>sstatus := x\<rparr>"

definition r_sip :: "hart \<Rightarrow> u64" where
  "r_sip h = sip h"

definition w_sip :: "u64 \<Rightarrow> hart \<Rightarrow> hart" where
  "w_sip x h = h\<lparr>sip := x\<rparr>"

definition r_sie :: "hart \<Rightarrow> u64" where
  "r_sie h = sie h"

definition w_sie :: "u64 \<Rightarrow> hart \<Rightarrow> hart" where
  "w_sie x h = h\<lparr>sie := x\<rparr>"

definition r_mie :: "hart \<Rightarrow> u64" where
  "r_mie h = mie h"

definition w_mie :: "u64 \<Rightarrow> hart \<Rightarrow> hart" where
  "w_mie x h = h\<lparr>mie := x\<rparr>"

definition w_sepc :: "u64 \<Rightarrow> hart \<Rightarrow> hart" where
  "w_sepc x h = h\<lparr>sepc := x\<rparr>"

definition r_sepc :: "hart \<Rightarrow> u64" where
  "r_sepc h = sepc h"

definition r_medeleg :: "hart \<Rightarrow> u64" where
  "r_medeleg h = medeleg h"

definition w_medeleg :: "u64 \<Rightarrow> hart \<Rightarrow> hart" where
  "w_medeleg x h = h\<lparr>medeleg := x\<rparr>"

definition r_mideleg :: "hart \<Rightarrow> u64" where
  "r_mideleg h = mideleg h"

definition w_mideleg :: "u64 \<Rightarrow> hart \<Rightarrow> hart" where
  "w_mideleg x h = h\<lparr>mideleg := x\<rparr>"

definition w_stvec :: "u64 \<Rightarrow> hart \<Rightarrow> hart" where
  "w_stvec x h = h\<lparr>stvec := x\<rparr>"

definition r_stvec :: "hart \<Rightarrow> u64" where
  "r_stvec h = stvec h"

definition r_stimecmp :: "hart \<Rightarrow> u64" where
  "r_stimecmp h = stimecmp h"

definition w_stimecmp :: "u64 \<Rightarrow> hart \<Rightarrow> hart" where
  "w_stimecmp x h = h\<lparr>stimecmp := x\<rparr>"

definition r_menvcfg :: "hart \<Rightarrow> u64" where
  "r_menvcfg h = menvcfg h"

definition w_menvcfg :: "u64 \<Rightarrow> hart \<Rightarrow> hart" where
  "w_menvcfg x h = h\<lparr>menvcfg := x\<rparr>"

definition w_pmpcfg0 :: "u64 \<Rightarrow> hart \<Rightarrow> hart" where
  "w_pmpcfg0 x h = h\<lparr>pmpcfg0 := x\<rparr>"

definition w_pmpaddr0 :: "u64 \<Rightarrow> hart \<Rightarrow> hart" where
  "w_pmpaddr0 x h = h\<lparr>pmpaddr0 := x\<rparr>"

definition w_satp :: "u64 \<Rightarrow> hart \<Rightarrow> hart" where
  "w_satp x h = h\<lparr>satp := x\<rparr>"

definition r_satp :: "hart \<Rightarrow> u64" where
  "r_satp h = satp h"

definition r_scause :: "hart \<Rightarrow> u64" where
  "r_scause h = scause h"

definition r_stval :: "hart \<Rightarrow> u64" where
  "r_stval h = stval h"

definition w_mcounteren :: "u64 \<Rightarrow> hart \<Rightarrow> hart" where
  "w_mcounteren x h = h\<lparr>mcounteren := x\<rparr>"

definition r_mcounteren :: "hart \<Rightarrow> u64" where
  "r_mcounteren h = mcounteren h"

definition r_time :: "hart \<Rightarrow> u64" where
  "r_time h = hart_time h"

definition intr_on :: "hart \<Rightarrow> hart" where
  "intr_on h = w_sstatus (r_sstatus h OR SSTATUS_SIE) h"

definition intr_off :: "hart \<Rightarrow> hart" where
  "intr_off h = w_sstatus (r_sstatus h AND NOT SSTATUS_SIE) h"

definition intr_get :: "hart \<Rightarrow> bool" where
  "intr_get h \<longleftrightarrow> r_sstatus h AND SSTATUS_SIE \<noteq> 0"

definition r_tp :: "hart \<Rightarrow> u64" where
  "r_tp h = tp h"

definition w_tp :: "u64 \<Rightarrow> hart \<Rightarrow> hart" where
  "w_tp x h = h\<lparr>tp := x\<rparr>"

text \<open>The memory-protection and interrupt set-up of \<^verbatim>\<open>start.c\<close>, up to the \<^verbatim>\<open>mret\<close> that enters
  \<open>main_addr\<close> in supervisor mode.\<close>

definition timerinit :: "hart \<Rightarrow> hart" where
  "timerinit h =
     (let h = w_mie (r_mie h OR MIE_STIE) h;
          h = w_menvcfg (r_menvcfg h OR push_bit 63 1) h;
          h = w_mcounteren (r_mcounteren h OR 2) h
      in w_stimecmp (r_time h + 1000000) h)"

definition start :: "u64 \<Rightarrow> hart \<Rightarrow> hart" where
  "start main_addr h =
     (let x = r_mstatus h;
          x = x AND NOT MSTATUS_MPP_MASK;
          x = x OR MSTATUS_MPP_S;
          h = w_mstatus x h;
          h = w_mepc main_addr h;
          h = w_satp 0 h;
          h = w_medeleg 0xffff h;
          h = w_mideleg 0xffff h;
          h = w_sie (((r_sie h OR SIE_SEIE) OR SIE_STIE) OR SIE_SSIE) h;
          h = w_pmpaddr0 0x3fffffffffffff h;
          h = w_pmpcfg0 0xf h;
          h = timerinit h;
          id = scast (ucast (r_mhartid h) :: u32)
      in w_tp id h)"

lemmas layout_defs =
  PHYSTOP_def KERNBASE_def TRAMPOLINE_def TRAPFRAME_def MAXVA_def PGSIZE_def KSTACK_def

lemmas csr_defs =
  r_mhartid_def r_mstatus_def w_mstatus_def w_mepc_def r_sstatus_def w_sstatus_def
  r_sip_def w_sip_def r_sie_def w_sie_def r_mie_def w_mie_def w_sepc_def r_sepc_def
  r_medeleg_def w_medeleg_def r_mideleg_def w_mideleg_def w_stvec_def r_stvec_def
  r_stimecmp_def w_stimecmp_def r_menvcfg_def w_menvcfg_def w_pmpcfg0_def w_pmpaddr0_def
  w_satp_def r_satp_def r_scause_def r_stval_def w_mcounteren_def r_mcounteren_def
  r_time_def r_tp_def w_tp_def

section \<open>Flag bits\<close>

lemma and_exp_iff_bit: "(w AND 2 ^ n = 0) \<longleftrightarrow> \<not> bit w n" for w :: "'a::len word"
  by (fact and_exp_eq_0_iff_not_bit)

lemma PTE_bits [pte_simps]:
  "w AND PTE_V = 0 \<longleftrightarrow> \<not> bit w 0"
  "w AND PTE_R = 0 \<longleftrightarrow> \<not> bit w 1"
  "w AND PTE_W = 0 \<longleftrightarrow> \<not> bit w 2"
  "w AND PTE_X = 0 \<longleftrightarrow> \<not> bit w 3"
  "w AND PTE_U = 0 \<longleftrightarrow> \<not> bit w 4"
  "w AND PTE_COW = 0 \<longleftrightarrow> \<not> bit w 8"
  using and_exp_iff_bit [of w 0] and_exp_iff_bit [of w 1] and_exp_iff_bit [of w 2]
    and_exp_iff_bit [of w 3] and_exp_iff_bit [of w 4] and_exp_iff_bit [of w 8]
  by (simp_all add: PTE_V_def PTE_R_def PTE_W_def PTE_X_def PTE_U_def PTE_COW_def)

lemma bit_PTE [pte_simps]:
  "bit PTE_V n \<longleftrightarrow> n = 0"
  "bit PTE_R n \<longleftrightarrow> n = 1"
  "bit PTE_W n \<longleftrightarrow> n = 2"
  "bit PTE_X n \<longleftrightarrow> n = 3"
  "bit PTE_U n \<longleftrightarrow> n = 4"
  "bit PTE_COW n \<longleftrightarrow> n = 8"
proof -
  have pow: "bit (2 ^ k :: u64) n \<longleftrightarrow> n = k" if "k < 64" for k
    using that by (auto simp: bit_simps)
  show "bit PTE_V n \<longleftrightarrow> n = 0" using pow [of 0] by (simp add: PTE_V_def)
  show "bit PTE_R n \<longleftrightarrow> n = 1" using pow [of 1] by (simp add: PTE_R_def)
  show "bit PTE_W n \<longleftrightarrow> n = 2" using pow [of 2] by (simp add: PTE_W_def)
  show "bit PTE_X n \<longleftrightarrow> n = 3" using pow [of 3] by (simp add: PTE_X_def)
  show "bit PTE_U n \<longleftrightarrow> n = 4" using pow [of 4] by (simp add: PTE_U_def)
  show "bit PTE_COW n \<longleftrightarrow> n = 8" using pow [of 8] by (simp add: PTE_COW_def)
qed

text \<open>The three masks of the header, as bit masks.\<close>

lemma mask_12: "PGSIZE - 1 = mask 12"
  by (simp add: PGSIZE_def mask_eq_exp_minus_1)

lemma mask_10: "(0x3FF :: u64) = mask 10"
  by (simp add: mask_eq_exp_minus_1)

lemma mask_9: "(0x1FF :: u64) = mask 9"
  by (simp add: mask_eq_exp_minus_1)

lemma less_exp_not_bit:
  assumes "(i :: u64) < 2 ^ k" and "k \<le> n"
  shows "\<not> bit i n"
proof -
  have "take_bit k i = i"
    using assms(1) by (cases "k < 64") (simp_all add: take_bit_word_eq_self word_less_nat_alt less_mask_eq take_bit_eq_mask)
  then show ?thesis using assms(2) by (metis bit_take_bit_iff not_less)
qed

section \<open>Page arithmetic\<close>

definition page_aligned :: "u64 \<Rightarrow> bool" where
  "page_aligned a \<longleftrightarrow> a mod PGSIZE = 0"

lemma mod_PGSIZE_iff [simp]: "a mod PGSIZE = 0 \<longleftrightarrow> page_aligned a"
  by (simp add: page_aligned_def)

lemma page_aligned_bits: "page_aligned a \<longleftrightarrow> (\<forall>n < 12. \<not> bit a n)"
proof -
  have eq: "a mod PGSIZE = take_bit 12 a"
    by (simp add: PGSIZE_def take_bit_eq_mod)
  have "take_bit 12 a = 0 \<longleftrightarrow> (\<forall>n < 12. \<not> bit a n)"
    by (auto simp: bit_eq_iff bit_take_bit_iff)
  then show ?thesis unfolding page_aligned_def eq .
qed

lemma page_alignedD: "page_aligned a \<Longrightarrow> n < 12 \<Longrightarrow> \<not> bit a n"
  by (simp add: page_aligned_bits)

lemma bit_PGROUNDDOWN: "bit (PGROUNDDOWN a) n \<longleftrightarrow> 12 \<le> n \<and> bit a n"
  by (auto simp: PGROUNDDOWN_def mask_12 bit_and_iff bit_not_iff bit_mask_iff dest: bit_imp_le_length)

lemma page_aligned_PGROUNDDOWN [simp]: "page_aligned (PGROUNDDOWN a)"
  by (simp add: page_aligned_bits bit_PGROUNDDOWN)

lemma page_aligned_PGROUNDUP [simp]: "page_aligned (PGROUNDUP a)"
proof -
  have "PGROUNDUP a = PGROUNDDOWN (a + PGSIZE - 1)"
    by (simp add: PGROUNDUP_def PGROUNDDOWN_def)
  then show ?thesis by simp
qed

lemma page_aligned_0 [simp]: "page_aligned 0"
  by (simp add: page_aligned_bits)

lemma PGROUNDDOWN_aligned: "page_aligned p \<Longrightarrow> PGROUNDDOWN p = p"
  by (rule bit_word_eqI) (auto simp: bit_PGROUNDDOWN page_aligned_bits not_less)

lemma page_offset_or:
  assumes "page_aligned p" and "i < PGSIZE"
  shows "p + i = p OR i"
proof (rule disjunctive_add)
  fix n
  show "\<not> bit p n \<or> \<not> bit i n"
    using assms less_exp_not_bit [of i 12 n] page_alignedD [of p n]
    by (cases "n < 12") (auto simp: PGSIZE_def)
qed

lemma PGROUNDDOWN_add [simp]:
  assumes "page_aligned p" and "i < PGSIZE"
  shows "PGROUNDDOWN (p + i) = p"
proof (rule bit_word_eqI)
  fix n
  show "bit (PGROUNDDOWN (p + i)) n \<longleftrightarrow> bit p n"
    using assms less_exp_not_bit [of i 12 n] page_alignedD [of p n]
    by (cases "n < 12") (auto simp: page_offset_or bit_PGROUNDDOWN bit_or_iff PGSIZE_def)
qed

lemma page_offset_inj:
  assumes "page_aligned p" "page_aligned q" "i < PGSIZE" "j < PGSIZE" "p + i = q + j"
  shows "p = q \<and> i = j"
  using assms PGROUNDDOWN_add [of p i] PGROUNDDOWN_add [of q j] by auto

lemma page_split:
  obtains i where "a = PGROUNDDOWN a + i" and "i < PGSIZE"
proof
  have "a AND mask 12 < 2 ^ 12"
    by (rule and_mask_less_size) (simp add: word_size)
  then show i: "a AND mask 12 < PGSIZE" by (simp add: PGSIZE_def)
  have "PGROUNDDOWN a + (a AND mask 12) = PGROUNDDOWN a OR (a AND mask 12)"
    using i by (intro page_offset_or) simp_all
  also have "\<dots> = a"
    by (rule bit_word_eqI) (auto simp: bit_or_iff bit_and_iff bit_mask_iff bit_PGROUNDDOWN)
  finally show "a = PGROUNDDOWN a + (a AND mask 12)" by simp
qed

lemma PGROUNDDOWN_le: "PGROUNDDOWN a \<le> a"
  unfolding PGROUNDDOWN_def by (rule word_and_le2)

lemma page_offset_less: "a - PGROUNDDOWN a < PGSIZE"
  by (metis add_diff_cancel_left' page_split)

lemma next_page_less: "\<not> p + PGSIZE < p \<Longrightarrow> p < p + PGSIZE"
proof -
  assume "\<not> p + PGSIZE < p"
  moreover have "p + PGSIZE \<noteq> p" by (simp add: PGSIZE_def)
  ultimately show ?thesis using linorder_neqE by blast
qed

lemma unat_next_page: "unat p + 4096 < 2 ^ 64 \<Longrightarrow> unat (p + PGSIZE) = unat p + 4096"
  by (simp add: PGSIZE_def unat_word_ariths)

lemma page_aligned_unat: "page_aligned p \<longleftrightarrow> unat p mod 4096 = 0"
proof -
  have "page_aligned p \<longleftrightarrow> p mod PGSIZE = 0" by simp
  also have "\<dots> \<longleftrightarrow> unat (p mod PGSIZE) = 0" by (simp only: unat_0_iff)
  also have "unat (p mod PGSIZE) = unat p mod 4096" by (simp add: unat_mod_distrib PGSIZE_def)
  finally show ?thesis .
qed

lemma page_aligned_add [simp]: "page_aligned p \<Longrightarrow> page_aligned (p + PGSIZE)"
proof -
  assume "page_aligned p"
  then have "(unat p + 4096) mod 4096 = 0" by (simp add: page_aligned_unat)
  moreover have "unat (p + PGSIZE) = (unat p + 4096) mod 2 ^ 64"
    by (simp add: PGSIZE_def unat_word_ariths)
  ultimately show ?thesis by (simp add: page_aligned_unat mod_mod_cancel)
qed

section \<open>Entries decode to what they were built from\<close>

lemma bit_PTE2PA: "bit (PTE2PA v) n \<longleftrightarrow> n < 64 \<and> 12 \<le> n \<and> bit v (n - 2)"
  by (auto simp: PTE2PA_def bit_simps)

lemma bit_PA2PTE: "bit (PA2PTE v) n \<longleftrightarrow> n < 64 \<and> 10 \<le> n \<and> bit v (n + 2)"
  by (auto simp: PA2PTE_def bit_simps)

lemma page_aligned_PTE2PA [simp]: "page_aligned (PTE2PA v)"
  by (simp add: page_aligned_bits bit_PTE2PA)

lemma bit_PTE_FLAGS: "bit (PTE_FLAGS v) n \<longleftrightarrow> n < 10 \<and> bit v n"
  by (auto simp: PTE_FLAGS_def mask_10 bit_and_iff bit_mask_iff dest: bit_imp_le_length)

definition flags_ok :: "u64 \<Rightarrow> bool" where
  "flags_ok f \<longleftrightarrow> PTE_FLAGS f = f"

lemma flags_ok_bits: "flags_ok f \<Longrightarrow> bit f n \<Longrightarrow> n < 10"
  by (metis flags_ok_def bit_PTE_FLAGS)

lemma flags_okI: "(\<And>n. bit f n \<Longrightarrow> n < 10) \<Longrightarrow> flags_ok f"
  unfolding flags_ok_def by (rule bit_word_eqI) (auto simp: bit_PTE_FLAGS)

lemma flags_ok_simps [simp, pte_simps]:
  "flags_ok (PTE_FLAGS v)"
  "flags_ok PTE_V" "flags_ok PTE_R" "flags_ok PTE_W" "flags_ok PTE_X" "flags_ok PTE_U"
  "flags_ok PTE_COW" "flags_ok 0"
  by (rule flags_okI; simp add: bit_PTE_FLAGS bit_PTE)+

lemma flags_ok_or [simp, pte_simps]: "flags_ok a \<Longrightarrow> flags_ok b \<Longrightarrow> flags_ok (a OR b)"
  by (rule flags_okI) (auto simp: bit_or_iff dest: flags_ok_bits)

lemma flags_ok_and [simp, pte_simps]: "flags_ok a \<Longrightarrow> flags_ok (a AND b)"
  by (rule flags_okI) (auto simp: bit_and_iff dest: flags_ok_bits)

lemma PTE2PA_make [simp, pte_simps]:
  assumes "page_aligned pa" and "flags_ok f"
  shows "PTE2PA (PA2PTE pa OR f) = pa"
proof (rule bit_word_eqI)
  fix n assume n: "n < LENGTH(64)"
  show "bit (PTE2PA (PA2PTE pa OR f)) n \<longleftrightarrow> bit pa n"
  proof (cases "n < 12")
    case True
    then show ?thesis using assms(1) by (simp add: bit_PTE2PA page_aligned_bits)
  next
    case False
    then have "n - 2 + 2 = n" by simp
    then show ?thesis using False n flags_ok_bits [OF assms(2), of "n - 2"]
      by (auto simp: bit_PTE2PA bit_PA2PTE bit_or_iff)
  qed
qed

lemma PTE_FLAGS_make [simp, pte_simps]:
  assumes "flags_ok f"
  shows "PTE_FLAGS (PA2PTE pa OR f) = f"
proof (rule bit_word_eqI)
  fix n
  show "bit (PTE_FLAGS (PA2PTE pa OR f)) n \<longleftrightarrow> bit f n"
    using assms flags_ok_bits [of f n] by (auto simp: bit_PTE_FLAGS bit_PA2PTE bit_or_iff)
qed

lemma bit_make_low:
  "n < 10 \<Longrightarrow> bit (PA2PTE pa OR f) n \<longleftrightarrow> bit f n"
  by (simp add: bit_PA2PTE bit_or_iff)

section \<open>Sv39 indices\<close>

lemma bit_PX: "bit (PX l va) n \<longleftrightarrow> n < 9 \<and> bit va (12 + 9 * l + n)"
  by (auto simp: PX_def PGSHIFT_def mask_9 bit_and_iff bit_mask_iff bit_drop_bit_eq ac_simps
      dest: bit_imp_le_length)

lemma PX_le: "PX l va \<le> 511"
  unfolding PX_def by (rule word_and_le1)

lemma PX_slot_less:
  assumes "k < 8"
  shows "PX l va * 8 + k < PGSIZE"
proof -
  have "unat (PX l va) \<le> 511" using PX_le [of l va] by (simp add: word_le_nat_alt)
  then show ?thesis using assms
    by (simp add: word_less_nat_alt PGSIZE_def unat_word_ariths)
qed

lemma PX_mult_inj:
  assumes "PX l va * 8 + i = PX l' va' * 8 + j" "i < 8" "j < 8"
  shows "PX l va = PX l' va' \<and> i = j"
proof -
  have b: "unat (PX l va) \<le> 511" "unat (PX l' va') \<le> 511"
    using PX_le [of l va] PX_le [of l' va'] by (simp_all add: word_le_nat_alt)
  have "unat (PX l va * 8 + i) = unat (PX l' va' * 8 + j)" using assms(1) by simp
  then have eq: "unat (PX l va) * 8 + unat i = unat (PX l' va') * 8 + unat j"
    using b assms(2,3) by (simp add: unat_word_ariths word_less_nat_alt)
  have "unat i < 8" "unat j < 8" using assms(2,3) by (simp_all add: word_less_nat_alt)
  with eq have "unat (PX l va) = unat (PX l' va')" "unat i = unat j" by presburger+
  then show ?thesis by (simp add: word_unat_eq_iff)
qed

text \<open>Below \<open>MAXVA\<close> the three indices identify the page of an address.\<close>

lemma PX_eq_page:
  assumes "va < MAXVA" "va' < MAXVA"
    and "PX 2 va = PX 2 va'" "PX 1 va = PX 1 va'" "PX 0 va = PX 0 va'"
  shows "PGROUNDDOWN va = PGROUNDDOWN va'"
proof (rule bit_word_eqI)
  fix n
  have hi: "\<not> bit va n" "\<not> bit va' n" if "38 \<le> n"
    using less_exp_not_bit [of va 38 n] less_exp_not_bit [of va' 38 n] assms(1,2) that
    by (simp_all add: MAXVA_def)
  have lvl: "bit va (12 + 9 * l + k) \<longleftrightarrow> bit va' (12 + 9 * l + k)" if "l \<le> 2" "k < 9" for l k
  proof -
    from that(1) consider "l = 0" | "l = 1" | "l = 2" by linarith
    then have "PX l va = PX l va'" using assms(3-5) by cases simp_all
    then have "bit (PX l va) k \<longleftrightarrow> bit (PX l va') k" by simp
    then show ?thesis using that(2) by (simp add: bit_PX)
  qed
  show "bit (PGROUNDDOWN va) n \<longleftrightarrow> bit (PGROUNDDOWN va') n"
  proof (cases "12 \<le> n \<and> n < 38")
    case True
    then have "n = 12 + 9 * ((n - 12) div 9) + (n - 12) mod 9" by presburger
    moreover from True have "(n - 12) div 9 \<le> 2" by presburger
    ultimately have "bit va n \<longleftrightarrow> bit va' n"
      using lvl [of "(n - 12) div 9" "(n - 12) mod 9"] by simp
    then show ?thesis by (simp add: bit_PGROUNDDOWN)
  next
    case False
    then show ?thesis using hi by (auto simp: bit_PGROUNDDOWN)
  qed
qed

lemma PX_PGROUNDDOWN [simp]: "PX l (PGROUNDDOWN va) = PX l va"
  by (rule bit_word_eqI) (auto simp: bit_PX bit_PGROUNDDOWN)

end
