(* ===== verification/CString.thy ===== *)
theory CString
  imports Riscv
begin

text \<open>
  The string and memory routines of \<^verbatim>\<open>kernel/string.c\<close>. \<^verbatim>\<open>memset\<close> and \<^verbatim>\<open>memmove\<close> act on physical
  memory. The comparing routines read a C string through its index function (\<open>cstr\<close>), so that
  they apply to memory and to kernel buffers alike; \<^verbatim>\<open>strncpy\<close> and \<^verbatim>\<open>safestrcpy\<close> write a buffer
  (a byte list of the buffer's length). The lemmas give each loop a closed form: a block fill,
  a simultaneous block copy also when the two ranges overlap, equality of bounded names.
\<close>

section \<open>Block operations on memory\<close>

function memset_loop :: "memory \<Rightarrow> u64 \<Rightarrow> u8 \<Rightarrow> nat \<Rightarrow> nat \<Rightarrow> memory" where
  "memset_loop m cdst c i n =
     (if i < n then memset_loop (m(cdst + of_nat i := c)) cdst c (Suc i) n else m)"
  by pat_completeness auto
termination
  by (relation "measure (\<lambda>(m, cdst, c, i, n). n - i)") auto

declare memset_loop.simps [simp del]

definition memset :: "memory \<Rightarrow> u64 \<Rightarrow> int \<Rightarrow> u32 \<Rightarrow> memory" where
  "memset m dst c n = memset_loop m dst (word_of_int c) 0 (unat n)"

fun copy_up :: "memory \<Rightarrow> u64 \<Rightarrow> u64 \<Rightarrow> nat \<Rightarrow> memory" where
  "copy_up m d s 0 = m"
| "copy_up m d s (Suc n) = copy_up (m(d := m s)) (d + 1) (s + 1) n"

fun copy_down :: "memory \<Rightarrow> u64 \<Rightarrow> u64 \<Rightarrow> nat \<Rightarrow> memory" where
  "copy_down m d s 0 = m"
| "copy_down m d s (Suc n) = copy_down (m(d - 1 := m (s - 1))) (d - 1) (s - 1) n"

definition memmove :: "memory \<Rightarrow> u64 \<Rightarrow> u64 \<Rightarrow> u32 \<Rightarrow> memory" where
  "memmove m dst src n =
     (if n = 0 then m
      else if src < dst \<and> src + ucast n > dst
      then copy_down m (dst + ucast n) (src + ucast n) (unat n)
      else copy_up m dst src (unat n))"

definition memcpy :: "memory \<Rightarrow> u64 \<Rightarrow> u64 \<Rightarrow> u32 \<Rightarrow> memory" where
  "memcpy m dst src n = memmove m dst src n"

section \<open>Comparison and length\<close>

type_synonym cstr = "nat \<Rightarrow> u8"

abbreviation at_addr :: "memory \<Rightarrow> u64 \<Rightarrow> cstr" where
  "at_addr m p \<equiv> \<lambda>i. m (p + of_nat i)"

definition of_buf :: "u8 list \<Rightarrow> cstr" where
  "of_buf bs i = (if i < length bs then bs ! i else 0)"

fun memcmp_loop :: "cstr \<Rightarrow> cstr \<Rightarrow> nat \<Rightarrow> nat \<Rightarrow> int" where
  "memcmp_loop s1 s2 i 0 = 0"
| "memcmp_loop s1 s2 i (Suc n) =
     (if s1 i \<noteq> s2 i then uint (s1 i) - uint (s2 i) else memcmp_loop s1 s2 (Suc i) n)"

definition memcmp :: "cstr \<Rightarrow> cstr \<Rightarrow> u32 \<Rightarrow> int" where
  "memcmp v1 v2 n = memcmp_loop v1 v2 0 (unat n)"

fun strncmp_loop :: "cstr \<Rightarrow> cstr \<Rightarrow> nat \<Rightarrow> nat \<Rightarrow> int" where
  "strncmp_loop p q i 0 = 0"
| "strncmp_loop p q i (Suc n) =
     (if p i \<noteq> 0 \<and> p i = q i then strncmp_loop p q (Suc i) n
      else uint (p i) - uint (q i))"

definition strncmp :: "cstr \<Rightarrow> cstr \<Rightarrow> u32 \<Rightarrow> int" where
  "strncmp p q n = strncmp_loop p q 0 (unat n)"

partial_function (option) strlen_loop :: "cstr \<Rightarrow> nat \<Rightarrow> nat option" where
  "strlen_loop s n = (if s n \<noteq> 0 then strlen_loop s (Suc n) else Some n)"

definition strlen :: "cstr \<Rightarrow> nat option" where
  "strlen s = strlen_loop s 0"

section \<open>Bounded copies into a buffer\<close>

fun strncpy_copy :: "u8 list \<Rightarrow> cstr \<Rightarrow> nat \<Rightarrow> nat \<Rightarrow> u8 list \<times> nat \<times> nat" where
  "strncpy_copy s t i 0 = (s, i, 0)"
| "strncpy_copy s t i (Suc n) =
     (if t i \<noteq> 0 then strncpy_copy (s[i := t i]) t (Suc i) n else (s[i := t i], Suc i, n))"

fun strncpy_pad :: "u8 list \<Rightarrow> nat \<Rightarrow> nat \<Rightarrow> u8 list" where
  "strncpy_pad s i 0 = s"
| "strncpy_pad s i (Suc n) = strncpy_pad (s[i := 0]) (Suc i) n"

definition strncpy :: "u8 list \<Rightarrow> cstr \<Rightarrow> int \<Rightarrow> u8 list" where
  "strncpy s t n =
     (case strncpy_copy s t 0 (nat n) of (s', i, left) \<Rightarrow> strncpy_pad s' i left)"

fun safestrcpy_loop :: "u8 list \<Rightarrow> cstr \<Rightarrow> nat \<Rightarrow> nat \<Rightarrow> u8 list" where
  "safestrcpy_loop s t i 0 = s[i := 0]"
| "safestrcpy_loop s t i (Suc n) =
     (if t i \<noteq> 0 then safestrcpy_loop (s[i := t i]) t (Suc i) n
      else (s[i := t i])[Suc i := 0])"

definition safestrcpy :: "u8 list \<Rightarrow> cstr \<Rightarrow> int \<Rightarrow> u8 list" where
  "safestrcpy s t n = (if n \<le> 0 then s else safestrcpy_loop s t 0 (nat n - 1))"

section \<open>Closed forms of the block operations\<close>

lemma memset_loop_eq:
  assumes "n \<le> 2 ^ 32" and "i \<le> n"
  shows "memset_loop m d c i n = (\<lambda>x. if i \<le> unat (x - d) \<and> unat (x - d) < n then c else m x)"
  using assms
proof (induction m d c i n rule: memset_loop.induct)
  case (1 m d c i n)
  show ?case
  proof (cases "i < n")
    case True
    have eq: "x = d + of_nat i \<longleftrightarrow> unat (x - d) = i" for x
      using True "1.prems"(1) by (intro eq_plus_of_nat_iff) simp
    have step: "memset_loop m d c i n =
        (\<lambda>x. if Suc i \<le> unat (x - d) \<and> unat (x - d) < n then c else (m(d + of_nat i := c)) x)"
    proof -
      have "memset_loop m d c i n = memset_loop (m(d + of_nat i := c)) d c (Suc i) n"
        using True by (subst memset_loop.simps) simp
      then show ?thesis using "1.IH" [OF True "1.prems"(1)] True by simp
    qed
    have "memset_loop m d c i n x =
        (if i \<le> unat (x - d) \<and> unat (x - d) < n then c else m x)" for x
      unfolding step using True eq [of x] by (auto simp: Suc_le_eq)
    then show ?thesis by blast
  next
    case False
    then show ?thesis using "1.prems" by (subst memset_loop.simps) (auto simp: fun_eq_iff)
  qed
qed

lemma unat_u32_le: "unat (n :: u32) \<le> 2 ^ 32"
  using unsigned_less [of n, where ?'a = nat] by simp

lemma unat_ucast_u32 [simp]: "unat (ucast (n :: u32) :: u64) = unat n"
  by (simp add: unsigned_ucast_eq take_bit_nat_eq_self less_le_trans [OF unsigned_less])

lemma memset_eq:
  "memset m d c n = (\<lambda>x. if x - d < ucast n then word_of_int c else m x)"
  by (rule ext) (simp add: memset_def memset_loop_eq [OF unat_u32_le] word_less_nat_alt)

lemma copy_up_eq:
  assumes "n \<le> 2 ^ 32"
    and "\<And>i j. j < i \<Longrightarrow> i < n \<Longrightarrow> d + of_nat j \<noteq> s + of_nat i"
  shows "copy_up m d s n = (\<lambda>x. if unat (x - d) < n then m (s + (x - d)) else m x)"
  using assms
proof (induction n arbitrary: m d s)
  case 0
  then show ?case by simp
next
  case (Suc n)
  have IH: "copy_up (m(d := m s)) (d + 1) (s + 1) n =
      (\<lambda>x. if unat (x - (d + 1)) < n then (m(d := m s)) (s + 1 + (x - (d + 1)))
           else (m(d := m s)) x)"
  proof (rule Suc.IH)
    show "n \<le> 2 ^ 32" using Suc.prems(1) by simp
    show "d + 1 + of_nat j \<noteq> s + 1 + of_nat i" if "j < i" "i < n" for i j
      using Suc.prems(2) [of "Suc j" "Suc i"] that by (simp add: ac_simps)
  qed
  have "copy_up m d s (Suc n) x = (if unat (x - d) < Suc n then m (s + (x - d)) else m x)" for x
  proof (cases "x = d")
    case True
    have "unat (- 1 :: u64) = 2 ^ 64 - 1" by (simp add: unsigned_minus_1_eq_mask mask_eq_exp_minus_1)
    then show ?thesis using True IH Suc.prems(1) by simp
  next
    case False
    then have pos: "unat (x - d) \<noteq> 0" by (simp add: unat_eq_0)
    have un: "unat (x - (d + 1)) = unat (x - d) - 1"
    proof -
      have "x - d \<noteq> 0" using False by simp
      then have "unat (x - d - 1) = unat (x - d) - 1" by (rule unat_minus_one)
      then show ?thesis by (simp add: algebra_simps)
    qed
    have addr: "s + 1 + (x - (d + 1)) = s + (x - d)" by simp
    have neq: "s + (x - d) \<noteq> d" if "unat (x - d) < Suc n"
      using Suc.prems(2) [of 0 "unat (x - d)"] that pos by auto
    show ?thesis using False pos neq unfolding copy_up.simps IH un addr by auto
  qed
  then show ?case by blast
qed

lemma copy_down_eq:
  assumes "n \<le> 2 ^ 32"
    and "\<And>i j. i < j \<Longrightarrow> j < n \<Longrightarrow> d + of_nat j \<noteq> s + of_nat i"
  shows "copy_down m (d + of_nat n) (s + of_nat n) n =
    (\<lambda>x. if unat (x - d) < n then m (s + (x - d)) else m x)"
  using assms
proof (induction n arbitrary: m)
  case 0
  then show ?case by simp
next
  case (Suc n)
  let ?m = "m(d + of_nat n := m (s + of_nat n))"
  have step: "copy_down m (d + of_nat (Suc n)) (s + of_nat (Suc n)) (Suc n) =
      copy_down ?m (d + of_nat n) (s + of_nat n) n"
    by (simp add: algebra_simps)
  have IH: "copy_down ?m (d + of_nat n) (s + of_nat n) n =
      (\<lambda>x. if unat (x - d) < n then ?m (s + (x - d)) else ?m x)"
    by (rule Suc.IH) (use Suc.prems in auto)
  have "copy_down ?m (d + of_nat n) (s + of_nat n) n x =
      (if unat (x - d) < Suc n then m (s + (x - d)) else m x)" for x
  proof -
    have eq: "x = d + of_nat n \<longleftrightarrow> unat (x - d) = n"
      using Suc.prems(1) by (intro eq_plus_of_nat_iff) simp
    have neq: "s + (x - d) \<noteq> d + of_nat n" if "unat (x - d) < n"
      using Suc.prems(2) [of "unat (x - d)" n] that by auto
    show ?thesis unfolding IH using eq neq by auto
  qed
  then show ?case unfolding step by blast
qed

lemma unat_plus_nowrap:
  assumes "unat a + n \<le> 2 ^ 64" and "k < n"
  shows "unat (a + of_nat k :: u64) = unat a + k"
  using assms by (simp add: unat_word_ariths)

theorem memmove_eq:
  assumes src: "unat src + unat n \<le> 2 ^ 64" and dst: "unat dst + unat n \<le> 2 ^ 64"
  shows "memmove m dst src n = (\<lambda>x. if x - dst < ucast n then m (src + (x - dst)) else m x)"
proof -
  have n: "unat n \<le> 2 ^ 32" by (rule unat_u32_le)
  have nn: "(of_nat (unat n) :: u64) = ucast n" by (simp add: word_unat_eq_iff)
  have goal: "(\<lambda>x. if unat (x - dst) < unat n then m (src + (x - dst)) else m x) =
      (\<lambda>x. if x - dst < ucast n then m (src + (x - dst)) else m x)"
    by (simp add: word_less_nat_alt)
  have eqD: "unat dst + j = unat src + i"
    if "j < unat n" "i < unat n" "dst + of_nat j = src + of_nat i" for i j
    using that unat_plus_nowrap [OF src] unat_plus_nowrap [OF dst] by metis
  consider "n = 0" | "n \<noteq> 0" "src < dst" "src + ucast n > dst" | "n \<noteq> 0" "\<not> (src < dst \<and> src + ucast n > dst)"
    by blast
  then show ?thesis
  proof cases
    case 1
    then show ?thesis by (simp add: memmove_def)
  next
    case 2
    have "copy_down m (dst + ucast n) (src + ucast n) (unat n) =
        (\<lambda>x. if unat (x - dst) < unat n then m (src + (x - dst)) else m x)"
      unfolding nn [symmetric]
    proof (rule copy_down_eq [OF n])
      show "dst + of_nat j \<noteq> src + of_nat i" if "i < j" "j < unat n" for i j
        using eqD [of j i] that 2(2) by (auto simp: word_less_nat_alt)
    qed
    then show ?thesis using 2 goal by (simp add: memmove_def)
  next
    case 3
    have disj: "unat dst \<le> unat src \<or> unat src + unat n \<le> unat dst"
    proof (rule ccontr)
      assume "\<not> ?thesis"
      then have a: "unat src < unat dst" "unat dst < unat src + unat n" by auto
      have "src + ucast n \<le> dst" using 3(2) a(1) by (auto simp: word_less_nat_alt word_le_nat_alt)
      moreover have "unat (src + ucast n) = unat src + unat n"
      proof -
        have "unat src + unat n < 2 ^ 64"
        proof (rule ccontr)
          assume "\<not> ?thesis"
          then have "unat src + unat n = 2 ^ 64" using src by simp
          then show False using dst a(1) by simp
        qed
        then show ?thesis by (simp add: unat_word_ariths)
      qed
      ultimately show False using a(2) by (simp add: word_le_nat_alt)
    qed
    have "copy_up m dst src (unat n) =
        (\<lambda>x. if unat (x - dst) < unat n then m (src + (x - dst)) else m x)"
    proof (rule copy_up_eq [OF n])
      show "dst + of_nat j \<noteq> src + of_nat i" if "j < i" "i < unat n" for i j
        using eqD [of j i] that disj by auto
    qed
    then show ?thesis using 3 goal by (auto simp: memmove_def)
  qed
qed

section \<open>Strings\<close>

text \<open>The name a bounded C string denotes: its bytes up to the first NUL or the bound.\<close>

definition cname :: "cstr \<Rightarrow> nat \<Rightarrow> u8 list" where
  "cname p n = takeWhile (\<lambda>c. c \<noteq> 0) (map p [0..<n])"

lemma cname_step:
  "takeWhile (\<lambda>c. c \<noteq> 0) (map p [i..<i + Suc n]) =
     (if p i \<noteq> 0 then p i # takeWhile (\<lambda>c. c \<noteq> 0) (map p [Suc i..<Suc i + n]) else [])"
  for p :: cstr
  by (simp add: upt_conv_Cons del: upt_Suc)

lemma strncmp_loop_0_iff:
  "strncmp_loop p q i n = 0 \<longleftrightarrow>
     takeWhile (\<lambda>c. c \<noteq> 0) (map p [i..<i + n]) = takeWhile (\<lambda>c. c \<noteq> 0) (map q [i..<i + n])"
proof (induction n arbitrary: i)
  case 0
  then show ?case by simp
next
  case (Suc n)
  have "uint (p i) - uint (q i) = 0 \<longleftrightarrow> p i = q i" by (simp add: word_uint_eq_iff)
  then show ?case using Suc [of "Suc i"] unfolding cname_step by auto
qed

theorem strncmp_0_iff: "strncmp p q n = 0 \<longleftrightarrow> cname p (unat n) = cname q (unat n)"
  using strncmp_loop_0_iff [of p q 0] by (simp add: strncmp_def cname_def)

lemma memcmp_loop_0_iff:
  "memcmp_loop p q i n = 0 \<longleftrightarrow> map p [i..<i + n] = map q [i..<i + n]"
proof (induction n arbitrary: i)
  case 0
  then show ?case by simp
next
  case (Suc n)
  have "uint (p i) - uint (q i) = 0 \<longleftrightarrow> p i = q i" by (simp add: word_uint_eq_iff)
  then show ?case using Suc [of "Suc i"] by (auto simp: upt_conv_Cons simp del: upt_Suc)
qed

lemma strlen_loop_Some:
  assumes "n \<le> k" "s k = 0" "\<And>j. n \<le> j \<Longrightarrow> j < k \<Longrightarrow> s j \<noteq> 0"
  shows "strlen_loop s n = Some k"
  using assms
proof (induction "k - n" arbitrary: n)
  case 0
  then show ?case by (simp add: strlen_loop.simps)
next
  case (Suc d)
  then have "n < k" by simp
  then have "strlen_loop s (Suc n) = Some k" using Suc by (intro Suc.hyps) auto
  then show ?case using Suc.prems(3) [of n] \<open>n < k\<close> by (simp add: strlen_loop.simps)
qed

lemma strlen_Some: "s k = 0 \<Longrightarrow> (\<And>j. j < k \<Longrightarrow> s j \<noteq> 0) \<Longrightarrow> strlen s = Some k"
  unfolding strlen_def by (rule strlen_loop_Some) auto

lemma strncpy_pad_eq:
  "i + n \<le> length s \<Longrightarrow> strncpy_pad s i n = take i s @ replicate n 0 @ drop (i + n) s"
proof (induction n arbitrary: s i)
  case 0
  then show ?case by simp
next
  case (Suc n)
  then have "strncpy_pad (s[i := 0]) (Suc i) n =
      take (Suc i) (s[i := 0]) @ replicate n 0 @ drop (Suc i + n) (s[i := 0])"
    by (intro Suc.IH) simp
  then show ?case using Suc.prems by (simp add: take_Suc_conv_app_nth drop_update_cancel)
qed

lemma strncpy_copy_pad:
  assumes "i + n \<le> length s"
  shows "(case strncpy_copy s t i n of (s', j, left) \<Rightarrow> strncpy_pad s' j left) =
    (let w = takeWhile (\<lambda>c. c \<noteq> 0) (map t [i..<i + n])
     in take i s @ w @ replicate (n - length w) 0 @ drop (i + n) s)"
  using assms
proof (induction n arbitrary: s i)
  case 0
  then show ?case by simp
next
  case (Suc n)
  show ?case
  proof (cases "t i = 0")
    case True
    then show ?thesis using Suc.prems
      unfolding cname_step
      by (simp add: strncpy_pad_eq take_Suc_conv_app_nth drop_update_cancel)
  next
    case False
    have "(case strncpy_copy (s[i := t i]) t (Suc i) n of (s', j, left) \<Rightarrow> strncpy_pad s' j left) =
        (let w = takeWhile (\<lambda>c. c \<noteq> 0) (map t [Suc i..<Suc i + n])
         in take (Suc i) (s[i := t i]) @ w @ replicate (n - length w) 0 @ drop (Suc i + n) (s[i := t i]))"
      using Suc.prems by (intro Suc.IH) simp
    then show ?thesis using False Suc.prems
      unfolding cname_step
      by (simp add: Let_def take_Suc_conv_app_nth drop_update_cancel)
  qed
qed

theorem strncpy_eq:
  assumes "0 \<le> n" "nat n \<le> length s"
  shows "strncpy s t n =
    cname t (nat n) @ replicate (nat n - length (cname t (nat n))) 0 @ drop (nat n) s"
  using strncpy_copy_pad [of 0 "nat n" s t] assms by (simp add: strncpy_def cname_def Let_def)

lemma safestrcpy_loop_eq:
  assumes "i + n < length s" and "\<And>j. j < i \<Longrightarrow> s ! j \<noteq> 0"
  shows "takeWhile (\<lambda>c. c \<noteq> 0) (safestrcpy_loop s t i n) =
    take i s @ takeWhile (\<lambda>c. c \<noteq> 0) (map t [i..<i + n])"
  using assms
proof (induction n arbitrary: s i)
  case 0
  then have "s[i := 0] = take i s @ 0 # drop (Suc i) s" by (simp add: upd_conv_take_nth_drop)
  moreover have "\<forall>c \<in> set (take i s). c \<noteq> 0" using 0 by (auto simp: in_set_conv_nth)
  ultimately show ?case by (simp add: takeWhile_append2)
next
  case (Suc n)
  show ?case
  proof (cases "t i = 0")
    case True
    have "(s[i := 0])[Suc i := 0] = take i s @ 0 # (drop (Suc i) (s[Suc i := 0]))"
      using Suc.prems(1) by (simp add: list_update_swap upd_conv_take_nth_drop take_update_cancel)
    moreover have "\<forall>c \<in> set (take i s). c \<noteq> 0" using Suc.prems by (auto simp: in_set_conv_nth)
    ultimately show ?thesis using True unfolding cname_step by (simp add: takeWhile_append2)
  next
    case False
    have "takeWhile (\<lambda>c. c \<noteq> 0) (safestrcpy_loop (s[i := t i]) t (Suc i) n) =
        take (Suc i) (s[i := t i]) @ takeWhile (\<lambda>c. c \<noteq> 0) (map t [Suc i..<Suc i + n])"
      using Suc.prems False by (intro Suc.IH) (auto simp: nth_list_update less_Suc_eq)
    then show ?thesis using False Suc.prems(1)
      unfolding cname_step by (simp add: take_Suc_conv_app_nth)
  qed
qed

theorem safestrcpy_terminates:
  assumes "0 < n" "nat n \<le> length s"
  shows "takeWhile (\<lambda>c. c \<noteq> 0) (safestrcpy s t n) = cname t (nat n - 1)"
  using safestrcpy_loop_eq [of 0 "nat n - 1" s t] assms by (simp add: safestrcpy_def cname_def)

lemma length_safestrcpy_loop [simp]: "length (safestrcpy_loop s t i n) = length s"
  by (induction n arbitrary: s i) auto

lemma length_safestrcpy [simp]: "length (safestrcpy s t n) = length s"
  by (simp add: safestrcpy_def)

end
