(* ===== verification/Kalloc.thy ===== *)
theory Kalloc
  imports CString
begin

text \<open>
  The physical page allocator of \<^verbatim>\<open>kernel/kalloc.c\<close> with its reference counts. The free list is
  threaded through the free pages themselves, so it lives in physical memory; \<open>flist\<close> relates it
  to the list of its pages. The lemmas show that \<^verbatim>\<open>kalloc\<close> pops and \<^verbatim>\<open>kfree\<close> pushes, that \<^verbatim>\<open>kinit\<close>
  builds the list of all pages between the kernel and \<^verbatim>\<open>PHYSTOP\<close>, and that neither touches memory
  outside the page concerned. The contract a client of the allocator relies on is the locale
  \<open>page_allocator\<close>, interpreted here for \<^verbatim>\<open>kalloc\<close>.
\<close>

section \<open>State and operations\<close>

text \<open>
  \<open>mem\<close> is physical memory, \<open>end_addr\<close> the linker symbol \<^verbatim>\<open>end\<close> (first address after the kernel).
  \<^verbatim>\<open>refcnt\<close> holds C \<^verbatim>\<open>int\<close>s; an overflow would need more references to one page than page-table
  entries fit in memory, so unbounded integers are faithful. Further kernel state extends this
  record.
\<close>

record kmem =
  mem :: memory
  refcnt :: "nat \<Rightarrow> int"
  freelist :: u64
  end_addr :: u64

definition PHYPAGES :: nat where
  "PHYPAGES = unat (PHYSTOP div PGSIZE)"

text \<open>The lab the tree is configured for in \<^verbatim>\<open>conf/lab.mk\<close> (\<^verbatim>\<open>LAB=syscall\<close>), which the Makefile turns
  into \<^verbatim>\<open>-DLAB_SYSCALL\<close>.\<close>

definition LAB_SYSCALL :: bool where
  "LAB_SYSCALL = True"

definition page_index :: "u64 \<Rightarrow> nat" where
  "page_index pa = unat (drop_bit PGSHIFT pa)"

definition kfree :: "u64 \<Rightarrow> 'a kmem_scheme \<Rightarrow> ('a kmem_scheme, unit) res" where
  "kfree pa s =
     (if pa mod PGSIZE \<noteq> 0 \<or> pa < end_addr s \<or> pa \<ge> PHYSTOP then Panic ''kfree''
      else
        let index = page_index pa;
            s = s\<lparr>refcnt := (refcnt s)(index := refcnt s index - 1)\<rparr>
        in if refcnt s index > 0 then Ok () s
           else
             let s = (if LAB_SYSCALL then s else s\<lparr>mem := memset (mem s) pa 1 4096\<rparr>);
                 s = s\<lparr>mem := st64 (mem s) pa (freelist s)\<rparr>
             in Ok () (s\<lparr>freelist := pa\<rparr>))"

definition kalloc :: "'a kmem_scheme \<Rightarrow> u64 \<times> 'a kmem_scheme" where
  "kalloc s =
     (let r = freelist s;
          s = (if r \<noteq> 0
               then s\<lparr>freelist := ld64 (mem s) r, refcnt := (refcnt s)(page_index r := 1)\<rparr>
               else s);
          s = (if \<not> LAB_SYSCALL \<and> r \<noteq> 0 then s\<lparr>mem := memset (mem s) r 5 4096\<rparr> else s)
      in (r, s))"

definition incref :: "u64 \<Rightarrow> 'a kmem_scheme \<Rightarrow> ('a kmem_scheme, unit) res" where
  "incref pa s =
     (let index = page_index pa
      in if index < PHYPAGES
         then Ok () (s\<lparr>refcnt := (refcnt s)(index := refcnt s index + 1)\<rparr>)
         else Fault ''incref: index'')"

definition decref :: "u64 \<Rightarrow> 'a kmem_scheme \<Rightarrow> ('a kmem_scheme, unit) res" where
  "decref pa s = kfree pa s"

definition refcount :: "u64 \<Rightarrow> 'a kmem_scheme \<Rightarrow> ('a kmem_scheme, int) res" where
  "refcount pa s =
     (let index = page_index pa
      in if index < PHYPAGES then Ok (refcnt s index) s else Fault ''refcount: index'')"

function freerange_loop :: "u64 \<Rightarrow> u64 \<Rightarrow> 'a kmem_scheme \<Rightarrow> ('a kmem_scheme, unit) res" where
  "freerange_loop p pa_end s =
     (if p + PGSIZE < p then Fault ''freerange: pointer overflow''
      else if p + PGSIZE \<le> pa_end
      then andthen (kfree p s) (\<lambda>_. freerange_loop (p + PGSIZE) pa_end)
      else Ok () s)"
  by pat_completeness auto
termination
proof (relation "measure (\<lambda>(p, pa_end, s). 2 ^ 64 - unat p)")
  fix p pa_end :: u64 and s x and sa :: "'a kmem_scheme"
  assume "\<not> p + PGSIZE < p"
  then have "unat p < unat (p + PGSIZE)" using next_page_less by (simp add: word_less_nat_alt)
  moreover have "unat (p + PGSIZE) < 2 ^ 64" using unsigned_less [of "p + PGSIZE", where ?'a = nat] by simp
  ultimately show "((p + PGSIZE, pa_end, sa), p, pa_end, s) \<in> measure (\<lambda>(p, pa_end, s). 2 ^ 64 - unat p)"
    by simp
qed simp

declare freerange_loop.simps [simp del]

definition freerange :: "u64 \<Rightarrow> u64 \<Rightarrow> 'a kmem_scheme \<Rightarrow> ('a kmem_scheme, unit) res" where
  "freerange pa_start pa_end s = freerange_loop (PGROUNDUP pa_start) pa_end s"

definition kinit :: "'a kmem_scheme \<Rightarrow> ('a kmem_scheme, unit) res" where
  "kinit s =
     freerange (end_addr s) PHYSTOP
       (s\<lparr>refcnt := (\<lambda>i. if i < PHYPAGES then 0 else refcnt s i)\<rparr>)"

section \<open>Memory page by page\<close>

lemma in_page_slot:
  assumes "page_aligned p" "k \<le> PGSIZE - 8" "x - (p + k) < 8"
  shows "PGROUNDDOWN x = p"
proof -
  obtain j where j: "x - (p + k) = j" "j < 8" using assms(3) by blast
  have "k + j < PGSIZE"
    using assms(2) j(2) by (simp add: PGSIZE_def word_le_nat_alt word_less_nat_alt unat_word_ariths)
  moreover have "x = p + (k + j)" using j(1) by (simp add: algebra_simps)
  ultimately show ?thesis using assms(1) by simp
qed

lemma st64_other_page [mem_simps]:
  assumes "page_aligned p" "k \<le> PGSIZE - 8" "PGROUNDDOWN x \<noteq> p"
  shows "st64 m (p + k) v x = m x"
  using in_page_slot [OF assms(1,2)] assms(3) by (auto simp: st64_def)

lemma page_diff_less:
  assumes "page_aligned p"
  shows "x - p < PGSIZE \<longleftrightarrow> PGROUNDDOWN x = p"
proof
  assume "x - p < PGSIZE"
  then show "PGROUNDDOWN x = p" using PGROUNDDOWN_add [of p "x - p"] assms by simp
next
  assume "PGROUNDDOWN x = p"
  then show "x - p < PGSIZE" using page_offset_less [of x] by simp
qed

lemma memset_page [mem_simps]:
  assumes "page_aligned p"
  shows "memset m p c 4096 x = (if PGROUNDDOWN x = p then word_of_int c else m x)"
  using page_diff_less [OF assms, of x] by (simp add: memset_eq PGSIZE_def)

lemma ld64_page_cong:
  assumes "page_aligned p" "k \<le> PGSIZE - 8" "\<And>x. PGROUNDDOWN x = p \<Longrightarrow> m x = m' x"
  shows "ld64 m (p + k) = ld64 m' (p + k)"
proof (rule ld64_cong)
  fix i :: u64 assume "i < 8"
  then have "PGROUNDDOWN (p + k + i) = p"
    using in_page_slot [OF assms(1,2), of "p + k + i"] by simp
  then show "m (p + k + i) = m' (p + k + i)" by (rule assms(3))
qed

lemma ld64_page_cong0:
  assumes "page_aligned p" "\<And>x. PGROUNDDOWN x = p \<Longrightarrow> m x = m' x"
  shows "ld64 m p = ld64 m' p"
  using ld64_page_cong [of p 0 m m'] assms by (simp add: PGSIZE_def)

lemma ld64_memset_zero [mem_simps]:
  assumes "page_aligned p" "k \<le> PGSIZE - 8"
  shows "ld64 (memset m p 0 4096) (p + k) = 0"
proof (rule ld64_const_zero)
  fix i :: u64 assume "i < 8"
  then have "PGROUNDDOWN (p + k + i) = p"
    using in_page_slot [OF assms, of "p + k + i"] by simp
  then show "memset m p 0 4096 (p + k + i) = 0" using assms(1) by (simp add: memset_page)
qed

section \<open>The free list\<close>

fun flist :: "memory \<Rightarrow> u64 \<Rightarrow> u64 list \<Rightarrow> bool" where
  "flist m p [] \<longleftrightarrow> p = 0"
| "flist m p (q # qs) \<longleftrightarrow> p = q \<and> q \<noteq> 0 \<and> flist m (ld64 m q) qs"

definition page_ok :: "'a kmem_scheme \<Rightarrow> u64 \<Rightarrow> bool" where
  "page_ok s p \<longleftrightarrow> page_aligned p \<and> end_addr s \<le> p \<and> p < PHYSTOP"

text \<open>\<open>kinv s ps\<close>: the allocator is in a good state and \<open>ps\<close> is its free list.\<close>

definition kinv :: "'a kmem_scheme \<Rightarrow> u64 list \<Rightarrow> bool" where
  "kinv s ps \<longleftrightarrow>
     0 < end_addr s \<and> flist (mem s) (freelist s) ps \<and> distinct ps \<and>
     (\<forall>p \<in> set ps. page_ok s p \<and> refcnt s (page_index p) \<le> 0)"

lemma flist_cong:
  assumes "\<And>p x. p \<in> set ps \<Longrightarrow> page_aligned p"
    and "\<And>x. PGROUNDDOWN x \<in> set ps \<Longrightarrow> m x = m' x"
  shows "flist m q ps \<longleftrightarrow> flist m' q ps"
  using assms
proof (induction ps arbitrary: q)
  case Nil
  then show ?case by simp
next
  case (Cons p ps)
  have "ld64 m p = ld64 m' p"
    by (rule ld64_page_cong0) (use Cons.prems in auto)
  moreover have "flist m (ld64 m' p) ps \<longleftrightarrow> flist m' (ld64 m' p) ps"
    by (rule Cons.IH) (use Cons.prems in auto)
  ultimately show ?case by simp
qed

lemma flist_unique: "flist m q ps \<Longrightarrow> flist m q ps' \<Longrightarrow> ps = ps'"
proof (induction ps arbitrary: q ps')
  case Nil
  then show ?case by (cases ps') auto
next
  case (Cons p ps)
  then show ?case by (cases ps') auto
qed

lemma kinv_nonzero: "kinv s ps \<Longrightarrow> p \<in> set ps \<Longrightarrow> p \<noteq> 0"
  by (auto simp: kinv_def page_ok_def)

lemma page_ok_nonzero: "0 < end_addr s \<Longrightarrow> page_ok s p \<Longrightarrow> p \<noteq> 0"
  by (auto simp: page_ok_def)

text \<open>Distinct pages have distinct indices into \<^verbatim>\<open>refcnt\<close>, all below \<^verbatim>\<open>PHYPAGES\<close>.\<close>

lemma page_index_inj:
  assumes "page_aligned p" "page_aligned q" "page_index p = page_index q"
  shows "p = q"
proof (rule bit_word_eqI)
  fix n assume n: "n < LENGTH(64)"
  have eq: "drop_bit 12 p = drop_bit 12 q"
    using assms(3) by (simp add: page_index_def PGSHIFT_def word_unat_eq_iff)
  show "bit p n \<longleftrightarrow> bit q n"
  proof (cases "n < 12")
    case True
    then show ?thesis using assms(1,2) by (simp add: page_aligned_bits)
  next
    case False
    then have "bit (drop_bit 12 p) (n - 12) \<longleftrightarrow> bit (drop_bit 12 q) (n - 12)" using eq by simp
    then show ?thesis using False by (simp add: bit_drop_bit_eq)
  qed
qed

lemma page_index_less: "p < PHYSTOP \<Longrightarrow> page_index p < PHYPAGES"
  by (simp add: page_index_def PHYPAGES_def PGSHIFT_def layout_defs word_less_nat_alt
      unat_drop_bit_eq drop_bit_eq_div unat_div_distrib less_mult_imp_div_less)

section \<open>Allocation\<close>

lemma kalloc_Nil: "kinv s [] \<Longrightarrow> kalloc s = (0, s)"
  by (simp add: kinv_def kalloc_def)

lemma kalloc_fst: "fst (kalloc s) = freelist s"
  by (simp add: kalloc_def Let_def)

lemma kalloc_fields [simp]:
  "end_addr (snd (kalloc s)) = end_addr s"
  "kmem.more (snd (kalloc s)) = kmem.more s"
  by (simp_all add: kalloc_def Let_def)

lemma kalloc_mem:
  assumes "page_aligned (freelist s)" "PGROUNDDOWN x \<noteq> freelist s"
  shows "mem (snd (kalloc s)) x = mem s x"
  using assms by (simp add: kalloc_def Let_def memset_page)

lemma kalloc_refcnt:
  "refcnt (snd (kalloc s)) =
     (if freelist s \<noteq> 0 then (refcnt s)(page_index (freelist s) := 1) else refcnt s)"
  by (simp add: kalloc_def Let_def)

lemma kalloc_Cons:
  assumes "kinv s (p # ps)"
  shows "fst (kalloc s) = p" and "kinv (snd (kalloc s)) ps"
    and "refcnt (snd (kalloc s)) = (refcnt s)(page_index p := 1)"
    and "\<And>x. PGROUNDDOWN x \<noteq> p \<Longrightarrow> mem (snd (kalloc s)) x = mem s x"
proof -
  from assms have fl: "freelist s = p" and nz: "p \<noteq> 0" and al: "page_aligned p"
    and rest: "flist (mem s) (ld64 (mem s) p) ps"
    and other: "\<And>q. q \<in> set ps \<Longrightarrow> page_ok s q \<and> refcnt s (page_index q) \<le> 0"
    and dist: "p \<notin> set ps" "distinct ps"
    by (auto simp: kinv_def page_ok_def)
  show "fst (kalloc s) = p" using fl by (simp add: kalloc_fst)
  show ref: "refcnt (snd (kalloc s)) = (refcnt s)(page_index p := 1)"
    using fl nz by (simp add: kalloc_refcnt)
  show mem: "mem (snd (kalloc s)) x = mem s x" if "PGROUNDDOWN x \<noteq> p" for x
    using kalloc_mem [of s x] that fl al by simp
  have aligned: "page_aligned q" if "q \<in> set ps" for q
    using other [OF that] by (simp add: page_ok_def)
  have neq: "page_index q \<noteq> page_index p" if "q \<in> set ps" for q
    using page_index_inj [OF aligned [OF that] al] that dist(1) by auto
  have next_list: "freelist (snd (kalloc s)) = ld64 (mem s) p"
    using fl nz by (simp add: kalloc_def Let_def)
  have "flist (mem (snd (kalloc s))) (ld64 (mem s) p) ps"
    using rest flist_cong [of ps "mem (snd (kalloc s))" "mem s"] aligned mem dist(1) by metis
  then show "kinv (snd (kalloc s)) ps"
    using assms other dist neq next_list ref
    by (auto simp: kinv_def page_ok_def)
qed

section \<open>Freeing\<close>

lemma kfree_panics: "\<not> page_ok s p \<Longrightarrow> kfree p s = Panic ''kfree''"
  by (auto simp: kfree_def page_ok_def)

text \<open>While other references remain, \<^verbatim>\<open>kfree\<close> only drops the count.\<close>

lemma kfree_shared:
  assumes "page_ok s p" "refcnt s (page_index p) > 1"
  shows "kfree p s = Ok () (s\<lparr>refcnt := (refcnt s)(page_index p := refcnt s (page_index p) - 1)\<rparr>)"
  using assms by (simp add: kfree_def page_ok_def Let_def not_less not_le)

lemma kfree_last:
  assumes "page_ok s p" "refcnt s (page_index p) \<le> 1"
  shows "\<exists>s'. kfree p s = Ok () s' \<and> freelist s' = p \<and> ld64 (mem s') p = freelist s \<and>
    end_addr s' = end_addr s \<and> kmem.more s' = kmem.more s \<and>
    refcnt s' = (refcnt s)(page_index p := refcnt s (page_index p) - 1) \<and>
    (\<forall>x. PGROUNDDOWN x \<noteq> p \<longrightarrow> mem s' x = mem s x)"
proof -
  have al: "page_aligned p" using assms(1) by (simp add: page_ok_def)
  have st: "st64 m p v x = m x" if "PGROUNDDOWN x \<noteq> p" for m v x
    using st64_other_page [of p 0 x m v] al that by (simp add: PGSIZE_def)
  show ?thesis
    using assms al by (auto simp: kfree_def page_ok_def Let_def not_less not_le st memset_page)
qed

lemma kfree_push:
  assumes "kinv s ps" "page_ok s p" "p \<notin> set ps" "refcnt s (page_index p) \<le> 1"
  shows "\<exists>s'. kfree p s = Ok () s' \<and> kinv s' (p # ps) \<and> end_addr s' = end_addr s \<and>
    kmem.more s' = kmem.more s \<and>
    refcnt s' = (refcnt s)(page_index p := refcnt s (page_index p) - 1) \<and>
    (\<forall>x. PGROUNDDOWN x \<noteq> p \<longrightarrow> mem s' x = mem s x)"
proof -
  obtain s' where s': "kfree p s = Ok () s'" "freelist s' = p" "ld64 (mem s') p = freelist s"
    "end_addr s' = end_addr s" "kmem.more s' = kmem.more s"
    "refcnt s' = (refcnt s)(page_index p := refcnt s (page_index p) - 1)"
    "\<And>x. PGROUNDDOWN x \<noteq> p \<Longrightarrow> mem s' x = mem s x"
    using kfree_last [OF assms(2,4)] by blast
  have aligned: "page_aligned q" if "q \<in> set ps" for q
    using assms(1) that by (auto simp: kinv_def page_ok_def)
  have al: "page_aligned p" using assms(2) by (simp add: page_ok_def)
  have neq: "page_index q \<noteq> page_index p" if "q \<in> set ps" for q
    using page_index_inj [OF aligned [OF that] al] that assms(3) by auto
  have "flist (mem s') (freelist s) ps \<longleftrightarrow> flist (mem s) (freelist s) ps"
    by (rule flist_cong) (use aligned s'(7) assms(3) in metis)+
  then have "kinv s' (p # ps)"
    using assms s' neq page_ok_nonzero [of s p]
    by (auto simp: kinv_def page_ok_def)
  then show ?thesis using s' by blast
qed

section \<open>Initialisation\<close>

definition pages_from :: "u64 \<Rightarrow> nat \<Rightarrow> u64 list" where
  "pages_from p n = map (\<lambda>i. p + of_nat i * PGSIZE) [0..<n]"

lemma pages_from_Suc: "pages_from p (Suc n) = p # pages_from (p + PGSIZE) n"
proof -
  have "[0..<Suc n] = 0 # map Suc [0..<n]" by (simp add: map_Suc_upt upt_conv_Cons)
  then show ?thesis by (simp add: pages_from_def algebra_simps)
qed

lemma freerange_loop_kinv:
  assumes "kinv s ps" "page_aligned p" "end_addr s \<le> p"
    and "unat p + n * 4096 = unat PHYSTOP"
    and "\<And>q. q \<in> set ps \<Longrightarrow> q < p"
    and "\<And>q. page_aligned q \<Longrightarrow> p \<le> q \<Longrightarrow> q < PHYSTOP \<Longrightarrow> refcnt s (page_index q) \<le> 0"
  shows "\<exists>s'. freerange_loop p PHYSTOP s = Ok () s' \<and> kinv s' (rev (pages_from p n) @ ps)"
  using assms
proof (induction n arbitrary: p s ps)
  case 0
  then have "p = PHYSTOP" by (simp add: word_unat_eq_iff)
  then show ?case using 0
    by (subst freerange_loop.simps) (simp add: pages_from_def layout_defs)
next
  case (Suc n)
  have bound: "unat p + 4096 \<le> unat PHYSTOP" using Suc.prems(4) by simp
  have np: "unat (p + PGSIZE) = unat p + 4096"
    using bound unsigned_less [of PHYSTOP, where ?'a = nat] by (intro unat_next_page) (simp add: layout_defs)
  have lt: "p < p + PGSIZE" "p + PGSIZE \<le> PHYSTOP" "p < PHYSTOP"
    using np bound by (simp_all add: word_less_nat_alt word_le_nat_alt)
  have ok: "page_ok s p" using Suc.prems(2,3) lt(3) by (simp add: page_ok_def)
  have "p \<notin> set ps" using Suc.prems(5) [of p] by auto
  moreover have "refcnt s (page_index p) \<le> 1" using Suc.prems(6) [of p] Suc.prems(2) lt(3) by simp
  ultimately obtain s1 where s1: "kfree p s = Ok () s1" "kinv s1 (p # ps)" "end_addr s1 = end_addr s"
    "refcnt s1 = (refcnt s)(page_index p := refcnt s (page_index p) - 1)"
    using kfree_push [OF Suc.prems(1) ok] by blast
  have ref1: "refcnt s1 (page_index q) \<le> 0"
    if "page_aligned q" "p + PGSIZE \<le> q" "q < PHYSTOP" for q
  proof -
    have "p \<le> q" using that(2) lt(1) by simp
    then have "refcnt s (page_index q) \<le> 0" using Suc.prems(6) that by blast
    then show ?thesis using s1(4) by auto
  qed
  have below: "q < p + PGSIZE" if "q \<in> set (p # ps)" for q
    using that Suc.prems(5) [of q] lt(1) by auto
  have e1: "end_addr s1 \<le> p + PGSIZE" using s1(3) Suc.prems(3) lt(1) by simp
  have c1: "unat (p + PGSIZE) + n * 4096 = unat PHYSTOP" using np Suc.prems(4) by simp
  obtain s' where "freerange_loop (p + PGSIZE) PHYSTOP s1 = Ok () s'"
    "kinv s' (rev (pages_from (p + PGSIZE) n) @ p # ps)"
    using Suc.IH [OF s1(2) page_aligned_add [OF Suc.prems(2)] e1 c1 below ref1] by blast
  then show ?case using s1(1) lt by (subst freerange_loop.simps) (simp add: pages_from_Suc)
qed

lemma PGROUNDUP_bounds:
  assumes "unat a + 4095 < 2 ^ 64"
  shows "unat a \<le> unat (PGROUNDUP a)" "unat (PGROUNDUP a) \<le> unat a + 4095"
proof -
  let ?b = "a + PGSIZE - 1"
  have eq: "PGROUNDUP a = PGROUNDDOWN ?b" by (simp add: PGROUNDUP_def PGROUNDDOWN_def)
  have b: "unat ?b = unat a + 4095" using assms by (simp add: PGSIZE_def unat_word_ariths)
  show "unat (PGROUNDUP a) \<le> unat a + 4095"
    using PGROUNDDOWN_le [of ?b] b eq by (simp add: word_le_nat_alt)
  have "?b = PGROUNDDOWN ?b + (?b - PGROUNDDOWN ?b)" by simp
  moreover have "unat (?b - PGROUNDDOWN ?b) = unat ?b - unat (PGROUNDDOWN ?b)"
    using PGROUNDDOWN_le [of ?b] by (rule unat_sub)
  moreover have "unat (?b - PGROUNDDOWN ?b) < 4096"
    using page_offset_less [of ?b] by (simp add: word_less_nat_alt PGSIZE_def)
  ultimately show "unat a \<le> unat (PGROUNDUP a)" using b eq by simp
qed

lemma kinit_kinv:
  assumes "0 < end_addr s" "end_addr s \<le> PHYSTOP" "freelist s = 0"
  shows "\<exists>s' n. kinit s = Ok () s' \<and> unat (PGROUNDUP (end_addr s)) + n * 4096 = unat PHYSTOP \<and>
    kinv s' (rev (pages_from (PGROUNDUP (end_addr s)) n))"
proof -
  let ?p = "PGROUNDUP (end_addr s)"
  let ?s0 = "s\<lparr>refcnt := (\<lambda>i. if i < PHYPAGES then 0 else refcnt s i)\<rparr>"
  have stop: "unat PHYSTOP = 0x88000000" by (simp add: layout_defs)
  have e: "unat (end_addr s) \<le> unat PHYSTOP" using assms(2) by (simp add: word_le_nat_alt)
  have b: "unat (end_addr s) \<le> unat ?p" "unat ?p \<le> unat (end_addr s) + 4095"
    using PGROUNDUP_bounds [of "end_addr s"] e stop by simp_all
  have "unat ?p mod 4096 = 0" using page_aligned_unat [of ?p] by simp
  then obtain k where k: "unat ?p = 4096 * k" by (auto elim: mod_eqE)
  have "k \<le> 0x88000" using b(2) e stop k by linarith
  define n where "n = 0x88000 - k"
  have n: "unat ?p + n * 4096 = unat PHYSTOP" unfolding n_def using k stop \<open>k \<le> 0x88000\<close> by simp
  have "\<exists>s'. freerange_loop ?p PHYSTOP ?s0 = Ok () s' \<and> kinv s' (rev (pages_from ?p n) @ [])"
  proof (rule freerange_loop_kinv)
    show "kinv ?s0 []" using assms by (simp add: kinv_def)
    show "end_addr ?s0 \<le> ?p" using b(1) by (simp add: word_le_nat_alt)
    show "refcnt ?s0 (page_index q) \<le> 0" if "q < PHYSTOP" for q
      using page_index_less [OF that] by simp
  qed (use n in simp_all)
  then show ?thesis using n by (auto simp: kinit_def freerange_def)
qed

section \<open>The contract of a page allocator\<close>

text \<open>
  What the rest of the kernel relies on: allocation hands out the head of a list of distinct
  non-null pages, or null when the list is empty.
\<close>

locale page_allocator =
  fixes alloc :: "'s \<Rightarrow> u64 \<times> 's"
    and free_pages :: "'s \<Rightarrow> u64 list \<Rightarrow> bool"
  assumes alloc_empty: "free_pages s [] \<Longrightarrow> fst (alloc s) = 0 \<and> free_pages (snd (alloc s)) []"
    and alloc_page: "free_pages s (p # ps) \<Longrightarrow> fst (alloc s) = p \<and> free_pages (snd (alloc s)) ps"
    and free_distinct: "free_pages s ps \<Longrightarrow> distinct ps \<and> 0 \<notin> set ps"
begin

fun alloc_many :: "nat \<Rightarrow> 's \<Rightarrow> u64 list \<times> 's" where
  "alloc_many 0 s = ([], s)"
| "alloc_many (Suc n) s =
     (let (p, s1) = alloc s; (ps, s2) = alloc_many n s1 in (p # ps, s2))"

lemma alloc_many_take:
  assumes "free_pages s ps" "n \<le> length ps"
  shows "fst (alloc_many n s) = take n ps \<and> free_pages (snd (alloc_many n s)) (drop n ps)"
  using assms
proof (induction n arbitrary: s ps)
  case 0
  then show ?case by simp
next
  case (Suc n)
  then obtain p qs where ps: "ps = p # qs" by (cases ps) auto
  then have "fst (alloc s) = p" "free_pages (snd (alloc s)) qs"
    using alloc_page Suc.prems(1) by auto
  with Suc.IH [of "snd (alloc s)" qs] Suc.prems(2) ps show ?case
    by (simp add: case_prod_unfold Let_def)
qed

lemma alloc_many_distinct:
  assumes "free_pages s ps" "n \<le> length ps"
  shows "distinct (fst (alloc_many n s)) \<and> 0 \<notin> set (fst (alloc_many n s)) \<and>
    set (fst (alloc_many n s)) \<inter> set (drop n ps) = {}"
  using alloc_many_take [OF assms] free_distinct [OF assms(1)]
  by (auto dest: in_set_takeD set_take_disj_set_drop_if_distinct [of ps n n])

end

interpretation kalloc_pages: page_allocator kalloc kinv
proof
  show "fst (kalloc s) = 0 \<and> kinv (snd (kalloc s)) []" if "kinv s []" for s :: "'a kmem_scheme"
    using kalloc_Nil [OF that] that by simp
  show "fst (kalloc s) = p \<and> kinv (snd (kalloc s)) ps" if "kinv s (p # ps)" for s :: "'a kmem_scheme" and p ps
    using kalloc_Cons [OF that] by simp
  show "distinct ps \<and> 0 \<notin> set ps" if "kinv s ps" for s :: "'a kmem_scheme" and ps
    using that kinv_nonzero [OF that] by (auto simp: kinv_def)
qed

end
