(* ===== verification/Vm.thy ===== *)
theory Vm
  imports Kalloc
begin

text \<open>
  The virtual memory code of \<^verbatim>\<open>kernel/vm.c\<close>: Sv39 page tables stored in physical memory, mapping
  and unmapping, growing and shrinking an address space, the copy-on-write duplication used by
  \<^verbatim>\<open>fork\<close> and the handler of the write faults it causes, and the copies between kernel and user
  memory. This theory holds the operations; their properties are in the theories that import it.

  A page table is the address of its root page. Loops over virtual addresses end because the
  page-table walk panics at \<open>MAXVA\<close>, so no address wraps around. \<^verbatim>\<open>myproc()->pagetable\<close> is the argument
  \<open>cur\<close> (\<open>None\<close> when no process runs on the hart). A kernel buffer is a byte list.
\<close>

section \<open>Page-table walk\<close>

text \<open>\<open>&pagetable[i]\<close>: entries are eight bytes wide.\<close>

definition pte_slot :: "u64 \<Rightarrow> u64 \<Rightarrow> u64" where
  "pte_slot pagetable i = pagetable + i * 8"

fun walk_levels :: "nat \<Rightarrow> u64 \<Rightarrow> u64 \<Rightarrow> bool \<Rightarrow> 'a kmem_scheme \<Rightarrow> u64 \<times> 'a kmem_scheme" where
  "walk_levels 0 pagetable va alloc s = (pte_slot pagetable (PX 0 va), s)"
| "walk_levels (Suc l) pagetable va alloc s =
     (let pte = pte_slot pagetable (PX (Suc l) va);
          v = ld64 (mem s) pte
      in if v AND PTE_V \<noteq> 0 then walk_levels l (PTE2PA v) va alloc s
         else if \<not> alloc then (0, s)
         else case kalloc s of (page, s) \<Rightarrow>
           if page = 0 then (0, s)
           else walk_levels l page va alloc
                  (s\<lparr>mem := st64 (memset (mem s) page 0 4096) pte (PA2PTE page OR PTE_V)\<rparr>))"

definition walk :: "u64 \<Rightarrow> u64 \<Rightarrow> bool \<Rightarrow> 'a kmem_scheme \<Rightarrow> ('a kmem_scheme, u64) res" where
  "walk pagetable va alloc s =
     (if va \<ge> MAXVA then Panic ''walk''
      else case walk_levels 2 pagetable va alloc s of (pte, s) \<Rightarrow> Ok pte s)"

definition walkaddr :: "u64 \<Rightarrow> u64 \<Rightarrow> 'a kmem_scheme \<Rightarrow> ('a kmem_scheme, u64) res" where
  "walkaddr pagetable va s =
     (if va \<ge> MAXVA then Ok 0 s
      else andthen (walk pagetable va False s) (\<lambda>pte s.
        if pte = 0 then Ok 0 s
        else let v = ld64 (mem s) pte
          in if v AND PTE_V = 0 then Ok 0 s
             else if v AND PTE_U = 0 then Ok 0 s
             else Ok (PTE2PA v) s))"

section \<open>Mapping and unmapping\<close>

lemma walk_Ok_less: "walk pagetable va alloc s = Ok pte s' \<Longrightarrow> va < MAXVA"
  by (auto simp: walk_def not_le split: if_splits)

lemma next_va:
  assumes "va < MAXVA"
  shows "unat (va + PGSIZE) = unat va + 4096"
proof (rule unat_next_page)
  have "unat va < 2 ^ 38" using assms by (simp add: MAXVA_def word_less_nat_alt)
  then show "unat va + 4096 < 2 ^ 64" by simp
qed

lemma next_va_measure: "va < MAXVA \<Longrightarrow> 2 ^ 64 - unat (va + PGSIZE) < 2 ^ 64 - unat va"
  using next_va [of va] unsigned_less [of va, where ?'a = nat]
  by (intro diff_less_mono2) simp_all

function mappages_loop ::
  "u64 \<Rightarrow> u64 \<Rightarrow> u64 \<Rightarrow> u64 \<Rightarrow> u64 \<Rightarrow> 'a kmem_scheme \<Rightarrow> ('a kmem_scheme, int) res" where
  "mappages_loop pagetable a last_va pa perm s =
     andthen (walk pagetable a True s) (\<lambda>pte s.
       if pte = 0 then Ok (- 1) s
       else if ld64 (mem s) pte AND PTE_V \<noteq> 0 then Panic ''mappages: remap''
       else
         let s = s\<lparr>mem := st64 (mem s) pte (PA2PTE pa OR perm OR PTE_V)\<rparr>
         in if a = last_va then Ok 0 s
            else mappages_loop pagetable (a + PGSIZE) last_va (pa + PGSIZE) perm s)"
  by pat_completeness auto
termination
  by (relation "measure (\<lambda>(pagetable, a, last_va, pa, perm, s). 2 ^ 64 - unat a)")
    (auto dest!: walk_Ok_less next_va_measure)

declare mappages_loop.simps [simp del]

definition mappages ::
  "u64 \<Rightarrow> u64 \<Rightarrow> u64 \<Rightarrow> u64 \<Rightarrow> u64 \<Rightarrow> 'a kmem_scheme \<Rightarrow> ('a kmem_scheme, int) res" where
  "mappages pagetable va sz pa perm s =
     (if va mod PGSIZE \<noteq> 0 then Panic ''mappages: va not aligned''
      else if sz mod PGSIZE \<noteq> 0 then Panic ''mappages: size not aligned''
      else if sz = 0 then Panic ''mappages: size''
      else mappages_loop pagetable va (va + sz - PGSIZE) pa perm s)"

lemma mappages_Ok_less: "mappages pagetable va sz pa perm s = Ok r s' \<Longrightarrow> va < MAXVA"
  by (auto simp: mappages_def mappages_loop.simps [of pagetable va] res_simps split: if_splits
      dest: walk_Ok_less)

function uvmunmap_loop ::
  "u64 \<Rightarrow> u64 \<Rightarrow> u64 \<Rightarrow> bool \<Rightarrow> 'a kmem_scheme \<Rightarrow> ('a kmem_scheme, unit) res" where
  "uvmunmap_loop pagetable a last_va do_free s =
     (if a < last_va then
        andthen (walk pagetable a False s) (\<lambda>pte s.
          if pte = 0 then Panic ''uvmunmap: walk''
          else let v = ld64 (mem s) pte
            in if v AND PTE_V = 0 then Panic ''uvmunmap: not mapped''
               else if PTE_FLAGS v = PTE_V then Panic ''uvmunmap: not a leaf''
               else andthen (if do_free then kfree (PTE2PA v) s else Ok () s) (\<lambda>_ s.
                 uvmunmap_loop pagetable (a + PGSIZE) last_va do_free
                   (s\<lparr>mem := st64 (mem s) pte 0\<rparr>)))
      else Ok () s)"
  by pat_completeness auto
termination
  by (relation "measure (\<lambda>(pagetable, a, last_va, do_free, s). 2 ^ 64 - unat a)")
    (auto dest!: walk_Ok_less next_va_measure)

declare uvmunmap_loop.simps [simp del]

definition uvmunmap ::
  "u64 \<Rightarrow> u64 \<Rightarrow> u64 \<Rightarrow> bool \<Rightarrow> 'a kmem_scheme \<Rightarrow> ('a kmem_scheme, unit) res" where
  "uvmunmap pagetable va npages do_free s =
     (if va mod PGSIZE \<noteq> 0 then Panic ''uvmunmap: not aligned''
      else uvmunmap_loop pagetable va (va + npages * PGSIZE) do_free s)"

section \<open>Address spaces\<close>

definition uvmcreate :: "'a kmem_scheme \<Rightarrow> u64 \<times> 'a kmem_scheme" where
  "uvmcreate s =
     (case kalloc s of (pagetable, s) \<Rightarrow>
        if pagetable = 0 then (0, s)
        else (pagetable, s\<lparr>mem := memset (mem s) pagetable 0 4096\<rparr>))"

definition uvmfirst :: "u64 \<Rightarrow> u8 list \<Rightarrow> 'a kmem_scheme \<Rightarrow> ('a kmem_scheme, unit) res" where
  "uvmfirst pagetable src s =
     (if of_nat (length src) \<ge> PGSIZE then Panic ''uvmfirst: more than a page''
      else case kalloc s of (page, s) \<Rightarrow>
        if page = 0 then Fault ''uvmfirst: null page''
        else andthen
          (mappages pagetable 0 PGSIZE page (((PTE_W OR PTE_R) OR PTE_X) OR PTE_U)
            (s\<lparr>mem := memset (mem s) page 0 4096\<rparr>))
          (\<lambda>_ s. Ok () (s\<lparr>mem := put_bytes (mem s) page src\<rparr>)))"

definition uvmdealloc :: "u64 \<Rightarrow> u64 \<Rightarrow> u64 \<Rightarrow> 'a kmem_scheme \<Rightarrow> ('a kmem_scheme, u64) res" where
  "uvmdealloc pagetable oldsz newsz s =
     (if newsz \<ge> oldsz then Ok oldsz s
      else if PGROUNDUP newsz < PGROUNDUP oldsz then
        let npages = scast (ucast ((PGROUNDUP oldsz - PGROUNDUP newsz) div PGSIZE) :: u32)
        in andthen (uvmunmap pagetable (PGROUNDUP newsz) npages True s) (\<lambda>_ s. Ok newsz s)
      else Ok newsz s)"

function uvmalloc_loop ::
  "u64 \<Rightarrow> u64 \<Rightarrow> u64 \<Rightarrow> u64 \<Rightarrow> u64 \<Rightarrow> 'a kmem_scheme \<Rightarrow> ('a kmem_scheme, u64) res" where
  "uvmalloc_loop pagetable a oldsz newsz xperm s =
     (if a < newsz then
        case kalloc s of (page, s) \<Rightarrow>
          if page = 0 then andthen (uvmdealloc pagetable a oldsz s) (\<lambda>_ s. Ok 0 s)
          else
            let s = (if LAB_SYSCALL then s else s\<lparr>mem := memset (mem s) page 0 4096\<rparr>)
            in andthen (mappages pagetable a PGSIZE page ((PTE_R OR PTE_U) OR xperm) s) (\<lambda>r s.
                 if r \<noteq> 0 then
                   andthen (kfree page s) (\<lambda>_ s.
                   andthen (uvmdealloc pagetable a oldsz s) (\<lambda>_ s. Ok 0 s))
                 else uvmalloc_loop pagetable (a + PGSIZE) oldsz newsz xperm s)
      else Ok newsz s)"
  by pat_completeness auto
termination
  by (relation "measure (\<lambda>(pagetable, a, oldsz, newsz, xperm, s). 2 ^ 64 - unat a)")
    (auto dest!: mappages_Ok_less next_va_measure)

declare uvmalloc_loop.simps [simp del]

definition uvmalloc ::
  "u64 \<Rightarrow> u64 \<Rightarrow> u64 \<Rightarrow> u64 \<Rightarrow> 'a kmem_scheme \<Rightarrow> ('a kmem_scheme, u64) res" where
  "uvmalloc pagetable oldsz newsz xperm s =
     (if newsz < oldsz then Ok oldsz s
      else uvmalloc_loop pagetable (PGROUNDUP oldsz) (PGROUNDUP oldsz) newsz xperm s)"

text \<open>
  \<^verbatim>\<open>freewalk\<close> recurses along the entries of the table. The first argument bounds the recursion:
  tables built by \<open>walk\<close> have three levels, so \<open>FREEWALK_DEPTH\<close> calls are enough for them, and a
  deeper chain of entries is a fault (in C it would run down the one-page kernel stack).
\<close>

definition FREEWALK_DEPTH :: nat where
  "FREEWALK_DEPTH = 3"

primrec freewalk_rec :: "nat \<Rightarrow> u64 \<Rightarrow> 'a kmem_scheme \<Rightarrow> ('a kmem_scheme, unit) res" where
  "freewalk_rec 0 pagetable s = Fault ''freewalk: recursion''"
| "freewalk_rec (Suc d) pagetable s =
     andthen
       (for_each [0..<512]
         (\<lambda>i s.
           let slot = pte_slot pagetable (of_nat i);
               pte = ld64 (mem s) slot
           in if pte AND PTE_V \<noteq> 0 \<and> pte AND ((PTE_R OR PTE_W) OR PTE_X) = 0 then
                andthen (freewalk_rec d (PTE2PA pte) s) (\<lambda>_ s.
                  Ok () (s\<lparr>mem := st64 (mem s) slot 0\<rparr>))
              else if pte AND PTE_V \<noteq> 0 then Panic ''freewalk: leaf''
              else Ok () s)
         s)
       (\<lambda>_ s. kfree pagetable s)"

definition freewalk :: "u64 \<Rightarrow> 'a kmem_scheme \<Rightarrow> ('a kmem_scheme, unit) res" where
  "freewalk pagetable s = freewalk_rec FREEWALK_DEPTH pagetable s"

definition uvmfree :: "u64 \<Rightarrow> u64 \<Rightarrow> 'a kmem_scheme \<Rightarrow> ('a kmem_scheme, unit) res" where
  "uvmfree pagetable sz s =
     andthen (if sz > 0 then uvmunmap pagetable 0 (PGROUNDUP sz div PGSIZE) True s else Ok () s)
       (\<lambda>_ s. freewalk pagetable s)"

section \<open>Copy-on-write\<close>

function uvmcopy_loop ::
  "u64 \<Rightarrow> u64 \<Rightarrow> u64 \<Rightarrow> u64 \<Rightarrow> 'a kmem_scheme \<Rightarrow> ('a kmem_scheme, int) res" where
  "uvmcopy_loop old new i sz s =
     (if i < sz then
        andthen (walk old i False s) (\<lambda>pte s.
          if pte = 0 then Panic ''uvmcopy: pte should exist''
          else let v = ld64 (mem s) pte
            in if v AND PTE_V = 0 then Panic ''uvmcopy: page not present''
               else
                 let pa = PTE2PA v;
                     flags = PTE_FLAGS v;
                     (flags, s) =
                       (if flags AND PTE_W \<noteq> 0 then
                          let flags = (flags AND NOT PTE_W) OR PTE_COW
                          in (flags, s\<lparr>mem := st64 (mem s) pte (PA2PTE pa OR flags)\<rparr>)
                        else (flags, s))
                 in andthen (mappages new i PGSIZE pa flags s) (\<lambda>r s.
                      if r \<noteq> 0 then Ok (- 1) s
                      else andthen (incref pa s) (\<lambda>_ s. uvmcopy_loop old new (i + PGSIZE) sz s)))
      else Ok 0 s)"
  by pat_completeness auto
termination
  by (relation "measure (\<lambda>(old, new, i, sz, s). 2 ^ 64 - unat i)")
    (auto dest!: walk_Ok_less next_va_measure)

declare uvmcopy_loop.simps [simp del]

definition uvmcopy :: "u64 \<Rightarrow> u64 \<Rightarrow> u64 \<Rightarrow> 'a kmem_scheme \<Rightarrow> ('a kmem_scheme, int) res" where
  "uvmcopy old new sz s = uvmcopy_loop old new 0 sz s"

definition handle_cow_fault :: "u64 option \<Rightarrow> u64 \<Rightarrow> 'a kmem_scheme \<Rightarrow> ('a kmem_scheme, int) res" where
  "handle_cow_fault cur va s =
     (case cur of None \<Rightarrow> Ok (- 1) s
      | Some pagetable \<Rightarrow>
          if va \<ge> MAXVA then Ok (- 1) s
          else
            let va = PGROUNDDOWN va
            in andthen (walk pagetable va False s) (\<lambda>pte s.
              if pte = 0 then Ok (- 1) s
              else let v = ld64 (mem s) pte
                in if v AND PTE_V = 0 \<or> v AND PTE_U = 0 \<or> v AND PTE_COW = 0 then Ok (- 1) s
                   else
                     let pa = PTE2PA v
                     in andthen (refcount pa s) (\<lambda>count s.
                       if count = 1 then
                         Ok 0 (s\<lparr>mem := st64 (mem s) pte ((v OR PTE_W) AND NOT PTE_COW)\<rparr>)
                       else case kalloc s of (page, s) \<Rightarrow>
                         if page = 0 then Ok (- 1) s
                         else
                           let s = s\<lparr>mem := memmove (mem s) page pa 4096\<rparr>;
                               flags = (PTE_FLAGS (ld64 (mem s) pte) OR PTE_W) AND NOT PTE_COW;
                               s = s\<lparr>mem := st64 (mem s) pte (PA2PTE page OR flags)\<rparr>
                           in andthen (decref pa s) (\<lambda>_ s. Ok 0 s))))"

definition uvmclear :: "u64 \<Rightarrow> u64 \<Rightarrow> 'a kmem_scheme \<Rightarrow> ('a kmem_scheme, unit) res" where
  "uvmclear pagetable va s =
     andthen (walk pagetable va False s) (\<lambda>pte s.
       if pte = 0 then Panic ''uvmclear''
       else Ok () (s\<lparr>mem := st64 (mem s) pte (ld64 (mem s) pte AND NOT PTE_U)\<rparr>))"

section \<open>Copies between kernel and user memory\<close>

text \<open>Bytes up to the end of the page that holds \<open>va\<close>, at most \<open>len\<close>.\<close>

definition chunk :: "u64 \<Rightarrow> nat \<Rightarrow> nat" where
  "chunk va len = min (unat (PGSIZE - (va - PGROUNDDOWN va))) len"

lemma chunk_pos: "0 < len \<Longrightarrow> 0 < chunk va len"
proof -
  have "unat (va - PGROUNDDOWN va) < 4096"
    using page_offset_less [of va] by (simp add: word_less_nat_alt PGSIZE_def)
  moreover have "va - PGROUNDDOWN va \<le> PGSIZE" using page_offset_less [of va] by simp
  ultimately have "0 < unat (PGSIZE - (va - PGROUNDDOWN va))"
    by (simp add: unat_sub PGSIZE_def)
  then show "0 < len \<Longrightarrow> 0 < chunk va len" by (simp add: chunk_def)
qed

text \<open>The entry of the page at \<open>va0\<close> once a copy-on-write page has been made private; \<open>None\<close> when
  that fails.\<close>

definition copyout_pte ::
  "u64 option \<Rightarrow> u64 \<Rightarrow> u64 \<Rightarrow> u64 \<Rightarrow> 'a kmem_scheme \<Rightarrow> ('a kmem_scheme, u64 option) res" where
  "copyout_pte cur pagetable va0 pte s =
     (if ld64 (mem s) pte AND PTE_V \<noteq> 0 \<and> ld64 (mem s) pte AND PTE_COW \<noteq> 0 then
        andthen (handle_cow_fault cur va0 s) (\<lambda>r s.
          if r < 0 then Ok None s
          else andthen (walk pagetable va0 False s) (\<lambda>pte s. Ok (Some pte) s))
      else Ok (Some pte) s)"

function copyout ::
  "u64 option \<Rightarrow> u64 \<Rightarrow> u64 \<Rightarrow> u8 list \<Rightarrow> 'a kmem_scheme \<Rightarrow> ('a kmem_scheme, int) res" where
  "copyout cur pagetable dstva src s =
     (if src = [] then Ok 0 s
      else
        let va0 = PGROUNDDOWN dstva
        in if va0 \<ge> MAXVA then Ok (- 1) s
           else andthen (walk pagetable va0 False s) (\<lambda>pte s.
             if pte = 0 then Ok (- 1) s
             else andthen (copyout_pte cur pagetable va0 pte s) (\<lambda>pte_opt s.
               case pte_opt of None \<Rightarrow> Ok (- 1) s
               | Some pte \<Rightarrow>
                   if pte = 0 then Fault ''copyout: null pte''
                   else let v = ld64 (mem s) pte
                     in if v AND PTE_V = 0 \<or> v AND PTE_U = 0 \<or> v AND PTE_W = 0 then Ok (- 1) s
                        else
                          let pa0 = PTE2PA v
                          in if pa0 = 0 then Ok (- 1) s
                             else
                               let n = chunk dstva (length src)
                               in copyout cur pagetable (va0 + PGSIZE) (drop n src)
                                    (s\<lparr>mem := put_bytes (mem s) (pa0 + (dstva - va0)) (take n src)\<rparr>))))"
  by pat_completeness auto
termination
  by (relation "measure (\<lambda>(cur, pagetable, dstva, src, s). length src)") (auto simp: chunk_pos)

declare copyout.simps [simp del]

text \<open>\<open>copyin\<close> returns the status and the bytes it stored at \<^verbatim>\<open>dst\<close>, also when it fails half way.\<close>

function copyin_loop ::
  "u64 \<Rightarrow> u8 list \<Rightarrow> u64 \<Rightarrow> nat \<Rightarrow> 'a kmem_scheme \<Rightarrow> ('a kmem_scheme, int \<times> u8 list) res" where
  "copyin_loop pagetable dst srcva len s =
     (if len > 0 then
        let va0 = PGROUNDDOWN srcva
        in andthen (walkaddr pagetable va0 s) (\<lambda>pa0 s.
             if pa0 = 0 then Ok (- 1, dst) s
             else
               let n = chunk srcva len
               in copyin_loop pagetable (dst @ mem_bytes (mem s) (pa0 + (srcva - va0)) n)
                    (va0 + PGSIZE) (len - n) s)
      else Ok (0, dst) s)"
  by pat_completeness auto
termination
  by (relation "measure (\<lambda>(pagetable, dst, srcva, len, s). len)") (auto simp: chunk_pos)

declare copyin_loop.simps [simp del]

definition copyin ::
  "u64 \<Rightarrow> u64 \<Rightarrow> nat \<Rightarrow> 'a kmem_scheme \<Rightarrow> ('a kmem_scheme, int \<times> u8 list) res" where
  "copyin pagetable srcva len s = copyin_loop pagetable [] srcva len s"

text \<open>The inner loop of \<^verbatim>\<open>copyinstr\<close>: the bytes stored from one page and whether a NUL was met.\<close>

fun copystr_page :: "memory \<Rightarrow> u64 \<Rightarrow> nat \<Rightarrow> u8 list \<times> bool" where
  "copystr_page m p 0 = ([], False)"
| "copystr_page m p (Suc n) =
     (if m p = 0 then ([0], True)
      else case copystr_page m (p + 1) n of (bs, got_null) \<Rightarrow> (m p # bs, got_null))"

function copyinstr_loop ::
  "u64 \<Rightarrow> u8 list \<Rightarrow> u64 \<Rightarrow> nat \<Rightarrow> 'a kmem_scheme \<Rightarrow> ('a kmem_scheme, int \<times> u8 list) res" where
  "copyinstr_loop pagetable dst srcva max_len s =
     (if max_len > 0 then
        let va0 = PGROUNDDOWN srcva
        in andthen (walkaddr pagetable va0 s) (\<lambda>pa0 s.
             if pa0 = 0 then Ok (- 1, dst) s
             else
               let n = chunk srcva max_len
               in case copystr_page (mem s) (pa0 + (srcva - va0)) n of (bs, got_null) \<Rightarrow>
                    if got_null then Ok (0, dst @ bs) s
                    else copyinstr_loop pagetable (dst @ bs) (va0 + PGSIZE) (max_len - n) s)
      else Ok (- 1, dst) s)"
  by pat_completeness auto
termination
  by (relation "measure (\<lambda>(pagetable, dst, srcva, max_len, s). max_len)") (auto simp: chunk_pos)

declare copyinstr_loop.simps [simp del]

definition copyinstr ::
  "u64 \<Rightarrow> u64 \<Rightarrow> nat \<Rightarrow> 'a kmem_scheme \<Rightarrow> ('a kmem_scheme, int \<times> u8 list) res" where
  "copyinstr pagetable srcva max_len s = copyinstr_loop pagetable [] srcva max_len s"

section \<open>The kernel page table\<close>

definition NPROC :: nat where
  "NPROC = 64"

definition kvmmap ::
  "u64 \<Rightarrow> u64 \<Rightarrow> u64 \<Rightarrow> u64 \<Rightarrow> u64 \<Rightarrow> 'a kmem_scheme \<Rightarrow> ('a kmem_scheme, unit) res" where
  "kvmmap kpgtbl va pa sz perm s =
     andthen (mappages kpgtbl va sz pa perm s) (\<lambda>r s. if r \<noteq> 0 then Panic ''kvmmap'' else Ok () s)"

definition proc_mapstacks :: "u64 \<Rightarrow> 'a kmem_scheme \<Rightarrow> ('a kmem_scheme, unit) res" where
  "proc_mapstacks kpgtbl s =
     for_each [0..<NPROC]
       (\<lambda>p s. case kalloc s of (pa, s) \<Rightarrow>
          if pa = 0 then Panic ''kalloc''
          else kvmmap kpgtbl (KSTACK (of_nat p)) pa PGSIZE (PTE_R OR PTE_W) s) s"

text \<open>\<open>etext\<close> and \<open>trampoline\<close> are linker symbols.\<close>

definition kvmmake :: "u64 \<Rightarrow> u64 \<Rightarrow> 'a kmem_scheme \<Rightarrow> ('a kmem_scheme, u64) res" where
  "kvmmake etext trampoline s =
     (case kalloc s of (kpgtbl, s) \<Rightarrow>
        if kpgtbl = 0 then Fault ''kvmmake: null page''
        else
          let s = s\<lparr>mem := memset (mem s) kpgtbl 0 4096\<rparr>
          in andthen (kvmmap kpgtbl UART0 UART0 PGSIZE (PTE_R OR PTE_W) s) (\<lambda>_ s.
             andthen (kvmmap kpgtbl VIRTIO0 VIRTIO0 PGSIZE (PTE_R OR PTE_W) s) (\<lambda>_ s.
             andthen (kvmmap kpgtbl PLIC PLIC 0x4000000 (PTE_R OR PTE_W) s) (\<lambda>_ s.
             andthen (kvmmap kpgtbl KERNBASE KERNBASE (etext - KERNBASE) (PTE_R OR PTE_X) s) (\<lambda>_ s.
             andthen (kvmmap kpgtbl etext etext (PHYSTOP - etext) (PTE_R OR PTE_W) s) (\<lambda>_ s.
             andthen (kvmmap kpgtbl TRAMPOLINE trampoline PGSIZE (PTE_R OR PTE_X) s) (\<lambda>_ s.
             andthen (proc_mapstacks kpgtbl s) (\<lambda>_ s. Ok kpgtbl s))))))))"

definition kvminithart :: "u64 \<Rightarrow> hart \<Rightarrow> hart" where
  "kvminithart kernel_pagetable h = w_satp (MAKE_SATP kernel_pagetable) h"

end
