(* ===== verification/Pagetable.thy ===== *)
theory Pagetable
  imports Vm
begin

text \<open>
  The abstract view of the page tables in memory: \<open>tab\<close> follows a root towards the table that holds the
  entry of an address, \<open>leaf\<close> is that entry. A family of address spaces with roots \<open>R\<close> is well
  shaped when no two positions of it share a table page. The lemmas say what one store does to
  every address space of the family: a store to a last-level entry changes the entries of one page
  of one space, and linking a fresh zeroed table changes no entry at all.
\<close>

section \<open>Following a table\<close>

definition pte_valid :: "u64 \<Rightarrow> bool" where
  "pte_valid v \<longleftrightarrow> bit v 0"

lemma and_PTE_V [simp]: "v AND PTE_V = 0 \<longleftrightarrow> \<not> pte_valid v"
  by (simp add: PTE_bits pte_valid_def)

lemma pte_valid_0 [simp]: "\<not> pte_valid 0"
  by (simp add: pte_valid_def)

lemma pte_valid_make [simp]:
  "pte_valid (a OR PTE_V)" "pte_valid (PA2PTE pa OR f) \<longleftrightarrow> pte_valid f"
  by (simp_all add: pte_valid_def bit_or_iff bit_PTE bit_PA2PTE)

primrec tab :: "memory \<Rightarrow> u64 \<Rightarrow> u64 \<Rightarrow> nat \<Rightarrow> u64 option" where
  "tab m r va 0 = Some r"
| "tab m r va (Suc d) =
     (case tab m r va d of None \<Rightarrow> None
      | Some t \<Rightarrow>
          let v = ld64 m (pte_slot t (PX (2 - d) va))
          in if pte_valid v then Some (PTE2PA v) else None)"

definition leaf :: "memory \<Rightarrow> u64 \<Rightarrow> u64 \<Rightarrow> u64" where
  "leaf m r va = (case tab m r va 2 of None \<Rightarrow> 0 | Some t \<Rightarrow> ld64 m (pte_slot t (PX 0 va)))"

definition leaf_slot :: "memory \<Rightarrow> u64 \<Rightarrow> u64 \<Rightarrow> u64" where
  "leaf_slot m r va = (case tab m r va 2 of None \<Rightarrow> 0 | Some t \<Rightarrow> pte_slot t (PX 0 va))"

text \<open>The part of an address that selects the table at depth \<open>d\<close>.\<close>

definition tkey :: "nat \<Rightarrow> u64 \<Rightarrow> u64" where
  "tkey d va = drop_bit (39 - 9 * d) va"

definition tables :: "memory \<Rightarrow> u64 set \<Rightarrow> u64 set" where
  "tables m R = {t. \<exists>r \<in> R. \<exists>va < MAXVA. \<exists>d \<le> 2. tab m r va d = Some t}"

definition pt_shape :: "memory \<Rightarrow> u64 set \<Rightarrow> bool" where
  "pt_shape m R \<longleftrightarrow>
     (\<forall>r \<in> R. page_aligned r) \<and>
     (\<forall>r \<in> R. \<forall>r' \<in> R. \<forall>va < MAXVA. \<forall>va' < MAXVA. \<forall>d \<le> 2. \<forall>d' \<le> 2. \<forall>t.
        tab m r va d = Some t \<longrightarrow> tab m r' va' d' = Some t \<longrightarrow>
        r = r' \<and> d = d' \<and> tkey d va = tkey d va')"

lemma u64_bits: "a = b \<longleftrightarrow> (\<forall>n. bit a n = bit b n)" for a b :: u64
  by (auto intro: bit_word_eqI)

lemma tkey_eq_iff: "tkey d va = tkey d va' \<longleftrightarrow> (\<forall>n \<ge> 39 - 9 * d. bit va n = bit va' n)"
proof
  assume "tkey d va = tkey d va'"
  then have "bit va n = bit va' n" if "n \<ge> 39 - 9 * d" for n
    using that unfolding tkey_def u64_bits bit_drop_bit_eq comp_def
    by (metis le_add_diff_inverse)
  then show "\<forall>n \<ge> 39 - 9 * d. bit va n = bit va' n" by blast
qed (auto simp: tkey_def u64_bits bit_drop_bit_eq)

lemma PX_eq_iff: "PX l va = PX l va' \<longleftrightarrow> (\<forall>k < 9. bit va (12 + 9 * l + k) = bit va' (12 + 9 * l + k))"
  by (auto simp: u64_bits bit_PX)

lemma all_ge_split: "(\<forall>n \<ge> b. P n) \<longleftrightarrow> (\<forall>n \<ge> b + 9. P n) \<and> (\<forall>k < 9. P (b + k))" for b :: nat
proof (intro iffI conjI allI impI)
  fix n assume h: "(\<forall>n \<ge> b + 9. P n) \<and> (\<forall>k < 9. P (b + k))" and "b \<le> n"
  then show "P n" by (cases "b + 9 \<le> n") (auto dest: spec [of _ "n - b"])
qed auto

lemma tkey_Suc:
  assumes "d < 2"
  shows "tkey (Suc d) va = tkey (Suc d) va' \<longleftrightarrow> tkey d va = tkey d va' \<and> PX (2 - d) va = PX (2 - d) va'"
proof -
  have "39 - 9 * Suc d + 9 = 39 - 9 * d" "12 + 9 * (2 - d) = 39 - 9 * Suc d" using assms by simp_all
  then show ?thesis
    using all_ge_split [of "39 - 9 * Suc d" "\<lambda>n. bit va n = bit va' n"] unfolding tkey_eq_iff PX_eq_iff by simp
qed

lemma tkey_0: "va < MAXVA \<Longrightarrow> tkey 0 va = 0"
  using less_exp_not_bit [of va 38] by (auto simp: tkey_def u64_bits bit_drop_bit_eq MAXVA_def)

lemma page_eq_iff:
  "PGROUNDDOWN va = PGROUNDDOWN va' \<longleftrightarrow> tkey 2 va = tkey 2 va' \<and> PX 0 va = PX 0 va'"
proof -
  have "PGROUNDDOWN va = PGROUNDDOWN va' \<longleftrightarrow> (\<forall>n \<ge> 12. bit va n = bit va' n)"
    by (auto simp: u64_bits bit_PGROUNDDOWN)
  also have "\<dots> \<longleftrightarrow> (\<forall>n \<ge> 21. bit va n = bit va' n) \<and> (\<forall>k < 9. bit va (12 + k) = bit va' (12 + k))"
    using all_ge_split [of 12 "\<lambda>n. bit va n = bit va' n"] by simp
  finally show ?thesis by (simp add: tkey_eq_iff PX_eq_iff)
qed

lemma tab_key: "d \<le> 2 \<Longrightarrow> tkey d va = tkey d va' \<Longrightarrow> tab m r va d = tab m r va' d"
  by (induction d) (simp_all add: tkey_Suc split: option.splits)

lemma leaf_page: "PGROUNDDOWN va = PGROUNDDOWN va' \<Longrightarrow> leaf m r va = leaf m r va'"
  using tab_key [of 2 va va'] by (simp add: page_eq_iff leaf_def split: option.splits)

lemma leaf_PGROUNDDOWN [simp]: "leaf m r (PGROUNDDOWN va) = leaf m r va"
  by (rule leaf_page) (simp add: PGROUNDDOWN_aligned)

lemma tab_None_mono: "tab m r va d = None \<Longrightarrow> d \<le> d' \<Longrightarrow> tab m r va d' = None"
  by (induction d') (auto simp: le_Suc_eq)

lemma PGROUNDDOWN_MAXVA [simp]: "va < MAXVA \<Longrightarrow> PGROUNDDOWN va < MAXVA"
  using PGROUNDDOWN_le [of va] by simp

section \<open>Slots of a table\<close>

lemma PX_slot_le: "PX l va * 8 \<le> PGSIZE - 8"
proof -
  have "unat (PX l va) \<le> 511" using PX_le [of l va] by (simp add: word_le_nat_alt)
  then show ?thesis by (simp add: word_le_nat_alt PGSIZE_def unat_word_ariths)
qed

lemma slot_page: "page_aligned t \<Longrightarrow> PGROUNDDOWN (pte_slot t (PX l va)) = t"
  using PX_slot_less [of 0 l va] by (simp add: pte_slot_def)

lemma slot_nonzero: "page_aligned t \<Longrightarrow> t \<noteq> 0 \<Longrightarrow> pte_slot t (PX l va) \<noteq> 0"
  by (metis PGROUNDDOWN_aligned page_aligned_0 slot_page)

lemma st64_slot_frame:
  "page_aligned t \<Longrightarrow> PGROUNDDOWN x \<noteq> t \<Longrightarrow> st64 m (pte_slot t (PX l va)) v x = m x"
  using PX_slot_le [of l va] by (simp add: pte_slot_def st64_other_page)

lemma ld64_slot_cong:
  "page_aligned t \<Longrightarrow> (\<And>x. PGROUNDDOWN x = t \<Longrightarrow> m x = m' x) \<Longrightarrow>
   ld64 m (pte_slot t (PX l va)) = ld64 m' (pte_slot t (PX l va))"
  using PX_slot_le [of l va] by (auto simp: pte_slot_def intro: ld64_page_cong)

lemma ld64_st64_slot:
  assumes "page_aligned t" "page_aligned t'"
  shows "ld64 (st64 m (pte_slot t (PX l va)) v) (pte_slot t' (PX l' va')) =
    (if t = t' \<and> PX l va = PX l' va' then v else ld64 m (pte_slot t' (PX l' va')))"
proof (cases "t = t'")
  case True
  have "ld64 (st64 m (pte_slot t (PX l va)) v) (pte_slot t (PX l' va')) = ld64 m (pte_slot t (PX l' va'))"
    if "PX l va \<noteq> PX l' va'"
  proof (rule ld64_cong)
    fix i :: u64 assume "i < 8"
    then have "\<not> pte_slot t (PX l' va') + i - pte_slot t (PX l va) < 8"
      using PX_mult_inj [of l va "pte_slot t (PX l' va') + i - pte_slot t (PX l va)" l' va' i] that
      by (auto simp: pte_slot_def)
    then show "st64 m (pte_slot t (PX l va)) v (pte_slot t (PX l' va') + i) = m (pte_slot t (PX l' va') + i)"
      by (rule st64_other)
  qed
  with True show ?thesis by auto
next
  case False
  have "ld64 (st64 m (pte_slot t (PX l va)) v) (pte_slot t' (PX l' va')) = ld64 m (pte_slot t' (PX l' va'))"
    by (rule ld64_slot_cong) (use assms False in \<open>auto simp: st64_slot_frame\<close>)
  with False show ?thesis by simp
qed

lemma ld64_slot_zeroed:
  assumes "page_aligned p"
  shows "ld64 (memset m p 0 4096) (pte_slot p (PX l va)) = 0"
  using assms PX_slot_le [of l va] by (simp add: pte_slot_def ld64_memset_zero)

section \<open>Stores and the view of every space\<close>

lemma in_tables: "r \<in> R \<Longrightarrow> va < MAXVA \<Longrightarrow> d \<le> 2 \<Longrightarrow> tab m r va d = Some t \<Longrightarrow> t \<in> tables m R"
  by (auto simp: tables_def)

lemma tab_aligned: "pt_shape m R \<Longrightarrow> r \<in> R \<Longrightarrow> tab m r va d = Some t \<Longrightarrow> page_aligned t"
  by (cases d) (auto simp: pt_shape_def Let_def split: option.splits if_splits)

lemma tables_aligned: "pt_shape m R \<Longrightarrow> t \<in> tables m R \<Longrightarrow> page_aligned t"
  by (auto simp: tables_def dest: tab_aligned)

lemma pt_shape_inj:
  assumes "pt_shape m R" "r \<in> R" "r' \<in> R" "va < MAXVA" "va' < MAXVA" "d \<le> 2" "d' \<le> 2"
    and "tab m r va d = Some t" "tab m r' va' d' = Some t"
  shows "r = r' \<and> d = d' \<and> tkey d va = tkey d va'"
  using assms unfolding pt_shape_def by blast

text \<open>Memory outside the tables does not matter.\<close>

lemma tab_frame:
  assumes "pt_shape m R" "\<And>x. PGROUNDDOWN x \<in> tables m R \<Longrightarrow> m' x = m x"
    and "r \<in> R" "va < MAXVA" "d \<le> 2"
  shows "tab m' r va d = tab m r va d"
  using assms(5)
proof (induction d)
  case (Suc d)
  have "ld64 m' (pte_slot t (PX (2 - d) va)) = ld64 m (pte_slot t (PX (2 - d) va))"
    if "tab m r va d = Some t" for t
    using tab_aligned [OF assms(1,3) that] in_tables [OF assms(3,4) _ that] Suc.prems assms(2)
    by (intro ld64_slot_cong) auto
  with Suc show ?case by (auto split: option.splits)
qed simp

lemma leaf_frame:
  assumes "pt_shape m R" "\<And>x. PGROUNDDOWN x \<in> tables m R \<Longrightarrow> m' x = m x" "r \<in> R" "va < MAXVA"
  shows "leaf m' r va = leaf m r va"
proof -
  have "ld64 m' (pte_slot t (PX 0 va)) = ld64 m (pte_slot t (PX 0 va))" if "tab m r va 2 = Some t" for t
    using tab_aligned [OF assms(1,3) that] in_tables [OF assms(3,4) _ that] assms(2)
    by (intro ld64_slot_cong) auto
  then show ?thesis using tab_frame [OF assms, of 2] by (auto simp: leaf_def split: option.splits)
qed

lemma tables_mono:
  "(\<And>r va d t. r \<in> R \<Longrightarrow> va < MAXVA \<Longrightarrow> d \<le> 2 \<Longrightarrow> tab m r va d = Some t \<Longrightarrow> tab m' r va d = Some t) \<Longrightarrow>
   tables m R \<subseteq> tables m' R"
  unfolding tables_def by blast

lemma pt_shape_tab_eq:
  assumes "pt_shape m R" "\<And>r va d. r \<in> R \<Longrightarrow> va < MAXVA \<Longrightarrow> d \<le> 2 \<Longrightarrow> tab m' r va d = tab m r va d"
  shows "pt_shape m' R" "tables m' R = tables m R"
proof -
  show "pt_shape m' R"
    unfolding pt_shape_def
  proof (intro conjI ballI allI impI)
    fix r r' va va' d d' t
    assume "r \<in> R" "r' \<in> R" "va < MAXVA" "va' < MAXVA" "d \<le> 2" "d' \<le> 2"
      and "tab m' r va d = Some t" "tab m' r' va' d' = Some t"
    then show "r = r'" "d = d'" "tkey d va = tkey d va'"
      using assms pt_shape_inj [OF assms(1), of r r' va va' d d' t] by auto
  qed (use assms(1) in \<open>auto simp: pt_shape_def\<close>)
  show "tables m' R = tables m R"
    using assms(2) by (intro equalityI tables_mono) auto
qed

lemma tab_leaf_store:
  assumes "pt_shape m R" "r \<in> R" "va < MAXVA" "tab m r va 2 = Some t"
    and "r' \<in> R" "va' < MAXVA" "d \<le> 2"
  shows "tab (st64 m (pte_slot t (PX 0 va)) v) r' va' d = tab m r' va' d"
  using assms(7)
proof (induction d)
  case (Suc d)
  have "ld64 (st64 m (pte_slot t (PX 0 va)) v) (pte_slot t' (PX (2 - d) va')) =
      ld64 m (pte_slot t' (PX (2 - d) va'))" if "tab m r' va' d = Some t'" for t'
    using pt_shape_inj [OF assms(1,2,5,3,6), of 2 d t] assms(4) that Suc.prems
      tab_aligned [OF assms(1,2,4)] tab_aligned [OF assms(1,5) that]
    by (auto simp: ld64_st64_slot)
  with Suc show ?case by (auto split: option.splits)
qed simp

lemma leaf_store:
  assumes "pt_shape m R" "r \<in> R" "va < MAXVA" "tab m r va 2 = Some t" "r' \<in> R" "va' < MAXVA"
  shows "leaf (st64 m (pte_slot t (PX 0 va)) v) r' va' =
    (if r' = r \<and> PGROUNDDOWN va' = PGROUNDDOWN va then v else leaf m r' va')"
proof -
  have eq: "tab (st64 m (pte_slot t (PX 0 va)) v) r' va' 2 = tab m r' va' 2"
    by (rule tab_leaf_store [OF assms]) simp
  show ?thesis
  proof (cases "tab m r' va' 2")
    case None
    have "\<not> (r' = r \<and> PGROUNDDOWN va' = PGROUNDDOWN va)"
      using None assms(4) tab_key [of 2 va' va m r] by (auto simp: page_eq_iff)
    then show ?thesis unfolding leaf_def eq using None by auto
  next
    case (Some t')
    have "t = t' \<longleftrightarrow> r' = r \<and> tkey 2 va' = tkey 2 va"
      using pt_shape_inj [OF assms(1,2,5,3,6), of 2 2 t] assms(4) Some tab_key [of 2 va' va m r] by auto
    then have "(t = t' \<and> PX 0 va = PX 0 va') \<longleftrightarrow> r' = r \<and> PGROUNDDOWN va' = PGROUNDDOWN va"
      by (auto simp: page_eq_iff)
    then show ?thesis using Some eq tab_aligned [OF assms(1,2,4)] tab_aligned [OF assms(1,5) Some]
      by (simp add: leaf_def ld64_st64_slot)
  qed
qed

section \<open>Linking a fresh table\<close>

definition link_table :: "memory \<Rightarrow> u64 \<Rightarrow> u64 \<Rightarrow> u64 \<Rightarrow> nat \<Rightarrow> memory" where
  "link_table m t page va d =
     st64 (memset m page 0 4096) (pte_slot t (PX (2 - d) va)) (PA2PTE page OR PTE_V)"

definition linkable :: "memory \<Rightarrow> u64 set \<Rightarrow> u64 \<Rightarrow> u64 \<Rightarrow> nat \<Rightarrow> u64 \<Rightarrow> u64 \<Rightarrow> bool" where
  "linkable m R r va d t page \<longleftrightarrow>
     pt_shape m R \<and> r \<in> R \<and> va < MAXVA \<and> d < 2 \<and> tab m r va d = Some t \<and>
     \<not> pte_valid (ld64 m (pte_slot t (PX (2 - d) va))) \<and> page_aligned page \<and> page \<notin> tables m R"

text \<open>The addresses whose path runs through the new table.\<close>

definition through :: "u64 \<Rightarrow> u64 \<Rightarrow> nat \<Rightarrow> u64 \<Rightarrow> u64 \<Rightarrow> bool" where
  "through r va d r' va' \<longleftrightarrow> r' = r \<and> tkey (Suc d) va' = tkey (Suc d) va"

lemma ld64_link_table:
  assumes "page_aligned t" "page_aligned page" "page_aligned t'" "t \<noteq> page"
  shows "ld64 (link_table m t page va d) (pte_slot t' (PX l va')) =
    (if t' = t \<and> PX l va' = PX (2 - d) va then PA2PTE page OR PTE_V
     else if t' = page then 0 else ld64 m (pte_slot t' (PX l va')))"
proof -
  have "ld64 (memset m page 0 4096) (pte_slot t' (PX l va')) = ld64 m (pte_slot t' (PX l va'))"
    if "t' \<noteq> page"
    by (rule ld64_slot_cong) (use assms that in \<open>auto simp: memset_page\<close>)
  then show ?thesis using assms
    by (auto simp: link_table_def ld64_st64_slot ld64_slot_zeroed)
qed

lemma link_table_frame:
  "linkable m R r va d t page \<Longrightarrow> PGROUNDDOWN x \<noteq> t \<Longrightarrow> PGROUNDDOWN x \<noteq> page \<Longrightarrow>
   link_table m t page va d x = m x"
  using tab_aligned [of m R r va d t]
  by (auto simp: linkable_def link_table_def st64_slot_frame memset_page)

lemma ld64_link_existing:
  assumes lk: "linkable m R r va d t page"
    and "r' \<in> R" "va' < MAXVA" "d' \<le> 2" "tab m r' va' d' = Some t'"
    and "\<not> (d' = d \<and> through r va d r' va')"
  shows "ld64 (link_table m t page va d) (pte_slot t' (PX (2 - d') va')) = ld64 m (pte_slot t' (PX (2 - d') va'))"
proof -
  have h: "pt_shape m R" "r \<in> R" "va < MAXVA" "d < 2" "tab m r va d = Some t"
    "page_aligned page" "page \<notin> tables m R"
    using lk by (auto simp: linkable_def)
  have "t \<in> tables m R" "t' \<in> tables m R"
    using in_tables [OF h(2,3) _ h(5)] in_tables [OF assms(2,3,4,5)] h(4) by simp_all
  then have ne: "t \<noteq> page" "t' \<noteq> page" and al: "page_aligned t" "page_aligned t'"
    using h(7) tables_aligned [OF h(1)] by auto
  have "\<not> (t' = t \<and> PX (2 - d') va' = PX (2 - d) va)"
    using pt_shape_inj [OF h(1) assms(2) h(2) assms(3) h(3) assms(4), of d t'] assms(5,6) h(4,5) tkey_Suc [of d va' va]
    by (auto simp: through_def)
  then show ?thesis using ne al h(6) by (auto simp: ld64_link_table)
qed

lemma tab_link_other:
  assumes "linkable m R r va d t page" "r' \<in> R" "va' < MAXVA" "d' \<le> 2"
    and "d' \<le> d \<or> \<not> through r va d r' va'"
  shows "tab (link_table m t page va d) r' va' d' = tab m r' va' d'"
  using assms(4,5)
proof (induction d')
  case (Suc d')
  have "ld64 (link_table m t page va d) (pte_slot t' (PX (2 - d') va')) = ld64 m (pte_slot t' (PX (2 - d') va'))"
    if "tab m r' va' d' = Some t'" for t'
    by (rule ld64_link_existing [OF assms(1-3) _ that]) (use Suc.prems in auto)
  with Suc show ?case by (auto split: option.splits)
qed simp

lemma tab_link_new:
  assumes "linkable m R r va d t page" "va' < MAXVA" "through r va d r va'"
  shows "tab (link_table m t page va d) r va' (Suc d) = Some page"
    and "tab m r va' (Suc d) = None"
    and "d = 0 \<Longrightarrow> tab (link_table m t page va d) r va' 2 = None"
proof -
  have h: "pt_shape m R" "r \<in> R" "va < MAXVA" "d < 2" "tab m r va d = Some t"
    "\<not> pte_valid (ld64 m (pte_slot t (PX (2 - d) va)))" "page_aligned page" "page \<notin> tables m R"
    using assms(1) by (auto simp: linkable_def)
  have k: "tkey d va' = tkey d va" "PX (2 - d) va' = PX (2 - d) va"
    using assms(3) h(4) tkey_Suc [of d va' va] by (auto simp: through_def)
  have tab: "tab m r va' d = Some t" using tab_key [OF _ k(1)] h(4,5) by simp
  have al: "page_aligned t" "t \<noteq> page"
    using tab_aligned [OF h(1,2,5)] in_tables [OF h(2,3) _ h(5)] h(4,8) by auto
  have same: "tab (link_table m t page va d) r va' d = Some t"
    using tab_link_other [OF assms(1) h(2) assms(2), of d] h(4) tab by simp
  show "tab m r va' (Suc d) = None" using tab h(6) k(2) by simp
  show new: "tab (link_table m t page va d) r va' (Suc d) = Some page"
    using same al h(7) k(2) by (simp add: ld64_link_table)
  show "tab (link_table m t page va d) r va' 2 = None" if "d = 0"
    using new al h(7) that by (simp add: ld64_link_table numeral_2_eq_2)
qed

lemma leaf_link:
  assumes "linkable m R r va d t page" "r' \<in> R" "va' < MAXVA"
  shows "leaf (link_table m t page va d) r' va' = leaf m r' va'"
proof (cases "through r va d r' va'")
  case False
  have "ld64 (link_table m t page va d) (pte_slot t' (PX 0 va')) = ld64 m (pte_slot t' (PX 0 va'))"
    if "tab m r' va' 2 = Some t'" for t'
    using ld64_link_existing [OF assms _ that] assms(1) by (simp add: linkable_def)
  then show ?thesis using tab_link_other [OF assms, of 2] False by (auto simp: leaf_def split: option.splits)
next
  case True
  then have rr: "r' = r" by (simp add: through_def)
  note new = tab_link_new [OF assms(1,3) True [unfolded rr]]
  have old: "tab m r va' 2 = None"
    using tab_None_mono [OF new(2), of 2] assms(1) by (simp add: linkable_def)
  have al: "page_aligned t" "t \<noteq> page" "page_aligned page"
    using assms(1) tab_aligned [of m R r va d t] in_tables [of r R va d m t] by (auto simp: linkable_def)
  have "d = 0 \<or> d = 1" using assms(1) by (auto simp: linkable_def)
  then show ?thesis
  proof
    assume "d = 0"
    then show ?thesis using new(3) old rr by (simp add: leaf_def)
  next
    assume "d = 1"
    then have "tab (link_table m t page va d) r va' 2 = Some page" using new(1) by (simp add: numeral_2_eq_2)
    then show ?thesis using al old rr by (simp add: leaf_def ld64_link_table)
  qed
qed

lemma tab_link_cases:
  assumes "linkable m R r va d t page" "r' \<in> R" "va' < MAXVA" "d' \<le> 2"
    and "tab (link_table m t page va d) r' va' d' = Some t'"
  shows "(t' = page \<and> r' = r \<and> d' = Suc d \<and> tkey (Suc d) va' = tkey (Suc d) va) \<or>
    (tab m r' va' d' = Some t' \<and> t' \<in> tables m R)"
proof (cases "d' \<le> d \<or> \<not> through r va d r' va'")
  case True
  then show ?thesis using tab_link_other [OF assms(1-4)] assms in_tables by metis
next
  case False
  then have rr: "r' = r" and tr: "through r va d r va'" by (auto simp: through_def)
  note new = tab_link_new [OF assms(1,3) tr]
  have d2: "d < 2" using assms(1) by (simp add: linkable_def)
  have "d' = Suc d"
  proof (rule ccontr)
    assume "d' \<noteq> Suc d"
    then have "d = 0" "d' = 2" using False d2 assms(4) by auto
    then show False using new(3) assms(5) rr by simp
  qed
  then show ?thesis using new(1) assms(5) rr tr by (auto simp: through_def)
qed

lemma link_shape:
  assumes lk: "linkable m R r va d t page"
  shows "pt_shape (link_table m t page va d) R"
    and "tables (link_table m t page va d) R = insert page (tables m R)"
    and "tab (link_table m t page va d) r va (Suc d) = Some page"
proof -
  let ?m = "link_table m t page va d"
  have h: "pt_shape m R" "r \<in> R" "va < MAXVA" "d < 2" "page \<notin> tables m R"
    using lk by (auto simp: linkable_def)
  show new: "tab ?m r va (Suc d) = Some page"
    by (rule tab_link_new(1) [OF lk h(3)]) (simp add: through_def)
  show "pt_shape ?m R" unfolding pt_shape_def
  proof (intro conjI ballI allI impI)
    fix r1 r2 v1 v2 d1 d2 u
    assume a: "r1 \<in> R" "r2 \<in> R" "v1 < MAXVA" "v2 < MAXVA" "d1 \<le> 2" "d2 \<le> 2"
      "tab ?m r1 v1 d1 = Some u" "tab ?m r2 v2 d2 = Some u"
    have "r1 = r2 \<and> d1 = d2 \<and> tkey d1 v1 = tkey d1 v2"
      using tab_link_cases [OF lk a(1,3,5,7)] tab_link_cases [OF lk a(2,4,6,8)] h(5)
        pt_shape_inj [OF h(1) a(1-6), of u] by auto
    then show "r1 = r2" "d1 = d2" "tkey d1 v1 = tkey d1 v2" by auto
  qed (use h(1) in \<open>auto simp: pt_shape_def\<close>)
  have "tables ?m R \<subseteq> insert page (tables m R)"
    using tab_link_cases [OF lk] unfolding tables_def [of ?m] by blast
  moreover have "page \<in> tables ?m R" using in_tables [OF h(2,3) _ new] h(4) by simp
  moreover have "tables m R \<subseteq> tables ?m R"
  proof (rule tables_mono)
    fix r' va' d' t' assume a: "r' \<in> R" "va' < MAXVA" "d' \<le> 2" "tab m r' va' d' = Some t'"
    show "tab ?m r' va' d' = Some t'"
    proof (cases "d' \<le> d \<or> \<not> through r va d r' va'")
      case True
      then show ?thesis using tab_link_other [OF lk a(1-3)] a(4) by simp
    next
      case False
      then have "through r va d r va'" "r' = r" by (auto simp: through_def)
      then have "tab m r' va' d' = None"
        using tab_None_mono [OF tab_link_new(2) [OF lk a(2)], of d'] False by auto
      then show ?thesis using a(4) by simp
    qed
  qed
  ultimately show "tables ?m R = insert page (tables m R)" by blast
qed

end
