(* ===== verification/Walk.thy ===== *)
theory Walk
  imports Pagetable
begin

text \<open>
  The page-table walk over a family of address spaces. The invariant \<open>ptinv\<close> ties the allocator and
  the page tables together: table pages are allocated and unshared, and no entry points to a table
  or to a free page. A walk that allocates only takes pages from the free list and leaves every
  entry of every space as it was.
\<close>

section \<open>The invariant\<close>

definition ptinv :: "'a kmem_scheme \<Rightarrow> u64 set \<Rightarrow> u64 list \<Rightarrow> bool" where
  "ptinv s R ps \<longleftrightarrow>
     kinv s ps \<and> pt_shape (mem s) R \<and>
     (\<forall>t \<in> tables (mem s) R. page_ok s t \<and> t \<notin> set ps \<and> refcnt s (page_index t) = 1) \<and>
     (\<forall>r \<in> R. \<forall>va < MAXVA. pte_valid (leaf (mem s) r va) \<longrightarrow>
        PTE2PA (leaf (mem s) r va) \<notin> set ps \<and> PTE2PA (leaf (mem s) r va) \<notin> tables (mem s) R)"

lemma ptinvD:
  assumes "ptinv s R ps"
  shows "kinv s ps" "pt_shape (mem s) R"
    and "t \<in> tables (mem s) R \<Longrightarrow> page_ok s t"
    and "t \<in> tables (mem s) R \<Longrightarrow> t \<notin> set ps"
    and "t \<in> tables (mem s) R \<Longrightarrow> refcnt s (page_index t) = 1"
    and "r \<in> R \<Longrightarrow> va < MAXVA \<Longrightarrow> pte_valid (leaf (mem s) r va) \<Longrightarrow> PTE2PA (leaf (mem s) r va) \<notin> set ps"
    and "r \<in> R \<Longrightarrow> va < MAXVA \<Longrightarrow> pte_valid (leaf (mem s) r va) \<Longrightarrow>
      PTE2PA (leaf (mem s) r va) \<notin> tables (mem s) R"
  using assms by (auto simp: ptinv_def)

lemma kinv_aligned: "kinv s ps \<Longrightarrow> p \<in> set ps \<Longrightarrow> page_aligned p"
  by (auto simp: kinv_def page_ok_def)

lemma kinv_frame:
  assumes "kinv s ps" "end_addr s' = end_addr s" "freelist s' = freelist s"
    and "\<And>p. p \<in> set ps \<Longrightarrow> refcnt s' (page_index p) = refcnt s (page_index p)"
    and "\<And>x. PGROUNDDOWN x \<in> set ps \<Longrightarrow> mem s' x = mem s x"
  shows "kinv s' ps"
proof -
  have "flist (mem s') (freelist s) ps = flist (mem s) (freelist s) ps"
    by (rule flist_cong) (use assms kinv_aligned in auto)
  then show ?thesis using assms by (auto simp: kinv_def page_ok_def)
qed

lemma page_ok_cong: "end_addr s' = end_addr s \<Longrightarrow> page_ok s' p = page_ok s p"
  by (simp add: page_ok_def)

lemma ptinv_table_nonzero: "ptinv s R ps \<Longrightarrow> t \<in> tables (mem s) R \<Longrightarrow> t \<noteq> 0"
  using ptinvD(1,3) page_ok_nonzero unfolding kinv_def by blast

lemma ptinv_table_aligned: "ptinv s R ps \<Longrightarrow> t \<in> tables (mem s) R \<Longrightarrow> page_aligned t"
  using ptinvD(2) tables_aligned by blast

text \<open>Memory and counts outside the tables and the free pages are irrelevant to the invariant.\<close>

lemma ptinv_frame:
  assumes "ptinv s R ps" "end_addr s' = end_addr s" "freelist s' = freelist s"
    and "\<And>p. p \<in> set ps \<union> tables (mem s) R \<Longrightarrow> refcnt s' (page_index p) = refcnt s (page_index p)"
    and "\<And>x. PGROUNDDOWN x \<in> set ps \<union> tables (mem s) R \<Longrightarrow> mem s' x = mem s x"
  shows "ptinv s' R ps" "tables (mem s') R = tables (mem s) R"
proof -
  note inv = ptinvD [OF assms(1)]
  have tab: "tab (mem s') r va d = tab (mem s) r va d" if "r \<in> R" "va < MAXVA" "d \<le> 2" for r va d
    by (rule tab_frame [OF inv(2) _ that]) (simp add: assms(5))
  have lf: "leaf (mem s') r va = leaf (mem s) r va" if "r \<in> R" "va < MAXVA" for r va
    by (rule leaf_frame [OF inv(2) _ that]) (simp add: assms(5))
  show tb: "tables (mem s') R = tables (mem s) R" by (rule pt_shape_tab_eq(2) [OF inv(2) tab])
  have "kinv s' ps" by (rule kinv_frame [OF inv(1) assms(2,3)]) (simp_all add: assms(4,5))
  moreover have "pt_shape (mem s') R" by (rule pt_shape_tab_eq(1) [OF inv(2) tab])
  moreover have "page_ok s' t \<and> t \<notin> set ps \<and> refcnt s' (page_index t) = 1" if "t \<in> tables (mem s) R" for t
    using inv(3-5) [OF that] assms(4) [of t] that by (simp add: page_ok_cong [OF assms(2)])
  ultimately show "ptinv s' R ps" unfolding ptinv_def tb using inv(6,7) lf by simp
qed

section \<open>Walking without allocation\<close>

lemma walk_levels_False:
  assumes "l \<le> 2" "tab (mem s) r va (2 - l) = Some t"
  shows "walk_levels l t va False s = (leaf_slot (mem s) r va, s)"
  using assms
proof (induction l arbitrary: t)
  case (Suc l)
  let ?v = "ld64 (mem s) (pte_slot t (PX (Suc l) va))"
  define d where "d = 2 - Suc l"
  have d: "2 - l = Suc d" "2 - d = Suc l" using Suc.prems(1) by (auto simp: d_def)
  have td: "tab (mem s) r va d = Some t" using Suc.prems(2) by (simp add: d_def)
  show ?case
  proof (cases "pte_valid ?v")
    case True
    then have "tab (mem s) r va (2 - l) = Some (PTE2PA ?v)" using td by (simp add: d)
    then show ?thesis using Suc True by (simp add: Let_def)
  next
    case False
    then have "tab (mem s) r va (2 - l) = None" using td by (simp add: d)
    then have "tab (mem s) r va 2 = None" by (rule tab_None_mono) simp
    then show ?thesis using False by (simp add: Let_def leaf_slot_def)
  qed
qed (simp add: leaf_slot_def)

lemma walk_False: "va < MAXVA \<Longrightarrow> walk r va False s = Ok (leaf_slot (mem s) r va) s"
  using walk_levels_False [of 2 s r va r] by (simp add: walk_def)

lemma leaf_slot_cases:
  assumes "ptinv s R ps" "r \<in> R" "va < MAXVA"
  obtains (none) "tab (mem s) r va 2 = None" "leaf_slot (mem s) r va = 0" "leaf (mem s) r va = 0"
  | (slot) t where "tab (mem s) r va 2 = Some t" "leaf_slot (mem s) r va = pte_slot t (PX 0 va)"
    "leaf_slot (mem s) r va \<noteq> 0" "ld64 (mem s) (leaf_slot (mem s) r va) = leaf (mem s) r va"
proof (cases "tab (mem s) r va 2")
  case None
  then show ?thesis by (intro none) (simp_all add: leaf_slot_def leaf_def)
next
  case (Some t)
  have "pte_slot t (PX 0 va) \<noteq> 0"
    using slot_nonzero [of t 0 va] ptinv_table_nonzero [OF assms(1)] ptinv_table_aligned [OF assms(1)]
      in_tables [OF assms(2,3) _ Some] by simp
  with Some show ?thesis by (intro slot) (simp_all add: leaf_slot_def leaf_def)
qed

lemma leaf_slot_valid:
  assumes "ptinv s R ps" "r \<in> R" "va < MAXVA" "pte_valid (leaf (mem s) r va)"
  obtains t where "tab (mem s) r va 2 = Some t" "leaf_slot (mem s) r va = pte_slot t (PX 0 va)"
    "leaf_slot (mem s) r va \<noteq> 0" "ld64 (mem s) (leaf_slot (mem s) r va) = leaf (mem s) r va"
  using leaf_slot_cases [OF assms(1-3)] assms(4) by (metis pte_valid_0)

section \<open>Walking with allocation\<close>

text \<open>
  \<open>pt_trans R s ps s' ps' L\<close>: some free pages became tables, every entry is now given by \<open>L\<close>, and no
  memory outside the tables has changed. \<open>pt_grow\<close> is the case where no entry changes.
\<close>

definition pt_trans ::
  "u64 set \<Rightarrow> 'a kmem_scheme \<Rightarrow> u64 list \<Rightarrow> 'a kmem_scheme \<Rightarrow> u64 list \<Rightarrow> (u64 \<Rightarrow> u64 \<Rightarrow> u64) \<Rightarrow> bool" where
  "pt_trans R s ps s' ps' L \<longleftrightarrow>
     ptinv s' R ps' \<and> end_addr s' = end_addr s \<and> kmem.more s' = kmem.more s \<and>
     (\<exists>qs. ps = qs @ ps' \<and> tables (mem s') R = tables (mem s) R \<union> set qs) \<and>
     (\<forall>r \<in> R. \<forall>va < MAXVA. leaf (mem s') r va = L r va) \<and>
     (\<forall>p. page_aligned p \<longrightarrow> p \<notin> set ps \<longrightarrow> refcnt s' (page_index p) = refcnt s (page_index p)) \<and>
     (\<forall>x. PGROUNDDOWN x \<notin> tables (mem s) R \<union> set ps \<longrightarrow> mem s' x = mem s x)"

abbreviation pt_grow ::
  "u64 set \<Rightarrow> 'a kmem_scheme \<Rightarrow> u64 list \<Rightarrow> 'a kmem_scheme \<Rightarrow> u64 list \<Rightarrow> bool" where
  "pt_grow R s ps s' ps' \<equiv> pt_trans R s ps s' ps' (leaf (mem s))"

lemma pt_grow_refl: "ptinv s R ps \<Longrightarrow> pt_grow R s ps s ps"
  by (simp add: pt_trans_def)

lemma pt_transD:
  assumes "pt_trans R s ps s' ps' L"
  shows "ptinv s' R ps'" "end_addr s' = end_addr s" "kmem.more s' = kmem.more s"
    and "set ps' \<subseteq> set ps" "tables (mem s) R \<subseteq> tables (mem s') R"
    and "tables (mem s') R \<subseteq> tables (mem s) R \<union> set ps"
    and "r \<in> R \<Longrightarrow> va < MAXVA \<Longrightarrow> leaf (mem s') r va = L r va"
    and "page_aligned p \<Longrightarrow> p \<notin> set ps \<Longrightarrow> refcnt s' (page_index p) = refcnt s (page_index p)"
    and "PGROUNDDOWN x \<notin> tables (mem s) R \<Longrightarrow> PGROUNDDOWN x \<notin> set ps \<Longrightarrow> mem s' x = mem s x"
    and "p \<in> set ps \<Longrightarrow> p \<in> set ps' \<or> p \<in> tables (mem s') R"
  using assms by (auto simp: pt_trans_def)

lemma pt_trans_trans:
  assumes "pt_trans R s ps s1 ps1 L1" "pt_trans R s1 ps1 s2 ps2 L"
  shows "pt_trans R s ps s2 ps2 L"
proof -
  obtain qs qs' where "ps = qs @ ps1" "tables (mem s1) R = tables (mem s) R \<union> set qs"
    "ps1 = qs' @ ps2" "tables (mem s2) R = tables (mem s1) R \<union> set qs'"
    using assms by (auto simp: pt_trans_def)
  then have "ps = (qs @ qs') @ ps2 \<and> tables (mem s2) R = tables (mem s) R \<union> set (qs @ qs')" by auto
  moreover have "mem s2 x = mem s x" if "PGROUNDDOWN x \<notin> tables (mem s) R \<union> set ps" for x
    using pt_transD(4,6) [OF assms(1)] pt_transD(9) [OF assms(1), of x] pt_transD(9) [OF assms(2), of x] that
    by auto
  moreover have "refcnt s2 (page_index p) = refcnt s (page_index p)" if "page_aligned p" "p \<notin> set ps" for p
    using pt_transD(4) [OF assms(1)] pt_transD(8) [OF assms(1), of p] pt_transD(8) [OF assms(2), of p] that by auto
  ultimately show ?thesis
    using pt_transD(1-3,7) [OF assms(2)] pt_transD(2,3) [OF assms(1)] unfolding pt_trans_def by auto
qed

text \<open>The same, with the entries described from the first state.\<close>

lemma pt_trans_cong:
  "pt_trans R s ps s' ps' L \<Longrightarrow> (\<And>r va. r \<in> R \<Longrightarrow> va < MAXVA \<Longrightarrow> L r va = L' r va) \<Longrightarrow>
   pt_trans R s ps s' ps' L'"
  by (simp add: pt_trans_def)

lemma pt_grow_trans:
  assumes "pt_grow R s ps s1 ps1" "pt_grow R s1 ps1 s2 ps2"
  shows "pt_grow R s ps s2 ps2"
  by (rule pt_trans_cong [OF pt_trans_trans [OF assms]]) (rule pt_transD(7) [OF assms(1)])

lemma link_step:
  assumes inv: "ptinv s R (p # qs)" and "r \<in> R" "va < MAXVA" "d < 2" "tab (mem s) r va d = Some t"
    and unused: "\<not> pte_valid (ld64 (mem s) (pte_slot t (PX (2 - d) va)))"
    and k: "kalloc s = (p, s1)"
    and s2: "s2 = s1\<lparr>mem := st64 (memset (mem s1) p 0 4096) (pte_slot t (PX (2 - d) va)) (PA2PTE p OR PTE_V)\<rparr>"
  shows "pt_grow R s (p # qs) s2 qs" "tab (mem s2) r va (Suc d) = Some p"
proof -
  note i = ptinvD [OF inv]
  have k1: "kinv s1 qs" "refcnt s1 = (refcnt s)(page_index p := 1)" "end_addr s1 = end_addr s"
    "kmem.more s1 = kmem.more s" "\<And>x. PGROUNDDOWN x \<noteq> p \<Longrightarrow> mem s1 x = mem s x"
    using kalloc_Cons [OF i(1)] k kalloc_fields [of s] by simp_all
  have pa: "page_aligned p" using kinv_aligned [OF i(1), of p] by simp
  have nt: "p \<notin> tables (mem s) R" using i(4) [of p] by auto
  have fr: "mem s1 x = mem s x" if "PGROUNDDOWN x \<in> tables (mem s) R" for x
    using that nt by (intro k1(5)) auto
  have tab1: "tab (mem s1) r' va' d' = tab (mem s) r' va' d'" if "r' \<in> R" "va' < MAXVA" "d' \<le> 2" for r' va' d'
    using tab_frame [OF i(2) fr that] .
  have shape1: "pt_shape (mem s1) R" "tables (mem s1) R = tables (mem s) R"
    using pt_shape_tab_eq [OF i(2) tab1] by auto
  have tin: "t \<in> tables (mem s) R" using in_tables [OF assms(2,3) _ assms(5)] assms(4) by simp
  have "ld64 (mem s1) (pte_slot t (PX (2 - d) va)) = ld64 (mem s) (pte_slot t (PX (2 - d) va))"
    by (rule ld64_slot_cong) (use ptinv_table_aligned [OF inv tin] fr tin in auto)
  moreover have "tab (mem s1) r va d = Some t" using tab1 [of r va d] assms(2-5) by simp
  ultimately have lk: "linkable (mem s1) R r va d t p"
    unfolding linkable_def shape1(2) using shape1(1) assms(2-4) unused pa nt by simp
  have m2: "mem s2 = link_table (mem s1) t p va d" using s2 by (simp add: link_table_def)
  note L = link_shape [OF lk] leaf_link [OF lk] link_table_frame [OF lk]
  show "tab (mem s2) r va (Suc d) = Some p" unfolding m2 by (rule L(3))
  have lf: "leaf (mem s2) r' va' = leaf (mem s) r' va'" if "r' \<in> R" "va' < MAXVA" for r' va'
    unfolding m2 L(4) [OF that] by (rule leaf_frame [OF i(2) fr that])
  have tb: "tables (mem s2) R = insert p (tables (mem s) R)" unfolding m2 L(2) shape1(2) ..
  have qs: "p \<notin> set qs" "set qs \<inter> tables (mem s) R = {}" using i(1) i(4) by (auto simp: kinv_def)
  have kq: "kinv s2 qs"
  proof (rule kinv_frame [OF k1(1)])
    fix x assume "PGROUNDDOWN x \<in> set qs"
    then have "PGROUNDDOWN x \<noteq> t" "PGROUNDDOWN x \<noteq> p" using qs tin by auto
    then show "mem s2 x = mem s1 x" using L(5) m2 by simp
  qed (simp_all add: s2)
  have ref: "refcnt s2 (page_index q) = refcnt s (page_index q)" if "page_aligned q" "q \<noteq> p" for q
    using that page_index_inj [OF that(1) pa] by (auto simp: s2 k1(2))
  have refp: "refcnt s2 (page_index p) = 1" "end_addr s2 = end_addr s" "kmem.more s2 = kmem.more s"
    by (simp_all add: s2 k1(2-4))
  have okp: "page_ok s p" using i(1) by (simp add: kinv_def)
  have inv2: "ptinv s2 R qs" unfolding ptinv_def tb
  proof (intro conjI ballI allI impI)
    show "kinv s2 qs" by (rule kq)
    show "pt_shape (mem s2) R" unfolding m2 by (rule L(1))
  next
    fix u assume u: "u \<in> insert p (tables (mem s) R)"
    show "page_ok s2 u" using u okp i(3) [of u] refp(2) by (auto simp: page_ok_def)
    show "u \<notin> set qs" using u qs by auto
    show "refcnt s2 (page_index u) = 1"
      using u refp(1) ref [of u] i(5) [of u] ptinv_table_aligned [OF inv, of u] by (cases "u = p") auto
  next
    fix r' va' assume v: "r' \<in> R" "va' < MAXVA" "pte_valid (leaf (mem s2) r' va')"
    then have "PTE2PA (leaf (mem s2) r' va') \<notin> set (p # qs)" "PTE2PA (leaf (mem s2) r' va') \<notin> tables (mem s) R"
      using i(6,7) [of r' va'] lf by simp_all
    then show "PTE2PA (leaf (mem s2) r' va') \<notin> set qs"
      "PTE2PA (leaf (mem s2) r' va') \<notin> insert p (tables (mem s) R)" by auto
  qed
  have fr2: "mem s2 x = mem s x" if "PGROUNDDOWN x \<notin> tables (mem s) R \<union> set (p # qs)" for x
  proof -
    have "PGROUNDDOWN x \<noteq> t" "PGROUNDDOWN x \<noteq> p" using that tin by auto
    then show ?thesis using L(5) [of x] k1(5) [of x] m2 by simp
  qed
  have "\<exists>qs'. p # qs = qs' @ qs \<and> tables (mem s2) R = tables (mem s) R \<union> set qs'"
    using tb by (intro exI [of _ "[p]"]) auto
  then show "pt_grow R s (p # qs) s2 qs"
    unfolding pt_trans_def using inv2 refp(2,3) lf ref fr2 by simp
qed

lemma walk_levels_True:
  assumes "ptinv s R ps" "r \<in> R" "va < MAXVA" "l \<le> 2" "tab (mem s) r va (2 - l) = Some t"
    and "walk_levels l t va True s = (pte, s')"
  shows "\<exists>ps'. pt_grow R s ps s' ps' \<and> length ps \<le> length ps' + l \<and>
    (if pte = 0 then ps' = [] \<and> length ps < l
     else \<exists>t'. tab (mem s') r va 2 = Some t' \<and> pte = pte_slot t' (PX 0 va))"
  using assms
proof (induction l arbitrary: t s ps)
  case 0
  have "pte \<noteq> 0"
    using slot_nonzero [of t 0 va] ptinv_table_nonzero [OF 0(1)] ptinv_table_aligned [OF 0(1)]
      in_tables [OF 0(2,3) _ 0(5)] 0(6) by auto
  then show ?case using 0 pt_grow_refl by auto
next
  case (Suc l)
  let ?v = "ld64 (mem s) (pte_slot t (PX (Suc l) va))"
  define d where "d = 2 - Suc l"
  have d: "d < 2" "2 - l = Suc d" "2 - d = Suc l" using Suc.prems(4) by (auto simp: d_def)
  have td: "tab (mem s) r va d = Some t" using Suc.prems(5) by (simp add: d_def)
  show ?case
  proof (cases "pte_valid ?v")
    case True
    then have "tab (mem s) r va (2 - l) = Some (PTE2PA ?v)" using td by (simp add: d)
    then obtain ps' where "pt_grow R s ps s' ps' \<and> length ps \<le> length ps' + l \<and>
        (if pte = 0 then ps' = [] \<and> length ps < l
         else \<exists>t'. tab (mem s') r va 2 = Some t' \<and> pte = pte_slot t' (PX 0 va))"
      using Suc.IH [OF Suc.prems(1-3), of "PTE2PA ?v"] Suc.prems True by (auto simp: Let_def)
    then show ?thesis by (intro exI [of _ ps']) (simp split: if_splits)
  next
    case False
    show ?thesis
    proof (cases ps)
      case Nil
      then show ?thesis using kalloc_Nil [of s] ptinvD(1) [OF Suc.prems(1)] Suc.prems(1,6) False pt_grow_refl
        by (auto simp: Let_def)
    next
      case (Cons p qs)
      then have inv: "ptinv s R (p # qs)" using Suc.prems(1) by simp
      obtain s1 where k: "kalloc s = (p, s1)"
        using kalloc_Cons(1) [OF ptinvD(1) [OF inv]] by (cases "kalloc s") auto
      have p0: "p \<noteq> 0" using kinv_nonzero [OF ptinvD(1) [OF inv]] by simp
      define s2 where "s2 = s1\<lparr>mem := st64 (memset (mem s1) p 0 4096) (pte_slot t (PX (2 - d) va)) (PA2PTE p OR PTE_V)\<rparr>"
      have st: "pt_grow R s (p # qs) s2 qs" "tab (mem s2) r va (2 - l) = Some p"
        using link_step [OF inv Suc.prems(2,3) d(1) td _ k s2_def] False unfolding d(2) by (simp_all add: d(3))
      have "walk_levels l p va True s2 = (pte, s')"
        using Suc.prems(6) False k p0 by (simp add: Let_def s2_def d(3))
      then obtain ps' where "pt_grow R s2 qs s' ps'" "length qs \<le> length ps' + l"
        "if pte = 0 then ps' = [] \<and> length qs < l
         else \<exists>t'. tab (mem s') r va 2 = Some t' \<and> pte = pte_slot t' (PX 0 va)"
        using Suc.IH [OF pt_transD(1) [OF st(1)] Suc.prems(2,3) _ st(2)] Suc.prems(4) by auto
      then show ?thesis using pt_grow_trans [OF st(1)] Cons by (intro exI [of _ ps']) (simp split: if_splits)
    qed
  qed
qed

lemma walk_True:
  assumes "ptinv s R ps" "r \<in> R" "va < MAXVA"
  obtains pte s' ps' where "walk r va True s = Ok pte s'" "pt_grow R s ps s' ps'" "length ps \<le> length ps' + 2"
    "if pte = 0 then ps' = [] \<and> length ps < 2
     else \<exists>t'. tab (mem s') r va 2 = Some t' \<and> pte = pte_slot t' (PX 0 va)"
proof -
  obtain pte s' where w: "walk_levels 2 r va True s = (pte, s')" by (cases "walk_levels 2 r va True s")
  obtain ps' where "pt_grow R s ps s' ps'" "length ps \<le> length ps' + 2"
    "if pte = 0 then ps' = [] \<and> length ps < 2 else \<exists>t'. tab (mem s') r va 2 = Some t' \<and> pte = pte_slot t' (PX 0 va)"
    using walk_levels_True [OF assms, of 2 r pte s'] w by auto
  then show ?thesis using w assms(3) that by (simp add: walk_def not_le)
qed

section \<open>Writing an entry\<close>

definition upd_leaf :: "(u64 \<Rightarrow> u64 \<Rightarrow> u64) \<Rightarrow> u64 \<Rightarrow> u64 \<Rightarrow> u64 \<Rightarrow> u64 \<Rightarrow> u64 \<Rightarrow> u64" where
  "upd_leaf L r va v = (\<lambda>r' va'. if r' = r \<and> PGROUNDDOWN va' = PGROUNDDOWN va then v else L r' va')"

lemma set_leaf:
  assumes inv: "ptinv s R ps" and "r \<in> R" "va < MAXVA" "tab (mem s) r va 2 = Some t"
    and s': "s' = s\<lparr>mem := st64 (mem s) (pte_slot t (PX 0 va)) v\<rparr>"
    and v: "pte_valid v \<Longrightarrow> PTE2PA v \<notin> set ps \<and> PTE2PA v \<notin> tables (mem s) R"
  shows "pt_trans R s ps s' ps (upd_leaf (leaf (mem s)) r va v)"
proof -
  note i = ptinvD [OF inv]
  have tin: "t \<in> tables (mem s) R" using in_tables [OF assms(2-3) _ assms(4)] by simp
  have fr: "mem s' x = mem s x" if "PGROUNDDOWN x \<noteq> t" for x
    using that st64_slot_frame [OF ptinv_table_aligned [OF inv tin]] s' by simp
  have tab: "tab (mem s') r' va' d = tab (mem s) r' va' d" if "r' \<in> R" "va' < MAXVA" "d \<le> 2" for r' va' d
    using tab_leaf_store [OF i(2) assms(2-4) that] s' by simp
  have lf: "leaf (mem s') r' va' = upd_leaf (leaf (mem s)) r va v r' va'" if "r' \<in> R" "va' < MAXVA" for r' va'
    using leaf_store [OF i(2) assms(2-4) that] s' by (simp add: upd_leaf_def)
  have sh: "pt_shape (mem s') R" "tables (mem s') R = tables (mem s) R"
    by (rule pt_shape_tab_eq [OF i(2) tab]; assumption)+
  have "kinv s' ps"
  proof (rule kinv_frame [OF i(1)])
    fix x assume "PGROUNDDOWN x \<in> set ps"
    then show "mem s' x = mem s x" using fr [of x] i(4) [OF tin] by auto
  qed (simp_all add: s')
  moreover have "page_ok s' u \<and> u \<notin> set ps \<and> refcnt s' (page_index u) = 1" if "u \<in> tables (mem s) R" for u
    using i(3-5) [OF that] s' by (simp add: page_ok_def)
  moreover have "PTE2PA (upd_leaf (leaf (mem s)) r va v r' va') \<notin> set ps \<and>
      PTE2PA (upd_leaf (leaf (mem s)) r va v r' va') \<notin> tables (mem s) R"
    if "r' \<in> R" "va' < MAXVA" "pte_valid (upd_leaf (leaf (mem s)) r va v r' va')" for r' va'
    using that i(6,7) [OF that(1,2)] v by (auto simp: upd_leaf_def split: if_splits)
  ultimately have "ptinv s' R ps" unfolding ptinv_def sh(2) using sh(1) lf by simp
  moreover have "mem s' x = mem s x" if "PGROUNDDOWN x \<notin> tables (mem s) R \<union> set ps" for x
    using that tin by (intro fr) auto
  ultimately show ?thesis unfolding pt_trans_def using sh(2) lf by (simp add: s')
qed

end
