(* ===== verification/Uvm.thy ===== *)
theory Uvm
  imports Walk
begin

text \<open>
  Mapping and unmapping pages in a family of address spaces. \<open>vminv\<close> adds to the page-table
  invariant that the reference count of an allocated page is at least the number of entries that
  point to it; under it \<^verbatim>\<open>uvmunmap\<close> frees a page only when no other space maps it. \<open>uread\<close> is the byte
  a user load sees.
\<close>

section \<open>Reference counts and mappings\<close>

definition maps_to :: "memory \<Rightarrow> u64 set \<Rightarrow> u64 \<Rightarrow> (u64 \<times> u64) set" where
  "maps_to m R p =
     {(r, va). r \<in> R \<and> va < MAXVA \<and> page_aligned va \<and> pte_valid (leaf m r va) \<and> PTE2PA (leaf m r va) = p}"

definition refs_ok :: "'a kmem_scheme \<Rightarrow> u64 set \<Rightarrow> u64 list \<Rightarrow> bool" where
  "refs_ok s R ps \<longleftrightarrow>
     (\<forall>p. page_ok s p \<longrightarrow> p \<notin> set ps \<longrightarrow> p \<notin> tables (mem s) R \<longrightarrow>
        1 \<le> refcnt s (page_index p) \<and> int (card (maps_to (mem s) R p)) \<le> refcnt s (page_index p))"

definition vminv :: "'a kmem_scheme \<Rightarrow> u64 set \<Rightarrow> u64 list \<Rightarrow> bool" where
  "vminv s R ps \<longleftrightarrow> ptinv s R ps \<and> refs_ok s R ps"

lemma vminvD: "vminv s R ps \<Longrightarrow> ptinv s R ps" "vminv s R ps \<Longrightarrow> refs_ok s R ps"
  by (simp_all add: vminv_def)

lemma refs_okD:
  assumes "refs_ok s R ps" "page_ok s p" "p \<notin> set ps" "p \<notin> tables (mem s) R"
  shows "1 \<le> refcnt s (page_index p)" "int (card (maps_to (mem s) R p)) \<le> refcnt s (page_index p)"
  using assms by (auto simp: refs_ok_def)

lemma finite_u64_set [simp]: "finite (A :: (u64 \<times> u64) set)"
  by (rule finite_subset [OF subset_UNIV]) simp

lemma maps_to_cong:
  "(\<And>r va. r \<in> R \<Longrightarrow> va < MAXVA \<Longrightarrow> leaf m' r va = leaf m r va) \<Longrightarrow> maps_to m' R p = maps_to m R p"
  by (auto simp: maps_to_def)

lemma maps_to_upd:
  assumes "\<And>r' va'. r' \<in> R \<Longrightarrow> va' < MAXVA \<Longrightarrow> leaf m' r' va' = upd_leaf (leaf m) r va v r' va'"
    and "r \<in> R" "va < MAXVA" "page_aligned va"
  shows "maps_to m' R p =
    maps_to m R p - {(r, va)} \<union> (if pte_valid v \<and> PTE2PA v = p then {(r, va)} else {})"
proof -
  have "PGROUNDDOWN va' = PGROUNDDOWN va \<longleftrightarrow> va' = va" if "page_aligned va'" for va'
    using that assms(4) by (simp add: PGROUNDDOWN_aligned)
  then show ?thesis using assms by (auto simp: maps_to_def upd_leaf_def split: if_splits)
qed

lemma refs_ok_grow:
  assumes "refs_ok s R ps" "pt_grow R s ps s' ps'"
  shows "refs_ok s' R ps'"
  unfolding refs_ok_def
proof (intro allI impI)
  fix p assume p: "page_ok s' p" "p \<notin> set ps'" "p \<notin> tables (mem s') R"
  note tr = pt_transD [OF assms(2)]
  have q: "p \<notin> set ps" "p \<notin> tables (mem s) R" "page_ok s p" "page_aligned p"
    using p tr(2,5) tr(10) [of p] by (auto simp: page_ok_def)
  have "maps_to (mem s') R p = maps_to (mem s) R p" by (rule maps_to_cong) (rule tr(7))
  then show "1 \<le> refcnt s' (page_index p) \<and> int (card (maps_to (mem s') R p)) \<le> refcnt s' (page_index p)"
    using refs_okD [OF assms(1) q(3,1,2)] tr(8) [OF q(4,1)] by simp
qed

lemma vminv_grow: "vminv s R ps \<Longrightarrow> pt_grow R s ps s' ps' \<Longrightarrow> vminv s' R ps'"
  using refs_ok_grow pt_transD(1) by (auto simp: vminv_def)

section \<open>What a user load sees\<close>

definition uread :: "'a kmem_scheme \<Rightarrow> u64 \<Rightarrow> u64 \<Rightarrow> u8 option" where
  "uread s r va =
     (let v = leaf (mem s) r va
      in if va < MAXVA \<and> pte_valid v \<and> v AND PTE_U \<noteq> 0 \<and> v AND PTE_R \<noteq> 0
         then Some (mem s (PTE2PA v + (va - PGROUNDDOWN va))) else None)"

text \<open>A page of user data is untouched by a step that writes tables and free pages only.\<close>

lemma uread_frame:
  assumes "ptinv s R ps" "ptinv s' R ps'" "r \<in> R"
    and lf: "leaf (mem s') r va = leaf (mem s) r va"
    and "\<And>x. PGROUNDDOWN x \<notin> tables (mem s) R \<Longrightarrow> PGROUNDDOWN x \<notin> set ps \<Longrightarrow> PGROUNDDOWN x \<notin> set ps' \<Longrightarrow>
      mem s' x = mem s x"
  shows "uread s' r va = uread s r va"
proof (cases "va < MAXVA \<and> pte_valid (leaf (mem s) r va)")
  case True
  let ?p = "PTE2PA (leaf (mem s) r va)"
  have "PGROUNDDOWN (?p + (va - PGROUNDDOWN va)) = ?p" using page_offset_less [of va] by simp
  moreover have "?p \<notin> tables (mem s) R" "?p \<notin> set ps" "?p \<notin> set ps'"
    using ptinvD(6,7) [OF assms(1,3)] ptinvD(6) [OF assms(2,3), of va] True lf by auto
  ultimately show ?thesis using assms(5) lf by (simp add: uread_def Let_def)
next
  case False
  then show ?thesis using lf by (auto simp: uread_def Let_def)
qed

section \<open>Mapping one page\<close>

lemma pt_trans_upd:
  assumes "pt_grow R s ps s1 ps1" "pt_trans R s1 ps1 s2 ps2 (upd_leaf (leaf (mem s1)) r va v)"
  shows "pt_trans R s ps s2 ps2 (upd_leaf (leaf (mem s)) r va v)"
  by (rule pt_trans_cong [OF pt_trans_trans [OF assms]]) (simp add: upd_leaf_def pt_transD(7) [OF assms(1)])

lemma PGSIZE_aligned: "page_aligned PGSIZE"
  using page_aligned_add [of 0] by simp

lemma PGSIZE_nonzero: "PGSIZE \<noteq> 0"
  by (simp add: PGSIZE_def)

lemma mappages_page:
  assumes inv: "ptinv s R ps" and "r \<in> R" "va < MAXVA" "page_aligned va"
    and pa: "page_aligned pa" "flags_ok perm" "pa \<notin> set ps" "pa \<notin> tables (mem s) R"
    and free: "\<not> pte_valid (leaf (mem s) r va)"
  obtains (fail) s' where "mappages r va PGSIZE pa perm s = Ok (- 1) s'" "pt_grow R s ps s' []" "length ps < 2"
  | (ok) s' ps' where "mappages r va PGSIZE pa perm s = Ok 0 s'"
    "pt_trans R s ps s' ps' (upd_leaf (leaf (mem s)) r va (PA2PTE pa OR perm OR PTE_V))"
    "length ps \<le> length ps' + 2"
proof -
  obtain pte s1 ps1 where w: "walk r va True s = Ok pte s1" "pt_grow R s ps s1 ps1" "length ps \<le> length ps1 + 2"
    "if pte = 0 then ps1 = [] \<and> length ps < 2
     else \<exists>t'. tab (mem s1) r va 2 = Some t' \<and> pte = pte_slot t' (PX 0 va)"
    using walk_True [OF inv assms(2,3)] by blast
  note tr = pt_transD [OF w(2)]
  have unfold: "mappages r va PGSIZE pa perm s = mappages_loop r va va pa perm s"
    using assms(4) PGSIZE_aligned PGSIZE_nonzero by (simp add: mappages_def)
  show ?thesis
  proof (cases "pte = 0")
    case True
    then show ?thesis using w by (intro fail) (simp_all add: unfold mappages_loop.simps [of r va va])
  next
    case False
    then obtain t where t: "tab (mem s1) r va 2 = Some t" "pte = pte_slot t (PX 0 va)" using w(4) by auto
    let ?v = "PA2PTE pa OR perm OR PTE_V"
    let ?s' = "s1\<lparr>mem := st64 (mem s1) pte ?v\<rparr>"
    have "PTE2PA ?v = pa" using pa(1,2) by simp
    then have "pt_trans R s1 ps1 ?s' ps1 (upd_leaf (leaf (mem s1)) r va ?v)"
      using set_leaf [OF tr(1) assms(2,3) t(1), of ?s' ?v] t(2) tr(4,6) pa(3,4) by auto
    then have "pt_trans R s ps ?s' ps1 (upd_leaf (leaf (mem s)) r va ?v)"
      by (rule pt_trans_upd [OF w(2)])
    moreover have "ld64 (mem s1) pte = leaf (mem s) r va"
      using t tr(7) [OF assms(2,3)] by (simp add: leaf_def)
    then have "mappages r va PGSIZE pa perm s = Ok 0 ?s'"
      using w(1) False free by (simp add: unfold mappages_loop.simps [of r va va] Let_def)
    ultimately show ?thesis using w(3) by (intro ok)
  qed
qed

lemma vminv_map:
  assumes "vminv s R ps" "r \<in> R" "va < MAXVA" "page_aligned va" "\<not> pte_valid (leaf (mem s) r va)"
    and tr: "pt_trans R s ps s' ps' (upd_leaf (leaf (mem s)) r va v)"
    and pa: "page_ok s (PTE2PA v) \<Longrightarrow>
      int (card (maps_to (mem s) R (PTE2PA v))) < refcnt s (page_index (PTE2PA v))"
  shows "vminv s' R ps'"
  unfolding vminv_def refs_ok_def
proof (intro conjI allI impI)
  note t = pt_transD [OF tr]
  show "ptinv s' R ps'" by (rule t(1))
  fix p assume p: "page_ok s' p" "p \<notin> set ps'" "p \<notin> tables (mem s') R"
  have q: "p \<notin> set ps" "p \<notin> tables (mem s) R" "page_ok s p" "page_aligned p"
    using p t(2,5) t(10) [of p] by (auto simp: page_ok_def)
  note r = refs_okD [OF vminvD(2) [OF assms(1)] q(3,1,2)] and e = t(8) [OF q(4,1)]
  show "1 \<le> refcnt s' (page_index p)" using r e by simp
  have mt: "maps_to (mem s') R p =
      maps_to (mem s) R p - {(r, va)} \<union> (if pte_valid v \<and> PTE2PA v = p then {(r, va)} else {})"
    by (rule maps_to_upd [OF t(7) assms(2-4)])
  show "int (card (maps_to (mem s') R p)) \<le> refcnt s' (page_index p)"
  proof (cases "PTE2PA v = p")
    case True
    have "card (maps_to (mem s') R p) \<le> card (insert (r, va) (maps_to (mem s) R p))"
      unfolding mt by (rule card_mono) auto
    also have "\<dots> \<le> card (maps_to (mem s) R p) + 1" by (simp add: card_insert_if)
    finally show ?thesis using e pa q(3) True by simp
  next
    case False
    then have "card (maps_to (mem s') R p) \<le> card (maps_to (mem s) R p)"
      unfolding mt by (intro card_mono) auto
    then show ?thesis using r e by simp
  qed
qed

section \<open>Unmapping and freeing one page\<close>

text \<open>The body of the loop of \<^verbatim>\<open>uvmunmap\<close> with \<^verbatim>\<open>do_free\<close>: drop a reference, then clear the entry.\<close>

lemma unmap_shared:
  assumes inv: "vminv s R ps" and "r \<in> R" "va < MAXVA" "page_aligned va"
    and v: "v = leaf (mem s) r va" "pte_valid v" "page_ok s (PTE2PA v)"
    and shared: "1 < refcnt s (page_index (PTE2PA v))"
    and s': "s' = s\<lparr>refcnt := (refcnt s)(page_index (PTE2PA v) := refcnt s (page_index (PTE2PA v)) - 1),
                    mem := st64 (mem s) (leaf_slot (mem s) r va) 0\<rparr>"
  shows "vminv s' R ps" "\<And>r' va'. r' \<in> R \<Longrightarrow> va' < MAXVA \<Longrightarrow> leaf (mem s') r' va' = upd_leaf (leaf (mem s)) r va 0 r' va'"
    "tables (mem s') R = tables (mem s) R"
    "\<And>x. PGROUNDDOWN x \<notin> tables (mem s) R \<Longrightarrow> mem s' x = mem s x"
proof -
  note i = vminvD [OF inv]
  let ?p = "PTE2PA v"
  let ?s1 = "s\<lparr>refcnt := (refcnt s)(page_index ?p := refcnt s (page_index ?p) - 1)\<rparr>"
  have np: "?p \<notin> set ps" "?p \<notin> tables (mem s) R" using ptinvD(6,7) [OF i(1) assms(2,3)] v by auto
  have ref1: "refcnt ?s1 (page_index p) = refcnt s (page_index p)" if "page_aligned p" "p \<noteq> ?p" for p
    using that page_index_inj [OF that(1), of ?p] by auto
  have "ptinv ?s1 R ps"
  proof (rule ptinv_frame(1) [OF i(1)])
    fix p assume "p \<in> set ps \<union> tables (mem s) R"
    then have "page_aligned p" "p \<noteq> ?p"
      using np kinv_aligned [OF ptinvD(1) [OF i(1)]] ptinv_table_aligned [OF i(1)] by auto
    then show "refcnt ?s1 (page_index p) = refcnt s (page_index p)" by (rule ref1)
  qed simp_all
  moreover obtain t where t: "tab (mem s) r va 2 = Some t" "leaf_slot (mem s) r va = pte_slot t (PX 0 va)"
    using leaf_slot_valid [OF i(1) assms(2,3)] v by metis
  ultimately have tr: "pt_trans R ?s1 ps s' ps (upd_leaf (leaf (mem ?s1)) r va 0)"
    using s' by (intro set_leaf [of ?s1 R ps r va t s' 0]) (simp_all add: assms(2,3))
  note d = pt_transD [OF tr]
  show lf: "leaf (mem s') r' va' = upd_leaf (leaf (mem s)) r va 0 r' va'" if "r' \<in> R" "va' < MAXVA" for r' va'
    using d(7) [OF that] by simp
  show "tables (mem s') R = tables (mem s) R" using tr unfolding pt_trans_def by simp
  then have tb: "tables (mem s') R = tables (mem s) R" .
  show "mem s' x = mem s x" if "PGROUNDDOWN x \<notin> tables (mem s) R" for x
    using st64_slot_frame [of t x] ptinv_table_aligned [OF i(1)] in_tables [OF assms(2,3) _ t(1)] that t(2) s' by auto
  have "refs_ok s' R ps" unfolding refs_ok_def
  proof (intro allI impI)
    fix p assume p: "page_ok s' p" "p \<notin> set ps" "p \<notin> tables (mem s') R"
    then have q: "page_ok s p" "p \<notin> tables (mem s) R" "page_aligned p" using tb s' by (auto simp: page_ok_def)
    note r = refs_okD [OF i(2) q(1) p(2) q(2)]
    have mt: "maps_to (mem s') R p = maps_to (mem s) R p - {(r, va)}"
      using maps_to_upd [OF lf assms(2-4), of p] by simp
    show "1 \<le> refcnt s' (page_index p) \<and> int (card (maps_to (mem s') R p)) \<le> refcnt s' (page_index p)"
    proof (cases "p = ?p")
      case True
      then have "(r, va) \<in> maps_to (mem s) R p" using assms v by (auto simp: maps_to_def)
      then have "card (maps_to (mem s') R p) = card (maps_to (mem s) R p) - 1"
        "card (maps_to (mem s) R p) \<ge> 1"
        unfolding mt by (auto simp: card_Diff_singleton Suc_le_eq card_gt_0_iff)
      then show ?thesis using r True shared s' by auto
    next
      case False
      then have "refcnt s' (page_index p) = refcnt s (page_index p)" using ref1 [OF q(3)] s' by simp
      moreover have "card (maps_to (mem s') R p) \<le> card (maps_to (mem s) R p)"
        unfolding mt by (rule card_mono) auto
      ultimately show ?thesis using r by simp
    qed
  qed
  then show "vminv s' R ps" using d(1) by (simp add: vminv_def)
qed

lemma unmap_last:
  assumes inv: "vminv s R ps" and "r \<in> R" "va < MAXVA" "page_aligned va"
    and v: "v = leaf (mem s) r va" "pte_valid v" "page_ok s (PTE2PA v)"
    and last: "refcnt s (page_index (PTE2PA v)) = 1"
    and s1: "kinv s1 (PTE2PA v # ps)" "end_addr s1 = end_addr s"
      "refcnt s1 = (refcnt s)(page_index (PTE2PA v) := refcnt s (page_index (PTE2PA v)) - 1)"
      "\<And>x. PGROUNDDOWN x \<noteq> PTE2PA v \<Longrightarrow> mem s1 x = mem s x"
    and s': "s' = s1\<lparr>mem := st64 (mem s1) (leaf_slot (mem s) r va) 0\<rparr>"
  shows "vminv s' R (PTE2PA v # ps)"
    "\<And>r' va'. r' \<in> R \<Longrightarrow> va' < MAXVA \<Longrightarrow> leaf (mem s') r' va' = upd_leaf (leaf (mem s)) r va 0 r' va'"
    "tables (mem s') R = tables (mem s) R"
    "\<And>x. PGROUNDDOWN x \<notin> tables (mem s) R \<Longrightarrow> PGROUNDDOWN x \<noteq> PTE2PA v \<Longrightarrow> mem s' x = mem s x"
proof -
  note i = vminvD [OF inv]
  note j = ptinvD [OF i(1)]
  let ?p = "PTE2PA v"
  have np: "?p \<notin> set ps" "?p \<notin> tables (mem s) R" using ptinvD(6,7) [OF i(1) assms(2,3)] v by auto
  have fr1: "mem s1 x = mem s x" if "PGROUNDDOWN x \<in> tables (mem s) R" for x
    using that np by (intro s1(4)) auto
  have tab1: "tab (mem s1) r' va' d = tab (mem s) r' va' d" if "r' \<in> R" "va' < MAXVA" "d \<le> 2" for r' va' d
    by (rule tab_frame [OF j(2) fr1 that])
  have sh1: "pt_shape (mem s1) R" by (rule pt_shape_tab_eq(1) [OF j(2) tab1])
  obtain t where t: "tab (mem s) r va 2 = Some t" "leaf_slot (mem s) r va = pte_slot t (PX 0 va)"
    using leaf_slot_valid [OF i(1) assms(2,3)] v by metis
  have t1: "tab (mem s1) r va 2 = Some t" using tab1 [OF assms(2,3)] t(1) by simp
  have tin: "t \<in> tables (mem s) R" by (rule in_tables [OF assms(2,3) _ t(1)]) simp
  have m': "mem s' = st64 (mem s1) (pte_slot t (PX 0 va)) 0" using s' t(2) by simp
  have tab: "tab (mem s') r' va' d = tab (mem s) r' va' d" if "r' \<in> R" "va' < MAXVA" "d \<le> 2" for r' va' d
    unfolding m' using tab_leaf_store [OF sh1 assms(2,3) t1 that] tab1 [OF that] by simp
  show sh: "tables (mem s') R = tables (mem s) R" by (rule pt_shape_tab_eq(2) [OF j(2) tab])
  show lf: "leaf (mem s') r' va' = upd_leaf (leaf (mem s)) r va 0 r' va'" if "r' \<in> R" "va' < MAXVA" for r' va'
    unfolding m' using leaf_store [OF sh1 assms(2,3) t1 that, of 0] leaf_frame [OF j(2) fr1 that]
    by (simp add: upd_leaf_def)
  have fr2: "mem s' x = mem s1 x" if "PGROUNDDOWN x \<noteq> t" for x
    unfolding m' using st64_slot_frame [OF ptinv_table_aligned [OF i(1) tin] that] .
  show fr: "mem s' x = mem s x" if "PGROUNDDOWN x \<notin> tables (mem s) R" "PGROUNDDOWN x \<noteq> ?p" for x
    using fr2 [of x] s1(4) [of x] that tin by auto
  have k: "kinv s' (?p # ps)"
  proof (rule kinv_frame [OF s1(1)])
    fix x assume "PGROUNDDOWN x \<in> set (?p # ps)"
    then show "mem s' x = mem s1 x" using j(4) [OF tin] tin np by (intro fr2) auto
  qed (simp_all add: s')
  have ref: "refcnt s' (page_index p) = refcnt s (page_index p)" if "page_aligned p" "p \<noteq> ?p" for p
    using that page_index_inj [OF that(1), of ?p] s1(3) by (auto simp: s')
  have mine: "(r, va) \<in> maps_to (mem s) R ?p" using assms v by (auto simp: maps_to_def)
  have only: "maps_to (mem s) R ?p = {(r, va)}"
  proof -
    have "card (maps_to (mem s) R ?p) \<le> 1" using refs_okD(2) [OF i(2) v(3) np] last by simp
    then have "\<forall>a \<in> maps_to (mem s) R ?p. \<forall>b \<in> maps_to (mem s) R ?p. a = b"
      using card_le_Suc0_iff_eq [of "maps_to (mem s) R ?p"] by simp
    then show ?thesis using mine by blast
  qed
  have tgt: "PTE2PA (leaf (mem s') r' va') \<notin> set (?p # ps) \<and> PTE2PA (leaf (mem s') r' va') \<notin> tables (mem s) R"
    if a: "r' \<in> R" "va' < MAXVA" "pte_valid (leaf (mem s') r' va')" for r' va'
  proof -
    have eq: "leaf (mem s') r' va' = leaf (mem s) r' va'" "\<not> (r' = r \<and> PGROUNDDOWN va' = PGROUNDDOWN va)"
      using a lf [OF a(1,2)] by (auto simp: upd_leaf_def split: if_splits)
    then have "(r', PGROUNDDOWN va') \<notin> maps_to (mem s) R ?p"
      using only assms(4) by (auto simp: PGROUNDDOWN_aligned)
    then have "PTE2PA (leaf (mem s) r' va') \<noteq> ?p" using a eq(1) by (auto simp: maps_to_def)
    then show ?thesis using j(6,7) [OF a(1,2)] a(3) eq(1) by simp
  qed
  have tok: "page_ok s' u \<and> u \<notin> set (?p # ps) \<and> refcnt s' (page_index u) = 1" if "u \<in> tables (mem s) R" for u
    using j(3-5) [OF that] ref [of u] ptinv_table_aligned [OF i(1) that] np that s1(2)
    by (auto simp: page_ok_def s')
  have "ptinv s' R (?p # ps)"
    unfolding ptinv_def sh using k pt_shape_tab_eq(1) [OF j(2) tab] tok tgt by simp
  moreover have "refs_ok s' R (?p # ps)" unfolding refs_ok_def
  proof (intro allI impI)
    fix p assume p: "page_ok s' p" "p \<notin> set (?p # ps)" "p \<notin> tables (mem s') R"
    then have q: "page_ok s p" "p \<notin> set ps" "p \<notin> tables (mem s) R" "page_aligned p" "p \<noteq> ?p"
      using sh s1(2) by (auto simp: page_ok_def s')
    have "card (maps_to (mem s') R p) \<le> card (maps_to (mem s) R p)"
      using maps_to_upd [OF lf assms(2-4), of p] by (intro card_mono) auto
    then show "1 \<le> refcnt s' (page_index p) \<and> int (card (maps_to (mem s') R p)) \<le> refcnt s' (page_index p)"
      using refs_okD [OF i(2) q(1-3)] ref [OF q(4,5)] by simp
  qed
  ultimately show "vminv s' R (?p # ps)" by (simp add: vminv_def)
qed

section \<open>Steps that only take pages away from user spaces\<close>

definition owned :: "'a kmem_scheme \<Rightarrow> u64 set \<Rightarrow> u64 list \<Rightarrow> u64 set" where
  "owned s R ps = tables (mem s) R \<union> set ps"

text \<open>
  \<open>vm_trans R s ps s' ps' L\<close>: the entries are now given by \<open>L\<close>, pages may have become free or tables,
  and all other memory is unchanged. These steps compose.
\<close>

definition vm_trans ::
  "u64 set \<Rightarrow> 'a kmem_scheme \<Rightarrow> u64 list \<Rightarrow> 'a kmem_scheme \<Rightarrow> u64 list \<Rightarrow> (u64 \<Rightarrow> u64 \<Rightarrow> u64) \<Rightarrow> bool" where
  "vm_trans R s ps s' ps' L \<longleftrightarrow>
     vminv s' R ps' \<and> end_addr s' = end_addr s \<and> kmem.more s' = kmem.more s \<and>
     owned s R ps \<subseteq> owned s' R ps' \<and>
     (\<forall>r \<in> R. \<forall>va < MAXVA. leaf (mem s') r va = L r va) \<and>
     (\<forall>x. PGROUNDDOWN x \<notin> owned s' R ps' \<longrightarrow> mem s' x = mem s x)"

lemma vm_transD:
  assumes "vm_trans R s ps s' ps' L"
  shows "vminv s' R ps'" "end_addr s' = end_addr s" "kmem.more s' = kmem.more s"
    and "owned s R ps \<subseteq> owned s' R ps'"
    and "r \<in> R \<Longrightarrow> va < MAXVA \<Longrightarrow> leaf (mem s') r va = L r va"
    and "PGROUNDDOWN x \<notin> owned s' R ps' \<Longrightarrow> mem s' x = mem s x"
  using assms by (auto simp: vm_trans_def)

lemma vm_trans_refl: "vminv s R ps \<Longrightarrow> vm_trans R s ps s ps (leaf (mem s))"
  by (simp add: vm_trans_def)

lemma vm_trans_trans:
  assumes "vm_trans R s ps s1 ps1 L1" "vm_trans R s1 ps1 s2 ps2 L2"
    and "\<And>r va. r \<in> R \<Longrightarrow> va < MAXVA \<Longrightarrow> L2 r va = L r va"
  shows "vm_trans R s ps s2 ps2 L"
proof -
  have "mem s2 x = mem s x" if "PGROUNDDOWN x \<notin> owned s2 R ps2" for x
    using vm_transD(6) [OF assms(1), of x] vm_transD(4,6) [OF assms(2)] that by auto
  then show ?thesis using vm_transD [OF assms(1)] vm_transD [OF assms(2)] assms(3)
    by (auto simp: vm_trans_def)
qed

lemma vm_trans_pt:
  assumes "pt_trans R s ps s' ps' L" "vminv s' R ps'"
  shows "vm_trans R s ps s' ps' L"
proof -
  obtain qs where "ps = qs @ ps'" "tables (mem s') R = tables (mem s) R \<union> set qs"
    using assms(1) by (auto simp: pt_trans_def)
  then have "owned s R ps = owned s' R ps'" by (auto simp: owned_def)
  then show ?thesis using assms unfolding vm_trans_def pt_trans_def by (auto simp: owned_def)
qed

lemma vm_trans_uread:
  assumes "vm_trans R s ps s' ps' L" "r \<in> R" "L r va = leaf (mem s) r va"
  shows "uread s' r va = uread s r va"
proof (cases "va < MAXVA \<and> pte_valid (leaf (mem s) r va)")
  case True
  let ?p = "PTE2PA (leaf (mem s) r va)"
  have lf: "leaf (mem s') r va = leaf (mem s) r va" using vm_transD(5) [OF assms(1,2)] True assms(3) by simp
  have "PGROUNDDOWN (?p + (va - PGROUNDDOWN va)) = ?p" using page_offset_less [of va] by simp
  moreover have "?p \<notin> owned s' R ps'"
    using ptinvD(6,7) [OF vminvD(1) [OF vm_transD(1) [OF assms(1)]] assms(2), of va] True lf
    by (simp add: owned_def)
  ultimately show ?thesis using vm_transD(6) [OF assms(1)] lf by (simp add: uread_def Let_def)
next
  case False
  then have "va < MAXVA \<Longrightarrow> \<not> pte_valid (leaf (mem s') r va)"
    using vm_transD(5) [OF assms(1,2)] assms(3) by simp
  then show ?thesis using False by (auto simp: uread_def Let_def)
qed

section \<open>Runs of pages\<close>

definition in_pages :: "u64 \<Rightarrow> nat \<Rightarrow> u64 \<Rightarrow> bool" where
  "in_pages a n va \<longleftrightarrow> unat a \<le> unat va \<and> unat va < unat a + n * 4096"

lemma unat_page_split: "unat va = unat (PGROUNDDOWN va) + unat (va - PGROUNDDOWN va)"
  using unat_sub [OF PGROUNDDOWN_le [of va]] PGROUNDDOWN_le [of va] by (simp add: word_le_nat_alt)

lemma aligned_unatE:
  assumes "page_aligned a"
  obtains k where "unat a = 4096 * k"
  using assms by (auto simp: page_aligned_unat elim: mod_eqE)

lemma page_eq_range:
  assumes "page_aligned a"
  shows "PGROUNDDOWN va = a \<longleftrightarrow> unat a \<le> unat va \<and> unat va < unat a + 4096"
proof -
  obtain k where k: "unat a = 4096 * k" using aligned_unatE [OF assms] .
  obtain j where j: "unat (PGROUNDDOWN va) = 4096 * j" by (rule aligned_unatE [of "PGROUNDDOWN va"]) simp_all
  have "unat (va - PGROUNDDOWN va) < 4096"
    using page_offset_less [of va] by (simp add: word_less_nat_alt PGSIZE_def)
  then have "unat a \<le> unat va \<and> unat va < unat a + 4096 \<longleftrightarrow> k = j"
    using unat_page_split [of va] k j by auto
  also have "\<dots> \<longleftrightarrow> unat (PGROUNDDOWN va) = unat a" using k j by auto
  finally show ?thesis by (simp add: word_unat_eq_iff)
qed

lemma in_pages_Suc:
  assumes "page_aligned a" "a < MAXVA"
  shows "in_pages a (Suc n) va \<longleftrightarrow> PGROUNDDOWN va = a \<or> in_pages (a + PGSIZE) n va"
  using page_eq_range [OF assms(1), of va] next_va [OF assms(2)] by (auto simp: in_pages_def)

lemma in_pages_0 [simp]: "\<not> in_pages a 0 va"
  by (simp add: in_pages_def)

lemma in_pages_page:
  assumes "page_aligned a"
  shows "in_pages a n (PGROUNDDOWN va) \<longleftrightarrow> in_pages a n va"
proof -
  obtain k where k: "unat a = 4096 * k" using aligned_unatE [OF assms] .
  obtain j where j: "unat (PGROUNDDOWN va) = 4096 * j" by (rule aligned_unatE [of "PGROUNDDOWN va"]) simp_all
  have "unat (va - PGROUNDDOWN va) < 4096"
    using page_offset_less [of va] by (simp add: word_less_nat_alt PGSIZE_def)
  moreover have "4096 * j < 4096 * k + n * 4096 \<longleftrightarrow> j < k + n" by linarith
  ultimately show ?thesis using unat_page_split [of va] k j by (auto simp: in_pages_def)
qed

lemma unat_run_end: "unat a + n * 4096 \<le> 2 ^ 38 \<Longrightarrow> unat (a + of_nat n * PGSIZE) = unat a + n * 4096"
  by (simp add: unat_word_ariths PGSIZE_def unat_of_nat)

section \<open>Unmapping\<close>

lemma unmap_page:
  assumes inv: "vminv s R ps" and "r \<in> R" "va < MAXVA" "page_aligned va"
    and v: "v = leaf (mem s) r va" "pte_valid v" "page_ok s (PTE2PA v)"
  obtains s1 s' ps' where "kfree (PTE2PA v) s = Ok () s1"
    "s' = s1\<lparr>mem := st64 (mem s1) (leaf_slot (mem s) r va) 0\<rparr>"
    "vm_trans R s ps s' ps' (upd_leaf (leaf (mem s)) r va 0)" "set ps \<subseteq> set ps'"
proof -
  note i = vminvD [OF inv]
  let ?p = "PTE2PA v"
  have np: "?p \<notin> set ps" "?p \<notin> tables (mem s) R" using ptinvD(6,7) [OF i(1) assms(2,3)] v by auto
  have ge: "1 \<le> refcnt s (page_index ?p)" using refs_okD(1) [OF i(2) v(3) np] .
  show ?thesis
  proof (cases "1 < refcnt s (page_index ?p)")
    case True
    let ?s1 = "s\<lparr>refcnt := (refcnt s)(page_index ?p := refcnt s (page_index ?p) - 1)\<rparr>"
    let ?s' = "?s1\<lparr>mem := st64 (mem ?s1) (leaf_slot (mem s) r va) 0\<rparr>"
    have eq: "?s' = s\<lparr>refcnt := (refcnt s)(page_index ?p := refcnt s (page_index ?p) - 1),
        mem := st64 (mem s) (leaf_slot (mem s) r va) 0\<rparr>" by simp
    note u = unmap_shared [OF inv assms(2-4) v True eq]
    show ?thesis
    proof (rule that)
      show "kfree ?p s = Ok () ?s1" by (rule kfree_shared [OF v(3) True])
      show "vm_trans R s ps ?s' ps (upd_leaf (leaf (mem s)) r va 0)"
        unfolding vm_trans_def owned_def u(3) using u(1,2,4) by simp
    qed simp_all
  next
    case False
    then have one: "refcnt s (page_index ?p) = 1" using ge by simp
    obtain s1 where s1: "kfree ?p s = Ok () s1" "kinv s1 (?p # ps)" "end_addr s1 = end_addr s"
      "kmem.more s1 = kmem.more s"
      "refcnt s1 = (refcnt s)(page_index ?p := refcnt s (page_index ?p) - 1)"
      "\<And>x. PGROUNDDOWN x \<noteq> ?p \<Longrightarrow> mem s1 x = mem s x"
      using kfree_push [OF ptinvD(1) [OF i(1)] v(3) np(1)] one by auto
    define s' where s': "s' = s1\<lparr>mem := st64 (mem s1) (leaf_slot (mem s) r va) 0\<rparr>"
    have f: "end_addr s' = end_addr s" "kmem.more s' = kmem.more s" using s1(3,4) by (simp_all add: s')
    note u = unmap_last [OF inv assms(2-4) v one s1(2,3,5,6) s']
    have tb: "tables (mem s') R = tables (mem s) R" by (rule u(3))
    have "vm_trans R s ps s' (?p # ps) (upd_leaf (leaf (mem s)) r va 0)"
      unfolding vm_trans_def owned_def tb using u(1,2,4) f by auto
    then show ?thesis by (rule that [OF s1(1) s']) auto
  qed
qed

text \<open>The pages that \<^verbatim>\<open>uvmunmap\<close> may free: user pages of physical memory, mapped as leaves.\<close>

definition user_page :: "'a kmem_scheme \<Rightarrow> u64 \<Rightarrow> u64 \<Rightarrow> bool" where
  "user_page s r va \<longleftrightarrow>
     (let v = leaf (mem s) r va
      in pte_valid v \<and> PTE_FLAGS v \<noteq> PTE_V \<and> page_ok s (PTE2PA v))"

lemma user_page_page: "PGROUNDDOWN va = PGROUNDDOWN va' \<Longrightarrow> user_page s r va = user_page s r va'"
  using leaf_page [of va va'] by (simp add: user_page_def Let_def)

lemma uvmunmap_loop_free:
  assumes "vminv s R ps" "r \<in> R" "page_aligned a" "unat a + n * 4096 \<le> 2 ^ 38"
    and "\<And>va. in_pages a n va \<Longrightarrow> user_page s r va"
  shows "\<exists>s' ps'. uvmunmap_loop r a (a + of_nat n * PGSIZE) True s = Ok () s' \<and> set ps \<subseteq> set ps' \<and>
    vm_trans R s ps s' ps' (\<lambda>r' va. if r' = r \<and> in_pages a n va then 0 else leaf (mem s) r' va)"
  using assms
proof (induction n arbitrary: a s ps)
  case 0
  then show ?case using vm_trans_refl by (subst uvmunmap_loop.simps) auto
next
  case (Suc n)
  have lt: "a < MAXVA" using Suc.prems(4) by (simp add: MAXVA_def word_less_nat_alt)
  have nx: "unat (a + PGSIZE) = unat a + 4096" by (rule next_va [OF lt])
  have stop: "a + of_nat (Suc n) * PGSIZE = (a + PGSIZE) + of_nat n * PGSIZE" by (simp add: algebra_simps)
  have more: "a < a + of_nat (Suc n) * PGSIZE"
    using unat_run_end [OF Suc.prems(4)] by (simp add: word_less_nat_alt del: of_nat_Suc)
  let ?v = "leaf (mem s) r a"
  have v: "pte_valid ?v" "PTE_FLAGS ?v \<noteq> PTE_V" "page_ok s (PTE2PA ?v)"
    using Suc.prems(5) [of a] by (auto simp: in_pages_def user_page_def Let_def)
  note pt = vminvD(1) [OF Suc.prems(1)]
  obtain s1 s2 ps2 where s2: "kfree (PTE2PA ?v) s = Ok () s1"
    "s2 = s1\<lparr>mem := st64 (mem s1) (leaf_slot (mem s) r a) 0\<rparr>"
    "vm_trans R s ps s2 ps2 (upd_leaf (leaf (mem s)) r a 0)" "set ps \<subseteq> set ps2"
    using unmap_page [OF Suc.prems(1,2) lt Suc.prems(3) refl v(1,3)] by blast
  note d = vm_transD [OF s2(3)]
  have pga: "PGROUNDDOWN a = a" by (rule PGROUNDDOWN_aligned [OF Suc.prems(3)])
  have up: "user_page s2 r va" if "in_pages (a + PGSIZE) n va" for va
  proof -
    have "unat va < 2 ^ 38" using that nx Suc.prems(4) by (simp add: in_pages_def)
    then have "va < MAXVA" by (simp add: MAXVA_def word_less_nat_alt)
    moreover have "PGROUNDDOWN va \<noteq> a"
      using that nx page_eq_range [OF Suc.prems(3), of va] by (auto simp: in_pages_def)
    moreover have "user_page s r va" using Suc.prems(5) that in_pages_Suc [OF Suc.prems(3) lt] by blast
    ultimately show ?thesis using d(5) [OF Suc.prems(2)] d(2) pga
      by (simp add: user_page_def Let_def upd_leaf_def page_ok_def)
  qed
  obtain s' ps' where ih: "uvmunmap_loop r (a + PGSIZE) ((a + PGSIZE) + of_nat n * PGSIZE) True s2 = Ok () s'"
    "set ps2 \<subseteq> set ps'"
    "vm_trans R s2 ps2 s' ps' (\<lambda>r' va. if r' = r \<and> in_pages (a + PGSIZE) n va then 0 else leaf (mem s2) r' va)"
    using Suc.IH [OF d(1) Suc.prems(2) page_aligned_add [OF Suc.prems(3)] _ up] nx Suc.prems(4) by auto
  have "leaf_slot (mem s) r a \<noteq> 0" "ld64 (mem s) (leaf_slot (mem s) r a) = ?v"
    using leaf_slot_valid [OF pt Suc.prems(2) lt v(1)] by metis+
  then have "uvmunmap_loop r a (a + of_nat (Suc n) * PGSIZE) True s = Ok () s'"
    using ih(1) s2(1,2) more v walk_False [OF lt, of r s] unfolding stop
    by (subst uvmunmap_loop.simps) (simp add: Let_def)
  moreover have "vm_trans R s ps s' ps' (\<lambda>r' va. if r' = r \<and> in_pages a (Suc n) va then 0 else leaf (mem s) r' va)"
    by (rule vm_trans_trans [OF s2(3) ih(3)])
      (use d(5) in_pages_Suc [OF Suc.prems(3) lt] pga in \<open>auto simp: upd_leaf_def\<close>)
  ultimately show ?case using s2(4) ih(2) by blast
qed

end
