(* ===== verification/Cow.thy ===== *)
theory Cow
  imports Uvm
begin

text \<open>
  Copy-on-write. \<^verbatim>\<open>uvmcopy\<close> shares the pages of the parent with the child and withdraws write
  permission from both; \<^verbatim>\<open>handle_cow_fault\<close> gives the faulting process a page of its own. The results:
  both operations keep the invariants, neither changes what any process reads, and after the fault
  handler the page is mapped exactly once. Together with \<open>excl\<close> (a writable user page is mapped
  once) a store is visible to the storing process only, as if \<^verbatim>\<open>fork\<close> had copied every page.
\<close>

section \<open>Entries before and after\<close>

definition cow_flags :: "u64 \<Rightarrow> u64" where
  "cow_flags v =
     (if PTE_FLAGS v AND PTE_W \<noteq> 0 then (PTE_FLAGS v AND NOT PTE_W) OR PTE_COW else PTE_FLAGS v)"

definition cow_entry :: "u64 \<Rightarrow> u64" where
  "cow_entry v = (if PTE_FLAGS v AND PTE_W \<noteq> 0 then PA2PTE (PTE2PA v) OR cow_flags v else v)"

definition child_entry :: "u64 \<Rightarrow> u64" where
  "child_entry v = PA2PTE (PTE2PA v) OR cow_flags v OR PTE_V"

definition private_flags :: "u64 \<Rightarrow> u64" where
  "private_flags v = (PTE_FLAGS v OR PTE_W) AND NOT PTE_COW"

text \<open>Two entries let a user read the same bytes.\<close>

definition same_view :: "u64 \<Rightarrow> u64 \<Rightarrow> bool" where
  "same_view v w \<longleftrightarrow> PTE2PA v = PTE2PA w \<and> (\<forall>n \<in> {0, 1, 4}. bit v n = bit w n)"

lemma cow_flags_ok [simp]: "flags_ok (cow_flags v)"
  by (simp add: cow_flags_def)

lemma private_flags_ok [simp]: "flags_ok (private_flags v)"
  by (simp add: private_flags_def)

lemma W_flag: "PTE_FLAGS v AND PTE_W = 0 \<longleftrightarrow> \<not> bit v 2"
  by (simp add: PTE_bits bit_PTE_FLAGS)

lemma bit_cow_flags:
  "bit (cow_flags v) n \<longleftrightarrow> n < 10 \<and> (if bit v 2 then n = 8 \<or> bit v n \<and> n \<noteq> 2 else bit v n)"
  by (auto simp: cow_flags_def W_flag bit_or_iff bit_and_iff bit_not_iff bit_PTE bit_PTE_FLAGS
      dest: bit_imp_le_length)

lemma PTE2PA_cow [simp]: "PTE2PA (cow_entry v) = PTE2PA v" "PTE2PA (child_entry v) = PTE2PA v"
  by (simp_all add: cow_entry_def child_entry_def)

lemma bit_cow_entry: "n < 10 \<Longrightarrow> bit (cow_entry v) n \<longleftrightarrow> bit (cow_flags v) n"
  by (auto simp: cow_entry_def W_flag bit_make_low bit_cow_flags)

lemma bit_child_entry: "n < 10 \<Longrightarrow> bit (child_entry v) n \<longleftrightarrow> bit (cow_flags v) n \<or> n = 0"
  by (simp add: child_entry_def bit_PA2PTE bit_or_iff bit_PTE)

lemma cow_same_view: "same_view (cow_entry v) v"
  by (simp add: same_view_def bit_cow_entry bit_cow_flags)

lemma child_same_view: "pte_valid v \<Longrightarrow> same_view (child_entry v) v"
  by (auto simp: same_view_def bit_child_entry bit_cow_flags pte_valid_def)

lemma cow_not_writable: "\<not> bit (cow_entry v) 2" "\<not> bit (child_entry v) 2"
  by (simp_all add: bit_cow_entry bit_child_entry bit_cow_flags)

lemma cow_valid: "pte_valid (cow_entry v) \<longleftrightarrow> pte_valid v" "pte_valid (child_entry v)"
  using cow_same_view [of v] by (auto simp: same_view_def pte_valid_def bit_child_entry)

lemma same_view_refl: "same_view v v"
  by (simp add: same_view_def)

lemma uread_same_view:
  assumes "same_view (leaf (mem s') r' va) (leaf (mem s) r va)"
    and "va < MAXVA \<Longrightarrow> pte_valid (leaf (mem s) r va) \<Longrightarrow>
      mem s' (PTE2PA (leaf (mem s) r va) + (va - PGROUNDDOWN va)) =
      mem s (PTE2PA (leaf (mem s) r va) + (va - PGROUNDDOWN va))"
  shows "uread s' r' va = uread s r va"
proof -
  have "bit (leaf (mem s') r' va) n = bit (leaf (mem s) r va) n" if "n \<in> {0, 1, 4}" for n
    using assms(1) that by (auto simp: same_view_def)
  then have "pte_valid (leaf (mem s') r' va) = pte_valid (leaf (mem s) r va)"
    "(leaf (mem s') r' va AND PTE_U = 0) = (leaf (mem s) r va AND PTE_U = 0)"
    "(leaf (mem s') r' va AND PTE_R = 0) = (leaf (mem s) r va AND PTE_R = 0)"
    by (simp_all add: pte_valid_def PTE_bits)
  moreover have "PTE2PA (leaf (mem s') r' va) = PTE2PA (leaf (mem s) r va)"
    using assms(1) by (simp add: same_view_def)
  ultimately show ?thesis using assms(2) by (simp add: uread_def Let_def)
qed

lemma vm_trans_same_view:
  assumes "vm_trans R s ps s' ps' L" "r' \<in> R" "same_view (L r' va) (leaf (mem s) r va)"
  shows "uread s' r' va = uread s r va"
proof (cases "va < MAXVA")
  case True
  have lf: "leaf (mem s') r' va = L r' va" by (rule vm_transD(5) [OF assms(1,2) True])
  show ?thesis
  proof (rule uread_same_view)
    show "same_view (leaf (mem s') r' va) (leaf (mem s) r va)" using assms(3) lf by simp
    let ?p = "PTE2PA (leaf (mem s) r va)"
    assume v: "pte_valid (leaf (mem s) r va)"
    have "pte_valid (leaf (mem s') r' va)" "PTE2PA (leaf (mem s') r' va) = ?p"
      using assms(3) lf v by (auto simp: same_view_def pte_valid_def)
    then have "?p \<notin> owned s' R ps'"
      using ptinvD(6,7) [OF vminvD(1) [OF vm_transD(1) [OF assms(1)]] assms(2) True]
      by (simp add: owned_def)
    moreover have "PGROUNDDOWN (?p + (va - PGROUNDDOWN va)) = ?p" using page_offset_less [of va] by simp
    ultimately show "mem s' (?p + (va - PGROUNDDOWN va)) = mem s (?p + (va - PGROUNDDOWN va))"
      using vm_transD(6) [OF assms(1)] by simp
  qed
next
  case False
  then show ?thesis by (simp add: uread_def)
qed

section \<open>Copying one page\<close>

lemma card_maps_upd:
  assumes "\<And>r' va'. r' \<in> R \<Longrightarrow> va' < MAXVA \<Longrightarrow> leaf m' r' va' = upd_leaf (leaf m) r va v r' va'"
    and "r \<in> R" "va < MAXVA" "page_aligned va"
  shows "card (maps_to m' R p) \<le> card (maps_to m R p) + (if PTE2PA v = p then 1 else 0)"
proof -
  have mt: "maps_to m' R p =
      maps_to m R p - {(r, va)} \<union> (if pte_valid v \<and> PTE2PA v = p then {(r, va)} else {})"
    by (rule maps_to_upd [OF assms])
  show ?thesis
  proof (cases "PTE2PA v = p")
    case True
    have "card (maps_to m' R p) \<le> card (insert (r, va) (maps_to m R p))"
      unfolding mt by (rule card_mono) auto
    also have "\<dots> \<le> card (maps_to m R p) + 1" by (simp add: card_insert_if)
    finally show ?thesis using True by simp
  next
    case False
    then have "card (maps_to m' R p) \<le> card (maps_to m R p)" unfolding mt by (intro card_mono) auto
    then show ?thesis using False by simp
  qed
qed

text \<open>Rewriting an entry without changing its page keeps the invariant.\<close>

lemma vminv_same_page:
  assumes inv: "vminv s R ps" and "r \<in> R" "va < MAXVA" "page_aligned va"
    and tr: "pt_trans R s ps s' ps (upd_leaf (leaf (mem s)) r va v)"
    and v: "pte_valid (leaf (mem s) r va)" "pte_valid v" "PTE2PA v = PTE2PA (leaf (mem s) r va)"
  shows "vminv s' R ps"
  unfolding vminv_def refs_ok_def
proof (intro conjI allI impI)
  note t = pt_transD [OF tr]
  show "ptinv s' R ps" by (rule t(1))
  fix p assume p: "page_ok s' p" "p \<notin> set ps" "p \<notin> tables (mem s') R"
  then have q: "page_ok s p" "p \<notin> tables (mem s) R" "page_aligned p"
    using t(2,5) by (auto simp: page_ok_def)
  have "maps_to (mem s') R p =
      maps_to (mem s) R p - {(r, va)} \<union> (if pte_valid v \<and> PTE2PA v = p then {(r, va)} else {})"
    by (rule maps_to_upd [OF t(7) assms(2-4)])
  also have "\<dots> = maps_to (mem s) R p" using v assms(2-4) by (auto simp: maps_to_def)
  finally have "maps_to (mem s') R p = maps_to (mem s) R p" .
  then show "1 \<le> refcnt s' (page_index p)" "int (card (maps_to (mem s') R p)) \<le> refcnt s' (page_index p)"
    using refs_okD [OF vminvD(2) [OF inv] q(1) p(2) q(2)] t(8) [OF q(3) p(2)] by simp_all
qed

text \<open>A new mapping with its reference counted.\<close>

lemma vminv_map_incref:
  assumes inv: "vminv s R ps" and "r \<in> R" "va < MAXVA" "page_aligned va"
    and tr: "pt_trans R s ps s2 ps' (upd_leaf (leaf (mem s)) r va v)"
    and v: "pte_valid v" "page_ok s (PTE2PA v)"
    and s3: "s3 = s2\<lparr>refcnt := (refcnt s2)(page_index (PTE2PA v) := refcnt s2 (page_index (PTE2PA v)) + 1)\<rparr>"
  shows "vm_trans R s ps s3 ps' (upd_leaf (leaf (mem s)) r va v)"
proof -
  note t = pt_transD [OF tr]
  let ?p = "PTE2PA v"
  have lf: "leaf (mem s2) r va = v" using t(7) [OF assms(2,3)] by (simp add: upd_leaf_def)
  have np: "?p \<notin> set ps'" "?p \<notin> tables (mem s2) R"
    using ptinvD(6,7) [OF t(1) assms(2,3)] lf v(1) by auto
  have ref: "refcnt s3 (page_index p) = refcnt s2 (page_index p) + (if p = ?p then 1 else 0)"
    if "page_aligned p" for p
    using page_index_inj [OF that, of ?p] s3 by auto
  have pt: "ptinv s3 R ps'"
  proof (rule ptinv_frame(1) [OF t(1)])
    fix p assume "p \<in> set ps' \<union> tables (mem s2) R"
    then have "page_aligned p" "p \<noteq> ?p"
      using np kinv_aligned [OF ptinvD(1) [OF t(1)]] ptinv_table_aligned [OF t(1)] by auto
    then show "refcnt s3 (page_index p) = refcnt s2 (page_index p)" using ref by simp
  qed (simp_all add: s3)
  have m3: "mem s3 = mem s2" by (simp add: s3)
  have "refs_ok s3 R ps'" unfolding refs_ok_def m3
  proof (intro allI impI)
    fix p assume p: "page_ok s3 p" "p \<notin> set ps'" "p \<notin> tables (mem s2) R"
    have q: "p \<notin> set ps" "p \<notin> tables (mem s) R" "page_ok s p" "page_aligned p"
      using p t(2,5) t(10) [of p] by (auto simp: page_ok_def s3)
    have "card (maps_to (mem s2) R p) \<le> card (maps_to (mem s) R p) + (if ?p = p then 1 else 0)"
      by (rule card_maps_upd [OF t(7) assms(2-4)])
    then show "1 \<le> refcnt s3 (page_index p) \<and> int (card (maps_to (mem s2) R p)) \<le> refcnt s3 (page_index p)"
      using refs_okD [OF vminvD(2) [OF inv] q(3,1,2)] t(8) [OF q(4,1)] ref [OF q(4)] by (auto split: if_splits)
  qed
  then have "vminv s3 R ps'" using pt by (simp add: vminv_def)
  moreover obtain qs where "ps = qs @ ps'" "tables (mem s2) R = tables (mem s) R \<union> set qs"
    using tr by (auto simp: pt_trans_def)
  then have ow: "owned s R ps = owned s3 R ps'" by (auto simp: owned_def m3)
  moreover have "mem s3 x = mem s x" if "PGROUNDDOWN x \<notin> owned s3 R ps'" for x
    using t(9) [of x] that ow m3 by (auto simp: owned_def)
  ultimately show ?thesis unfolding vm_trans_def using t(2,3,7) by (simp add: s3)
qed

text \<open>The body of the loop of \<^verbatim>\<open>uvmcopy\<close> up to the call of \<^verbatim>\<open>mappages\<close>: the entry of the parent.\<close>

lemma cow_parent_step:
  assumes inv: "vminv s R ps" and "old \<in> R" "i < MAXVA" "page_aligned i"
    and v: "v = leaf (mem s) old i" "pte_valid v"
    and s1: "s1 = (if PTE_FLAGS v AND PTE_W \<noteq> 0
                   then s\<lparr>mem := st64 (mem s) (leaf_slot (mem s) old i) (PA2PTE (PTE2PA v) OR cow_flags v)\<rparr> else s)"
  shows "pt_trans R s ps s1 ps (upd_leaf (leaf (mem s)) old i (cow_entry v))" "vminv s1 R ps"
proof -
  note pt = vminvD(1) [OF inv]
  obtain t where t: "tab (mem s) old i 2 = Some t" "leaf_slot (mem s) old i = pte_slot t (PX 0 i)"
    using leaf_slot_valid [OF pt assms(2,3)] v by metis
  have np: "PTE2PA v \<notin> set ps" "PTE2PA v \<notin> tables (mem s) R"
    using ptinvD(6,7) [OF pt assms(2,3)] v by auto
  show tr: "pt_trans R s ps s1 ps (upd_leaf (leaf (mem s)) old i (cow_entry v))"
  proof (cases "PTE_FLAGS v AND PTE_W \<noteq> 0")
    case True
    then show ?thesis
      using np s1 t(2) by (intro set_leaf [OF pt assms(2,3) t(1)]) (simp_all add: cow_entry_def)
  next
    case False
    have "leaf (mem s) r va = upd_leaf (leaf (mem s)) old i (cow_entry v) r va" for r va
      using False leaf_page [of va i] v(1) by (auto simp: upd_leaf_def cow_entry_def)
    then show ?thesis using False s1 pt_trans_cong [OF pt_grow_refl [OF pt]] by simp
  qed
  show "vminv s1 R ps"
    by (rule vminv_same_page [OF inv assms(2-4) tr]) (use v in \<open>simp_all add: cow_valid\<close>)
qed

text \<open>The view after \<open>a\<close> pages of the parent and \<open>b\<close> pages of the child have been converted.\<close>

definition copied :: "u64 \<Rightarrow> u64 \<Rightarrow> u64 \<Rightarrow> nat \<Rightarrow> nat \<Rightarrow> (u64 \<Rightarrow> u64 \<Rightarrow> u64) \<Rightarrow> u64 \<Rightarrow> u64 \<Rightarrow> u64" where
  "copied old new i a b L = (\<lambda>r va.
     if r = old \<and> in_pages i a va then cow_entry (L old va)
     else if r = new \<and> in_pages i b va then child_entry (L old va)
     else L r va)"

definition copyable :: "'a kmem_scheme \<Rightarrow> u64 \<Rightarrow> u64 \<Rightarrow> u64 \<Rightarrow> bool" where
  "copyable s old new va \<longleftrightarrow>
     pte_valid (leaf (mem s) old va) \<and> page_ok s (PTE2PA (leaf (mem s) old va)) \<and>
     \<not> pte_valid (leaf (mem s) new va)"

lemma uvmcopy_page:
  assumes inv: "vminv s R ps" and "old \<in> R" "new \<in> R" "old \<noteq> new" "i < MAXVA" "page_aligned i" "i < sz"
    and c: "copyable s old new i"
  obtains (fail) s' where "uvmcopy_loop old new i sz s = Ok (- 1) s'"
    "vm_trans R s ps s' [] (copied old new i 1 0 (leaf (mem s)))" "length ps < 2"
  | (ok) s' ps' where "uvmcopy_loop old new i sz s = uvmcopy_loop old new (i + PGSIZE) sz s'"
    "vm_trans R s ps s' ps' (copied old new i 1 1 (leaf (mem s)))" "length ps \<le> length ps' + 2"
proof -
  note pt = vminvD(1) [OF inv]
  define v where "v = leaf (mem s) old i"
  have v: "pte_valid v" "page_ok s (PTE2PA v)" "\<not> pte_valid (leaf (mem s) new i)"
    using c by (auto simp: copyable_def v_def)
  have slot: "leaf_slot (mem s) old i \<noteq> 0" "ld64 (mem s) (leaf_slot (mem s) old i) = v"
    using leaf_slot_valid [OF pt assms(2,5)] v(1) unfolding v_def by metis+
  define s1 where "s1 = (if PTE_FLAGS v AND PTE_W \<noteq> 0
    then s\<lparr>mem := st64 (mem s) (leaf_slot (mem s) old i) (PA2PTE (PTE2PA v) OR cow_flags v)\<rparr> else s)"
  note step = cow_parent_step [OF inv assms(2,5,6) v_def v(1) s1_def]
  note t1 = pt_transD [OF step(1)]
  have one: "in_pages i 1 va \<longleftrightarrow> PGROUNDDOWN va = i" for va
    using page_eq_range [OF assms(6), of va] by (simp add: in_pages_def)
  have pgi: "PGROUNDDOWN i = i" by (rule PGROUNDDOWN_aligned [OF assms(6)])
  have lv: "leaf (mem s) old va = v" if "PGROUNDDOWN va = i" for va
    using leaf_page [of va i] that pgi by (simp add: v_def)
  have c1: "upd_leaf (leaf (mem s)) old i (cow_entry v) = copied old new i 1 0 (leaf (mem s))"
    by (rule ext)+ (use lv pgi in \<open>auto simp: upd_leaf_def copied_def one simp del: One_nat_def\<close>)
  have body: "uvmcopy_loop old new i sz s =
      andthen (mappages new i PGSIZE (PTE2PA v) (cow_flags v) s1) (\<lambda>r s.
        if r \<noteq> 0 then Ok (- 1) s
        else andthen (incref (PTE2PA v) s) (\<lambda>_ s. uvmcopy_loop old new (i + PGSIZE) sz s))"
    using assms(5,7) slot v(1) walk_False [OF assms(5), of old s]
    by (subst uvmcopy_loop.simps) (simp add: Let_def s1_def cow_flags_def)
  have np: "PTE2PA v \<notin> set ps" "PTE2PA v \<notin> tables (mem s1) R"
    using ptinvD(6,7) [OF t1(1) assms(2,5)] t1(7) [OF assms(2,5)] v(1) by (simp_all add: upd_leaf_def cow_valid)
  have nv: "\<not> pte_valid (leaf (mem s1) new i)"
    using t1(7) [OF assms(3,5)] v(3) assms(4) by (simp add: upd_leaf_def)
  show ?thesis
  proof (cases rule: mappages_page [OF t1(1) assms(3,5,6) page_aligned_PTE2PA [of v] cow_flags_ok [of v] np nv,
        case_names fail ok])
    case (fail s')
    have "vm_trans R s1 ps s' [] (leaf (mem s1))"
      by (rule vm_trans_pt [OF fail(2) vminv_grow [OF step(2) fail(2)]])
    then have "vm_trans R s ps s' [] (copied old new i 1 0 (leaf (mem s)))"
      by (rule vm_trans_trans [OF vm_trans_pt [OF step]]) (simp only: t1(7) c1)
    then show ?thesis using that(1) body fail(1,3) by simp
  next
    case (ok s2 ps')
    let ?p = "PTE2PA v"
    define s3 where "s3 = s2\<lparr>refcnt := (refcnt s2)(page_index ?p := refcnt s2 (page_index ?p) + 1)\<rparr>"
    have ent: "PA2PTE ?p OR cow_flags v OR PTE_V = child_entry v" by (simp add: child_entry_def)
    have "vm_trans R s1 ps s3 ps' (upd_leaf (leaf (mem s1)) new i (child_entry v))"
      using vminv_map_incref [OF step(2) assms(3,5,6) ok(2) [unfolded ent], of s3] v(2) t1(2)
      by (simp add: cow_valid s3_def page_ok_def)
    then have "vm_trans R s ps s3 ps' (copied old new i 1 1 (leaf (mem s)))"
      by (rule vm_trans_trans [OF vm_trans_pt [OF step]])
        (use t1(7) lv pgi assms(4) in \<open>auto simp: upd_leaf_def copied_def one simp del: One_nat_def\<close>)
    moreover have "page_index ?p < PHYPAGES" using v(2) page_index_less by (simp add: page_ok_def)
    then have "uvmcopy_loop old new i sz s = uvmcopy_loop old new (i + PGSIZE) sz s3"
      using body ok(1) by (simp add: incref_def s3_def Let_def)
    ultimately show ?thesis using that(2) ok(3) by blast
  qed
qed

section \<open>Copying an address space\<close>

lemma in_pages_less: "in_pages i n va \<Longrightarrow> unat i + n * 4096 \<le> 2 ^ 38 \<Longrightarrow> va < MAXVA"
  by (simp add: in_pages_def MAXVA_def word_less_nat_alt)

lemma copied_cong: "L old va = L' old va \<Longrightarrow> L r va = L' r va \<Longrightarrow> copied old new i a b L r va = copied old new i a b L' r va"
  by (auto simp: copied_def)

lemma copied_Suc:
  assumes "page_aligned i" "i < MAXVA" "old \<noteq> new"
  shows "copied old new (i + PGSIZE) a b (copied old new i 1 1 L) r va = copied old new i (Suc a) (Suc b) L r va"
proof -
  have one: "in_pages i 1 va \<longleftrightarrow> PGROUNDDOWN va = i" for va
    using page_eq_range [OF assms(1), of va] by (simp add: in_pages_def)
  have "\<not> (PGROUNDDOWN va = i \<and> in_pages (i + PGSIZE) n va)" for n
    using page_eq_range [OF assms(1), of va] next_va [OF assms(2)] by (auto simp: in_pages_def)
  then show ?thesis using assms(3) in_pages_Suc [OF assms(1,2)] one
    by (auto simp: copied_def simp del: One_nat_def)
qed

lemma copyable_mono:
  assumes "vm_trans R s ps s' ps' (copied old new i 1 1 (leaf (mem s)))" "old \<in> R" "new \<in> R"
    and "copyable s old new va" "va < MAXVA" "\<not> in_pages i 1 va"
  shows "copyable s' old new va"
  using vm_transD(2) [OF assms(1)] vm_transD(5) [OF assms(1,2,5)] vm_transD(5) [OF assms(1,3,5)] assms(4,6)
  by (simp add: copyable_def copied_def page_ok_def)

lemma uvmcopy_loop_spec:
  assumes "vminv s R ps" "old \<in> R" "new \<in> R" "old \<noteq> new" "page_aligned i"
    and "unat i + n * 4096 \<le> 2 ^ 38" "unat sz \<le> unat i + n * 4096" "n = 0 \<or> unat i + (n - 1) * 4096 < unat sz"
    and "\<And>va. in_pages i n va \<Longrightarrow> copyable s old new va"
  shows "\<exists>s' ps'.
    (uvmcopy_loop old new i sz s = Ok 0 s' \<and> length ps \<le> length ps' + 2 * n \<and>
       vm_trans R s ps s' ps' (copied old new i n n (leaf (mem s)))) \<or>
    (\<exists>k < n. uvmcopy_loop old new i sz s = Ok (- 1) s' \<and> length ps < 2 * Suc k \<and>
       vm_trans R s ps s' ps' (copied old new i (Suc k) k (leaf (mem s))))"
  using assms
proof (induction n arbitrary: i s ps)
  case 0
  then have "\<not> i < sz" by (simp add: word_less_nat_alt)
  then have "uvmcopy_loop old new i sz s = Ok 0 s" by (subst uvmcopy_loop.simps) simp
  moreover have "copied old new i 0 0 (leaf (mem s)) = leaf (mem s)" by (simp add: copied_def fun_eq_iff)
  ultimately show ?case using vm_trans_refl [OF 0(1)] by auto
next
  case (Suc n)
  have lt: "i < MAXVA" using Suc.prems(6) by (simp add: MAXVA_def word_less_nat_alt)
  have nx: "unat (i + PGSIZE) = unat i + 4096" by (rule next_va [OF lt])
  have isz: "i < sz" using Suc.prems(8) by (simp add: word_less_nat_alt)
  have c: "copyable s old new i" using Suc.prems(9) [of i] by (simp add: in_pages_def)
  show ?case
  proof (cases rule: uvmcopy_page [OF Suc.prems(1-4) lt Suc.prems(5) isz c, case_names fail ok])
    case (fail s')
    then show ?thesis by auto
  next
    case (ok s1 ps1)
    note d = vm_transD [OF ok(2)]
    have cp: "copyable s1 old new va" if "in_pages (i + PGSIZE) n va" for va
    proof (rule copyable_mono [OF ok(2) Suc.prems(2,3)])
      show "copyable s old new va" using that Suc.prems(9) in_pages_Suc [OF Suc.prems(5) lt] by blast
      show "va < MAXVA" using in_pages_less [OF that] nx Suc.prems(6) by simp
      show "\<not> in_pages i 1 va" using that nx by (auto simp: in_pages_def)
    qed
    have L: "copied old new (i + PGSIZE) a b (leaf (mem s1)) r va = copied old new i (Suc a) (Suc b) (leaf (mem s)) r va"
      if "r \<in> R" "va < MAXVA" for a b r va
      unfolding copied_Suc [OF Suc.prems(5) lt Suc.prems(4), symmetric]
      by (rule copied_cong) (rule d(5) [OF Suc.prems(2) that(2)], rule d(5) [OF that])
    have "unat (i + PGSIZE) + n * 4096 \<le> 2 ^ 38" "unat sz \<le> unat (i + PGSIZE) + n * 4096"
      "n = 0 \<or> unat (i + PGSIZE) + (n - 1) * 4096 < unat sz"
      using nx Suc.prems(6-8) by (auto simp: gr0_conv_Suc)
    from Suc.IH [OF d(1) Suc.prems(2-4) page_aligned_add [OF Suc.prems(5)] this cp]
    obtain s' ps' where
      "(uvmcopy_loop old new (i + PGSIZE) sz s1 = Ok 0 s' \<and> length ps1 \<le> length ps' + 2 * n \<and>
          vm_trans R s1 ps1 s' ps' (copied old new (i + PGSIZE) n n (leaf (mem s1)))) \<or>
       (\<exists>k < n. uvmcopy_loop old new (i + PGSIZE) sz s1 = Ok (- 1) s' \<and> length ps1 < 2 * Suc k \<and>
          vm_trans R s1 ps1 s' ps' (copied old new (i + PGSIZE) (Suc k) k (leaf (mem s1))))" by blast
    then show ?thesis
    proof (elim disjE exE conjE)
      assume a: "uvmcopy_loop old new (i + PGSIZE) sz s1 = Ok 0 s'" "length ps1 \<le> length ps' + 2 * n"
        "vm_trans R s1 ps1 s' ps' (copied old new (i + PGSIZE) n n (leaf (mem s1)))"
      have "vm_trans R s ps s' ps' (copied old new i (Suc n) (Suc n) (leaf (mem s)))"
        by (rule vm_trans_trans [OF ok(2) a(3) L])
      moreover have "length ps \<le> length ps' + 2 * Suc n" using a(2) ok(3) by simp
      ultimately show ?thesis using a(1) ok(1) by metis
    next
      fix k assume a: "k < n" "uvmcopy_loop old new (i + PGSIZE) sz s1 = Ok (- 1) s'" "length ps1 < 2 * Suc k"
        "vm_trans R s1 ps1 s' ps' (copied old new (i + PGSIZE) (Suc k) k (leaf (mem s1)))"
      have "vm_trans R s ps s' ps' (copied old new i (Suc (Suc k)) (Suc k) (leaf (mem s)))"
        by (rule vm_trans_trans [OF ok(2) a(4) L])
      then show ?thesis using a(1-3) ok(1,3) by (intro exI [of _ s'] exI [of _ ps'] disjI2 exI [of _ "Suc k"]) auto
    qed
  qed
qed

text \<open>The number of pages of a process of \<open>sz\<close> bytes.\<close>

definition npages :: "u64 \<Rightarrow> nat" where
  "npages sz = (unat sz + 4095) div 4096"

lemma npages_div:
  "npages sz * 4096 \<le> unat sz + 4095" "unat sz + 4095 < npages sz * 4096 + 4096"
  using div_mod_decomp [of "unat sz + 4095" 4096] mod_less_divisor [of 4096 "unat sz + 4095"]
  unfolding npages_def by linarith+

lemma in_npages: "in_pages 0 (npages sz) va \<longleftrightarrow> unat (PGROUNDDOWN va) < unat sz"
proof -
  obtain j where j: "unat (PGROUNDDOWN va) = 4096 * j" by (rule aligned_unatE [of "PGROUNDDOWN va"]) simp_all
  have "j < npages sz \<longleftrightarrow> 4096 * j < unat sz"
  proof
    show "j < npages sz \<Longrightarrow> 4096 * j < unat sz" using npages_div [of sz] by linarith
    show "4096 * j < unat sz \<Longrightarrow> j < npages sz" using npages_div [of sz] by linarith
  qed
  then show ?thesis using in_pages_page [of 0 "npages sz" va] j by (simp add: in_pages_def)
qed

lemma npages_bounds:
  "unat sz \<le> npages sz * 4096" "npages sz = 0 \<or> (npages sz - 1) * 4096 < unat sz"
  using npages_div [of sz] by linarith+

lemma npages_MAXVA: "sz \<le> MAXVA \<Longrightarrow> npages sz * 4096 \<le> 2 ^ 38"
proof -
  assume "sz \<le> MAXVA"
  then have "unat sz \<le> 2 ^ 38" by (simp add: MAXVA_def word_le_nat_alt)
  moreover have "(2 :: nat) ^ 38 = 67108864 * 4096" by simp
  ultimately have "npages sz * 4096 < 67108865 * 4096" using npages_div(1) [of sz] by linarith
  then show ?thesis by simp
qed

lemma uvmcopy_spec:
  assumes "vminv s R ps" "old \<in> R" "new \<in> R" "old \<noteq> new" "sz \<le> MAXVA"
    and "\<And>va. unat (PGROUNDDOWN va) < unat sz \<Longrightarrow> copyable s old new va"
  shows "\<exists>s' ps'.
    (uvmcopy old new sz s = Ok 0 s' \<and> length ps \<le> length ps' + 2 * npages sz \<and>
       vm_trans R s ps s' ps' (copied old new 0 (npages sz) (npages sz) (leaf (mem s)))) \<or>
    (\<exists>k < npages sz. uvmcopy old new sz s = Ok (- 1) s' \<and> length ps < 2 * Suc k \<and>
       vm_trans R s ps s' ps' (copied old new 0 (Suc k) k (leaf (mem s))))"
  unfolding uvmcopy_def
  by (rule uvmcopy_loop_spec)
    (use assms npages_bounds [of sz] npages_MAXVA [OF assms(5)] in \<open>auto simp: in_npages\<close>)

end
