(* ===== verification/Cowfault.thy ===== *)
theory Cowfault
  imports Cow
begin

text \<open>
  The fault handler of copy-on-write. A write fault on a shared page
  moves the faulting process to a private copy; the last user of a page gets it back writable.
\<close>

section \<open>Taking a page from the free list\<close>

lemma vminv_take_page:
  assumes inv: "vminv s R (q # qs)" and k: "kalloc s = (q, s1)"
    and s2: "end_addr s2 = end_addr s1" "freelist s2 = freelist s1" "refcnt s2 = refcnt s1"
      "\<And>x. PGROUNDDOWN x \<noteq> q \<Longrightarrow> mem s2 x = mem s1 x"
  shows "vminv s2 R qs" "\<And>r va. r \<in> R \<Longrightarrow> va < MAXVA \<Longrightarrow> leaf (mem s2) r va = leaf (mem s) r va"
    "\<And>r va d. r \<in> R \<Longrightarrow> va < MAXVA \<Longrightarrow> d \<le> 2 \<Longrightarrow> tab (mem s2) r va d = tab (mem s) r va d"
    "tables (mem s2) R = tables (mem s) R" "maps_to (mem s2) R q = {}"
proof -
  note i = vminvD [OF inv]
  note j = ptinvD [OF i(1)]
  have k1: "kinv s1 qs" "refcnt s1 = (refcnt s)(page_index q := 1)" "end_addr s1 = end_addr s"
    "\<And>x. PGROUNDDOWN x \<noteq> q \<Longrightarrow> mem s1 x = mem s x"
    using kalloc_Cons [OF j(1)] k kalloc_fields [of s] by simp_all
  have q: "page_aligned q" "q \<notin> set qs" "q \<notin> tables (mem s) R" "page_ok s q"
    using kinv_aligned [OF j(1), of q] j(1) j(4) [of q] by (auto simp: kinv_def)
  have fr: "mem s2 x = mem s x" if "PGROUNDDOWN x \<in> tables (mem s) R" for x
    using that q(3) s2(4) [of x] k1(4) [of x] by auto
  show tab: "tab (mem s2) r va d = tab (mem s) r va d" if "r \<in> R" "va < MAXVA" "d \<le> 2" for r va d
    by (rule tab_frame [OF j(2) fr that])
  show lf: "leaf (mem s2) r va = leaf (mem s) r va" if "r \<in> R" "va < MAXVA" for r va
    by (rule leaf_frame [OF j(2) fr that])
  show tb: "tables (mem s2) R = tables (mem s) R" by (rule pt_shape_tab_eq(2) [OF j(2) tab])
  have "kinv s2 qs"
  proof (rule kinv_frame [OF k1(1) s2(1,2)])
    fix x assume "PGROUNDDOWN x \<in> set qs"
    then show "mem s2 x = mem s1 x" using q(2) by (intro s2(4)) auto
  qed (simp add: s2(3))
  moreover have ref: "refcnt s2 (page_index p) = refcnt s (page_index p)" if "page_aligned p" "p \<noteq> q" for p
    using that page_index_inj [OF that(1) q(1)] by (auto simp: s2(3) k1(2))
  moreover have "page_ok s2 t \<and> t \<notin> set qs \<and> refcnt s2 (page_index t) = 1" if "t \<in> tables (mem s) R" for t
    using j(3-5) [OF that] ref [of t] ptinv_table_aligned [OF i(1) that] q(3) that k1(3) s2(1)
    by (auto simp: page_ok_def)
  moreover have "PTE2PA (leaf (mem s) r va) \<notin> set (q # qs) \<and> PTE2PA (leaf (mem s) r va) \<notin> tables (mem s) R"
    if "r \<in> R" "va < MAXVA" "pte_valid (leaf (mem s) r va)" for r va
    using j(6,7) [OF that] by simp
  ultimately have pt: "ptinv s2 R qs"
    unfolding ptinv_def tb using pt_shape_tab_eq(1) [OF j(2) tab] lf by simp
  have mt: "maps_to (mem s2) R p = maps_to (mem s) R p" for p by (rule maps_to_cong) (rule lf)
  show none: "maps_to (mem s2) R q = {}"
    unfolding mt using j(6) by (auto simp: maps_to_def)
  have "refs_ok s2 R qs" unfolding refs_ok_def
  proof (intro allI impI)
    fix p assume p: "page_ok s2 p" "p \<notin> set qs" "p \<notin> tables (mem s2) R"
    show "1 \<le> refcnt s2 (page_index p) \<and> int (card (maps_to (mem s2) R p)) \<le> refcnt s2 (page_index p)"
    proof (cases "p = q")
      case True
      then show ?thesis using none k1(2) s2(3) by simp
    next
      case False
      have "page_ok s p" "page_aligned p" using p(1) k1(3) s2(1) by (auto simp: page_ok_def)
      then show ?thesis using refs_okD [OF i(2), of p] p False tb ref [of p] mt [of p] by simp
    qed
  qed
  then show "vminv s2 R qs" using pt by (simp add: vminv_def)
qed

section \<open>The fault handler\<close>

definition cow_page :: "u64 \<Rightarrow> bool" where
  "cow_page v \<longleftrightarrow> pte_valid v \<and> v AND PTE_U \<noteq> 0 \<and> v AND PTE_COW \<noteq> 0"

lemma bit_private_flags:
  "bit (private_flags v) n \<longleftrightarrow> n < 10 \<and> n \<noteq> 8 \<and> (n = 2 \<or> bit v n)"
  by (auto simp: private_flags_def bit_or_iff bit_and_iff bit_not_iff bit_PTE bit_PTE_FLAGS
      dest: bit_imp_le_length)

lemma handle_cow_fault_not_cow:
  assumes "ptinv s R ps" "r \<in> R" "va < MAXVA" "\<not> cow_page (leaf (mem s) r va)"
  shows "handle_cow_fault (Some r) va s = Ok (- 1) s"
proof -
  have "PGROUNDDOWN va < MAXVA" using assms(3) by simp
  from leaf_slot_cases [OF assms(1,2) this] show ?thesis
    by cases (use assms(3,4) walk_False [OF \<open>PGROUNDDOWN va < MAXVA\<close>, of r s] in
        \<open>auto simp: handle_cow_fault_def Let_def cow_page_def not_le\<close>)
qed

lemma handle_cow_fault_body:
  assumes "ptinv s R ps" "r \<in> R" "va < MAXVA" "cow_page (leaf (mem s) r va)"
    and "page_ok s (PTE2PA (leaf (mem s) r va))"
  obtains t where "tab (mem s) r (PGROUNDDOWN va) 2 = Some t"
    "leaf_slot (mem s) r (PGROUNDDOWN va) = pte_slot t (PX 0 (PGROUNDDOWN va))"
    "handle_cow_fault (Some r) va s =
      (let v = leaf (mem s) r va; pte = pte_slot t (PX 0 (PGROUNDDOWN va)) in
       if refcnt s (page_index (PTE2PA v)) = 1 then
         Ok 0 (s\<lparr>mem := st64 (mem s) pte ((v OR PTE_W) AND NOT PTE_COW)\<rparr>)
       else case kalloc s of (page, s) \<Rightarrow>
         if page = 0 then Ok (- 1) s
         else
           let s = s\<lparr>mem := memmove (mem s) page (PTE2PA v) 4096\<rparr>;
               flags = private_flags (ld64 (mem s) pte);
               s = s\<lparr>mem := st64 (mem s) pte (PA2PTE page OR flags)\<rparr>
           in andthen (decref (PTE2PA v) s) (\<lambda>_ s. Ok 0 s))"
proof -
  have lt: "PGROUNDDOWN va < MAXVA" using assms(3) by simp
  obtain t where t: "tab (mem s) r (PGROUNDDOWN va) 2 = Some t"
    "leaf_slot (mem s) r (PGROUNDDOWN va) = pte_slot t (PX 0 (PGROUNDDOWN va))"
    "leaf_slot (mem s) r (PGROUNDDOWN va) \<noteq> 0"
    "ld64 (mem s) (leaf_slot (mem s) r (PGROUNDDOWN va)) = leaf (mem s) r (PGROUNDDOWN va)"
    using leaf_slot_valid [OF assms(1,2) lt] assms(4) by (auto simp: cow_page_def)
  have "page_index (PTE2PA (leaf (mem s) r va)) < PHYPAGES"
    using assms(5) page_index_less by (simp add: page_ok_def)
  moreover have "\<not> MAXVA \<le> va" using assms(3) by simp
  ultimately show ?thesis
    using assms(4) t walk_False [OF lt, of r s]
    by (intro that [OF t(1,2)])
      (simp add: handle_cow_fault_def cow_page_def refcount_def private_flags_def Let_def split: prod.split)
qed

lemma bit_writable: "bit ((v OR PTE_W) AND NOT PTE_COW) n \<longleftrightarrow> n < 64 \<and> n \<noteq> 8 \<and> (n = 2 \<or> bit v n)"
  by (auto simp: bit_or_iff bit_and_iff bit_not_iff bit_PTE dest: bit_imp_le_length)

lemma PTE2PA_writable: "PTE2PA ((v OR PTE_W) AND NOT PTE_COW) = PTE2PA v"
  by (rule bit_word_eqI) (auto simp: bit_PTE2PA bit_writable dest: bit_imp_le_length)

text \<open>What the handler establishes for the faulting page.\<close>

definition private_page :: "memory \<Rightarrow> u64 set \<Rightarrow> u64 \<Rightarrow> u64 \<Rightarrow> bool" where
  "private_page m R r va \<longleftrightarrow>
     (let v = leaf m r va
      in pte_valid v \<and> v AND PTE_U \<noteq> 0 \<and> v AND PTE_W \<noteq> 0 \<and> v AND PTE_COW = 0 \<and>
         maps_to m R (PTE2PA v) = {(r, PGROUNDDOWN va)})"

definition cow_handled ::
  "u64 set \<Rightarrow> u64 \<Rightarrow> u64 \<Rightarrow> 'a kmem_scheme \<Rightarrow> 'a kmem_scheme \<Rightarrow> bool" where
  "cow_handled R r va s s' \<longleftrightarrow>
     private_page (mem s') R r va \<and> page_ok s' (PTE2PA (leaf (mem s') r va)) \<and>
     end_addr s' = end_addr s \<and> kmem.more s' = kmem.more s \<and>
     (\<forall>r' \<in> R. \<forall>va' < MAXVA. \<not> (r' = r \<and> PGROUNDDOWN va' = PGROUNDDOWN va) \<longrightarrow>
        leaf (mem s') r' va' = leaf (mem s) r' va') \<and>
     (\<forall>r' \<in> R. \<forall>va'. uread s' r' va' = uread s r' va')"

lemma cow_fault_last:
  assumes inv: "vminv s R ps" and "r \<in> R" "va < MAXVA"
    and v: "v = leaf (mem s) r va" "cow_page v" "page_ok s (PTE2PA v)"
    and one: "refcnt s (page_index (PTE2PA v)) = 1"
  shows "\<exists>s'. handle_cow_fault (Some r) va s = Ok 0 s' \<and> vminv s' R ps \<and> cow_handled R r va s s'"
proof -
  note pt = vminvD(1) [OF inv]
  let ?pg = "PGROUNDDOWN va"
  have lt: "?pg < MAXVA" using assms(3) by simp
  have vv: "pte_valid v" "v AND PTE_U \<noteq> 0" using v(2) by (auto simp: cow_page_def)
  obtain t where t: "tab (mem s) r ?pg 2 = Some t" "leaf_slot (mem s) r ?pg = pte_slot t (PX 0 ?pg)"
    "handle_cow_fault (Some r) va s =
      Ok 0 (s\<lparr>mem := st64 (mem s) (pte_slot t (PX 0 ?pg)) ((v OR PTE_W) AND NOT PTE_COW)\<rparr>)"
    using handle_cow_fault_body [OF pt assms(2,3)] v one by (auto simp: Let_def)
  define w where "w = (v OR PTE_W) AND NOT PTE_COW"
  define s' where "s' = s\<lparr>mem := st64 (mem s) (pte_slot t (PX 0 ?pg)) w\<rparr>"
  have w: "PTE2PA w = PTE2PA v" "pte_valid w" "same_view w v"
    "w AND PTE_U \<noteq> 0" "w AND PTE_W \<noteq> 0" "w AND PTE_COW = 0"
    using vv by (auto simp: w_def PTE2PA_writable pte_valid_def same_view_def PTE_bits bit_writable)
  have np: "PTE2PA v \<notin> set ps" "PTE2PA v \<notin> tables (mem s) R"
    using ptinvD(6,7) [OF pt assms(2,3)] v(1) vv by auto
  have tr: "pt_trans R s ps s' ps (upd_leaf (leaf (mem s)) r ?pg w)"
    using w np by (intro set_leaf [OF pt assms(2) lt t(1)]) (simp_all add: s'_def)
  have inv': "vminv s' R ps"
    by (rule vminv_same_page [OF inv assms(2) lt _ tr]) (use v vv w in simp_all)
  note vt = vm_trans_pt [OF tr inv']
  have pp: "PGROUNDDOWN ?pg = ?pg" by (simp add: PGROUNDDOWN_aligned)
  have lf: "leaf (mem s') r' va' = (if r' = r \<and> PGROUNDDOWN va' = ?pg then w else leaf (mem s) r' va')"
    if "r' \<in> R" "va' < MAXVA" for r' va'
    using vm_transD(5) [OF vt that] by (simp add: upd_leaf_def pp)
  have "maps_to (mem s') R (PTE2PA v) = maps_to (mem s) R (PTE2PA v)"
    using maps_to_upd [OF vm_transD(5) [OF vt] assms(2) lt, of "PTE2PA v"] w v vv lt assms(2)
    by (auto simp: maps_to_def)
  moreover have "maps_to (mem s) R (PTE2PA v) = {(r, ?pg)}"
  proof -
    have "card (maps_to (mem s) R (PTE2PA v)) \<le> 1" using refs_okD(2) [OF vminvD(2) [OF inv] v(3) np] one by simp
    then have "\<forall>a \<in> maps_to (mem s) R (PTE2PA v). \<forall>b \<in> maps_to (mem s) R (PTE2PA v). a = b"
      using card_le_Suc0_iff_eq [of "maps_to (mem s) R (PTE2PA v)"] by simp
    moreover have "(r, ?pg) \<in> maps_to (mem s) R (PTE2PA v)" using v vv lt assms(2) by (simp add: maps_to_def)
    ultimately show ?thesis by blast
  qed
  ultimately have "private_page (mem s') R r va"
    using lf [OF assms(2,3)] w by (simp add: private_page_def Let_def)
  moreover have "page_ok s' (PTE2PA (leaf (mem s') r va))"
    using lf [OF assms(2,3)] w(1) v(3) by (simp add: page_ok_def s'_def)
  moreover have "uread s' r' va' = uread s r' va'" if "r' \<in> R" for r' va'
  proof (rule vm_trans_same_view [OF vt that])
    show "same_view (upd_leaf (leaf (mem s)) r ?pg w r' va') (leaf (mem s) r' va')"
      using w(3) v(1) leaf_page [of va' va] by (auto simp: upd_leaf_def pp same_view_refl)
  qed
  ultimately have "cow_handled R r va s s'"
    unfolding cow_handled_def using lf by (simp add: s'_def)
  then show ?thesis using inv' t(3) by (simp add: s'_def w_def)
qed

lemma memmove_page:
  assumes "page_aligned p" "page_aligned q" "p < PHYSTOP" "q < PHYSTOP"
  shows "memmove m q p 4096 = (\<lambda>x. if PGROUNDDOWN x = q then m (p + (x - q)) else m x)"
proof -
  have "unat p + 4096 \<le> 2 ^ 64" "unat q + 4096 \<le> 2 ^ 64"
    using assms(3,4) by (simp_all add: word_less_nat_alt layout_defs)
  then have "memmove m q p 4096 = (\<lambda>x. if x - q < ucast (4096 :: u32) then m (p + (x - q)) else m x)"
    by (intro memmove_eq) simp_all
  then show ?thesis using page_diff_less [OF assms(2)] by (simp add: PGSIZE_def)
qed

lemma cow_copy_refs:
  assumes inv: "vminv s R qs" and "r \<in> R" "pg < MAXVA" "page_aligned pg"
    and lf: "\<And>r' va'. r' \<in> R \<Longrightarrow> va' < MAXVA \<Longrightarrow> leaf (mem s') r' va' = upd_leaf (leaf (mem s)) r pg w r' va'"
    and p: "p = PTE2PA (leaf (mem s) r pg)" "pte_valid (leaf (mem s) r pg)" "p \<noteq> PTE2PA w"
    and mq: "maps_to (mem s) R (PTE2PA w) = {}"
    and tb: "tables (mem s') R = tables (mem s) R" "end_addr s' = end_addr s"
    and ref: "\<And>u. page_aligned u \<Longrightarrow> refcnt s' (page_index u) = refcnt s (page_index u) - (if u = p then 1 else 0)"
    and shared: "1 < refcnt s (page_index p)"
  shows "refs_ok s' R qs"
  unfolding refs_ok_def
proof (intro allI impI)
  fix u assume u: "page_ok s' u" "u \<notin> set qs" "u \<notin> tables (mem s') R"
  have ok: "page_ok s u" "page_aligned u" using u(1) tb(2) by (auto simp: page_ok_def)
  note r = refs_okD [OF vminvD(2) [OF inv] ok(1) u(2) u(3) [unfolded tb(1)]]
  have mt: "maps_to (mem s') R u =
      maps_to (mem s) R u - {(r, pg)} \<union> (if pte_valid w \<and> PTE2PA w = u then {(r, pg)} else {})"
    by (rule maps_to_upd [OF lf assms(2-4)])
  consider "u = PTE2PA w" | "u = p" | "u \<noteq> PTE2PA w" "u \<noteq> p" by blast
  then show "1 \<le> refcnt s' (page_index u) \<and> int (card (maps_to (mem s') R u)) \<le> refcnt s' (page_index u)"
  proof cases
    case 1
    then have "card (maps_to (mem s') R u) \<le> 1" unfolding mt using mq by simp
    then show ?thesis using r(1) ref [OF ok(2)] p(3) 1 by simp
  next
    case 2
    have "(r, pg) \<in> maps_to (mem s) R u" using 2 p assms(2-4) by (simp add: maps_to_def)
    then have "card (maps_to (mem s') R u) = card (maps_to (mem s) R u) - 1" "1 \<le> card (maps_to (mem s) R u)"
      unfolding mt using 2 p(3) by (auto simp: card_Diff_singleton Suc_le_eq card_gt_0_iff)
    then show ?thesis using r(2) ref [OF ok(2)] 2 shared by simp
  next
    case 3
    then have "card (maps_to (mem s') R u) \<le> card (maps_to (mem s) R u)"
      unfolding mt by (intro card_mono) auto
    then show ?thesis using r ref [OF ok(2)] 3 by simp
  qed
qed

lemma cow_fault_copy:
  assumes inv: "vminv s R (q # qs)" and "r \<in> R" "va < MAXVA"
    and v: "v = leaf (mem s) r va" "cow_page v" "page_ok s (PTE2PA v)"
    and shared: "refcnt s (page_index (PTE2PA v)) \<noteq> 1"
  shows "\<exists>s'. handle_cow_fault (Some r) va s = Ok 0 s' \<and> vminv s' R qs \<and> cow_handled R r va s s'"
proof -
  note pt = vminvD(1) [OF inv]
  let ?pg = "PGROUNDDOWN va" and ?p = "PTE2PA v"
  have lt: "?pg < MAXVA" using assms(3) by simp
  have vv: "pte_valid v" "v AND PTE_U \<noteq> 0" using v(2) by (auto simp: cow_page_def)
  have np: "?p \<notin> set (q # qs)" "?p \<notin> tables (mem s) R"
    using ptinvD(6,7) [OF pt assms(2,3)] v(1) vv by auto
  have ge: "1 < refcnt s (page_index ?p)" using refs_okD(1) [OF vminvD(2) [OF inv] v(3) np] shared by simp
  have kq: "page_ok s q" "q \<noteq> 0" "page_aligned q" "q \<notin> tables (mem s) R" "q \<notin> set qs"
    using ptinvD(1) [OF pt] kinv_nonzero [OF ptinvD(1) [OF pt], of q] ptinvD(4) [OF pt, of q]
    by (auto simp: kinv_def page_ok_def)
  obtain s1 where k: "kalloc s = (q, s1)" using kalloc_Cons(1) [OF ptinvD(1) [OF pt]] by (cases "kalloc s") auto
  have k1: "refcnt s1 = (refcnt s)(page_index q := 1)" "end_addr s1 = end_addr s"
    "kmem.more s1 = kmem.more s" "\<And>x. PGROUNDDOWN x \<noteq> q \<Longrightarrow> mem s1 x = mem s x"
    using kalloc_Cons [OF ptinvD(1) [OF pt]] k kalloc_fields [of s] by simp_all
  obtain t where t: "tab (mem s) r ?pg 2 = Some t" "leaf_slot (mem s) r ?pg = pte_slot t (PX 0 ?pg)"
    "handle_cow_fault (Some r) va s =
      (let s = s1\<lparr>mem := memmove (mem s1) q ?p 4096\<rparr>;
           flags = private_flags (ld64 (mem s) (pte_slot t (PX 0 ?pg)));
           s = s\<lparr>mem := st64 (mem s) (pte_slot t (PX 0 ?pg)) (PA2PTE q OR flags)\<rparr>
       in andthen (decref ?p s) (\<lambda>_ s. Ok 0 s))"
    using handle_cow_fault_body [OF pt assms(2,3)] v shared k kq(2) by (auto simp: Let_def)
  define s2 where "s2 = s1\<lparr>mem := memmove (mem s1) q ?p 4096\<rparr>"
  have al: "page_aligned ?p" "?p < PHYSTOP" "q < PHYSTOP" "?p \<noteq> q"
    using v(3) kq(1) np by (auto simp: page_ok_def)
  have m2: "mem s2 x = (if PGROUNDDOWN x = q then mem s (?p + (x - q)) else mem s x)" for x
  proof -
    have "PGROUNDDOWN (?p + (x - q)) = ?p" if "PGROUNDDOWN x = q"
      using that page_offset_less [of x] by simp
    then show ?thesis using k1(4) [of x] k1(4) [of "?p + (x - q)"] al
      by (auto simp: s2_def memmove_page [OF al(1) kq(3) al(2,3)])
  qed
  note T = vminv_take_page [OF inv k, of s2]
  have inv2: "vminv s2 R qs" and tb2: "tables (mem s2) R = tables (mem s) R" and mq: "maps_to (mem s2) R q = {}"
    and lf2: "\<And>r va. r \<in> R \<Longrightarrow> va < MAXVA \<Longrightarrow> leaf (mem s2) r va = leaf (mem s) r va"
    and t2: "tab (mem s2) r ?pg 2 = Some t"
    using T(1-2,4,5) T(3) [OF _ _ _ _ assms(2) lt] t(1) k1(4) m2 by (simp_all add: s2_def memmove_page [OF al(1) kq(3) al(2,3)])
  have ldv: "ld64 (mem s2) (pte_slot t (PX 0 ?pg)) = v"
  proof -
    have "leaf (mem s2) r ?pg = ld64 (mem s2) (pte_slot t (PX 0 ?pg))" unfolding leaf_def t2 by simp
    then show ?thesis using lf2 [OF assms(2) lt] v(1) by simp
  qed
  define w where "w = PA2PTE q OR private_flags v"
  define s3 where "s3 = s2\<lparr>mem := st64 (mem s2) (pte_slot t (PX 0 ?pg)) w\<rparr>"
  define s' where "s' = s3\<lparr>refcnt := (refcnt s3)(page_index ?p := refcnt s3 (page_index ?p) - 1)\<rparr>"
  have w: "PTE2PA w = q" "pte_valid w" "w AND PTE_U \<noteq> 0" "w AND PTE_W \<noteq> 0" "w AND PTE_COW = 0"
    "\<And>n. n \<in> {0, 1, 4} \<Longrightarrow> bit w n = bit v n"
    using vv kq(3) by (auto simp: w_def pte_valid_def PTE_bits bit_make_low bit_private_flags)
  have pp: "PGROUNDDOWN ?pg = ?pg" by (simp add: PGROUNDDOWN_aligned)
  have tr: "pt_trans R s2 qs s3 qs (upd_leaf (leaf (mem s2)) r ?pg w)"
    by (rule set_leaf [OF vminvD(1) [OF inv2] assms(2) lt t2 s3_def]) (simp add: w(1) kq(4,5) tb2)
  note d3 = pt_transD [OF tr]
  have tb: "tables (mem s') R = tables (mem s) R" using tr tb2 by (simp add: pt_trans_def s'_def)
  have lf: "leaf (mem s') r' va' = (if r' = r \<and> PGROUNDDOWN va' = ?pg then w else leaf (mem s) r' va')"
    if "r' \<in> R" "va' < MAXVA" for r' va'
    using d3(7) [OF that] lf2 [OF that] by (simp add: upd_leaf_def pp s'_def)
  have ref: "refcnt s' (page_index p) = refcnt s2 (page_index p) - (if p = ?p then 1 else 0)"
    if "page_aligned p" for p
    using page_index_inj [OF that al(1)] by (auto simp: s'_def s3_def)
  have "ptinv s' R qs"
  proof (rule ptinv_frame(1) [OF d3(1)])
    fix p assume "p \<in> set qs \<union> tables (mem s3) R"
    moreover have "tables (mem s3) R = tables (mem s) R" using tb by (simp add: s'_def)
    ultimately have "page_aligned p" "p \<noteq> ?p"
      using np kinv_aligned [OF ptinvD(1) [OF d3(1)]] ptinv_table_aligned [OF pt] by auto
    then show "refcnt s' (page_index p) = refcnt s3 (page_index p)" using ref by (simp add: s3_def)
  qed (simp_all add: s'_def)
  moreover have "refs_ok s' R qs"
  proof (rule cow_copy_refs [OF inv2 assms(2) lt])
    show "leaf (mem s') r' va' = upd_leaf (leaf (mem s2)) r ?pg w r' va'" if "r' \<in> R" "va' < MAXVA" for r' va'
      using d3(7) [OF that] by (simp add: s'_def)
    show "?p = PTE2PA (leaf (mem s2) r ?pg)" "pte_valid (leaf (mem s2) r ?pg)"
      using lf2 [OF assms(2) lt] v(1) vv(1) by simp_all
    show "1 < refcnt s2 (page_index ?p)"
      using ge page_index_inj [OF al(1) kq(3)] al(4) by (auto simp: s2_def k1(1))
  qed (use tb tb2 ref w(1) al(4) mq in \<open>simp_all add: s'_def s3_def\<close>)
  ultimately have inv': "vminv s' R qs" by (simp add: vminv_def)
  have fr: "mem s' x = mem s2 x" if "PGROUNDDOWN x \<notin> tables (mem s) R" for x
  proof -
    have "t \<in> tables (mem s) R" by (rule in_tables [OF assms(2) lt _ t(1)]) simp
    then have "page_aligned t" "PGROUNDDOWN x \<noteq> t" using ptinv_table_aligned [OF pt] that by auto
    then show ?thesis by (simp add: s'_def s3_def st64_slot_frame)
  qed
  have rd: "uread s' r' va' = uread s r' va'" if "r' \<in> R" for r' va'
  proof (cases "va' < MAXVA")
    case lt': True
    let ?o = "va' - PGROUNDDOWN va'"
    have off: "PGROUNDDOWN (PTE2PA u + ?o) = PTE2PA u" for u using page_offset_less [of va'] by simp
    show ?thesis
    proof (cases "r' = r \<and> PGROUNDDOWN va' = ?pg")
      case True
      have old: "leaf (mem s) r' va' = v" using True leaf_page [of va' va] v(1) by simp
      have "mem s' (q + ?o) = mem s (?p + ?o)"
        using fr [of "q + ?o"] m2 [of "q + ?o"] off [of w] w(1) kq(4) by simp
      then show ?thesis using lf [OF that lt'] True old w vv lt' by (simp add: uread_def Let_def PTE_bits)
    next
      case False
      show ?thesis
      proof (rule uread_same_view)
        show "same_view (leaf (mem s') r' va') (leaf (mem s) r' va')"
          using lf [OF that lt'] False by (simp add: same_view_refl)
        assume "pte_valid (leaf (mem s) r' va')"
        then show "mem s' (PTE2PA (leaf (mem s) r' va') + ?o) = mem s (PTE2PA (leaf (mem s) r' va') + ?o)"
          using fr m2 off ptinvD(6,7) [OF pt that lt'] by auto
      qed
    qed
  next
    case False
    then show ?thesis by (simp add: uread_def)
  qed
  have "maps_to (mem s') R q = {(r, ?pg)}"
    using maps_to_upd [OF d3(7) assms(2) lt, of q] mq w(1,2) by (simp add: s'_def)
  then have "private_page (mem s') R r va"
    using lf [OF assms(2,3)] w by (simp add: private_page_def Let_def)
  moreover have "page_ok s' (PTE2PA (leaf (mem s') r va))" "end_addr s' = end_addr s" "kmem.more s' = kmem.more s"
    using lf [OF assms(2,3)] w(1) kq(1) k1(2,3) by (simp_all add: page_ok_def s'_def s3_def s2_def)
  ultimately have "cow_handled R r va s s'" unfolding cow_handled_def using lf rd by simp
  moreover have "handle_cow_fault (Some r) va s = Ok 0 s'"
  proof -
    have "refcnt s3 (page_index ?p) = refcnt s (page_index ?p)"
      using page_index_inj [OF al(1) kq(3)] al(4) by (auto simp: s3_def s2_def k1(1))
    then have "decref ?p s3 = Ok () s'"
      using kfree_shared [of s3 ?p] v(3) ge k1(2)
      by (simp add: decref_def s'_def page_ok_def s3_def s2_def)
    then show ?thesis using t(3) ldv by (simp add: s2_def s3_def w_def Let_def)
  qed
  ultimately show ?thesis using inv' by blast
qed

text \<open>Out of memory with a shared page: the handler fails and changes nothing.\<close>

lemma cow_fault_nomem:
  assumes inv: "vminv s R []" and "r \<in> R" "va < MAXVA"
    and v: "v = leaf (mem s) r va" "cow_page v" "page_ok s (PTE2PA v)"
    and shared: "refcnt s (page_index (PTE2PA v)) \<noteq> 1"
  shows "handle_cow_fault (Some r) va s = Ok (- 1) s"
  using handle_cow_fault_body [OF vminvD(1) [OF inv] assms(2,3)] v shared
    kalloc_Nil [OF ptinvD(1) [OF vminvD(1) [OF inv]]] by (auto simp: Let_def)

lemma cow_fault_ok:
  assumes inv: "vminv s R ps" and "r \<in> R" "va < MAXVA"
    and v: "v = leaf (mem s) r va" "cow_page v" "page_ok s (PTE2PA v)"
    and room: "refcnt s (page_index (PTE2PA v)) = 1 \<or> ps \<noteq> []"
  shows "\<exists>s' ps'. handle_cow_fault (Some r) va s = Ok 0 s' \<and> vminv s' R ps' \<and> cow_handled R r va s s' \<and>
    length ps \<le> Suc (length ps')"
proof (cases "refcnt s (page_index (PTE2PA v)) = 1")
  case True
  then show ?thesis using cow_fault_last [OF assms(1-6)] by fastforce
next
  case False
  then obtain q qs where "ps = q # qs" using room by (cases ps) auto
  then show ?thesis using cow_fault_copy [OF _ assms(2-6) False] inv by fastforce
qed

end
