(* ===== verification/Ustore.thy ===== *)
theory Ustore
  imports Cowfault
begin

text \<open>
  What user code can observe of copy-on-write. \<open>excl\<close> says that a writable user page is mapped once; it
  is kept by \<^verbatim>\<open>uvmcopy\<close> and by the fault handler. A user store, with the fault it may cause, then
  changes one byte of one address space and nothing another process reads.
\<close>

section \<open>Writable pages are not shared\<close>

definition excl :: "(u64 \<Rightarrow> u64 \<Rightarrow> u64) \<Rightarrow> u64 set \<Rightarrow> bool" where
  "excl L R \<longleftrightarrow>
     (\<forall>r \<in> R. \<forall>r' \<in> R. \<forall>va < MAXVA. \<forall>va' < MAXVA.
        pte_valid (L r va) \<longrightarrow> L r va AND PTE_U \<noteq> 0 \<longrightarrow> L r va AND PTE_W \<noteq> 0 \<longrightarrow> pte_valid (L r' va') \<longrightarrow>
        PTE2PA (L r' va') = PTE2PA (L r va) \<longrightarrow> r' = r \<and> PGROUNDDOWN va' = PGROUNDDOWN va)"

lemma exclD:
  "excl L R \<Longrightarrow> r \<in> R \<Longrightarrow> r' \<in> R \<Longrightarrow> va < MAXVA \<Longrightarrow> va' < MAXVA \<Longrightarrow> pte_valid (L r va) \<Longrightarrow>
   L r va AND PTE_U \<noteq> 0 \<Longrightarrow> L r va AND PTE_W \<noteq> 0 \<Longrightarrow> pte_valid (L r' va') \<Longrightarrow>
   PTE2PA (L r' va') = PTE2PA (L r va) \<Longrightarrow> r' = r \<and> PGROUNDDOWN va' = PGROUNDDOWN va"
  unfolding excl_def by blast

lemma excl_cong:
  assumes "excl L R" "\<And>r va. r \<in> R \<Longrightarrow> va < MAXVA \<Longrightarrow> L' r va = L r va"
  shows "excl L' R"
  unfolding excl_def
proof (intro ballI allI impI)
  fix r r' va va'
  assume "r \<in> R" "r' \<in> R" "va < MAXVA" "va' < MAXVA" "pte_valid (L' r va)" "L' r va AND PTE_U \<noteq> 0"
    "L' r va AND PTE_W \<noteq> 0" "pte_valid (L' r' va')" "PTE2PA (L' r' va') = PTE2PA (L' r va)"
  then show "r' = r \<and> PGROUNDDOWN va' = PGROUNDDOWN va"
    using exclD [OF assms(1), of r r' va va'] assms(2) by simp
qed

text \<open>\<^verbatim>\<open>uvmcopy\<close> keeps this, also when it fails half way, because it withdraws write permission from
  every page it shares.\<close>

lemma excl_copied:
  assumes ex: "excl L R" and "old \<in> R" "page_aligned i" "b \<le> a"
    and val: "\<And>va. in_pages i b va \<Longrightarrow> pte_valid (L old va)"
  shows "excl (copied old new i a b L) R"
  unfolding excl_def
proof (intro ballI allI impI)
  let ?L = "copied old new i a b L"
  fix r r' va va'
  assume h: "r \<in> R" "r' \<in> R" "va < MAXVA" "va' < MAXVA" "pte_valid (?L r va)" "?L r va AND PTE_U \<noteq> 0"
    "?L r va AND PTE_W \<noteq> 0" "pte_valid (?L r' va')" "PTE2PA (?L r' va') = PTE2PA (?L r va)"
  have nc: "\<not> (r = old \<and> in_pages i a va)" "?L r va = L r va"
    using h(7) cow_not_writable by (auto simp: copied_def PTE_bits split: if_splits)
  show "r' = r \<and> PGROUNDDOWN va' = PGROUNDDOWN va"
  proof (cases "r' \<noteq> old \<and> r' = new \<and> in_pages i b va'")
    case True
    then have "?L r' va' = child_entry (L old va')" by (auto simp: copied_def)
    then have "old = r \<and> PGROUNDDOWN va' = PGROUNDDOWN va"
      using exclD [OF ex h(1) assms(2) h(3,4)] h(5-7,9) nc(2) val [of va'] True by simp
    moreover have "in_pages i a va'" using True assms(4) by (auto simp: in_pages_def)
    ultimately show ?thesis using nc(1) in_pages_page [OF assms(3), of a va] in_pages_page [OF assms(3), of a va'] by simp
  next
    case False
    then have "pte_valid (L r' va')" "PTE2PA (L r' va') = PTE2PA (L r va)"
      using h(8,9) nc(2) val [of va'] by (auto simp: copied_def cow_valid split: if_splits)
    then show ?thesis using exclD [OF ex h(1-4)] h(5-7) nc(2) by simp
  qed
qed

lemma excl_maps_to:
  assumes "excl (leaf (mem s)) R" "r \<in> R" "va < MAXVA" "pte_valid (leaf (mem s) r va)"
    "leaf (mem s) r va AND PTE_U \<noteq> 0" "leaf (mem s) r va AND PTE_W \<noteq> 0"
  shows "maps_to (mem s) R (PTE2PA (leaf (mem s) r va)) = {(r, PGROUNDDOWN va)}"
proof -
  have "r' = r \<and> va' = PGROUNDDOWN va"
    if "r' \<in> R" "va' < MAXVA" "page_aligned va'" "pte_valid (leaf (mem s) r' va')"
      "PTE2PA (leaf (mem s) r' va') = PTE2PA (leaf (mem s) r va)" for r' va'
    using exclD [OF assms(1,2) that(1) assms(3) that(2) assms(4-6) that(4,5)] that(3)
    by (simp add: PGROUNDDOWN_aligned)
  then show ?thesis using assms by (auto simp: maps_to_def)
qed

lemma excl_private:
  assumes ex: "excl (leaf (mem s)) R" and h: "cow_handled R r va s s'" and "r \<in> R" "va < MAXVA"
  shows "excl (leaf (mem s')) R"
  unfolding excl_def
proof (intro ballI allI impI)
  let ?v = "leaf (mem s') r va"
  have mt: "maps_to (mem s') R (PTE2PA ?v) = {(r, PGROUNDDOWN va)}"
    and same: "\<And>r' va'. r' \<in> R \<Longrightarrow> va' < MAXVA \<Longrightarrow> \<not> (r' = r \<and> PGROUNDDOWN va' = PGROUNDDOWN va) \<Longrightarrow>
        leaf (mem s') r' va' = leaf (mem s) r' va'"
    using h by (auto simp: cow_handled_def private_page_def Let_def)
  have only: "r1 = r \<and> PGROUNDDOWN v1 = PGROUNDDOWN va"
    if "r1 \<in> R" "v1 < MAXVA" "pte_valid (leaf (mem s') r1 v1)" "PTE2PA (leaf (mem s') r1 v1) = PTE2PA ?v" for r1 v1
  proof -
    have "(r1, PGROUNDDOWN v1) \<in> maps_to (mem s') R (PTE2PA ?v)" using that by (simp add: maps_to_def)
    then show ?thesis using mt by simp
  qed
  fix r1 r2 v1 v2
  assume a: "r1 \<in> R" "r2 \<in> R" "v1 < MAXVA" "v2 < MAXVA" "pte_valid (leaf (mem s') r1 v1)"
    "leaf (mem s') r1 v1 AND PTE_U \<noteq> 0" "leaf (mem s') r1 v1 AND PTE_W \<noteq> 0" "pte_valid (leaf (mem s') r2 v2)"
    "PTE2PA (leaf (mem s') r2 v2) = PTE2PA (leaf (mem s') r1 v1)"
  show "r2 = r1 \<and> PGROUNDDOWN v2 = PGROUNDDOWN v1"
  proof (cases "(r1 = r \<and> PGROUNDDOWN v1 = PGROUNDDOWN va) \<or> (r2 = r \<and> PGROUNDDOWN v2 = PGROUNDDOWN va)")
    case True
    then have "PTE2PA (leaf (mem s') r1 v1) = PTE2PA ?v"
      using a(9) leaf_page [of v1 va] leaf_page [of v2 va] by auto
    then show ?thesis using only [OF a(1,3,5)] only [OF a(2,4,8)] a(9) by simp
  next
    case False
    then show ?thesis using exclD [OF ex a(1-4)] a(5-9) same [OF a(1,3)] same [OF a(2,4)] by auto
  qed
qed

section \<open>User stores\<close>

text \<open>
  A store by user code: the hardware writes when the entry allows it, and otherwise traps to
  \<^verbatim>\<open>usertrap\<close>, which calls \<^verbatim>\<open>handle_cow_fault\<close> for a store fault; on success the instruction is retried,
  otherwise the process is killed (result \<open>False\<close>).
\<close>

definition store_bytes :: "u64 \<Rightarrow> u64 \<Rightarrow> u8 list \<Rightarrow> 'a kmem_scheme \<Rightarrow> 'a kmem_scheme" where
  "store_bytes r va bs s =
     s\<lparr>mem := put_bytes (mem s) (PTE2PA (leaf (mem s) r va) + (va - PGROUNDDOWN va)) bs\<rparr>"

definition can_store :: "u64 \<Rightarrow> u64 \<Rightarrow> 'a kmem_scheme \<Rightarrow> bool" where
  "can_store r va s \<longleftrightarrow>
     va < MAXVA \<and> pte_valid (leaf (mem s) r va) \<and> leaf (mem s) r va AND PTE_U \<noteq> 0 \<and>
     leaf (mem s) r va AND PTE_W \<noteq> 0"

definition user_store :: "u64 \<Rightarrow> u64 \<Rightarrow> u8 \<Rightarrow> 'a kmem_scheme \<Rightarrow> ('a kmem_scheme, bool) res" where
  "user_store r va b s =
     (if can_store r va s then Ok True (store_bytes r va [b] s)
      else andthen (handle_cow_fault (Some r) va s) (\<lambda>ret s.
        if ret \<noteq> 0 then Ok False s
        else if can_store r va s then Ok True (store_bytes r va [b] s)
        else Ok False s))"

lemma run_in_page:
  assumes "page_aligned p" "unat off + n \<le> 4096" "unat (x - (p + off)) < n"
  shows "PGROUNDDOWN x = p"
proof -
  obtain j where j: "x - (p + off) = j" by blast
  have "off + j < PGSIZE"
    using assms(2,3) j by (simp add: word_less_nat_alt PGSIZE_def unat_word_ariths)
  then have "PGROUNDDOWN (p + (off + j)) = p" using assms(1) by simp
  moreover have "p + (off + j) = x" using j by (simp add: algebra_simps)
  ultimately show ?thesis by simp
qed

lemma page_lt_MAXVA:
  assumes "PGROUNDDOWN va' = PGROUNDDOWN va" "va < MAXVA"
  shows "va' < MAXVA"
proof -
  obtain j where j: "unat (PGROUNDDOWN va) = 4096 * j" by (rule aligned_unatE [of "PGROUNDDOWN va"]) simp_all
  have "unat (PGROUNDDOWN va) < 67108864 * 4096"
    using PGROUNDDOWN_MAXVA [OF assms(2)] by (simp add: MAXVA_def word_less_nat_alt)
  then have "Suc j * 4096 \<le> 67108864 * 4096" using j by simp
  moreover have "unat (va' - PGROUNDDOWN va') < 4096"
    using page_offset_less [of va'] by (simp add: word_less_nat_alt PGSIZE_def)
  ultimately have "unat va' < 67108864 * 4096"
    using unat_page_split [of va'] j assms(1) by simp
  then show ?thesis by (simp add: MAXVA_def word_less_nat_alt)
qed

text \<open>A store to a page that is mapped once, for a run of bytes within the page.\<close>

lemma store_private_inv:
  assumes inv: "vminv s R ps" and "r \<in> R" "can_store r va s"
    and len: "unat (va - PGROUNDDOWN va) + length bs \<le> 4096"
  shows "vminv (store_bytes r va bs s) R ps"
    and "\<And>r' va'. r' \<in> R \<Longrightarrow> va' < MAXVA \<Longrightarrow> leaf (mem (store_bytes r va bs s)) r' va' = leaf (mem s) r' va'"
    and "\<And>x. PGROUNDDOWN x \<noteq> PTE2PA (leaf (mem s) r va) \<Longrightarrow> mem (store_bytes r va bs s) x = mem s x"
proof -
  let ?s = "store_bytes r va bs s" and ?p = "PTE2PA (leaf (mem s) r va)" and ?o = "va - PGROUNDDOWN va"
  note pt = vminvD(1) [OF inv]
  have c: "va < MAXVA" "pte_valid (leaf (mem s) r va)" using assms(3) by (auto simp: can_store_def)
  have np: "?p \<notin> set ps" "?p \<notin> tables (mem s) R" using ptinvD(6,7) [OF pt assms(2) c] by auto
  show fr: "mem ?s x = mem s x" if "PGROUNDDOWN x \<noteq> ?p" for x
    using run_in_page [OF _ len, of ?p x] that by (auto simp: store_bytes_def put_bytes_def)
  have m: "mem ?s x = mem s x" if "PGROUNDDOWN x \<in> set ps \<union> tables (mem s) R" for x
    using that np by (intro fr) auto
  have same: "ptinv ?s R ps" "tables (mem ?s) R = tables (mem s) R"
    by (rule ptinv_frame [OF pt]; (rule m)?; simp add: store_bytes_def)+
  show lf: "leaf (mem ?s) r1 v1 = leaf (mem s) r1 v1" if "r1 \<in> R" "v1 < MAXVA" for r1 v1
    by (rule leaf_frame [OF ptinvD(2) [OF pt] m that]) simp
  have "maps_to (mem ?s) R p = maps_to (mem s) R p" for p by (rule maps_to_cong) (rule lf)
  then show "vminv ?s R ps"
    using same inv by (simp add: vminv_def refs_ok_def page_ok_def) (simp add: store_bytes_def)
qed

lemma store_private:
  assumes inv: "vminv s R ps" and "r \<in> R" "can_store r va s" "r' \<in> R"
    and len: "unat (va - PGROUNDDOWN va) + length bs \<le> 4096"
    and mt: "maps_to (mem s) R (PTE2PA (leaf (mem s) r va)) = {(r, PGROUNDDOWN va)}"
    and rd: "leaf (mem s) r va AND PTE_R \<noteq> 0"
  shows "uread (store_bytes r va bs s) r' va' =
    (if r' = r \<and> unat (va' - va) < length bs then Some (bs ! unat (va' - va)) else uread s r' va')"
proof (cases "va' < MAXVA \<and> pte_valid (leaf (mem s) r' va') \<and> PTE2PA (leaf (mem s) r' va') = PTE2PA (leaf (mem s) r va)")
  case True
  let ?s = "store_bytes r va bs s" and ?p = "PTE2PA (leaf (mem s) r va)" and ?o = "va - PGROUNDDOWN va"
  note S = store_private_inv [OF assms(1-3) len]
  have c: "va < MAXVA" "leaf (mem s) r va AND PTE_U \<noteq> 0" using assms(3) by (auto simp: can_store_def)
  have "(r', PGROUNDDOWN va') \<in> maps_to (mem s) R ?p" using True assms(4) by (simp add: maps_to_def)
  then have eq: "r' = r" "PGROUNDDOWN va' = PGROUNDDOWN va" using mt by auto
  have lv: "leaf (mem s) r va' = leaf (mem s) r va" by (rule leaf_page) (rule eq(2))
  have ls: "leaf (mem ?s) r va' = leaf (mem s) r va" using S(2) [OF assms(2)] True lv by simp
  have "?p + (va' - PGROUNDDOWN va') - (?p + ?o) = va' - va" unfolding eq(2) by simp
  then have "mem ?s (?p + (va' - PGROUNDDOWN va')) =
      (if unat (va' - va) < length bs then bs ! unat (va' - va) else mem s (?p + (va' - PGROUNDDOWN va')))"
    by (simp add: store_bytes_def put_bytes_def)
  then show ?thesis using True c rd unfolding uread_def Let_def eq(1) ls lv by simp
next
  case False
  let ?s = "store_bytes r va bs s" and ?p = "PTE2PA (leaf (mem s) r va)"
  note S = store_private_inv [OF assms(1-3) len]
  have off: "PGROUNDDOWN (PTE2PA u + (x - PGROUNDDOWN x)) = PTE2PA u" for u x using page_offset_less [of x] by simp
  have c: "va < MAXVA" "pte_valid (leaf (mem s) r va)" using assms(3) by (auto simp: can_store_def)
  have "uread ?s r' va' = uread s r' va'"
  proof (cases "va' < MAXVA")
    case lt: True
    show ?thesis
      by (rule uread_same_view) (use S(2) [OF assms(4) lt] False lt off S(3) in \<open>auto simp: same_view_refl\<close>)
  qed (simp add: uread_def)
  moreover have "\<not> (r' = r \<and> unat (va' - va) < length bs)"
  proof
    assume a: "r' = r \<and> unat (va' - va) < length bs"
    then have pg: "PGROUNDDOWN va' = PGROUNDDOWN va"
      using run_in_page [OF _ len, of "PGROUNDDOWN va" va'] by simp
    then have "va' < MAXVA" by (rule page_lt_MAXVA [OF _ c(1)])
    then show False using False a c leaf_page [OF pg, of "mem s" r] by simp
  qed
  ultimately show ?thesis by auto
qed

end
