(* ===== verification/Uspace.thy ===== *)
theory Uspace
  imports Ustore
begin

text \<open>
  Creating, growing and shrinking address spaces: \<^verbatim>\<open>uvmcreate\<close>, \<^verbatim>\<open>uvmalloc\<close> and \<^verbatim>\<open>uvmdealloc\<close> keep the
  invariants of the family of address spaces and do not change what other processes, or the rest of
  the same process, read. A failing \<^verbatim>\<open>uvmalloc\<close> takes back every page it had added.
\<close>

section \<open>A new, empty space\<close>

lemma uvmcreate_vminv:
  assumes inv: "vminv s R (q # qs)"
  shows "\<exists>s'. uvmcreate s = (q, s') \<and> vminv s' (insert q R) qs \<and> q \<notin> R \<and>
    (\<forall>va < MAXVA. leaf (mem s') q va = 0) \<and>
    (\<forall>r \<in> R. \<forall>va < MAXVA. leaf (mem s') r va = leaf (mem s) r va) \<and>
    (\<forall>x. PGROUNDDOWN x \<noteq> q \<longrightarrow> mem s' x = mem s x) \<and>
    end_addr s' = end_addr s \<and> kmem.more s' = kmem.more s"
proof -
  note pt = vminvD(1) [OF inv]
  have k: "kinv s (q # qs)" by (rule ptinvD(1) [OF pt])
  have q: "q \<noteq> 0" "page_aligned q" "page_ok s q" "q \<notin> tables (mem s) R" "q \<notin> set qs"
    using kinv_nonzero [OF k, of q] kinv_aligned [OF k, of q] k ptinvD(4) [OF pt, of q] by (auto simp: kinv_def)
  obtain s1 where ka: "kalloc s = (q, s1)" using kalloc_Cons(1) [OF k] by (cases "kalloc s") auto
  have k1: "refcnt s1 = (refcnt s)(page_index q := 1)" "end_addr s1 = end_addr s"
    "kmem.more s1 = kmem.more s" "\<And>x. PGROUNDDOWN x \<noteq> q \<Longrightarrow> mem s1 x = mem s x"
    using kalloc_Cons [OF k] ka kalloc_fields [of s] by simp_all
  define s' where "s' = s1\<lparr>mem := memset (mem s1) q 0 4096\<rparr>"
  have fr1: "mem s' x = mem s1 x" if "PGROUNDDOWN x \<noteq> q" for x
    using that q(2) by (simp add: s'_def memset_page)
  have fields: "end_addr s' = end_addr s1" "freelist s' = freelist s1" "refcnt s' = refcnt s1"
    by (simp_all add: s'_def)
  have T: "vminv s' R qs" "tables (mem s') R = tables (mem s) R"
    "\<And>r va. r \<in> R \<Longrightarrow> va < MAXVA \<Longrightarrow> leaf (mem s') r va = leaf (mem s) r va"
    by (rule vminv_take_page [OF inv ka fields fr1]; assumption)+
  note pt' = vminvD(1) [OF T(1)]
  have qR: "q \<notin> R" using q(4) in_tables [of q R 0 0 "mem s" q] by (auto simp: MAXVA_def)
  have zero: "ld64 (mem s') (pte_slot q (PX l va)) = 0" for l va
    by (simp add: s'_def ld64_slot_zeroed [OF q(2)])
  have tabq: "tab (mem s') q va d = (if d = 0 then Some q else None)" for va d
  proof (induction d)
    case (Suc d)
    then show ?case using zero by (cases d) simp_all
  qed simp
  have lq: "leaf (mem s') q va = 0" for va by (simp add: leaf_def tabq)
  have tb: "tables (mem s') (insert q R) = insert q (tables (mem s) R)"
  proof -
    have "(0 :: u64) < MAXVA" by (simp add: MAXVA_def)
    then have "tables (mem s') {q} = {q}" by (auto simp: tables_def tabq split: if_splits)
    moreover have "tables (mem s') (insert q R) = tables (mem s') {q} \<union> tables (mem s') R"
      by (auto simp: tables_def)
    ultimately show ?thesis using T(2) by simp
  qed
  have sh: "pt_shape (mem s') (insert q R)" unfolding pt_shape_def
  proof (intro conjI ballI allI impI)
    fix r r' va va' d d' t
    assume a: "r \<in> insert q R" "r' \<in> insert q R" "va < MAXVA" "va' < MAXVA" "d \<le> 2" "d' \<le> 2"
      "tab (mem s') r va d = Some t" "tab (mem s') r' va' d' = Some t"
    have in_old: "t \<noteq> q" if "r1 \<in> R" "v1 < MAXVA" "d1 \<le> 2" "tab (mem s') r1 v1 d1 = Some t" for r1 v1 d1
      using in_tables [OF that] T(2) q(4) by auto
    show "r = r'" "d = d'" "tkey d va = tkey d va'"
      using a pt_shape_inj [OF ptinvD(2) [OF pt'], of r r' va va' d d' t] in_old [of r va d] in_old [of r' va' d']
        tkey_0 [of va] tkey_0 [of va'] tabq
      by (auto split: if_splits)
  qed (use ptinvD(2) [OF pt'] q(2) in \<open>auto simp: pt_shape_def\<close>)
  have "ptinv s' (insert q R) qs" unfolding ptinv_def tb
  proof (intro conjI ballI allI impI)
    show "kinv s' qs" by (rule ptinvD(1) [OF pt'])
    show "pt_shape (mem s') (insert q R)" by (rule sh)
  next
    fix t assume t: "t \<in> insert q (tables (mem s) R)"
    show "page_ok s' t" "t \<notin> set qs" "refcnt s' (page_index t) = 1"
      using t ptinvD(3-5) [OF pt', of t] T(2) q(3,5) k1(1,2) by (auto simp: page_ok_def s'_def)
  next
    fix r va assume a: "r \<in> insert q R" "va < MAXVA" "pte_valid (leaf (mem s') r va)"
    then have r: "r \<in> R" using lq by auto
    then have "PTE2PA (leaf (mem s') r va) \<notin> set (q # qs)" "PTE2PA (leaf (mem s') r va) \<notin> tables (mem s) R"
      using a T(3) ptinvD(6,7) [OF pt r a(2)] by simp_all
    then show "PTE2PA (leaf (mem s') r va) \<notin> set qs" "PTE2PA (leaf (mem s') r va) \<notin> insert q (tables (mem s) R)"
      by auto
  qed
  moreover have "maps_to (mem s') (insert q R) p = maps_to (mem s') R p" for p
    using lq by (auto simp: maps_to_def)
  then have "refs_ok s' (insert q R) qs"
    using vminvD(2) [OF T(1)] tb T(2) by (simp add: refs_ok_def)
  ultimately have "vminv s' (insert q R) qs" by (simp add: vminv_def)
  moreover have "uvmcreate s = (q, s')" using ka q(1) by (simp add: uvmcreate_def s'_def)
  ultimately show ?thesis using qR lq T(3) fr1 k1(2-4) fields(1) by (auto simp: s'_def)
qed

section \<open>Shrinking\<close>

lemma scast_ucast_small: "unat x < 2 ^ 31 \<Longrightarrow> (scast (ucast x :: u32) :: u64) = x" for x :: u64
proof (rule bit_word_eqI)
  fix n assume x: "unat x < 2 ^ 31" and n: "n < LENGTH(64)"
  have "x < 2 ^ 31" using x by (simp add: word_less_nat_alt)
  then have "\<not> bit x k" if "31 \<le> k" for k using less_exp_not_bit [of x 31 k] that by simp
  then show "bit (scast (ucast x :: u32) :: u64) n \<longleftrightarrow> bit x n"
    using n by (auto simp: bit_simps not_le min_def)
qed

lemma unat_PGROUNDUP:
  assumes "a \<le> MAXVA"
  shows "unat (PGROUNDUP a) = npages a * 4096"
proof -
  have "unat a \<le> 2 ^ 38" using assms by (simp add: MAXVA_def word_le_nat_alt)
  then have b: "unat a \<le> unat (PGROUNDUP a)" "unat (PGROUNDUP a) \<le> unat a + 4095"
    using PGROUNDUP_bounds [of a] by simp_all
  obtain k where k: "unat (PGROUNDUP a) = 4096 * k" by (rule aligned_unatE [of "PGROUNDUP a"]) simp_all
  have "k = npages a" using b npages_div [of a] unfolding k by linarith
  then show ?thesis using k by simp
qed

lemma npages_le: "a \<le> b \<Longrightarrow> npages a \<le> npages b"
  by (simp add: npages_def word_le_nat_alt div_le_mono)

lemma uvmdealloc_spec:
  assumes inv: "vminv s R ps" and "r \<in> R" "newsz \<le> oldsz" "oldsz \<le> MAXVA"
    and up: "\<And>va. in_pages (PGROUNDUP newsz) (npages oldsz - npages newsz) va \<Longrightarrow> user_page s r va"
  shows "\<exists>s' ps'. uvmdealloc r oldsz newsz s = Ok newsz s' \<and> set ps \<subseteq> set ps' \<and>
    vm_trans R s ps s' ps' (\<lambda>r' va. if r' = r \<and> in_pages (PGROUNDUP newsz) (npages oldsz - npages newsz) va
                                    then 0 else leaf (mem s) r' va)"
proof -
  let ?n = "npages oldsz - npages newsz" and ?a = "PGROUNDUP newsz"
  have ua: "unat ?a = npages newsz * 4096" "unat (PGROUNDUP oldsz) = npages oldsz * 4096"
    using unat_PGROUNDUP assms(3,4) by (auto intro: order.trans)
  have le: "npages newsz \<le> npages oldsz" by (rule npages_le [OF assms(3)])
  have bound: "unat ?a + ?n * 4096 \<le> 2 ^ 38"
    using npages_MAXVA [OF assms(4)] le ua by (simp add: diff_mult_distrib)
  obtain s' ps' where u: "uvmunmap_loop r ?a (?a + of_nat ?n * PGSIZE) True s = Ok () s'" "set ps \<subseteq> set ps'"
    "vm_trans R s ps s' ps' (\<lambda>r' va. if r' = r \<and> in_pages ?a ?n va then 0 else leaf (mem s) r' va)"
    using uvmunmap_loop_free [OF inv assms(2) _ bound up] by auto
  show ?thesis
  proof (cases "?n = 0")
    case True
    then have "PGROUNDUP oldsz = ?a" using ua le by (simp add: word_unat_eq_iff)
    then have "uvmdealloc r oldsz newsz s = Ok newsz s" using assms(3) by (simp add: uvmdealloc_def)
    moreover have "vm_trans R s ps s ps (\<lambda>r' va. if r' = r \<and> in_pages ?a ?n va then 0 else leaf (mem s) r' va)"
      using vm_trans_refl [OF inv] True by simp
    ultimately show ?thesis by blast
  next
    case False
    then have lt: "?a < PGROUNDUP oldsz" "newsz < oldsz"
      using ua le assms(3) by (auto simp: word_less_nat_alt le_less)
    have "unat ((PGROUNDUP oldsz - ?a) div PGSIZE) = ?n"
      using lt(1) ua le by (simp add: unat_div_distrib unat_sub PGSIZE_def diff_mult_distrib [symmetric])
    then have nd: "(PGROUNDUP oldsz - ?a) div PGSIZE = of_nat ?n" by (metis of_nat_unat_64)
    moreover have "npages oldsz \<le> 2 ^ 26" using npages_MAXVA [OF assms(4)] by simp
    then have "unat ((PGROUNDUP oldsz - ?a) div PGSIZE) < 2 ^ 31"
      using \<open>unat ((PGROUNDUP oldsz - ?a) div PGSIZE) = ?n\<close> by simp
    ultimately have "uvmdealloc r oldsz newsz s = Ok newsz s'"
      using u(1) lt(1) lt(2) [folded not_le] scast_ucast_small [of "(PGROUNDUP oldsz - ?a) div PGSIZE"]
      by (simp add: uvmdealloc_def uvmunmap_def Let_def)
    then show ?thesis using u(2,3) by blast
  qed
qed

section \<open>Growing\<close>

lemma kfree_unmapped:
  assumes inv: "vminv s R ps" and p: "page_ok s p" "p \<notin> set ps" "p \<notin> tables (mem s) R"
    and none: "maps_to (mem s) R p = {}" and one: "refcnt s (page_index p) = 1"
  obtains s' where "kfree p s = Ok () s'" "vm_trans R s ps s' (p # ps) (leaf (mem s))"
proof -
  note pt = vminvD(1) [OF inv]
  have al: "page_aligned p" using p(1) by (simp add: page_ok_def)
  obtain s' where s': "kfree p s = Ok () s'" "kinv s' (p # ps)" "end_addr s' = end_addr s"
    "kmem.more s' = kmem.more s" "refcnt s' = (refcnt s)(page_index p := refcnt s (page_index p) - 1)"
    "\<And>x. PGROUNDDOWN x \<noteq> p \<Longrightarrow> mem s' x = mem s x"
    using kfree_push [OF ptinvD(1) [OF pt] p(1,2)] one by auto
  have fr: "mem s' x = mem s x" if "PGROUNDDOWN x \<in> tables (mem s) R" for x
    using that p(3) by (intro s'(6)) auto
  have tab: "tab (mem s') r va d = tab (mem s) r va d" if "r \<in> R" "va < MAXVA" "d \<le> 2" for r va d
    by (rule tab_frame [OF ptinvD(2) [OF pt] fr that])
  have lf: "leaf (mem s') r va = leaf (mem s) r va" if "r \<in> R" "va < MAXVA" for r va
    by (rule leaf_frame [OF ptinvD(2) [OF pt] fr that])
  have tb: "tables (mem s') R = tables (mem s) R" by (rule pt_shape_tab_eq(2) [OF ptinvD(2) [OF pt] tab])
  have sh: "pt_shape (mem s') R" by (rule pt_shape_tab_eq(1) [OF ptinvD(2) [OF pt] tab])
  have ref: "refcnt s' (page_index u) = refcnt s (page_index u)" if "page_aligned u" "u \<noteq> p" for u
    using page_index_inj [OF that(1) al] that(2) by (auto simp: s'(5))
  have mt: "maps_to (mem s') R u = maps_to (mem s) R u" for u by (rule maps_to_cong) (rule lf)
  have tok: "page_ok s' t \<and> t \<notin> set (p # ps) \<and> refcnt s' (page_index t) = 1" if "t \<in> tables (mem s) R" for t
    using ptinvD(3-5) [OF pt that] ref [of t] ptinv_table_aligned [OF pt that] p(3) that s'(3) by (auto simp: page_ok_def)
  have tgt: "PTE2PA (leaf (mem s) r va) \<notin> set (p # ps) \<and> PTE2PA (leaf (mem s) r va) \<notin> tables (mem s) R"
    if "r \<in> R" "va < MAXVA" "pte_valid (leaf (mem s) r va)" for r va
  proof -
    have "(r, PGROUNDDOWN va) \<notin> maps_to (mem s) R p" using none by simp
    then have "PTE2PA (leaf (mem s) r va) \<noteq> p" using that by (auto simp: maps_to_def)
    then show ?thesis using ptinvD(6,7) [OF pt that] by simp
  qed
  have "ptinv s' R (p # ps)" unfolding ptinv_def tb using s'(2) sh tok tgt lf by simp
  moreover have "refs_ok s' R (p # ps)" unfolding refs_ok_def tb mt
  proof (intro allI impI)
    fix u assume "page_ok s' u" "u \<notin> set (p # ps)" "u \<notin> tables (mem s) R"
    then show "1 \<le> refcnt s' (page_index u) \<and> int (card (maps_to (mem s) R u)) \<le> refcnt s' (page_index u)"
      using refs_okD [OF vminvD(2) [OF inv], of u] ref [of u] s'(3) by (auto simp: page_ok_def)
  qed
  ultimately have "vminv s' R (p # ps)" by (simp add: vminv_def)
  then have "vm_trans R s ps s' (p # ps) (leaf (mem s))"
    unfolding vm_trans_def owned_def tb using lf s'(3,4,6) by auto
  then show ?thesis using that s'(1) by blast
qed

text \<open>Everything outside \<open>P\<close> keeps its entries and reads the same.\<close>

definition unaffected ::
  "u64 set \<Rightarrow> (u64 \<Rightarrow> u64 \<Rightarrow> bool) \<Rightarrow> 'a kmem_scheme \<Rightarrow> 'a kmem_scheme \<Rightarrow> bool" where
  "unaffected R P s s' \<longleftrightarrow>
     (\<forall>r \<in> R. \<forall>va < MAXVA. \<not> P r va \<longrightarrow>
        leaf (mem s') r va = leaf (mem s) r va \<and> uread s' r va = uread s r va)"

lemma unaffected_trans:
  "unaffected R P s s1 \<Longrightarrow> unaffected R Q s1 s2 \<Longrightarrow>
   (\<And>r va. r \<in> R \<Longrightarrow> va < MAXVA \<Longrightarrow> P r va \<or> Q r va \<Longrightarrow> S r va) \<Longrightarrow> unaffected R S s s2"
  unfolding unaffected_def by metis

lemma vm_trans_unaffected:
  "vm_trans R s ps s' ps' L \<Longrightarrow>
   (\<And>r va. r \<in> R \<Longrightarrow> va < MAXVA \<Longrightarrow> \<not> P r va \<Longrightarrow> L r va = leaf (mem s) r va) \<Longrightarrow> unaffected R P s s'"
  unfolding unaffected_def using vm_trans_uread vm_transD(5) by metis

lemma take_page_unaffected:
  assumes inv: "vminv s R (q # qs)" and k: "kalloc s = (q, s1)"
    and s2: "end_addr s2 = end_addr s1" "freelist s2 = freelist s1" "refcnt s2 = refcnt s1"
      "\<And>x. PGROUNDDOWN x \<noteq> q \<Longrightarrow> mem s2 x = mem s1 x"
  shows "unaffected R (\<lambda>_ _. False) s s2"
  unfolding unaffected_def
proof (intro ballI allI impI)
  fix r va assume r: "r \<in> R" "va < MAXVA"
  note pt = vminvD(1) [OF inv]
  have lf: "leaf (mem s2) r va = leaf (mem s) r va"
    by (rule vminv_take_page(2) [OF inv k s2 r])
  have m: "mem s2 x = mem s x" if "PGROUNDDOWN x \<noteq> q" for x
    using s2(4) [OF that] kalloc_Cons(4) [OF ptinvD(1) [OF pt] that] k by simp
  have "uread s2 r va = uread s r va"
  proof (rule uread_same_view)
    show "same_view (leaf (mem s2) r va) (leaf (mem s) r va)" unfolding lf by (rule same_view_refl)
    let ?p = "PTE2PA (leaf (mem s) r va)"
    assume "pte_valid (leaf (mem s) r va)"
    then have "?p \<noteq> q" using ptinvD(6) [OF pt r] by auto
    moreover have "PGROUNDDOWN (?p + (va - PGROUNDDOWN va)) = ?p" using page_offset_less [of va] by simp
    ultimately show "mem s2 (?p + (va - PGROUNDDOWN va)) = mem s (?p + (va - PGROUNDDOWN va))" using m by simp
  qed
  then show "leaf (mem s2) r va = leaf (mem s) r va \<and> uread s2 r va = uread s r va" using lf by simp
qed

lemma excl_fresh:
  assumes ex: "excl L R" and none: "\<And>r' va'. r' \<in> R \<Longrightarrow> va' < MAXVA \<Longrightarrow> pte_valid (L r' va') \<Longrightarrow> PTE2PA (L r' va') \<noteq> PTE2PA v"
  shows "excl (upd_leaf L r va v) R"
  unfolding excl_def
proof (intro ballI allI impI)
  let ?L = "upd_leaf L r va v"
  fix r1 r2 v1 v2
  assume a: "r1 \<in> R" "r2 \<in> R" "v1 < MAXVA" "v2 < MAXVA" "pte_valid (?L r1 v1)" "?L r1 v1 AND PTE_U \<noteq> 0"
    "?L r1 v1 AND PTE_W \<noteq> 0" "pte_valid (?L r2 v2)" "PTE2PA (?L r2 v2) = PTE2PA (?L r1 v1)"
  then show "r2 = r1 \<and> PGROUNDDOWN v2 = PGROUNDDOWN v1"
    using exclD [OF ex a(1-4)] none [OF a(1,3)] none [OF a(2,4)]
    by (auto simp: upd_leaf_def split: if_splits)
qed

lemma excl_subset:
  assumes "excl L R" "\<And>r va. r \<in> R \<Longrightarrow> va < MAXVA \<Longrightarrow> L' r va = L r va \<or> \<not> pte_valid (L' r va)"
  shows "excl L' R"
  unfolding excl_def
proof (intro ballI allI impI)
  fix r r' va va'
  assume a: "r \<in> R" "r' \<in> R" "va < MAXVA" "va' < MAXVA" "pte_valid (L' r va)" "L' r va AND PTE_U \<noteq> 0"
    "L' r va AND PTE_W \<noteq> 0" "pte_valid (L' r' va')" "PTE2PA (L' r' va') = PTE2PA (L' r va)"
  have "L' r va = L r va" "L' r' va' = L r' va'" using assms(2) a by blast+
  then show "r' = r \<and> PGROUNDDOWN va' = PGROUNDDOWN va" using exclD [OF assms(1), of r r' va va'] a by simp
qed

text \<open>
  One round of the loop of \<^verbatim>\<open>uvmalloc\<close>: a fresh page is mapped at \<open>a\<close>, or memory for a page table is
  missing and the page is given back.
\<close>

definition alloc_entry :: "u64 \<Rightarrow> u64 \<Rightarrow> u64" where
  "alloc_entry q xperm = PA2PTE q OR ((PTE_R OR PTE_U) OR xperm) OR PTE_V"

lemma uvmalloc_page:
  assumes inv: "vminv s R (q # qs)" and ex: "excl (leaf (mem s)) R" and "r \<in> R" "a < MAXVA" "page_aligned a"
    and free: "\<not> pte_valid (leaf (mem s) r a)" and "a < newsz" "flags_ok xperm"
  obtains (fail) s' ps' where
    "uvmalloc_loop r a oldsz newsz xperm s = andthen (uvmdealloc r a oldsz s') (\<lambda>_ s. Ok 0 s)"
    "vminv s' R ps'" "excl (leaf (mem s')) R" "unaffected R (\<lambda>_ _. False) s s'" "end_addr s' = end_addr s"
    "kmem.more s' = kmem.more s" "length qs < 2"
  | (ok) s' ps' where
    "uvmalloc_loop r a oldsz newsz xperm s = uvmalloc_loop r (a + PGSIZE) oldsz newsz xperm s'"
    "vminv s' R ps'" "excl (leaf (mem s')) R" "unaffected R (\<lambda>r' va. r' = r \<and> PGROUNDDOWN va = a) s s'"
    "leaf (mem s') r a = alloc_entry q xperm" "user_page s' r a" "end_addr s' = end_addr s"
    "kmem.more s' = kmem.more s" "length qs \<le> length ps' + 2"
proof -
  note pt = vminvD(1) [OF inv]
  have k: "kinv s (q # qs)" by (rule ptinvD(1) [OF pt])
  have q: "q \<noteq> 0" "page_aligned q" "page_ok s q" "q \<notin> tables (mem s) R" "q \<notin> set qs"
    using kinv_nonzero [OF k, of q] kinv_aligned [OF k, of q] k ptinvD(4) [OF pt, of q] by (auto simp: kinv_def)
  obtain s1 where ka: "kalloc s = (q, s1)" using kalloc_Cons(1) [OF k] by (cases "kalloc s") auto
  have k1: "refcnt s1 = (refcnt s)(page_index q := 1)" "end_addr s1 = end_addr s" "kmem.more s1 = kmem.more s"
    using kalloc_Cons [OF k] ka kalloc_fields [of s] by simp_all
  define s2 where "s2 = (if LAB_SYSCALL then s1 else s1\<lparr>mem := memset (mem s1) q 0 4096\<rparr>)"
  have f2: "end_addr s2 = end_addr s1" "freelist s2 = freelist s1" "refcnt s2 = refcnt s1"
    "kmem.more s2 = kmem.more s1" by (simp_all add: s2_def)
  have fr2: "mem s2 x = mem s1 x" if "PGROUNDDOWN x \<noteq> q" for x
    using that q(2) by (simp add: s2_def memset_page)
  have T: "vminv s2 R qs" "tables (mem s2) R = tables (mem s) R" "maps_to (mem s2) R q = {}"
    "\<And>r va. r \<in> R \<Longrightarrow> va < MAXVA \<Longrightarrow> leaf (mem s2) r va = leaf (mem s) r va"
    by (rule vminv_take_page [OF inv ka f2(1-3) fr2]; assumption)+
  have U: "unaffected R (\<lambda>_ _. False) s s2"
    by (rule take_page_unaffected [OF inv ka f2(1-3) fr2])
  have ex2: "excl (leaf (mem s2)) R" by (rule excl_cong [OF ex T(4)])
  have nv: "\<not> pte_valid (leaf (mem s2) r a)" using T(4) [OF assms(3,4)] free by simp
  have q2: "page_ok s2 q" "refcnt s2 (page_index q) = 1" using q(3) k1(1,2) f2 by (simp_all add: page_ok_def)
  have perm: "flags_ok ((PTE_R OR PTE_U) OR xperm)" using assms(8) by simp
  have body: "uvmalloc_loop r a oldsz newsz xperm s =
      andthen (mappages r a PGSIZE q ((PTE_R OR PTE_U) OR xperm) s2) (\<lambda>ret s.
        if ret \<noteq> 0 then andthen (kfree q s) (\<lambda>_ s. andthen (uvmdealloc r a oldsz s) (\<lambda>_ s. Ok 0 s))
        else uvmalloc_loop r (a + PGSIZE) oldsz newsz xperm s)"
    using assms(7) ka q(1) by (subst uvmalloc_loop.simps) (simp add: s2_def Let_def)
  have q4: "q \<notin> tables (mem s2) R" using q(4) T(2) by simp
  show ?thesis
  proof (cases rule: mappages_page [OF vminvD(1) [OF T(1)] assms(3-5) q(2) perm q(5) q4 nv, case_names mfail mok])
    case (mfail s3)
    note d = pt_transD [OF mfail(2)]
    have inv3: "vminv s3 R []" by (rule vminv_grow [OF T(1) mfail(2)])
    have "q \<notin> tables (mem s3) R" using d(6) q(4,5) T(2) by auto
    moreover have "maps_to (mem s3) R q = {}" using maps_to_cong [OF d(7), of R q] T(3) by simp
    moreover have "refcnt s3 (page_index q) = 1" using d(8) [OF q(2,5)] q2(2) by simp
    moreover have "page_ok s3 q" using q2(1) d(2) by (simp add: page_ok_def)
    ultimately obtain s4 where s4: "kfree q s3 = Ok () s4" "vm_trans R s3 [] s4 [q] (leaf (mem s3))"
      using kfree_unmapped [OF inv3] by auto
    have vt: "vm_trans R s2 qs s4 [q] (leaf (mem s3))"
      by (rule vm_trans_trans [OF vm_trans_pt [OF mfail(2) inv3] s4(2)]) simp
    have lf4: "leaf (mem s4) r' va = leaf (mem s2) r' va" if "r' \<in> R" "va < MAXVA" for r' va
      using vm_transD(5) [OF vt that] d(7) [OF that] by simp
    have "unaffected R (\<lambda>_ _. False) s2 s4"
      by (rule vm_trans_unaffected [OF vt]) (simp add: d(7))
    then have "unaffected R (\<lambda>_ _. False) s s4" by (rule unaffected_trans [OF U]) simp
    moreover have "excl (leaf (mem s4)) R" by (rule excl_cong [OF ex2 lf4])
    moreover have "uvmalloc_loop r a oldsz newsz xperm s = andthen (uvmdealloc r a oldsz s4) (\<lambda>_ s. Ok 0 s)"
      using body mfail(1) s4(1) by simp
    ultimately show ?thesis using fail vm_transD(1-3) [OF vt] f2 k1 mfail(3) by simp
  next
    case (mok s3 ps3)
    let ?v = "alloc_entry q xperm"
    note tr = mok(2) [folded alloc_entry_def]
    note d = pt_transD [OF tr]
    have v: "PTE2PA ?v = q" "pte_valid ?v" "PTE_FLAGS ?v \<noteq> PTE_V"
      using q(2) perm by (simp_all add: alloc_entry_def pte_valid_def bit_or_iff bit_PTE)
        (auto simp: u64_bits bit_or_iff bit_PTE)
    have inv3: "vminv s3 R ps3"
      by (rule vminv_map [OF T(1) assms(3-5) nv tr]) (simp add: v(1) T(3) q2)
    have pga: "PGROUNDDOWN a = a" by (rule PGROUNDDOWN_aligned [OF assms(5)])
    have lf: "leaf (mem s3) r a = ?v" using d(7) [OF assms(3,4)] by (simp add: upd_leaf_def)
    have "unaffected R (\<lambda>r' va. r' = r \<and> PGROUNDDOWN va = a) s2 s3"
      by (rule vm_trans_unaffected [OF vm_trans_pt [OF tr inv3]]) (auto simp: upd_leaf_def pga)
    then have "unaffected R (\<lambda>r' va. r' = r \<and> PGROUNDDOWN va = a) s s3" by (rule unaffected_trans [OF U]) simp
    moreover have "excl (leaf (mem s3)) R"
    proof (rule excl_cong [OF excl_fresh [OF ex2] d(7)])
      fix r' va assume "r' \<in> R" "va < MAXVA" "pte_valid (leaf (mem s2) r' va)"
      moreover have "(r', PGROUNDDOWN va) \<notin> maps_to (mem s2) R q" using T(3) by simp
      ultimately show "PTE2PA (leaf (mem s2) r' va) \<noteq> PTE2PA ?v" by (auto simp: maps_to_def v(1))
    qed
    moreover have "user_page s3 r a" using lf v q2(1) d(2) by (simp add: user_page_def page_ok_def)
    moreover have "uvmalloc_loop r a oldsz newsz xperm s = uvmalloc_loop r (a + PGSIZE) oldsz newsz xperm s3"
      using body mok(1) by simp
    ultimately show ?thesis using ok [OF _ inv3] lf d(2,3) f2 k1 mok(3) by simp
  qed
qed

text \<open>The pages added so far form the run of \<open>k\<close> pages from \<open>oldsz\<close>.\<close>

lemma in_pages_snoc:
  assumes "page_aligned b" "unat a = unat b + k * 4096"
  shows "in_pages b (Suc k) va \<longleftrightarrow> in_pages b k va \<or> (unat a \<le> unat va \<and> unat va < unat a + 4096)"
  using assms(2) by (auto simp: in_pages_def)

lemma npages_run:
  assumes "page_aligned b" "unat a = unat b + k * 4096" "a \<le> MAXVA"
  shows "PGROUNDUP b = b" "npages a - npages b = k"
proof -
  obtain j where j: "unat b = 4096 * j" using aligned_unatE [OF assms(1)] .
  have "npages b = j" "npages a = j + k" using assms(2) j by (simp_all add: npages_def)
  moreover have "b \<le> MAXVA" using assms(2,3) by (simp add: word_le_nat_alt)
  ultimately show "PGROUNDUP b = b" "npages a - npages b = k"
    using unat_PGROUNDUP [of b] j by (simp_all add: word_unat_eq_iff)
qed

lemma uvmalloc_undo:
  assumes inv: "vminv s R ps" and ex: "excl (leaf (mem s)) R" and "r \<in> R" "page_aligned b"
    and "unat a = unat b + k * 4096" "a \<le> MAXVA"
    and up: "\<And>va. in_pages b k va \<Longrightarrow> user_page s r va"
  obtains s' ps' where "uvmdealloc r a b s = Ok b s'" "vminv s' R ps'" "excl (leaf (mem s')) R"
    "end_addr s' = end_addr s" "kmem.more s' = kmem.more s"
    "unaffected R (\<lambda>r' va. r' = r \<and> in_pages b k va) s s'"
    "\<And>va. va < MAXVA \<Longrightarrow> in_pages b k va \<Longrightarrow> leaf (mem s') r va = 0"
proof -
  note n = npages_run [OF assms(4-6)]
  have le: "b \<le> a" using assms(5) by (simp add: word_le_nat_alt)
  obtain s' ps' where u: "uvmdealloc r a b s = Ok b s'"
    "vm_trans R s ps s' ps' (\<lambda>r' va. if r' = r \<and> in_pages b k va then 0 else leaf (mem s) r' va)"
    using uvmdealloc_spec [OF inv assms(3) le assms(6)] up unfolding n by blast
  have "unaffected R (\<lambda>r' va. r' = r \<and> in_pages b k va) s s'"
    by (rule vm_trans_unaffected [OF u(2)]) auto
  moreover have "excl (leaf (mem s')) R"
    by (rule excl_subset [OF ex]) (simp add: vm_transD(5) [OF u(2)])
  ultimately show ?thesis using u(1) vm_transD [OF u(2)] assms(3) that by simp
qed

text \<open>The result of the loop of \<^verbatim>\<open>uvmalloc\<close> at \<open>a\<close> with \<open>n\<close> pages to go and \<open>k\<close> pages added since \<open>b\<close>.\<close>

definition grown ::
  "u64 set \<Rightarrow> u64 \<Rightarrow> u64 \<Rightarrow> u64 \<Rightarrow> nat \<Rightarrow> u64 \<Rightarrow> 'a kmem_scheme \<Rightarrow> 'a kmem_scheme \<Rightarrow> bool" where
  "grown R r xperm a n newsz s s' \<longleftrightarrow>
     unaffected R (\<lambda>r' va. r' = r \<and> in_pages a n va) s s' \<and>
     (\<forall>va. in_pages a n va \<longrightarrow> user_page s' r va \<and> (\<exists>q. leaf (mem s') r va = alloc_entry q xperm))"

definition undone :: "u64 set \<Rightarrow> u64 \<Rightarrow> u64 \<Rightarrow> nat \<Rightarrow> 'a kmem_scheme \<Rightarrow> 'a kmem_scheme \<Rightarrow> bool" where
  "undone R r b n s s' \<longleftrightarrow>
     unaffected R (\<lambda>r' va. r' = r \<and> in_pages b n va) s s' \<and>
     (\<forall>va. in_pages b n va \<longrightarrow> \<not> pte_valid (leaf (mem s') r va))"

lemma uvmalloc_loop_undo:
  assumes u: "uvmalloc_loop r a b newsz xperm s = andthen (uvmdealloc r a b s1) (\<lambda>_ s. Ok 0 s)"
      "vminv s1 R ps1" "excl (leaf (mem s1)) R" "unaffected R (\<lambda>_ _. False) s s1" "end_addr s1 = end_addr s"
      "kmem.more s1 = kmem.more s"
    and P: "r \<in> R" "page_aligned b" "unat a = unat b + k * 4096" "unat a + n * 4096 \<le> 2 ^ 38"
    and up: "\<And>va. in_pages b k va \<Longrightarrow> user_page s r va"
    and free: "\<And>va. in_pages a n va \<Longrightarrow> \<not> pte_valid (leaf (mem s) r va)"
  shows "\<exists>s' ps'. uvmalloc_loop r a b newsz xperm s = Ok 0 s' \<and> vminv s' R ps' \<and> excl (leaf (mem s')) R \<and>
    end_addr s' = end_addr s \<and> kmem.more s' = kmem.more s \<and> undone R r b (k + n) s s'"
proof -
  have lfs: "leaf (mem s1) r va = leaf (mem s) r va" if "va < MAXVA" for va
    using u(4) P(1) that by (simp add: unaffected_def)
  have up1: "user_page s1 r va" if "in_pages b k va" for va
  proof -
    have "va < MAXVA" using in_pages_less [OF that] P(3,4) by simp
    then show ?thesis using up [OF that] lfs u(5) by (simp add: user_page_def page_ok_def)
  qed
  have le: "a \<le> MAXVA" using P(4) by (simp add: MAXVA_def word_le_nat_alt)
  obtain s' ps' where d: "uvmdealloc r a b s1 = Ok b s'" "vminv s' R ps'" "excl (leaf (mem s')) R"
    "end_addr s' = end_addr s1" "kmem.more s' = kmem.more s1"
    "unaffected R (\<lambda>r' va. r' = r \<and> in_pages b k va) s1 s'"
    "\<And>va. va < MAXVA \<Longrightarrow> in_pages b k va \<Longrightarrow> leaf (mem s') r va = 0"
    using uvmalloc_undo [OF u(2,3) P(1-3) le up1] by metis
  have "unaffected R (\<lambda>r' va. r' = r \<and> in_pages b (k + n) va) s s'"
    by (rule unaffected_trans [OF u(4) d(6)]) (auto simp: in_pages_def)
  moreover have "\<not> pte_valid (leaf (mem s') r va)" if "in_pages b (k + n) va" for va
  proof -
    have va: "va < MAXVA" using in_pages_less [OF that] P(3,4) by (simp add: add_mult_distrib)
    show ?thesis
    proof (cases "in_pages b k va")
      case True
      then show ?thesis using d(7) va by simp
    next
      case False
      then have "in_pages a n va" using that P(3) by (auto simp: in_pages_def add_mult_distrib)
      then show ?thesis using free [of va] lfs [OF va] d(6) False va P(1) by (simp add: unaffected_def)
    qed
  qed
  ultimately show ?thesis using d(1-5) u(1,5,6) by (auto simp: undone_def)
qed

lemma grown_step:
  assumes "r \<in> R" "page_aligned a" "a < MAXVA"
    and s1: "unaffected R (\<lambda>r' va. r' = r \<and> PGROUNDDOWN va = a) s s1" "leaf (mem s1) r a = alloc_entry q xperm"
      "user_page s1 r a" "end_addr s1 = end_addr s"
    and g: "grown R r xperm (a + PGSIZE) n newsz s1 s'" and e: "end_addr s' = end_addr s1"
  shows "grown R r xperm a (Suc n) newsz s s'"
proof -
  note suc = in_pages_Suc [OF assms(2,3)]
  have "unaffected R (\<lambda>r' va. r' = r \<and> in_pages a (Suc n) va) s s'"
    by (rule unaffected_trans [OF s1(1)]) (use g suc in \<open>auto simp: grown_def\<close>)
  moreover have "user_page s' r va \<and> (\<exists>q. leaf (mem s') r va = alloc_entry q xperm)" if "in_pages a (Suc n) va" for va
  proof (cases "PGROUNDDOWN va = a")
    case True
    have "\<not> in_pages (a + PGSIZE) n a" using next_va [OF assms(3)] by (simp add: in_pages_def)
    then have "leaf (mem s') r a = leaf (mem s1) r a"
      using g assms(1,3) by (simp add: grown_def unaffected_def)
    moreover have pg: "PGROUNDDOWN va = PGROUNDDOWN a" using True assms(2) by (simp add: PGROUNDDOWN_aligned)
    ultimately show ?thesis
      using s1(2,3) e leaf_page [OF pg, of "mem s'" r] user_page_page [OF pg, of s' r]
      by (auto simp: user_page_def page_ok_def)
  next
    case False
    then show ?thesis using g that suc by (auto simp: grown_def)
  qed
  ultimately show ?thesis by (simp add: grown_def)
qed

lemma uvmalloc_loop_spec:
  assumes "vminv s R ps" "excl (leaf (mem s)) R" "r \<in> R" "page_aligned b" "flags_ok xperm"
    and "unat a = unat b + k * 4096" "page_aligned a" "unat a + n * 4096 \<le> 2 ^ 38"
    and "unat newsz \<le> unat a + n * 4096" "n = 0 \<or> unat a + (n - 1) * 4096 < unat newsz"
    and "\<And>va. in_pages b k va \<Longrightarrow> user_page s r va"
    and "\<And>va. in_pages a n va \<Longrightarrow> \<not> pte_valid (leaf (mem s) r va)"
  shows "\<exists>s' ps' ret. uvmalloc_loop r a b newsz xperm s = Ok ret s' \<and> vminv s' R ps' \<and> excl (leaf (mem s')) R \<and>
    end_addr s' = end_addr s \<and> kmem.more s' = kmem.more s \<and>
    (ret = newsz \<and> grown R r xperm a n newsz s s' \<and> length ps \<le> length ps' + 3 * n \<or>
     ret = 0 \<and> undone R r b (k + n) s s' \<and> length ps < 3 * n)"
  using assms
proof (induction n arbitrary: a k s ps)
  case 0
  then have "\<not> a < newsz" by (simp add: word_less_nat_alt)
  then have "uvmalloc_loop r a b newsz xperm s = Ok newsz s" by (subst uvmalloc_loop.simps) simp
  moreover have "grown R r xperm a 0 newsz s s" by (simp add: grown_def unaffected_def)
  ultimately show ?case using 0(1,2) by auto
next
  case (Suc n)
  note P = Suc.prems
  have lt: "a < MAXVA" using P(8) by (simp add: MAXVA_def word_less_nat_alt)
  have nx: "unat (a + PGSIZE) = unat a + 4096" by (rule next_va [OF lt])
  have asz: "a < newsz" using P(10) by (simp add: word_less_nat_alt)
  have fa: "\<not> pte_valid (leaf (mem s) r a)" using P(12) [of a] by (simp add: in_pages_def)
  note undo = uvmalloc_loop_undo [OF _ _ _ _ _ _ P(3,4,6,8,11,12), of newsz xperm]
  show ?case
  proof (cases ps)
    case Nil
    have "kalloc s = (0, s)" using kalloc_Nil ptinvD(1) [OF vminvD(1) [OF P(1)]] Nil by simp
    then have "uvmalloc_loop r a b newsz xperm s = andthen (uvmdealloc r a b s) (\<lambda>_ s. Ok 0 s)"
      using asz by (subst uvmalloc_loop.simps) simp
    from undo [OF this P(1,2)] show ?thesis using Nil by (auto simp: unaffected_def)
  next
    case (Cons q qs)
    show ?thesis
    proof (cases rule: uvmalloc_page [OF P(1) [unfolded Cons] P(2,3) lt P(7) fa asz P(5), where oldsz = b, case_names fail ok])
      case (fail s1 ps1)
      from undo [OF this(1-6)] show ?thesis using fail(7) Cons by auto
    next
      case (ok s1 ps1)
      note one = page_eq_range [OF P(7)]
      have keep: "leaf (mem s1) r va = leaf (mem s) r va" if "va < MAXVA" "PGROUNDDOWN va \<noteq> a" for va
        using ok(4) P(3) that by (simp add: unaffected_def)
      have up1: "user_page s1 r va" if "in_pages b (Suc k) va" for va
      proof (cases "PGROUNDDOWN va = a")
        case True
        then show ?thesis using ok(6) user_page_page [of va a s1 r] P(7) by (simp add: PGROUNDDOWN_aligned)
      next
        case False
        then have b: "in_pages b k va" using that P(6) one by (auto simp: in_pages_def)
        have "va < MAXVA" using in_pages_less [OF b] P(6,8) by simp
        then show ?thesis using P(11) [OF b] keep False ok(7) by (simp add: user_page_def page_ok_def)
      qed
      have free1: "\<not> pte_valid (leaf (mem s1) r va)" if "in_pages (a + PGSIZE) n va" for va
      proof -
        have "va < MAXVA" using in_pages_less [OF that] nx P(8) by simp
        moreover have "PGROUNDDOWN va \<noteq> a" using one that nx by (auto simp: in_pages_def)
        moreover have "in_pages a (Suc n) va" using that in_pages_Suc [OF P(7) lt] by blast
        ultimately show ?thesis using P(12) keep by simp
      qed
      have "unat (a + PGSIZE) = unat b + Suc k * 4096" "unat (a + PGSIZE) + n * 4096 \<le> 2 ^ 38"
        "unat newsz \<le> unat (a + PGSIZE) + n * 4096" "n = 0 \<or> unat (a + PGSIZE) + (n - 1) * 4096 < unat newsz"
        using nx P(6,8-10) by (auto simp: gr0_conv_Suc)
      from Suc.IH [OF ok(2,3) P(3-5) this(1) page_aligned_add [OF P(7)] this(2-4) up1 free1]
      obtain s' ps' ret where ih: "uvmalloc_loop r (a + PGSIZE) b newsz xperm s1 = Ok ret s'" "vminv s' R ps'"
        "excl (leaf (mem s')) R" "end_addr s' = end_addr s1" "kmem.more s' = kmem.more s1"
        "ret = newsz \<and> grown R r xperm (a + PGSIZE) n newsz s1 s' \<and> length ps1 \<le> length ps' + 3 * n \<or>
         ret = 0 \<and> undone R r b (Suc k + n) s1 s' \<and> length ps1 < 3 * n"
        by blast
      have "grown R r xperm a (Suc n) newsz s s'" if g: "grown R r xperm (a + PGSIZE) n newsz s1 s'"
        by (rule grown_step [OF P(3,7) lt ok(4-7) g ih(4)])
      moreover have "undone R r b (k + Suc n) s s'" if "undone R r b (Suc k + n) s1 s'"
      proof -
        have sub: "in_pages b (k + Suc n) va \<longleftrightarrow> in_pages b (Suc k + n) va"
          "PGROUNDDOWN va = a \<Longrightarrow> in_pages b (k + Suc n) va" for va
          using one P(6) by (auto simp: in_pages_def)
        have "unaffected R (\<lambda>r' va. r' = r \<and> in_pages b (k + Suc n) va) s s'"
          by (rule unaffected_trans [OF ok(4)]) (use that sub in \<open>auto simp: undone_def\<close>)
        then show ?thesis using that sub(1) by (simp add: undone_def)
      qed
      ultimately show ?thesis using ih ok(1,7,8,9) Cons by auto
    qed
  qed
qed

lemma uvmalloc_spec:
  assumes "vminv s R ps" "excl (leaf (mem s)) R" "r \<in> R" "flags_ok xperm" "oldsz \<le> newsz" "newsz \<le> MAXVA"
    and "\<And>va. in_pages (PGROUNDUP oldsz) (npages newsz - npages oldsz) va \<Longrightarrow> \<not> pte_valid (leaf (mem s) r va)"
  shows "\<exists>s' ps' ret. uvmalloc r oldsz newsz xperm s = Ok ret s' \<and> vminv s' R ps' \<and> excl (leaf (mem s')) R \<and>
    end_addr s' = end_addr s \<and> kmem.more s' = kmem.more s \<and>
    (ret = newsz \<and> grown R r xperm (PGROUNDUP oldsz) (npages newsz - npages oldsz) newsz s s' \<and>
       length ps \<le> length ps' + 3 * (npages newsz - npages oldsz) \<or>
     ret = 0 \<and> undone R r (PGROUNDUP oldsz) (npages newsz - npages oldsz) s s' \<and>
       length ps < 3 * (npages newsz - npages oldsz))"
proof -
  let ?n = "npages newsz - npages oldsz"
  have u: "unat (PGROUNDUP oldsz) = npages oldsz * 4096" by (rule unat_PGROUNDUP) (use assms(5,6) in simp)
  have le: "npages oldsz \<le> npages newsz" by (rule npages_le [OF assms(5)])
  have e: "unat (PGROUNDUP oldsz) + ?n * 4096 = npages newsz * 4096" using u le by (simp add: diff_mult_distrib)
  have sz: "unat newsz \<le> unat (PGROUNDUP oldsz) + ?n * 4096" using e npages_bounds(1) [of newsz] by simp
  have last: "?n = 0 \<or> unat (PGROUNDUP oldsz) + (?n - 1) * 4096 < unat newsz"
  proof (cases ?n)
    case (Suc k)
    then have "unat (PGROUNDUP oldsz) + (?n - 1) * 4096 + 4096 = npages newsz * 4096" using e by simp
    then show ?thesis using npages_div(1) [of newsz] by linarith
  qed simp
  have bound: "unat (PGROUNDUP oldsz) + ?n * 4096 \<le> 2 ^ 38" unfolding e by (rule npages_MAXVA [OF assms(6)])
  have "uvmalloc r oldsz newsz xperm s = uvmalloc_loop r (PGROUNDUP oldsz) (PGROUNDUP oldsz) newsz xperm s"
    using leD [OF assms(5)] by (simp add: uvmalloc_def)
  moreover have "\<exists>s' ps' ret. uvmalloc_loop r (PGROUNDUP oldsz) (PGROUNDUP oldsz) newsz xperm s = Ok ret s' \<and>
    vminv s' R ps' \<and> excl (leaf (mem s')) R \<and> end_addr s' = end_addr s \<and> kmem.more s' = kmem.more s \<and>
    (ret = newsz \<and> grown R r xperm (PGROUNDUP oldsz) ?n newsz s s' \<and> length ps \<le> length ps' + 3 * ?n \<or>
     ret = 0 \<and> undone R r (PGROUNDUP oldsz) (0 + ?n) s s' \<and> length ps < 3 * ?n)"
    by (rule uvmalloc_loop_spec [OF assms(1-3) _ assms(4) _ _ bound sz last])
      (use assms(7) in simp_all)
  ultimately show ?thesis by simp
qed

section \<open>Boot\<close>

lemma kfree_fields:
  "kfree p s = Ok u s' \<Longrightarrow> end_addr s' = end_addr s \<and> kmem.more s' = kmem.more s"
  by (auto simp: kfree_def Let_def split: if_splits)

lemma freerange_loop_fields:
  "freerange_loop p e s = Ok u s' \<Longrightarrow> end_addr s' = end_addr s \<and> kmem.more s' = kmem.more s"
proof (induction p e s rule: freerange_loop.induct)
  case (1 p e s)
  show ?case
  proof (cases "\<not> p + PGSIZE < p \<and> p + PGSIZE \<le> e")
    case True
    then obtain s1 where s1: "kfree p s = Ok () s1" "freerange_loop (p + PGSIZE) e s1 = Ok u s'"
      using 1(2) by (subst (asm) freerange_loop.simps) (auto simp: res_simps)
    then show ?thesis using 1(1) [of "()" s1] True kfree_fields [OF s1(1)] by simp
  next
    case False
    then show ?thesis using 1(2) by (subst (asm) freerange_loop.simps) (auto split: if_splits)
  qed
qed

lemma kinit_vminv:
  assumes "0 < end_addr s" "end_addr s \<le> PHYSTOP" "freelist s = 0"
  obtains s' n where "kinit s = Ok () s'" "unat (PGROUNDUP (end_addr s)) + n * 4096 = unat PHYSTOP"
    "vminv s' {} (rev (pages_from (PGROUNDUP (end_addr s)) n))"
proof -
  let ?b = "PGROUNDUP (end_addr s)"
  obtain s' n where k: "kinit s = Ok () s'" "unat ?b + n * 4096 = unat PHYSTOP" "kinv s' (rev (pages_from ?b n))"
    using kinit_kinv [OF assms] by blast
  have e: "end_addr s' = end_addr s" using freerange_loop_fields k(1) [unfolded kinit_def freerange_def] by fastforce
  have "p \<in> set (pages_from ?b n)" if "page_ok s' p" for p
  proof -
    have p: "page_aligned p" "unat (end_addr s) \<le> unat p" "unat p < unat PHYSTOP"
      using that e by (auto simp: page_ok_def word_le_nat_alt word_less_nat_alt)
    obtain j where j: "unat p = 4096 * j" using aligned_unatE [OF p(1)] .
    obtain i where i: "unat ?b = 4096 * i" by (rule aligned_unatE [of ?b]) simp_all
    have stop: "unat PHYSTOP = 0x88000000" by (simp add: layout_defs)
    have "unat ?b \<le> unat (end_addr s) + 4095"
      using assms(2) stop by (intro PGROUNDUP_bounds) (simp add: word_le_nat_alt)
    then have "i \<le> j" "j < i + n" using i j p k(2) by linarith+
    then obtain d where d: "j = i + d" "d < n" by (auto simp: le_iff_add)
    then have "p = ?b + of_nat d * PGSIZE"
      using i j p(3) stop by (simp add: word_unat_eq_iff unat_word_ariths PGSIZE_def unat_of_nat)
    then show ?thesis using d(2) by (auto simp: pages_from_def)
  qed
  then have "vminv s' {} (rev (pages_from ?b n))"
    using k(3) by (auto simp: vminv_def ptinv_def refs_ok_def pt_shape_def tables_def)
  then show ?thesis using that k by blast
qed

end
