(* ===== verification/Ucopy.thy ===== *)
theory Ucopy
  imports Uspace
begin

text \<open>
  \<^verbatim>\<open>copyin\<close> and \<^verbatim>\<open>copyout\<close>: the bytes that cross the boundary between kernel and user memory are the
  bytes the process itself would load or store, page by page, with copy-on-write pages made private
  on the way.
\<close>

section \<open>Pages of a run of bytes\<close>

definition ubyte :: "'a kmem_scheme \<Rightarrow> u64 \<Rightarrow> u64 \<Rightarrow> u8" where
  "ubyte s r va = mem s (PTE2PA (leaf (mem s) r va) + (va - PGROUNDDOWN va))"

lemma uread_ubyte:
  "uread s r va = Some b \<Longrightarrow> ubyte s r va = b"
  by (auto simp: uread_def ubyte_def Let_def split: if_splits)

lemma unat_chunk: "chunk va len = min (4096 - unat (va - PGROUNDDOWN va)) len"
proof -
  have "va - PGROUNDDOWN va \<le> PGSIZE" using page_offset_less [of va] by simp
  then show ?thesis by (simp add: chunk_def unat_sub PGSIZE_def)
qed

lemma chunk_le: "chunk va len \<le> len" "unat (va - PGROUNDDOWN va) + chunk va len \<le> 4096"
proof -
  have "unat (va - PGROUNDDOWN va) < 4096"
    using page_offset_less [of va] by (simp add: word_less_nat_alt PGSIZE_def)
  then show "chunk va len \<le> len" "unat (va - PGROUNDDOWN va) + chunk va len \<le> 4096"
    by (simp_all add: unat_chunk)
qed

text \<open>After a chunk the copy continues at the start of the next page.\<close>

lemma chunk_next:
  assumes "chunk va len < len" "va < MAXVA"
  shows "PGROUNDDOWN va + PGSIZE = va + of_nat (chunk va len)"
proof -
  let ?o = "va - PGROUNDDOWN va"
  have "chunk va len = 4096 - unat ?o" using assms(1) by (simp add: unat_chunk)
  moreover have "unat ?o < 4096" using page_offset_less [of va] by (simp add: word_less_nat_alt PGSIZE_def)
  ultimately have "of_nat (chunk va len) = PGSIZE - ?o" by (simp add: of_nat_diff PGSIZE_def)
  then show ?thesis by simp
qed

lemma chunk_page:
  assumes "i < chunk va len"
  shows "PGROUNDDOWN (va + of_nat i) = PGROUNDDOWN va"
proof (rule run_in_page)
  show "unat (va - PGROUNDDOWN va) + chunk va len \<le> 4096" by (rule chunk_le(2))
  have "i < 2 ^ 64" using assms chunk_le(2) [of va len] by simp
  then show "unat (va + of_nat i - (PGROUNDDOWN va + (va - PGROUNDDOWN va))) < chunk va len"
    using assms by simp
qed simp

lemma chunk_bytes:
  "mem_bytes (mem s) (PTE2PA (leaf (mem s) r va) + (va - PGROUNDDOWN va)) (chunk va len) =
   map (\<lambda>i. ubyte s r (va + of_nat i)) [0..<chunk va len]"
proof (rule nth_equalityI)
  fix i assume "i < length (mem_bytes (mem s) (PTE2PA (leaf (mem s) r va) + (va - PGROUNDDOWN va)) (chunk va len))"
  then have i: "i < chunk va len" by simp
  note pg = chunk_page [OF i]
  show "mem_bytes (mem s) (PTE2PA (leaf (mem s) r va) + (va - PGROUNDDOWN va)) (chunk va len) ! i =
      map (\<lambda>i. ubyte s r (va + of_nat i)) [0..<chunk va len] ! i"
    using i leaf_page [OF pg, of "mem s" r] pg by (simp add: ubyte_def algebra_simps)
qed simp

definition readable :: "'a kmem_scheme \<Rightarrow> u64 \<Rightarrow> u64 \<Rightarrow> bool" where
  "readable s r va \<longleftrightarrow>
     va < MAXVA \<and> pte_valid (leaf (mem s) r va) \<and> leaf (mem s) r va AND PTE_U \<noteq> 0 \<and>
     PTE2PA (leaf (mem s) r va) \<noteq> 0"

lemma walkaddr_readable:
  assumes "ptinv s R ps" "r \<in> R" "readable s r va"
  shows "walkaddr r (PGROUNDDOWN va) s = Ok (PTE2PA (leaf (mem s) r va)) s"
proof -
  have lt: "PGROUNDDOWN va < MAXVA" using assms(3) by (simp add: readable_def)
  have v: "pte_valid (leaf (mem s) r (PGROUNDDOWN va))" using assms(3) by (simp add: readable_def)
  obtain t where "leaf_slot (mem s) r (PGROUNDDOWN va) \<noteq> 0"
    "ld64 (mem s) (leaf_slot (mem s) r (PGROUNDDOWN va)) = leaf (mem s) r (PGROUNDDOWN va)"
    using leaf_slot_valid [OF assms(1,2) lt v] by metis
  then show ?thesis
    using lt v assms(3) walk_False [OF lt, of r s] lt [folded not_le] by (simp add: walkaddr_def readable_def Let_def)
qed

lemma walkaddr_not_mapped:
  assumes "ptinv s R ps" "r \<in> R" "\<not> pte_valid (leaf (mem s) r va) \<or> leaf (mem s) r va AND PTE_U = 0 \<or> \<not> va < MAXVA"
    and "page_aligned va"
  shows "walkaddr r va s = Ok 0 s"
proof (cases "va < MAXVA")
  case True
  from leaf_slot_cases [OF assms(1,2) True] show ?thesis
    by cases (use assms(3) True walk_False [OF True, of r s] True [folded not_le] in \<open>auto simp: walkaddr_def Let_def\<close>)
next
  case False
  then show ?thesis by (simp add: walkaddr_def not_less)
qed

section \<open>Copying in\<close>

lemma unat_add_small: "unat va + n \<le> 2 ^ 38 \<Longrightarrow> i \<le> n \<Longrightarrow> unat (va + of_nat i) = unat va + i" for va :: u64
  by (simp add: unat_word_ariths unat_of_nat)

lemma copyin_loop_spec:
  assumes "ptinv s R ps" "r \<in> R" "unat va + len \<le> 2 ^ 38"
    and "\<And>i. i < len \<Longrightarrow> readable s r (va + of_nat i)"
  shows "copyin_loop r dst va len s = Ok (0, dst @ map (\<lambda>i. ubyte s r (va + of_nat i)) [0..<len]) s"
  using assms(3,4)
proof (induction len arbitrary: dst va rule: less_induct)
  case (less len)
  show ?case
  proof (cases "len = 0")
    case True
    then show ?thesis by (subst copyin_loop.simps) simp
  next
    case False
    let ?n = "chunk va len" and ?p = "PTE2PA (leaf (mem s) r va)"
    have rd: "readable s r va" using less.prems(2) [of 0] False by simp
    have n: "0 < ?n" "?n \<le> len" using chunk_pos [of len va] chunk_le(1) False by auto
    have step: "copyin_loop r dst va len s =
        copyin_loop r (dst @ map (\<lambda>i. ubyte s r (va + of_nat i)) [0..<?n]) (PGROUNDDOWN va + PGSIZE) (len - ?n) s"
      using walkaddr_readable [OF assms(1,2) rd] False rd
      by (subst copyin_loop.simps) (simp add: Let_def chunk_bytes readable_def)
    show ?thesis
    proof (cases "?n = len")
      case True
      then show ?thesis unfolding step by (subst copyin_loop.simps) simp
    next
      case False
      then have lt: "?n < len" using n by simp
      have nx: "PGROUNDDOWN va + PGSIZE = va + of_nat ?n"
        using chunk_next [OF lt] rd by (simp add: readable_def)
      have ih: "copyin_loop r d (va + of_nat ?n) (len - ?n) s =
          Ok (0, d @ map (\<lambda>i. ubyte s r (va + of_nat ?n + of_nat i)) [0..<len - ?n]) s" for d
      proof (rule less.IH)
        show "unat (va + of_nat ?n) + (len - ?n) \<le> 2 ^ 38"
          using less.prems(1) n unat_add_small [OF less.prems(1) n(2)] by simp
        show "readable s r (va + of_nat ?n + of_nat i)" if "i < len - ?n" for i
          using less.prems(2) [of "?n + i"] that by (simp add: algebra_simps)
      qed (use n in simp)
      have "map (\<lambda>i. ubyte s r (va + of_nat i)) [0..<?n] @
          map (\<lambda>i. ubyte s r (va + of_nat ?n + of_nat i)) [0..<len - ?n] =
          map (\<lambda>i. ubyte s r (va + of_nat i)) [0..<len]"
        by (rule nth_equalityI) (use n in \<open>auto simp: nth_append algebra_simps\<close>)
      then show ?thesis unfolding step nx ih by simp
    qed
  qed
qed

section \<open>Copying out\<close>

definition writable :: "'a kmem_scheme \<Rightarrow> u64 \<Rightarrow> u64 \<Rightarrow> bool" where
  "writable s r va \<longleftrightarrow>
     (let v = leaf (mem s) r va
      in va < MAXVA \<and> pte_valid v \<and> v AND PTE_U \<noteq> 0 \<and> v AND PTE_R \<noteq> 0 \<and>
         (v AND PTE_W \<noteq> 0 \<or> v AND PTE_COW \<noteq> 0) \<and> page_ok s (PTE2PA v))"

lemma writable_page:
  "PGROUNDDOWN va' = PGROUNDDOWN va \<Longrightarrow> writable s r va \<Longrightarrow> writable s r va'"
  using page_lt_MAXVA [of va' va] leaf_page [of va' va] by (simp add: writable_def Let_def)

text \<open>The page at \<open>va\<close> is made private if it has to be.\<close>

lemma copyout_private:
  assumes inv: "vminv s R ps" and ex: "excl (leaf (mem s)) R" and "r \<in> R" and w: "writable s r va" and "ps \<noteq> []"
  obtains s' ps' where
    "copyout_pte (Some r) r (PGROUNDDOWN va) (leaf_slot (mem s) r (PGROUNDDOWN va)) s =
       Ok (Some (leaf_slot (mem s') r (PGROUNDDOWN va))) s'"
    "vminv s' R ps'" "excl (leaf (mem s')) R" "length ps \<le> Suc (length ps')" "end_addr s' = end_addr s"
    "can_store r va s'" "leaf (mem s') r va AND PTE_R \<noteq> 0" "page_ok s' (PTE2PA (leaf (mem s') r va))"
    "maps_to (mem s') R (PTE2PA (leaf (mem s') r va)) = {(r, PGROUNDDOWN va)}"
    "\<And>r' va'. r' \<in> R \<Longrightarrow> uread s' r' va' = uread s r' va'"
    "\<And>r' va'. r' \<in> R \<Longrightarrow> va' < MAXVA \<Longrightarrow> \<not> (r' = r \<and> PGROUNDDOWN va' = PGROUNDDOWN va) \<Longrightarrow>
       leaf (mem s') r' va' = leaf (mem s) r' va'"
proof -
  let ?pg = "PGROUNDDOWN va"
  note pt = vminvD(1) [OF inv]
  have v: "va < MAXVA" "pte_valid (leaf (mem s) r va)" "leaf (mem s) r va AND PTE_U \<noteq> 0"
    "leaf (mem s) r va AND PTE_R \<noteq> 0" "page_ok s (PTE2PA (leaf (mem s) r va))"
    and wc: "leaf (mem s) r va AND PTE_W \<noteq> 0 \<or> leaf (mem s) r va AND PTE_COW \<noteq> 0"
    using w by (auto simp: writable_def Let_def)
  have lt: "?pg < MAXVA" using v(1) by simp
  have pv: "pte_valid (leaf (mem s) r ?pg)" using v(2) by simp
  have slot: "ld64 (mem s) (leaf_slot (mem s) r ?pg) = leaf (mem s) r va"
    using leaf_slot_valid [OF pt assms(3) lt pv] by (metis leaf_PGROUNDDOWN)
  show ?thesis
  proof (cases "leaf (mem s) r va AND PTE_COW \<noteq> 0")
    case True
    then have cow: "cow_page (leaf (mem s) r ?pg)" using v by (simp add: cow_page_def)
    obtain s' ps' where h: "handle_cow_fault (Some r) ?pg s = Ok 0 s'" "vminv s' R ps'"
      "cow_handled R r ?pg s s'" "length ps \<le> Suc (length ps')"
      using cow_fault_ok [OF inv assms(3) lt refl cow] v(5) assms(5) by auto
    have pp: "PGROUNDDOWN ?pg = ?pg" by (simp add: PGROUNDDOWN_aligned)
    have c: "private_page (mem s') R r va" "page_ok s' (PTE2PA (leaf (mem s') r va))" "end_addr s' = end_addr s"
      and u: "\<And>r' va'. r' \<in> R \<Longrightarrow> uread s' r' va' = uread s r' va'"
      and o: "\<And>r' va'. r' \<in> R \<Longrightarrow> va' < MAXVA \<Longrightarrow> \<not> (r' = r \<and> PGROUNDDOWN va' = ?pg) \<Longrightarrow>
        leaf (mem s') r' va' = leaf (mem s) r' va'"
      using h(3) by (auto simp: cow_handled_def private_page_def pp)
    have "uread s r va \<noteq> None" using v by (simp add: uread_def Let_def)
    then have rd: "leaf (mem s') r va AND PTE_R \<noteq> 0"
      using u [OF assms(3), of va] by (auto simp: uread_def Let_def split: if_splits)
    show ?thesis
    proof (rule that)
      show "copyout_pte (Some r) r ?pg (leaf_slot (mem s) r ?pg) s = Ok (Some (leaf_slot (mem s') r ?pg)) s'"
        using h(1) slot v(2) True walk_False [OF lt, of r s'] by (simp add: copyout_pte_def)
      show "excl (leaf (mem s')) R" by (rule excl_private [OF ex h(3) assms(3) lt])
      show "can_store r va s'" using c(1) v(1) by (simp add: can_store_def private_page_def Let_def)
      show "maps_to (mem s') R (PTE2PA (leaf (mem s') r va)) = {(r, ?pg)}"
        using c(1) by (simp add: private_page_def Let_def)
    qed (use h c rd u o in auto)
  next
    case False
    then have wr: "leaf (mem s) r va AND PTE_W \<noteq> 0" using wc by simp
    show ?thesis
    proof (rule that)
      show "copyout_pte (Some r) r ?pg (leaf_slot (mem s) r ?pg) s = Ok (Some (leaf_slot (mem s) r ?pg)) s"
        using slot False by (simp add: copyout_pte_def)
      show "maps_to (mem s) R (PTE2PA (leaf (mem s) r va)) = {(r, ?pg)}"
        by (rule excl_maps_to [OF ex assms(3) v(1-3) wr])
      show "can_store r va s" using v wr by (simp add: can_store_def)
    qed (use inv ex v in auto)
  qed
qed

lemma private_writable:
  assumes "can_store r va s'" "leaf (mem s') r va AND PTE_R \<noteq> 0" "page_ok s' (PTE2PA (leaf (mem s') r va))"
  shows "writable s' r va"
  using assms by (simp add: writable_def can_store_def Let_def)

text \<open>Writable pages stay so when one of them is made private and stored to.\<close>

lemma store_writable:
  assumes S: "\<And>r' va'. r' \<in> R \<Longrightarrow> va' < MAXVA \<Longrightarrow> leaf (mem (store_bytes r va bs s1)) r' va' = leaf (mem s1) r' va'"
    and "r' \<in> R" "writable s r' va'" "end_addr s1 = end_addr s" "can_store r va s1"
    and "leaf (mem s1) r va AND PTE_R \<noteq> 0" "page_ok s1 (PTE2PA (leaf (mem s1) r va))"
    and "va' < MAXVA \<Longrightarrow> \<not> (r' = r \<and> PGROUNDDOWN va' = PGROUNDDOWN va) \<Longrightarrow> leaf (mem s1) r' va' = leaf (mem s) r' va'"
  shows "writable (store_bytes r va bs s1) r' va'"
proof (cases "r' = r \<and> PGROUNDDOWN va' = PGROUNDDOWN va")
  case True
  then have "writable s1 r' va'" using writable_page private_writable [OF assms(5-7)] by blast
  then show ?thesis using S [OF assms(2)] by (simp add: writable_def Let_def page_ok_def store_bytes_def)
next
  case False
  then show ?thesis using assms(3,4,8) S [OF assms(2)] by (simp add: writable_def Let_def page_ok_def store_bytes_def)
qed

lemma copyout_page:
  assumes inv: "vminv s R ps" and ex: "excl (leaf (mem s)) R" and "r \<in> R" and w: "writable s r va"
    and "ps \<noteq> []" "src \<noteq> []" and n: "n = chunk va (length src)"
  obtains s' ps' where
    "copyout (Some r) r va src s = copyout (Some r) r (PGROUNDDOWN va + PGSIZE) (drop n src) s'"
    "vminv s' R ps'" "excl (leaf (mem s')) R" "length ps \<le> Suc (length ps')" "end_addr s' = end_addr s"
    "\<And>r' va'. r' \<in> R \<Longrightarrow> uread s' r' va' =
       (if r' = r \<and> unat (va' - va) < n then Some (src ! unat (va' - va)) else uread s r' va')"
    "\<And>r' va'. r' \<in> R \<Longrightarrow> writable s r' va' \<Longrightarrow> writable s' r' va'"
proof -
  let ?pg = "PGROUNDDOWN va"
  note pt = vminvD(1) [OF inv]
  have va: "va < MAXVA" "pte_valid (leaf (mem s) r ?pg)" using w by (auto simp: writable_def Let_def)
  have lt: "?pg < MAXVA" using va(1) by simp
  obtain s1 ps1 where c: "copyout_pte (Some r) r ?pg (leaf_slot (mem s) r ?pg) s =
       Ok (Some (leaf_slot (mem s1) r ?pg)) s1"
    "vminv s1 R ps1" "excl (leaf (mem s1)) R" "length ps \<le> Suc (length ps1)" "end_addr s1 = end_addr s"
    "can_store r va s1" "leaf (mem s1) r va AND PTE_R \<noteq> 0" "page_ok s1 (PTE2PA (leaf (mem s1) r va))"
    "maps_to (mem s1) R (PTE2PA (leaf (mem s1) r va)) = {(r, ?pg)}"
    and u: "\<And>r' va'. r' \<in> R \<Longrightarrow> uread s1 r' va' = uread s r' va'"
    and o: "\<And>r' va'. r' \<in> R \<Longrightarrow> va' < MAXVA \<Longrightarrow> \<not> (r' = r \<and> PGROUNDDOWN va' = ?pg) \<Longrightarrow>
       leaf (mem s1) r' va' = leaf (mem s) r' va'"
    using copyout_private [OF inv ex assms(3) w assms(5)] by blast
  note pt1 = vminvD(1) [OF c(2)]
  have cs: "pte_valid (leaf (mem s1) r ?pg)" "leaf (mem s1) r va AND PTE_U \<noteq> 0" "leaf (mem s1) r va AND PTE_W \<noteq> 0"
    using c(6) by (simp_all add: can_store_def)
  have slot: "leaf_slot (mem s) r ?pg \<noteq> 0" using leaf_slot_valid [OF pt assms(3) lt va(2)] by metis
  have slot1: "leaf_slot (mem s1) r ?pg \<noteq> 0" "ld64 (mem s1) (leaf_slot (mem s1) r ?pg) = leaf (mem s1) r va"
    using leaf_slot_valid [OF pt1 assms(3) lt cs(1)] by (metis leaf_PGROUNDDOWN)+
  have p0: "PTE2PA (leaf (mem s1) r va) \<noteq> 0"
    using page_ok_nonzero [OF _ c(8)] ptinvD(1) [OF pt1] by (simp add: kinv_def)
  define s2 where "s2 = store_bytes r va (take n src) s1"
  have len: "unat (va - ?pg) + length (take n src) \<le> 4096" "n \<le> length src"
    using chunk_le [of va "length src"] n by (simp_all add: min_def)
  note S = store_private_inv [OF c(2) assms(3) c(6) len(1)]
  have "copyout (Some r) r va src s = copyout (Some r) r (?pg + PGSIZE) (drop n src) s2"
    using assms(6) lt [folded not_le] walk_False [OF lt, of r s] slot c(1) slot1 cs p0
    by (subst copyout.simps) (simp add: Let_def s2_def store_bytes_def n)
  moreover have "uread s2 r' va' = (if r' = r \<and> unat (va' - va) < n then Some (src ! unat (va' - va)) else uread s r' va')"
    if "r' \<in> R" for r' va'
    using store_private [OF c(2) assms(3) c(6) that len(1) c(9,7), of va'] len(2) u [OF that, of va']
    by (auto simp: s2_def min_def)
  moreover have "excl (leaf (mem s2)) R" unfolding s2_def by (rule excl_cong [OF c(3) S(2)])
  moreover have "writable s2 r' va'" if "r' \<in> R" "writable s r' va'" for r' va'
    unfolding s2_def by (rule store_writable [OF S(2) that(1)]) (use c(5-8) o that in auto)
  moreover have "end_addr s2 = end_addr s" using c(5) by (simp add: s2_def store_bytes_def)
  ultimately show ?thesis using that [of s2 ps1] S(1) c(4) by (simp add: s2_def)
qed

lemma unat_minus_run:
  fixes d :: u64
  assumes "n \<le> 4096" "l \<le> 2 ^ 38" "n \<le> l"
  shows "unat (d - of_nat n) < l - n \<longleftrightarrow> n \<le> unat d \<and> unat d < l"
proof -
  have n: "unat (of_nat n :: u64) = n" using assms(1) by simp
  show ?thesis using assms unat_sub_if' [of d "of_nat n"] unfolding n by auto
qed

lemma copyout_spec:
  assumes "vminv s R ps" "excl (leaf (mem s)) R" "r \<in> R" "unat va + length src \<le> 2 ^ 38" "length src \<le> length ps"
    and "\<And>i. i < length src \<Longrightarrow> writable s r (va + of_nat i)"
  shows "\<exists>s' ps'. copyout (Some r) r va src s = Ok 0 s' \<and> vminv s' R ps' \<and> excl (leaf (mem s')) R \<and>
    (\<forall>r' \<in> R. \<forall>va'. uread s' r' va' =
       (if r' = r \<and> unat (va' - va) < length src then Some (src ! unat (va' - va)) else uread s r' va')) \<and>
    (\<forall>r' \<in> R. \<forall>va'. writable s r' va' \<longrightarrow> writable s' r' va') \<and> length ps \<le> length ps' + length src"
  using assms
proof (induction "length src" arbitrary: src va s ps rule: less_induct)
  case less
  note P = less.prems
  show ?case
  proof (cases "src = []")
    case True
    then have "copyout (Some r) r va src s = Ok 0 s" by (subst copyout.simps) simp
    then show ?thesis using True P(1,2) by auto
  next
    case False
    define n where "n = chunk va (length src)"
    have n: "0 < n" "n \<le> length src" "n \<le> 4096"
      using chunk_pos [of "length src" va] chunk_le [of va "length src"] False by (auto simp: n_def)
    have w: "writable s r va" using P(6) [of 0] False by simp
    have ne: "ps \<noteq> []" using P(5) False by auto
    obtain s1 ps1 where c: "copyout (Some r) r va src s = copyout (Some r) r (PGROUNDDOWN va + PGSIZE) (drop n src) s1"
      "vminv s1 R ps1" "excl (leaf (mem s1)) R" "length ps \<le> Suc (length ps1)" "end_addr s1 = end_addr s"
      and u: "\<And>r' va'. r' \<in> R \<Longrightarrow> uread s1 r' va' =
         (if r' = r \<and> unat (va' - va) < n then Some (src ! unat (va' - va)) else uread s r' va')"
      and o: "\<And>r' va'. r' \<in> R \<Longrightarrow> writable s r' va' \<Longrightarrow> writable s1 r' va'"
      using copyout_page [OF P(1-3) w ne False n_def] by blast
    show ?thesis
    proof (cases "n = length src")
      case True
      then have "copyout (Some r) r va src s = Ok 0 s1" unfolding c(1) by (subst copyout.simps) simp
      moreover have "length ps \<le> length ps1 + length src" using c(4) n by simp
      ultimately show ?thesis using c(2,3) u o True by auto
    next
      case False
      then have lt: "n < length src" using n by simp
      have nx: "PGROUNDDOWN va + PGSIZE = va + of_nat n"
        using chunk_next [of va "length src"] lt w by (simp add: n_def writable_def Let_def)
      have un: "unat (va + of_nat n) = unat va + n" by (rule unat_add_small [OF P(4) n(2)])
      have w1: "writable s1 r (va + of_nat n + of_nat i)" if "i < length (drop n src)" for i
        using o [OF P(3) P(6) [of "n + i"]] that by (simp add: add.assoc)
      have len: "unat (va + of_nat n) + length (drop n src) \<le> 2 ^ 38" "length (drop n src) \<le> length ps1"
        using un P(4,5) n c(4) by auto
      have sm: "length (drop n src) < length src" using n lt by simp
      obtain s' ps' where ih: "copyout (Some r) r (va + of_nat n) (drop n src) s1 = Ok 0 s'" "vminv s' R ps'"
        "excl (leaf (mem s')) R"
        "\<forall>r' \<in> R. \<forall>va'. uread s' r' va' =
          (if r' = r \<and> unat (va' - (va + of_nat n)) < length (drop n src)
           then Some (drop n src ! unat (va' - (va + of_nat n))) else uread s1 r' va')"
        "\<forall>r' \<in> R. \<forall>va'. writable s1 r' va' \<longrightarrow> writable s' r' va'" "length ps1 \<le> length ps' + length (drop n src)"
        using less.hyps [OF sm c(2,3) P(3) len w1] by blast
      have "uread s' r' va' = (if r' = r \<and> unat (va' - va) < length src then Some (src ! unat (va' - va)) else uread s r' va')"
        if "r' \<in> R" for r' va'
      proof -
        have d: "va' - (va + of_nat n) = (va' - va) - of_nat n" by (simp add: algebra_simps)
        have l: "length src \<le> 2 ^ 38" using P(4) by simp
        note iff = unat_minus_run [OF n(3) l n(2), of "va' - va"]
        have "n + unat ((va' - va) - of_nat n) = unat (va' - va)" if "n \<le> unat (va' - va)"
          using that n(3) by (subst unat_sub) (simp_all add: word_le_nat_alt)
        then show ?thesis
          using ih(4) [rule_format, OF that, of va', unfolded d] u [OF that, of va'] iff n by auto
      qed
      moreover have "length ps \<le> length ps' + length src" using ih(6) c(4) n lt by simp
      ultimately show ?thesis using ih(1-3,5) o c(1) nx by auto
    qed
  qed
qed

end
