(* ===== verification/Vm_Props.thy ===== *)
theory Vm_Props
  imports Ucopy
begin

text \<open>
  The properties of the virtual memory system, stated over the operations of \<^verbatim>\<open>vm.c\<close>, and a concrete
  family of two address spaces built from boot that satisfies their hypotheses.
\<close>

section \<open>Two address spaces from boot\<close>

definition boot_kmem :: kmem where
  "boot_kmem = \<lparr>mem = (\<lambda>_. 0), refcnt = (\<lambda>_. 0), freelist = 0, end_addr = 0x80020000\<rparr>"

lemma bit_alloc_entry:
  "n < 10 \<Longrightarrow> bit (alloc_entry q PTE_W) n \<longleftrightarrow> n \<in> {0, 1, 2, 4}"
  by (auto simp: alloc_entry_def bit_or_iff bit_PA2PTE bit_PTE)

lemma excl_insert_empty:
  assumes "excl L R" "\<And>va. va < MAXVA \<Longrightarrow> L q va = 0"
  shows "excl L (insert q R)"
  unfolding excl_def
proof (intro ballI allI impI)
  fix r r' va va'
  assume a: "r \<in> insert q R" "r' \<in> insert q R" "va < MAXVA" "va' < MAXVA" "pte_valid (L r va)" "L r va AND PTE_U \<noteq> 0"
    "L r va AND PTE_W \<noteq> 0" "pte_valid (L r' va')" "PTE2PA (L r' va') = PTE2PA (L r va)"
  then have "r \<in> R" "r' \<in> R" using assms(2) pte_valid_0 by (metis insertE)+
  then show "r' = r \<and> PGROUNDDOWN va' = PGROUNDDOWN va" using exclD [OF assms(1) _ _ a(3-9)] by blast
qed

lemma small_va: "unat va < 4096 \<Longrightarrow> va < MAXVA"
  by (simp add: MAXVA_def word_less_nat_alt)

lemma boot_spaces:
  "\<exists>(s :: kmem) r1 r2 ps. vminv s {r2, r1} ps \<and> excl (leaf (mem s)) {r2, r1} \<and> r1 \<noteq> r2 \<and> 100 \<le> length ps \<and>
    (\<forall>va. unat va < 4096 \<longrightarrow> user_page s r1 va) \<and>
    (\<forall>va. unat va < 4096 \<longrightarrow> (\<exists>q. leaf (mem s) r1 va = alloc_entry q PTE_W)) \<and>
    (\<forall>va < MAXVA. leaf (mem s) r2 va = 0) \<and>
    (\<forall>va < MAXVA. 4096 \<le> unat va \<longrightarrow> leaf (mem s) r1 va = 0)"
proof -
  have k: "0 < end_addr boot_kmem" "end_addr boot_kmem \<le> PHYSTOP" "freelist boot_kmem = 0"
    by (simp_all add: boot_kmem_def layout_defs)
  obtain s0 n where s0: "kinit boot_kmem = Ok () s0"
    "unat (PGROUNDUP (end_addr boot_kmem)) + n * 4096 = unat PHYSTOP"
    "vminv s0 {} (rev (pages_from (PGROUNDUP (end_addr boot_kmem)) n))"
    by (rule kinit_vminv [OF k])
  define ps0 where "ps0 = rev (pages_from (PGROUNDUP (end_addr boot_kmem)) n)"
  have "n = 0x7FE0" using s0(2) by (simp add: boot_kmem_def layout_defs PGROUNDUP_def)
  then have "length ps0 = 0x7FE0" by (simp add: ps0_def pages_from_def)
  then obtain r1 qs where v0: "vminv s0 {} (r1 # qs)" and len: "length qs = 0x7FDF"
    using s0(3) [folded ps0_def] by (cases ps0) auto
  obtain s1 :: kmem where s1: "vminv s1 {r1} qs" "\<forall>va < MAXVA. leaf (mem s1) r1 va = 0"
    using uvmcreate_vminv [OF v0] by auto
  have "excl (leaf (mem s1)) {r1}" using excl_insert_empty [of "leaf (mem s1)" "{}" r1] s1(2) by (simp add: excl_def)
  moreover have "npages 4096 - npages 0 = 1" "PGROUNDUP 0 = 0" by (simp_all add: npages_def PGROUNDUP_def PGSIZE_def)
  ultimately have "\<exists>s' ps' ret. uvmalloc r1 0 4096 PTE_W s1 = Ok ret s' \<and> vminv s' {r1} ps' \<and> excl (leaf (mem s')) {r1} \<and>
    end_addr s' = end_addr s1 \<and> kmem.more s' = kmem.more s1 \<and>
    (ret = 4096 \<and> grown {r1} r1 PTE_W 0 1 4096 s1 s' \<and> length qs \<le> length ps' + 3 * 1 \<or>
     ret = 0 \<and> undone {r1} r1 0 1 s1 s' \<and> length qs < 3 * 1)"
    using uvmalloc_spec [OF s1(1), of r1 PTE_W 0 4096] s1(2) by (auto simp: in_pages_def MAXVA_def word_less_nat_alt word_le_nat_alt)
  then obtain s2 :: kmem and ps2 where s2: "vminv s2 {r1} ps2" "excl (leaf (mem s2)) {r1}" "grown {r1} r1 PTE_W 0 1 4096 s1 s2"
    "length qs \<le> length ps2 + 3" using len by auto
  obtain r2 ps where ps: "ps2 = r2 # ps" "100 \<le> length ps" using s2(4) len by (cases ps2) auto
  obtain s :: kmem where s: "vminv s {r2, r1} ps" "r2 \<notin> {r1}" "\<forall>va < MAXVA. leaf (mem s) r2 va = 0"
    "\<forall>r \<in> {r1}. \<forall>va < MAXVA. leaf (mem s) r va = leaf (mem s2) r va" "end_addr s = end_addr s2"
    using uvmcreate_vminv [OF s2(1) [unfolded ps(1)]] by blast
  have small: "va < MAXVA" "in_pages 0 1 va" if "unat va < 4096" for va
    using that by (simp_all add: MAXVA_def word_less_nat_alt in_pages_def)
  have "excl (leaf (mem s)) {r1}" by (rule excl_cong [OF s2(2)]) (use s(4) in simp)
  then have "excl (leaf (mem s)) {r2, r1}" by (rule excl_insert_empty) (use s(3) in simp)
  moreover have "user_page s r1 va \<and> (\<exists>q. leaf (mem s) r1 va = alloc_entry q PTE_W)" if "unat va < 4096" for va
    using s2(3) small [OF that] s(4) s(5) by (auto simp: grown_def user_page_def page_ok_def)
  moreover have "leaf (mem s) r1 va = 0" if "va < MAXVA" "4096 \<le> unat va" for va
    using s2(3) that s(4) s1(2) by (simp add: grown_def unaffected_def in_pages_def)
  ultimately show ?thesis using s(1-3) ps(2) by blast
qed

lemma boot_copyable:
  assumes "\<forall>va. unat va < 4096 \<longrightarrow> user_page s r1 va" "\<forall>va < MAXVA. leaf (mem s) r2 va = 0"
    and "unat (PGROUNDDOWN va) < unat (4096 :: u64)"
  shows "copyable s r1 r2 va"
proof -
  have va: "unat va < 4096" using assms(3) in_npages [of 4096 va] by (simp add: in_pages_def npages_def)
  then show ?thesis using assms(1,2) small_va [OF va] va by (simp add: copyable_def user_page_def Let_def)
qed

lemma boot_writable:
  assumes "\<forall>va. unat va < 4096 \<longrightarrow> user_page s r1 va"
    and "\<forall>va. unat va < 4096 \<longrightarrow> (\<exists>q. leaf (mem s) r1 va = alloc_entry q PTE_W)" "unat va < 4096"
  shows "writable s r1 va"
proof -
  obtain q where "leaf (mem s) r1 va = alloc_entry q PTE_W" using assms(2,3) by blast
  moreover have "page_ok s (PTE2PA (leaf (mem s) r1 va))" using assms(1,3) by (simp add: user_page_def Let_def)
  ultimately show ?thesis using small_va [OF assms(3)]
    by (simp add: writable_def Let_def PTE_bits bit_alloc_entry pte_valid_def)
qed

section \<open>Copy-on-write\<close>

text \<open>What \<^verbatim>\<open>uvmcopy\<close> leaves when it succeeds.\<close>

lemma cow_writable:
  assumes "writable s old va" "leaf (mem s') r va = cow_entry (leaf (mem s) old va) \<or>
    leaf (mem s') r va = child_entry (leaf (mem s) old va)" "end_addr s' = end_addr s"
  shows "writable s' r va"
  using assms by (auto simp: writable_def Let_def page_ok_def PTE_bits bit_cow_entry bit_child_entry bit_cow_flags cow_valid
      split: if_splits)

definition cow_forked :: "u64 set \<Rightarrow> u64 \<Rightarrow> u64 \<Rightarrow> u64 \<Rightarrow> 'a kmem_scheme \<Rightarrow> 'a kmem_scheme \<Rightarrow> bool" where
  "cow_forked R old new sz s s' \<longleftrightarrow>
     (\<forall>va. unat (PGROUNDDOWN va) < unat sz \<longrightarrow>
        uread s' new va = uread s old va \<and> \<not> can_store old va s' \<and> \<not> can_store new va s' \<and>
        (writable s old va \<longrightarrow> writable s' old va \<and> writable s' new va)) \<and>
     (\<forall>r \<in> R. \<forall>va. r \<noteq> new \<longrightarrow> uread s' r va = uread s r va) \<and>
     (\<forall>r \<in> R. \<forall>va. r \<noteq> old \<and> r \<noteq> new \<or> \<not> unat (PGROUNDDOWN va) < unat sz \<longrightarrow>
        uread s' r va = uread s r va \<and> (writable s r va \<longrightarrow> writable s' r va))"

lemma cow_forkedD:
  assumes "cow_forked R old new sz s s'"
  shows "unat (PGROUNDDOWN va) < unat sz \<Longrightarrow>
      uread s' new va = uread s old va \<and> \<not> can_store old va s' \<and> \<not> can_store new va s' \<and>
      (writable s old va \<longrightarrow> writable s' old va \<and> writable s' new va)"
    and "r \<in> R \<Longrightarrow> r \<noteq> new \<Longrightarrow> uread s' r va = uread s r va"
    and "r \<in> R \<Longrightarrow> r \<noteq> old \<and> r \<noteq> new \<or> \<not> unat (PGROUNDDOWN va) < unat sz \<Longrightarrow>
      uread s' r va = uread s r va \<and> (writable s r va \<longrightarrow> writable s' r va)"
  using assms unfolding cow_forked_def by blast+

lemma uvmcopy_ok:
  assumes "vminv s R ps" "excl (leaf (mem s)) R" "old \<in> R" "new \<in> R" "old \<noteq> new" "sz \<le> MAXVA"
    and "\<And>va. unat (PGROUNDDOWN va) < unat sz \<Longrightarrow> copyable s old new va" "2 * npages sz \<le> length ps"
  shows "\<exists>s' ps'. uvmcopy old new sz s = Ok 0 s' \<and> vminv s' R ps' \<and> excl (leaf (mem s')) R \<and>
    length ps \<le> length ps' + 2 * npages sz \<and> cow_forked R old new sz s s'"
proof -
  let ?n = "npages sz" and ?L = "copied old new 0 (npages sz) (npages sz) (leaf (mem s))"
  obtain s' ps' where u: "uvmcopy old new sz s = Ok 0 s'" "vm_trans R s ps s' ps' ?L" "length ps \<le> length ps' + 2 * ?n"
    using uvmcopy_spec [OF assms(1,3-7)] assms(8) by fastforce
  have en: "end_addr s' = end_addr s" by (rule vm_transD(2) [OF u(2)])
  have val: "pte_valid (leaf (mem s) old va)" if "in_pages 0 ?n va" for va
    using assms(7) that by (simp add: in_npages copyable_def)
  have "excl ?L R" by (rule excl_copied [OF assms(2,3)]) (use val in simp_all)
  then have ex: "excl (leaf (mem s')) R" by (rule excl_cong) (rule vm_transD(5) [OF u(2)])
  have A: "uread s' new va = uread s old va \<and> \<not> can_store old va s' \<and> \<not> can_store new va s' \<and>
      (writable s old va \<longrightarrow> writable s' old va \<and> writable s' new va)"
    if "unat (PGROUNDDOWN va) < unat sz" for va
  proof -
    have p: "in_pages 0 ?n va" using that by (simp add: in_npages)
    have va: "va < MAXVA" by (rule in_pages_less [OF p]) (use npages_MAXVA [OF assms(6)] in simp)
    have L: "?L new va = child_entry (leaf (mem s) old va)" "?L old va = cow_entry (leaf (mem s) old va)"
      using p assms(5) by (simp_all add: copied_def)
    have "uread s' new va = uread s old va"
      by (rule vm_trans_same_view [OF u(2) assms(4)]) (use p assms(5) val child_same_view in \<open>simp add: copied_def\<close>)
    then show ?thesis
      using L vm_transD(5) [OF u(2) assms(3) va] vm_transD(5) [OF u(2) assms(4) va] cow_not_writable
        cow_writable [OF _ _ en, of old va old] cow_writable [OF _ _ en, of old va new]
      by (simp add: can_store_def PTE_bits)
  qed
  have B: "uread s' r va = uread s r va" if "r \<in> R" "r \<noteq> new" for r va
    by (rule vm_trans_same_view [OF u(2) that(1)]) (use that(2) in \<open>auto simp: copied_def cow_same_view same_view_refl\<close>)
  have C: "uread s' r va = uread s r va \<and> (writable s r va \<longrightarrow> writable s' r va)"
    if "r \<in> R" "r \<noteq> old \<and> r \<noteq> new \<or> \<not> unat (PGROUNDDOWN va) < unat sz" for r va
  proof -
    have "?L r va = leaf (mem s) r va" using that(2) by (auto simp: copied_def in_npages)
    then show ?thesis
      using vm_trans_same_view [OF u(2) that(1), of va r] vm_transD(5) [OF u(2) that(1), of va] en
      by (auto simp: same_view_refl writable_def Let_def page_ok_def)
  qed
  have "cow_forked R old new sz s s'" unfolding cow_forked_def using A B C by blast
  then show ?thesis using u(1,3) vm_transD(1) [OF u(2)] ex by blast
qed

text \<open>
  C1: \<^verbatim>\<open>uvmcopy\<close>, given memory for the page tables of the child, returns 0; afterwards the child
  reads below \<^verbatim>\<open>sz\<close> exactly what the parent read, neither can store there without a fault, every
  other process reads what it read before, and all invariants of the address spaces (reference
  counts cover the mappings, writable pages are mapped once) still hold.
\<close>

theorem uvmcopy_shares:
  assumes "vminv s R ps" "excl (leaf (mem s)) R" "old \<in> R" "new \<in> R" "old \<noteq> new" "sz \<le> MAXVA"
    and "\<And>va. unat (PGROUNDDOWN va) < unat sz \<Longrightarrow> copyable s old new va" "2 * npages sz \<le> length ps"
  shows "\<exists>s' ps'. uvmcopy old new sz s = Ok 0 s' \<and> vminv s' R ps' \<and> excl (leaf (mem s')) R \<and>
    (\<forall>va. unat (PGROUNDDOWN va) < unat sz \<longrightarrow>
       uread s' new va = uread s old va \<and> \<not> can_store old va s' \<and> \<not> can_store new va s') \<and>
    (\<forall>r \<in> R. \<forall>va. r \<noteq> new \<longrightarrow> uread s' r va = uread s r va)"
  using uvmcopy_ok [OF assms] unfolding cow_forked_def by blast

theorem uvmcopy_shares_witness:
  "\<exists>s old new ps s'. vminv (s :: kmem) {new, old} ps \<and> uvmcopy old new 4096 s = Ok 0 s' \<and>
     uread s' new 5 = uread s old 5 \<and> uread s old 5 \<noteq> None"
proof -
  obtain s :: kmem and r1 r2 ps where
    s: "vminv s {r2, r1} ps" "excl (leaf (mem s)) {r2, r1}" "r1 \<noteq> r2" "100 \<le> length ps"
    "\<forall>va. unat va < 4096 \<longrightarrow> user_page s r1 va"
    "\<forall>va. unat va < 4096 \<longrightarrow> (\<exists>q. leaf (mem s) r1 va = alloc_entry q PTE_W)"
    "\<forall>va < MAXVA. leaf (mem s) r2 va = 0"
    using boot_spaces by blast
  have "copyable s r1 r2 va" if "unat (PGROUNDDOWN va) < unat (4096 :: u64)" for va
    by (rule boot_copyable [OF s(5,7) that])
  moreover have "2 * npages 4096 \<le> length ps" using s(4) by (simp add: npages_def)
  moreover have "(4096 :: u64) \<le> MAXVA" by (simp add: MAXVA_def)
  ultimately obtain s' where "uvmcopy r1 r2 4096 s = Ok 0 s'"
    "\<forall>va. unat (PGROUNDDOWN va) < unat (4096 :: u64) \<longrightarrow> uread s' r2 va = uread s r1 va"
    using uvmcopy_shares [OF s(1,2), of r1 r2 4096] s(3) by blast
  moreover have "unat (PGROUNDDOWN 5) < unat (4096 :: u64)" using page_eq_range [of 0 5] by simp
  moreover have "uread s r1 5 \<noteq> None"
    using s(6) [rule_format, of 5] by (auto simp: uread_def pte_valid_def PTE_bits bit_alloc_entry MAXVA_def)
  ultimately show ?thesis using s(1) by blast
qed


section \<open>Stores after a copy-on-write fork\<close>

text \<open>A store to a page that is writable or copy-on-write.\<close>

lemma user_store_writable:
  assumes inv: "vminv s R ps" and ex: "excl (leaf (mem s)) R" and "r \<in> R" and w: "writable s r va" and "ps \<noteq> []"
  shows "\<exists>s' ps'. user_store r va b s = Ok True s' \<and> vminv s' R ps' \<and> excl (leaf (mem s')) R \<and>
    length ps \<le> Suc (length ps') \<and> (\<forall>r' va'. r' \<in> R \<longrightarrow> writable s r' va' \<longrightarrow> writable s' r' va') \<and>
    (\<forall>r' \<in> R. \<forall>va'. uread s' r' va' = (if r' = r \<and> va' = va then Some b else uread s r' va'))"
proof -
  have v: "va < MAXVA" "leaf (mem s) r va AND PTE_R \<noteq> 0" "page_ok s (PTE2PA (leaf (mem s) r va))"
    using w by (auto simp: writable_def Let_def)
  obtain s1 ps1 where c: "user_store r va b s = Ok True (store_bytes r va [b] s1)"
    "vminv s1 R ps1" "excl (leaf (mem s1)) R" "length ps \<le> Suc (length ps1)" "end_addr s1 = end_addr s"
    "can_store r va s1" "leaf (mem s1) r va AND PTE_R \<noteq> 0" "page_ok s1 (PTE2PA (leaf (mem s1) r va))"
    and u: "\<forall>r' \<in> R. \<forall>va'. uread s1 r' va' = uread s r' va'"
    and o: "\<forall>r' \<in> R. \<forall>va' < MAXVA. \<not> (r' = r \<and> PGROUNDDOWN va' = PGROUNDDOWN va) \<longrightarrow>
       leaf (mem s1) r' va' = leaf (mem s) r' va'"
  proof (cases "can_store r va s")
    case True
    show ?thesis by (rule that [of s ps]) (use True inv ex v in \<open>simp_all add: user_store_def\<close>)
  next
    case False
    then have cow: "cow_page (leaf (mem s) r va)" using w by (auto simp: writable_def can_store_def cow_page_def Let_def)
    obtain s' ps' where h: "handle_cow_fault (Some r) va s = Ok 0 s'" "vminv s' R ps'"
      "cow_handled R r va s s'" "length ps \<le> Suc (length ps')"
      using cow_fault_ok [OF inv assms(3) v(1) refl cow v(3)] assms(5) by auto
    have cs: "can_store r va s'" "page_ok s' (PTE2PA (leaf (mem s') r va))"
      using h(3) v(1) by (simp_all add: cow_handled_def private_page_def can_store_def Let_def)
    have "uread s r va \<noteq> None" using w by (simp add: uread_def writable_def Let_def)
    then have "uread s' r va \<noteq> None" using h(3) assms(3) by (simp add: cow_handled_def)
    then have rd: "leaf (mem s') r va AND PTE_R \<noteq> 0" by (auto simp: uread_def Let_def split: if_splits)
    show ?thesis
      by (rule that [of s' ps'])
        (use False h cs rd excl_private [OF ex h(3) assms(3) v(1)] in \<open>simp_all add: user_store_def cow_handled_def\<close>)
  qed
  let ?s = "store_bytes r va [b] s1"
  have "unat (va - PGROUNDDOWN va) < 4096" using page_offset_less [of va] by (simp add: word_less_nat_alt PGSIZE_def)
  then have len: "unat (va - PGROUNDDOWN va) + length [b] \<le> 4096" by simp
  note S = store_private_inv [OF c(2) assms(3) c(6) len]
  have mt: "maps_to (mem s1) R (PTE2PA (leaf (mem s1) r va)) = {(r, PGROUNDDOWN va)}"
    by (rule excl_maps_to [OF c(3) assms(3)]) (use c(6) in \<open>auto simp: can_store_def\<close>)
  have rd: "uread ?s r' va' = (if r' = r \<and> va' = va then Some b else uread s r' va')" if "r' \<in> R" for r' va'
    using store_private [OF c(2) assms(3) c(6) that len mt c(7), of va'] u that by (auto simp: unat_eq_0)
  have "writable ?s r' va'" if "r' \<in> R" "writable s r' va'" for r' va'
    by (rule store_writable [OF S(2) that(1)]) (use c(5-8) o that in auto)
  then show ?thesis using c(1,4) S(1) rd excl_cong [OF c(3) S(2)] by blast
qed

text \<open>A sequence of stores by any of the processes, and its effect on the address spaces as
  independent byte maps.\<close>

fun user_stores :: "(u64 \<times> u64 \<times> u8) list \<Rightarrow> 'a kmem_scheme \<Rightarrow> ('a kmem_scheme, bool) res" where
  "user_stores [] s = Ok True s"
| "user_stores ((r, va, b) # ops) s =
     andthen (user_store r va b s) (\<lambda>ok s. if ok then user_stores ops s else Ok False s)"

fun store_all :: "(u64 \<times> u64 \<times> u8) list \<Rightarrow> (u64 \<Rightarrow> u64 \<Rightarrow> u8 option) \<Rightarrow> u64 \<Rightarrow> u64 \<Rightarrow> u8 option" where
  "store_all [] v = v"
| "store_all ((r, va, b) # ops) v = store_all ops (v(r := (v r)(va \<mapsto> b)))"

lemma store_all_cong: "(\<And>r. r \<in> R \<Longrightarrow> v r = w r) \<Longrightarrow> r \<in> R \<Longrightarrow> store_all ops v r = store_all ops w r"
proof (induction ops arbitrary: v w)
  case (Cons op ops)
  obtain r' va b where op: "op = (r', va, b)" by (cases op) auto
  show ?case unfolding op store_all.simps by (rule Cons.IH) (use Cons.prems in auto)
qed simp

lemma user_stores_spec:
  assumes "vminv s R ps" "excl (leaf (mem s)) R" "length ops \<le> length ps"
    and "\<forall>(r, va, b) \<in> set ops. r \<in> R \<and> writable s r va"
  shows "\<exists>s' ps'. user_stores ops s = Ok True s' \<and> vminv s' R ps' \<and> excl (leaf (mem s')) R \<and>
    (\<forall>r \<in> R. uread s' r = store_all ops (uread s) r)"
  using assms
proof (induction ops arbitrary: s ps)
  case (Cons op ops)
  obtain r va b where op: "op = (r, va, b)" by (cases op) auto
  have pre: "r \<in> R" "writable s r va" "ps \<noteq> []" using Cons.prems(3,4) op by auto
  obtain s1 ps1 where s1: "user_store r va b s = Ok True s1" "vminv s1 R ps1" "excl (leaf (mem s1)) R"
    "length ps \<le> Suc (length ps1)" "\<forall>r' va'. r' \<in> R \<longrightarrow> writable s r' va' \<longrightarrow> writable s1 r' va'"
    "\<forall>r' \<in> R. \<forall>va'. uread s1 r' va' = (if r' = r \<and> va' = va then Some b else uread s r' va')"
    using user_store_writable [OF Cons.prems(1,2) pre, of b] by blast
  obtain s2 ps2 where s2: "user_stores ops s1 = Ok True s2" "vminv s2 R ps2" "excl (leaf (mem s2)) R"
    "\<forall>r \<in> R. uread s2 r = store_all ops (uread s1) r"
    using Cons.IH [OF s1(2,3)] Cons.prems(3,4) s1(4,5) by fastforce
  have up: "uread s1 r' = ((uread s)(r := (uread s r)(va \<mapsto> b))) r'" if "r' \<in> R" for r'
    using s1(6) that by auto
  have "uread s2 r' = store_all (op # ops) (uread s) r'" if "r' \<in> R" for r'
    unfolding op store_all.simps s2(4) [rule_format, OF that] by (rule store_all_cong [OF up that])
  moreover have "user_stores (op # ops) s = Ok True s2" using s1(1) s2(1) by (simp add: op)
  ultimately show ?case using s2(2,3) by blast
qed auto


text \<open>
  C2: A copy-on-write \<^verbatim>\<open>fork\<close> is indistinguishable from an eager copy. After \<^verbatim>\<open>uvmcopy\<close>, any
  interleaving of stores by parent, child and other processes to their writable pages succeeds
  (with the page faults it causes) as long as free pages last, and every address space then reads as
  if the child had received its own copy of the parent's memory at the fork and each store had
  changed one byte of the space that made it.
\<close>

theorem cow_fork_isolates:
  assumes "vminv s R ps" "excl (leaf (mem s)) R" "old \<in> R" "new \<in> R" "old \<noteq> new" "sz \<le> MAXVA"
    and "\<And>va. unat (PGROUNDDOWN va) < unat sz \<Longrightarrow> copyable s old new va"
    and "2 * npages sz + length ops \<le> length ps"
    and "\<forall>(r, va, b) \<in> set ops. r \<in> R \<and>
      writable s (if r = new \<and> unat (PGROUNDDOWN va) < unat sz then old else r) va"
  shows "\<exists>s1 s2 ps2. uvmcopy old new sz s = Ok 0 s1 \<and> user_stores ops s1 = Ok True s2 \<and>
    vminv s2 R ps2 \<and> excl (leaf (mem s2)) R \<and>
    (\<forall>r \<in> R. uread s2 r = store_all ops ((uread s)(new := (\<lambda>va.
       if unat (PGROUNDDOWN va) < unat sz then uread s old va else uread s new va))) r)"
proof -
  have room: "2 * npages sz \<le> length ps" using assms(8) by simp
  obtain s1 ps1 where u: "uvmcopy old new sz s = Ok 0 s1" "vminv s1 R ps1" "excl (leaf (mem s1)) R"
    "length ps \<le> length ps1 + 2 * npages sz"
    "cow_forked R old new sz s s1"
    using uvmcopy_ok [OF assms(1-7) room] by blast
  note f = cow_forkedD [OF u(5)]
  have "r \<in> R \<and> writable s1 r va" if op: "(r, va, b) \<in> set ops" for r va b
  proof -
    have "r \<in> R" "writable s (if r = new \<and> unat (PGROUNDDOWN va) < unat sz then old else r) va"
      using bspec [OF assms(9) op] by simp_all
    then show ?thesis using f(1) [of va] f(3) [of r va]
      by (cases "unat (PGROUNDDOWN va) < unat sz"; cases "r = new"; cases "r = old") auto
  qed
  then have w: "\<forall>(r, va, b) \<in> set ops. r \<in> R \<and> writable s1 r va" by blast
  obtain s2 ps2 where t: "user_stores ops s1 = Ok True s2" "vminv s2 R ps2" "excl (leaf (mem s2)) R"
    "\<forall>r \<in> R. uread s2 r = store_all ops (uread s1) r"
    using user_stores_spec [OF u(2,3) _ w] u(4) assms(8) by auto
  let ?v = "(uread s)(new := (\<lambda>va. if unat (PGROUNDDOWN va) < unat sz then uread s old va else uread s new va))"
  have eq: "uread s1 r = ?v r" if "r \<in> R" for r
    using f(1) f(2) [OF that] f(3) [OF assms(4)] by (cases "r = new") (auto simp: fun_eq_iff)
  have "uread s2 r = store_all ops ?v r" if "r \<in> R" for r
    unfolding t(4) [rule_format, OF that] by (rule store_all_cong [OF eq that])
  then show ?thesis using u(1) t(1-3) by blast
qed

theorem cow_fork_isolates_witness:
  "\<exists>s old new ps s1 s2. vminv (s :: kmem) {new, old} ps \<and> uvmcopy old new 4096 s = Ok 0 s1 \<and>
     user_stores [(new, 5, 7), (old, 5, 8), (new, 6, 9)] s1 = Ok True s2 \<and>
     uread s2 new 5 = Some 7 \<and> uread s2 old 5 = Some 8 \<and> uread s2 old 6 = uread s old 6"
proof -
  obtain s :: kmem and r1 r2 ps where
    s: "vminv s {r2, r1} ps" "excl (leaf (mem s)) {r2, r1}" "r1 \<noteq> r2" "100 \<le> length ps"
    "\<forall>va. unat va < 4096 \<longrightarrow> user_page s r1 va"
    "\<forall>va. unat va < 4096 \<longrightarrow> (\<exists>q. leaf (mem s) r1 va = alloc_entry q PTE_W)"
    "\<forall>va < MAXVA. leaf (mem s) r2 va = 0"
    using boot_spaces by blast
  let ?ops = "[(r2, 5, 7), (r1, 5, 8), (r2, 6, 9)]"
  have cp: "copyable s r1 r2 va" if "unat (PGROUNDDOWN va) < unat (4096 :: u64)" for va
    by (rule boot_copyable [OF s(5,7) that])
  have w: "writable s r1 va" if "unat va < 4096" for va
    by (rule boot_writable [OF s(5,6) that])
  have p: "unat (PGROUNDDOWN 5) < unat (4096 :: u64)" "unat (PGROUNDDOWN 6) < unat (4096 :: u64)"
    using page_eq_range [of 0 5] page_eq_range [of 0 6] by simp_all
  have "\<exists>s1 s2 ps2. uvmcopy r1 r2 4096 s = Ok 0 s1 \<and> user_stores ?ops s1 = Ok True s2 \<and>
    vminv s2 {r2, r1} ps2 \<and> excl (leaf (mem s2)) {r2, r1} \<and>
    (\<forall>r \<in> {r2, r1}. uread s2 r = store_all ?ops ((uread s)(r2 := (\<lambda>va.
       if unat (PGROUNDDOWN va) < unat (4096 :: u64) then uread s r1 va else uread s r2 va))) r)"
    by (rule cow_fork_isolates [OF s(1,2)]) (use s(3,4) cp w p in \<open>auto simp: MAXVA_def npages_def\<close>)
  then obtain s1 s2 where u: "uvmcopy r1 r2 4096 s = Ok 0 s1" "user_stores ?ops s1 = Ok True s2"
    "uread s2 r2 5 = Some 7" "uread s2 r1 5 = Some 8" "uread s2 r1 6 = uread s r1 6"
    using s(3) by auto
  then show ?thesis using s(1) by blast
qed


section \<open>The copy-on-write fault handler\<close>

text \<open>
  C3: \<^verbatim>\<open>handle_cow_fault\<close> never panics. Either it returns 0, and then the faulting page is writable,
  mapped only at the faulting address, and every process reads what it read before; or it returns
  -1 with the state unchanged, and then the address is out of range, the page is not a user
  copy-on-write page, or it is shared and no free page is left to copy it to.
\<close>

theorem handle_cow_fault_total:
  assumes "vminv s R ps" "excl (leaf (mem s)) R" "r \<in> R"
    and "cow_page (leaf (mem s) r va) \<Longrightarrow> page_ok s (PTE2PA (leaf (mem s) r va))"
  shows "(\<exists>s' ps'. handle_cow_fault (Some r) va s = Ok 0 s' \<and> vminv s' R ps' \<and> excl (leaf (mem s')) R \<and>
      private_page (mem s') R r va \<and> (\<forall>r' \<in> R. \<forall>va'. uread s' r' va' = uread s r' va') \<and>
      (\<forall>r' \<in> R. \<forall>va' < MAXVA. \<not> (r' = r \<and> PGROUNDDOWN va' = PGROUNDDOWN va) \<longrightarrow>
         leaf (mem s') r' va' = leaf (mem s) r' va')) \<or>
    handle_cow_fault (Some r) va s = Ok (- 1) s \<and>
      (MAXVA \<le> va \<or> \<not> cow_page (leaf (mem s) r va) \<or>
       ps = [] \<and> 1 < refcnt s (page_index (PTE2PA (leaf (mem s) r va))))"
proof (cases "va < MAXVA \<and> cow_page (leaf (mem s) r va)")
  case True
  let ?p = "PTE2PA (leaf (mem s) r va)"
  have va: "va < MAXVA" and cow: "cow_page (leaf (mem s) r va)" and ok: "page_ok s ?p" using True assms(4) by auto
  have "?p \<notin> set ps" "?p \<notin> tables (mem s) R"
    using ptinvD(6,7) [OF vminvD(1) [OF assms(1)] assms(3) va] cow by (auto simp: cow_page_def)
  then have ge: "1 \<le> refcnt s (page_index ?p)" by (intro refs_okD(1) [OF vminvD(2) [OF assms(1)] ok])
  show ?thesis
  proof (cases "refcnt s (page_index ?p) = 1 \<or> ps \<noteq> []")
    case room: True
    obtain s' ps' where h: "handle_cow_fault (Some r) va s = Ok 0 s'" "vminv s' R ps'" "cow_handled R r va s s'"
      using cow_fault_ok [OF assms(1,3) va refl cow ok room] by blast
    then show ?thesis
      using excl_private [OF assms(2) h(3) assms(3) va] unfolding cow_handled_def by blast
  next
    case False
    then show ?thesis using cow_fault_nomem [OF _ assms(3) va refl cow ok] assms(1) ge by simp
  qed
next
  case False
  then show ?thesis
    using handle_cow_fault_not_cow [OF vminvD(1) [OF assms(1)] assms(3)]
    by (cases "va < MAXVA") (auto simp: handle_cow_fault_def)
qed

lemma boot_forked:
  "\<exists>(s :: kmem) r1 r2 ps. vminv s {r2, r1} ps \<and> excl (leaf (mem s)) {r2, r1} \<and> r1 \<noteq> r2 \<and> 98 \<le> length ps \<and>
     (\<forall>va. unat va < 4096 \<longrightarrow> cow_page (leaf (mem s) r1 va) \<and> cow_page (leaf (mem s) r2 va) \<and>
        writable s r1 va \<and> writable s r2 va)"
proof -
  obtain s :: kmem and r1 r2 ps where
    s: "vminv s {r2, r1} ps" "excl (leaf (mem s)) {r2, r1}" "r1 \<noteq> r2" "100 \<le> length ps"
    "\<forall>va. unat va < 4096 \<longrightarrow> user_page s r1 va"
    "\<forall>va. unat va < 4096 \<longrightarrow> (\<exists>q. leaf (mem s) r1 va = alloc_entry q PTE_W)"
    "\<forall>va < MAXVA. leaf (mem s) r2 va = 0"
    using boot_spaces by blast
  obtain s1 ps1 where s1: "vminv s1 {r2, r1} ps1" "excl (leaf (mem s1)) {r2, r1}" "length ps \<le> length ps1 + 2 * npages 4096"
    "cow_forked {r2, r1} r1 r2 4096 s s1"
    using uvmcopy_ok [OF s(1,2), of r1 r2 4096] boot_copyable [OF s(5,7)] s(3,4) by (auto simp: MAXVA_def npages_def)
  have "cow_page (leaf (mem s1) r1 va) \<and> cow_page (leaf (mem s1) r2 va) \<and> writable s1 r1 va \<and> writable s1 r2 va"
    if "unat va < 4096" for va
  proof -
    have "in_pages 0 (npages 4096) va" using that by (simp add: in_pages_def npages_def)
    then have "unat (PGROUNDDOWN va) < unat (4096 :: u64)" unfolding in_npages .
    then have "\<not> can_store r1 va s1" "\<not> can_store r2 va s1" "writable s1 r1 va" "writable s1 r2 va"
      using cow_forkedD(1) [OF s1(4)] boot_writable [OF s(5,6) that] by auto
    then show ?thesis by (auto simp: cow_page_def can_store_def writable_def Let_def)
  qed
  moreover have "98 \<le> length ps1" using s1(3) s(4) by (simp add: npages_def)
  ultimately show ?thesis using s1(1,2) s(3) by blast
qed

theorem handle_cow_fault_total_witness:
  "\<exists>s s' r R ps ps'. vminv (s :: kmem) R ps \<and> r \<in> R \<and> handle_cow_fault (Some r) 5 s = Ok 0 s' \<and> vminv s' R ps' \<and>
     private_page (mem s') R r 5"
proof -
  obtain s :: kmem and r1 r2 ps where s: "vminv s {r2, r1} ps" "excl (leaf (mem s)) {r2, r1}" "98 \<le> length ps"
    "\<forall>va. unat va < 4096 \<longrightarrow> cow_page (leaf (mem s) r1 va) \<and> cow_page (leaf (mem s) r2 va) \<and>
        writable s r1 va \<and> writable s r2 va"
    using boot_forked by blast
  have c: "cow_page (leaf (mem s) r2 5)" "page_ok s (PTE2PA (leaf (mem s) r2 5))"
    using s(4) [rule_format, of 5] by (auto simp: writable_def Let_def)
  have "ps \<noteq> []" "\<not> MAXVA \<le> 5" using s(3) by (auto simp: MAXVA_def)
  then obtain s' ps' where "handle_cow_fault (Some r2) 5 s = Ok 0 s'" "vminv s' {r2, r1} ps'"
    "private_page (mem s') {r2, r1} r2 5"
    using handle_cow_fault_total [OF s(1,2) _ c(2)] c(1) by blast
  then show ?thesis using s(1) by blast
qed


section \<open>Growing and shrinking\<close>

text \<open>
  C4: \<^verbatim>\<open>uvmalloc\<close> never panics on a well-formed address space. It returns the new size and then every
  page between the rounded old size and the new size is mapped to a page of its own, readable by the
  user; or it returns 0 because memory ran out, and then none of these pages is mapped. In both
  cases nothing else changes for any process. Shrinking back with \<^verbatim>\<open>uvmdealloc\<close> restores what every
  process reads.
\<close>

theorem uvmalloc_dealloc:
  assumes "vminv s R ps" "excl (leaf (mem s)) R" "r \<in> R" "flags_ok xperm" "oldsz \<le> newsz" "newsz \<le> MAXVA"
    and "\<And>va. in_pages (PGROUNDUP oldsz) (npages newsz - npages oldsz) va \<Longrightarrow> \<not> pte_valid (leaf (mem s) r va)"
  shows "\<exists>s1 ps1. vminv s1 R ps1 \<and> excl (leaf (mem s1)) R \<and>
    (uvmalloc r oldsz newsz xperm s = Ok 0 s1 \<and> length ps < 3 * (npages newsz - npages oldsz) \<and>
       (\<forall>r' \<in> R. \<forall>va. uread s1 r' va = uread s r' va) \<or>
     uvmalloc r oldsz newsz xperm s = Ok newsz s1 \<and>
       grown R r xperm (PGROUNDUP oldsz) (npages newsz - npages oldsz) newsz s s1 \<and>
       (\<exists>s2 ps2. uvmdealloc r newsz oldsz s1 = Ok oldsz s2 \<and> vminv s2 R ps2 \<and>
          (\<forall>r' \<in> R. \<forall>va. uread s2 r' va = uread s r' va)))"
proof -
  let ?a = "PGROUNDUP oldsz" and ?n = "npages newsz - npages oldsz"
  obtain s1 ps1 ret where u: "uvmalloc r oldsz newsz xperm s = Ok ret s1" "vminv s1 R ps1" "excl (leaf (mem s1)) R"
    "ret = newsz \<and> grown R r xperm ?a ?n newsz s s1 \<or> ret = 0 \<and> undone R r ?a ?n s s1 \<and> length ps < 3 * ?n"
    using uvmalloc_spec [OF assms] by blast
  have none: "uread s r va = None" if "in_pages ?a ?n va" for va
    using assms(7) [OF that] by (simp add: uread_def Let_def)
  have big: "uread t r' va = None" if "\<not> va < MAXVA" for t :: "'a kmem_scheme" and r' va
    using that by (simp add: uread_def)
  show ?thesis
  proof (cases "undone R r ?a ?n s s1 \<and> ret = 0 \<and> length ps < 3 * ?n")
    case True
    have "uread s1 r' va = uread s r' va" if "r' \<in> R" for r' va
    proof (cases "r' = r \<and> in_pages ?a ?n va")
      case inside: True
      then have "\<not> pte_valid (leaf (mem s1) r va)" using True by (simp add: undone_def)
      then show ?thesis using inside none by (simp add: uread_def Let_def)
    next
      case False
      then show ?thesis using True that big [of va s1 r'] big [of va s r']
        unfolding undone_def unaffected_def by (cases "va < MAXVA") auto
    qed
    then show ?thesis using True u(1-3) by blast
  next
    case False
    then have g: "ret = newsz" "grown R r xperm ?a ?n newsz s s1" using u(4) by auto
    have up: "\<And>va. in_pages ?a ?n va \<Longrightarrow> user_page s1 r va" using g(2) by (simp add: grown_def)
    obtain s2 ps2 where d: "uvmdealloc r newsz oldsz s1 = Ok oldsz s2"
      "vm_trans R s1 ps1 s2 ps2 (\<lambda>r' va. if r' = r \<and> in_pages ?a ?n va then 0 else leaf (mem s1) r' va)"
      using uvmdealloc_spec [OF u(2) assms(3,5,6) up] by blast
    have "uread s2 r' va = uread s r' va" if "r' \<in> R" for r' va
    proof (cases "r' = r \<and> in_pages ?a ?n va")
      case True
      then have "va < MAXVA \<Longrightarrow> leaf (mem s2) r' va = 0" using vm_transD(5) [OF d(2) that, of va] by simp
      then show ?thesis using True none by (auto simp: uread_def Let_def)
    next
      case out: False
      then have "uread s2 r' va = uread s1 r' va" by (intro vm_trans_uread [OF d(2) that]) auto
      then show ?thesis using g(2) out that big [of va s1 r'] big [of va s r']
        unfolding grown_def unaffected_def by (cases "va < MAXVA") auto
    qed
    then show ?thesis using u(1-3) g d(1) vm_transD(1) [OF d(2)] by blast
  qed
qed

theorem uvmalloc_dealloc_witness:
  "\<exists>s r s1 s2. uvmalloc r 4096 12288 PTE_W (s :: kmem) = Ok 12288 s1 \<and> user_page s1 r 8192 \<and>
     uvmdealloc r 12288 4096 s1 = Ok 4096 s2 \<and> uread s2 r 5 = uread s r 5 \<and> uread s r 5 \<noteq> None"
proof -
  obtain s :: kmem and r1 r2 ps where
    s: "vminv s {r2, r1} ps" "excl (leaf (mem s)) {r2, r1}" "100 \<le> length ps"
    "\<forall>va. unat va < 4096 \<longrightarrow> (\<exists>q. leaf (mem s) r1 va = alloc_entry q PTE_W)"
    "\<forall>va < MAXVA. 4096 \<le> unat va \<longrightarrow> leaf (mem s) r1 va = 0"
    using boot_spaces by blast
  have n: "npages 12288 - npages 4096 = 2" "PGROUNDUP 4096 = 4096" by (simp_all add: npages_def PGROUNDUP_def PGSIZE_def)
  have "\<exists>s1 ps1. vminv s1 {r2, r1} ps1 \<and> excl (leaf (mem s1)) {r2, r1} \<and>
    (uvmalloc r1 4096 12288 PTE_W s = Ok 0 s1 \<and> length ps < 3 * (npages 12288 - npages 4096) \<and>
       (\<forall>r' \<in> {r2, r1}. \<forall>va. uread s1 r' va = uread s r' va) \<or>
     uvmalloc r1 4096 12288 PTE_W s = Ok 12288 s1 \<and>
       grown {r2, r1} r1 PTE_W (PGROUNDUP 4096) (npages 12288 - npages 4096) 12288 s s1 \<and>
       (\<exists>s2 ps2. uvmdealloc r1 12288 4096 s1 = Ok 4096 s2 \<and> vminv s2 {r2, r1} ps2 \<and>
          (\<forall>r' \<in> {r2, r1}. \<forall>va. uread s2 r' va = uread s r' va)))"
    by (rule uvmalloc_dealloc [OF s(1,2)])
      (use s(5) in \<open>auto simp: n in_pages_def MAXVA_def word_less_nat_alt\<close>)
  then obtain s1 s2 where "uvmalloc r1 4096 12288 PTE_W s = Ok 12288 s1"
    "grown {r2, r1} r1 PTE_W 4096 2 12288 s s1" "uvmdealloc r1 12288 4096 s1 = Ok 4096 s2" "uread s2 r1 5 = uread s r1 5"
    using s(3) unfolding n by auto
  moreover have "uread s r1 5 \<noteq> None"
    using s(4) [rule_format, of 5] by (auto simp: uread_def pte_valid_def PTE_bits bit_alloc_entry MAXVA_def)
  moreover have "in_pages 4096 2 8192" by (simp add: in_pages_def)
  ultimately show ?thesis unfolding grown_def by blast
qed

section \<open>Copies between kernel and user memory\<close>

text \<open>
  C5: Bytes that \<^verbatim>\<open>copyout\<close> writes to writable or copy-on-write user pages are the bytes \<^verbatim>\<open>copyin\<close> then
  reads back; nothing else changes for any process, across page boundaries and with the copy-on-write
  faults taken on the way.
\<close>

theorem copyout_copyin:
  assumes "vminv s R ps" "excl (leaf (mem s)) R" "r \<in> R" "unat va + length src \<le> 2 ^ 38" "length src \<le> length ps"
    and "\<And>i. i < length src \<Longrightarrow> writable s r (va + of_nat i)"
  shows "\<exists>s' ps'. copyout (Some r) r va src s = Ok 0 s' \<and> vminv s' R ps' \<and> excl (leaf (mem s')) R \<and>
    copyin r va (length src) s' = Ok (0, src) s' \<and>
    (\<forall>r' \<in> R. \<forall>va'. \<not> (r' = r \<and> unat (va' - va) < length src) \<longrightarrow> uread s' r' va' = uread s r' va')"
proof -
  obtain s' ps' where c: "copyout (Some r) r va src s = Ok 0 s'" "vminv s' R ps'" "excl (leaf (mem s')) R"
    "\<forall>r' \<in> R. \<forall>va'. uread s' r' va' =
       (if r' = r \<and> unat (va' - va) < length src then Some (src ! unat (va' - va)) else uread s r' va')"
    "\<forall>r' \<in> R. \<forall>va'. writable s r' va' \<longrightarrow> writable s' r' va'"
    using copyout_spec [OF assms] by blast
  note pt = vminvD(1) [OF c(2)]
  have rd: "readable s' r (va + of_nat i) \<and> ubyte s' r (va + of_nat i) = src ! i" if "i < length src" for i
  proof -
    have w: "writable s' r (va + of_nat i)" using c(5) assms(3) assms(6) [OF that] by blast
    have "PTE2PA (leaf (mem s') r (va + of_nat i)) \<noteq> 0"
      using page_ok_nonzero [of s'] ptinvD(1) [OF pt] w by (auto simp: kinv_def writable_def Let_def)
    moreover have "unat (va + of_nat i - va) = i" using that assms(4) by (simp add: unat_of_nat)
    then have "uread s' r (va + of_nat i) = Some (src ! i)" using c(4) assms(3) that by simp
    ultimately show ?thesis using w uread_ubyte [of s' r "va + of_nat i"] by (simp add: readable_def writable_def Let_def)
  qed
  have "map (\<lambda>i. ubyte s' r (va + of_nat i)) [0..<length src] = src"
    by (rule nth_equalityI) (use rd in auto)
  then have "copyin r va (length src) s' = Ok (0, src) s'"
    using copyin_loop_spec [OF pt assms(3,4), of "[]"] rd by (simp add: copyin_def)
  then show ?thesis using c(1-4) by auto
qed

theorem copyout_copyin_witness:
  "\<exists>s s' r R ps. vminv (s :: kmem) R ps \<and> copyout (Some r) r 100 [1, 2, 3] s = Ok 0 s' \<and>
     copyin r 100 3 s' = Ok (0, [1, 2, 3]) s'"
proof -
  obtain s :: kmem and r1 r2 ps where s: "vminv s {r2, r1} ps" "excl (leaf (mem s)) {r2, r1}" "98 \<le> length ps"
    "\<forall>va. unat va < 4096 \<longrightarrow> cow_page (leaf (mem s) r1 va) \<and> cow_page (leaf (mem s) r2 va) \<and>
        writable s r1 va \<and> writable s r2 va"
    using boot_forked by blast
  have w: "writable s r2 (100 + of_nat i)" if "i < length [1, 2, 3 :: u8]" for i
    using s(4) [rule_format, of "100 + of_nat i"] that by (simp add: unat_word_ariths unat_of_nat)
  have "\<exists>s' ps'. copyout (Some r2) r2 100 [1, 2, 3] s = Ok 0 s' \<and> vminv s' {r2, r1} ps' \<and> excl (leaf (mem s')) {r2, r1} \<and>
    copyin r2 100 (length [1, 2, 3 :: u8]) s' = Ok (0, [1, 2, 3]) s' \<and>
    (\<forall>r' \<in> {r2, r1}. \<forall>va'. \<not> (r' = r2 \<and> unat (va' - 100) < length [1, 2, 3 :: u8]) \<longrightarrow> uread s' r' va' = uread s r' va')"
    by (rule copyout_copyin [OF s(1,2) _ _ _ w]) (use s(3) in simp_all)
  moreover have "length [1, 2, 3 :: u8] = 3" by simp
  ultimately show ?thesis using s(1) by metis
qed

end
