(* ===== verification/Printf.thy ===== *)
theory Printf
  imports Xv6_Prelude
begin

text \<open>
  The formatted output of \<^verbatim>\<open>kernel/printf.c\<close>. A call of \<^verbatim>\<open>printf\<close> is a function from the format and the
  argument list to the characters given to \<^verbatim>\<open>consputc\<close>; \<open>None\<close> stands for behaviour C leaves
  undefined, here a number that does not fit the 16 characters of \<^verbatim>\<open>buf\<close> and a missing or
  ill-typed argument. The lemmas show that the digits of a number read back as that number and
  when the buffer is large enough.
\<close>

section \<open>Numbers\<close>

definition digits :: string where
  "digits = ''0123456789abcdef''"

text \<open>The \<^verbatim>\<open>do\<close> loop of \<^verbatim>\<open>printint\<close>: the characters stored in \<^verbatim>\<open>buf\<close>, least significant digit first.\<close>

function printint_digits :: "nat \<Rightarrow> nat \<Rightarrow> string" where
  "printint_digits base x =
     digits ! (x mod base) # (if 2 \<le> base \<and> x div base \<noteq> 0 then printint_digits base (x div base) else [])"
  by pat_completeness auto
termination
  by (relation "measure (\<lambda>(base, x). x)") (auto simp: div_eq_0_iff intro!: div_less_dividend)

declare printint_digits.simps [simp del]

definition printint :: "u64 \<Rightarrow> nat \<Rightarrow> bool \<Rightarrow> string option" where
  "printint xx base sign =
     (let neg = sign \<and> sint xx < 0;
          x = (if neg then - xx else xx);
          buf = printint_digits base (unat x) @ (if neg then ''-'' else '''')
      in if length buf \<le> 16 then Some (rev buf) else None)"

primrec printptr_loop :: "nat \<Rightarrow> u64 \<Rightarrow> string" where
  "printptr_loop 0 x = []"
| "printptr_loop (Suc n) x = digits ! unat (drop_bit 60 x) # printptr_loop n (push_bit 4 x)"

definition printptr :: "u64 \<Rightarrow> string" where
  "printptr x = ''0x'' @ printptr_loop 16 x"

section \<open>Formats\<close>

text \<open>Arguments as the caller passes them: a 64-bit register, or a pointer to a string (\<open>None\<close> is the
  null pointer). \<^verbatim>\<open>va_arg(ap, int)\<close> reads the low 32 bits.\<close>

datatype parg = Num u64 | Str "string option"

fun va_uint64 :: "parg list \<Rightarrow> (u64 \<times> parg list) option" where
  "va_uint64 (Num w # ap) = Some (w, ap)"
| "va_uint64 ap = None"

fun va_int :: "parg list \<Rightarrow> (u64 \<times> parg list) option" where
  "va_int (Num w # ap) = Some (scast (ucast w :: u32), ap)"
| "va_int ap = None"

fun va_str :: "parg list \<Rightarrow> (string \<times> parg list) option" where
  "va_str (Str s # ap) = Some (case s of None \<Rightarrow> ''(null)'' | Some t \<Rightarrow> t, ap)"
| "va_str ap = None"

text \<open>One conversion, from the characters after \<^verbatim>\<open>%\<close>: the text printed, the number of format
  characters consumed and the remaining arguments.\<close>

definition conv_num ::
  "(parg list \<Rightarrow> (u64 \<times> parg list) option) \<Rightarrow> nat \<Rightarrow> bool \<Rightarrow> nat \<Rightarrow> parg list \<Rightarrow> (string \<times> nat \<times> parg list) option" where
  "conv_num va base sign k ap =
     (case va ap of None \<Rightarrow> None
      | Some (w, ap) \<Rightarrow>
          (case printint w base sign of None \<Rightarrow> None | Some out \<Rightarrow> Some (out, k, ap)))"

definition at_fmt :: "string \<Rightarrow> nat \<Rightarrow> char" where
  "at_fmt fmt i = (if i < length fmt then fmt ! i else CHR 0x00)"

definition printf_conv :: "string \<Rightarrow> parg list \<Rightarrow> (string \<times> nat \<times> parg list) option" where
  "printf_conv fmt ap =
     (let c0 = at_fmt fmt 0;
          c1 = (if c0 \<noteq> CHR 0x00 then at_fmt fmt 1 else CHR 0x00);
          c2 = (if c1 \<noteq> CHR 0x00 then at_fmt fmt 2 else CHR 0x00)
      in if c0 = CHR ''d'' then conv_num va_int 10 True 1 ap
         else if c0 = CHR ''l'' \<and> c1 = CHR ''d'' then conv_num va_uint64 10 True 2 ap
         else if c0 = CHR ''l'' \<and> c1 = CHR ''l'' \<and> c2 = CHR ''d'' then conv_num va_uint64 10 True 3 ap
         else if c0 = CHR ''u'' then conv_num va_int 10 False 1 ap
         else if c0 = CHR ''l'' \<and> c1 = CHR ''u'' then conv_num va_uint64 10 False 2 ap
         else if c0 = CHR ''l'' \<and> c1 = CHR ''l'' \<and> c2 = CHR ''u'' then conv_num va_uint64 10 False 3 ap
         else if c0 = CHR ''x'' then conv_num va_int 16 False 1 ap
         else if c0 = CHR ''l'' \<and> c1 = CHR ''x'' then conv_num va_uint64 16 False 2 ap
         else if c0 = CHR ''l'' \<and> c1 = CHR ''l'' \<and> c2 = CHR ''x'' then conv_num va_uint64 16 False 3 ap
         else if c0 = CHR ''p'' then
           (case va_uint64 ap of None \<Rightarrow> None | Some (w, ap) \<Rightarrow> Some (printptr w, 1, ap))
         else if c0 = CHR ''s'' then
           (case va_str ap of None \<Rightarrow> None | Some (t, ap) \<Rightarrow> Some (t, 1, ap))
         else if c0 = CHR ''%'' then Some (''%'', 1, ap)
         else Some ([CHR ''%'', c0], 1, ap))"

text \<open>The loop of \<^verbatim>\<open>printf\<close>; the format is the string up to its NUL. A \<^verbatim>\<open>%\<close> that ends the format
  stops the loop.\<close>

function printf_loop :: "string \<Rightarrow> parg list \<Rightarrow> string option" where
  "printf_loop [] ap = Some []"
| "printf_loop (cx # fmt) ap =
     (if cx \<noteq> CHR ''%'' then
        (case printf_loop fmt ap of None \<Rightarrow> None | Some out \<Rightarrow> Some (cx # out))
      else if fmt = [] then Some []
      else
        (case printf_conv fmt ap of None \<Rightarrow> None
         | Some (out, k, ap) \<Rightarrow>
             (case printf_loop (drop k fmt) ap of None \<Rightarrow> None | Some rest \<Rightarrow> Some (out @ rest))))"
  by pat_completeness auto
termination
  by (relation "measure (\<lambda>(fmt, ap). length fmt)") auto

declare printf_loop.simps(2) [simp del]

definition printf :: "string \<Rightarrow> parg list \<Rightarrow> string option" where
  "printf fmt ap = printf_loop fmt ap"

section \<open>The digits of a number\<close>

text \<open>The value of a digit and of a digit sequence, least significant first.\<close>

definition digit_value :: "char \<Rightarrow> nat" where
  "digit_value c = (if c \<in> set ''0123456789'' then of_char c - 48 else of_char c - 87)"

definition digits_value :: "nat \<Rightarrow> string \<Rightarrow> nat" where
  "digits_value base ds = horner_sum digit_value base ds"

lemma digit_value_digits: "d < 16 \<Longrightarrow> digit_value (digits ! d) = d"
proof -
  assume "d < 16"
  then have "d \<in> set [0..<16]" by simp
  then show ?thesis unfolding upt_rec_numeral by (auto simp: digit_value_def digits_def upt_rec)
qed

lemma digits_value_printint:
  "2 \<le> base \<Longrightarrow> base \<le> 16 \<Longrightarrow> digits_value base (printint_digits base x) = x"
proof (induction base x rule: printint_digits.induct)
  case (1 base x)
  have "x mod base < 16" using "1.prems" by (intro less_le_trans [OF mod_less_divisor]) auto
  then show ?case
    using 1 by (subst printint_digits.simps)
      (auto simp: digits_value_def digit_value_digits mod_eq_self_iff_div_eq_0)
qed

lemma length_printint_digits:
  "2 \<le> base \<Longrightarrow> x < base ^ n \<Longrightarrow> 0 < n \<Longrightarrow> length (printint_digits base x) \<le> n"
proof (induction base x arbitrary: n rule: printint_digits.induct)
  case (1 base x)
  obtain k where n: "n = Suc k" using "1.prems"(3) by (cases n) auto
  show ?case
  proof (cases "x div base = 0")
    case True
    then show ?thesis using n by (subst printint_digits.simps) simp
  next
    case False
    have lt: "x div base < base ^ k" using "1.prems"(1,2) n by (simp add: div_less_iff_less_mult mult.commute)
    then have "0 < k" using False by (cases k) auto
    then show ?thesis using 1 False n lt by (subst printint_digits.simps) auto
  qed
qed


lemma printint_digits_long:
  "2 \<le> base \<Longrightarrow> base ^ n \<le> x \<Longrightarrow> n < length (printint_digits base x)"
proof (induction base x arbitrary: n rule: printint_digits.induct)
  case (1 base x)
  show ?case
  proof (cases n)
    case 0
    then show ?thesis by (subst printint_digits.simps) simp
  next
    case (Suc k)
    have "base ^ k \<le> x div base" using "1.prems" Suc by (simp add: less_eq_div_iff_mult_less_eq mult.commute)
    moreover have "0 < base ^ k" using "1.prems"(1) by simp
    ultimately have d: "x div base \<noteq> 0" "base ^ k \<le> x div base" by linarith+
    then have "k < length (printint_digits base (x div base))" using 1 by blast
    then show ?thesis using d(1) "1.prems"(1) Suc by (subst printint_digits.simps) simp
  qed
qed

lemma unat_minus_neg: "sint w < 0 \<Longrightarrow> unat (- w) = nat (- sint w)" for w :: "'a::len word"
proof -
  assume n: "sint w < 0"
  have "- w = word_of_int (- sint w)" by simp
  then have "uint (- w) = (- sint w) mod 2 ^ LENGTH('a)" by (simp only: uint_word_of_int)
  moreover have "(2 :: int) ^ (LENGTH('a) - 1) < 2 ^ LENGTH('a)" by (rule power_strict_increasing) simp_all
  then have "- sint w < 2 ^ LENGTH('a)" using sint_ge [of w] by linarith
  ultimately have "uint (- w) = - sint w" using n by simp
  then show ?thesis by (metis nat_uint_eq)
qed

lemma printint_digits_canonical:
  assumes "2 \<le> base" "base \<le> 16"
  shows "printint_digits base x \<noteq> []" "set (printint_digits base x) \<subseteq> set (take base digits)"
    "last (printint_digits base x) = CHR ''0'' \<Longrightarrow> printint_digits base x = ''0''"
proof -
  show ne: "printint_digits base x \<noteq> []" for x by (subst printint_digits.simps) simp
  have len: "length digits = 16" by (simp add: digits_def)
  have "set (printint_digits base x) \<subseteq> set (take base digits) \<and>
    (last (printint_digits base x) = CHR ''0'' \<longrightarrow> printint_digits base x = ''0'')"
    using assms
  proof (induction base x rule: printint_digits.induct)
    case (1 base x)
    have m: "x mod base < base" using "1.prems"(1) by simp
    then have d: "digits ! (x mod base) \<in> set (take base digits)" using "1.prems"(2) len
      by (metis in_set_conv_nth length_take min_absorb2 nth_take)
    show ?case
    proof (cases "x div base = 0")
      case True
      then show ?thesis using d by (subst (1 2 3) printint_digits.simps) simp
    next
      case False
      have z: "digits ! y = CHR ''0'' \<Longrightarrow> y = 0" if "y < 16" for y
        using digit_value_digits [OF that] by (simp add: digit_value_def)
      have "printint_digits base (x div base) \<noteq> ''0''"
        using False digits_value_printint [OF "1.prems", of "x div base"] by (auto simp: digits_value_def digit_value_def)
      then show ?thesis using False d ne [of "x div base"] 1 by (subst (1 2 3) printint_digits.simps) auto
    qed
  qed
  then show "set (printint_digits base x) \<subseteq> set (take base digits)"
    "last (printint_digits base x) = CHR ''0'' \<Longrightarrow> printint_digits base x = ''0''" by blast+
qed

text \<open>
  C8: The kernel's \<^verbatim>\<open>printint\<close> prints a number in a base from 2 to 16, signed or unsigned, exactly when
  its digits fit the 16 characters of its buffer, one of which a minus sign takes. It prints the sign
  exactly for a negative signed number, and then the one sequence of digits of the base, without
  leading zeros, that denotes the absolute value. Otherwise the number has too many digits and they
  run over the buffer.
\<close>

theorem printint_correct:
  assumes base: "2 \<le> base" "base \<le> 16"
    and neg: "neg \<longleftrightarrow> sign \<and> sint xx < 0" and n: "n = (if neg then nat (- sint xx) else unat xx)"
  shows "case printint xx base sign of
      None \<Rightarrow> base ^ (if neg then 15 else 16) \<le> n
    | Some out \<Rightarrow> n < base ^ (if neg then 15 else 16) \<and>
        (\<exists>ds. out = (if neg then ''-'' else '''') @ ds \<and> ds \<noteq> [] \<and> set ds \<subseteq> set (take base digits) \<and>
           (hd ds = CHR ''0'' \<longrightarrow> ds = ''0'') \<and> digits_value base (rev ds) = n)"
proof -
  let ?x = "if neg then - xx else xx" and ?k = "if neg then 15 else 16 :: nat"
  have x: "unat ?x = n"
    using neg n by (auto simp: unat_minus_neg)
  let ?ds = "printint_digits base n"
  note c = printint_digits_canonical [OF base, of n]
  have fits: "length ?ds \<le> ?k \<longleftrightarrow> n < base ^ ?k"
    using length_printint_digits [OF base(1), of n ?k] printint_digits_long [OF base(1), of ?k n]
    by (cases "n < base ^ ?k") auto
  have p: "printint xx base sign = (if n < base ^ ?k then Some ((if neg then ''-'' else '''') @ rev ?ds) else None)"
    unfolding fits [symmetric] printint_def neg [symmetric] Let_def x by auto
  have "hd (rev ?ds) = CHR ''0'' \<longrightarrow> rev ?ds = ''0''" using c(1,3) by (auto simp: hd_rev)
  then show ?thesis using c(1,2) digits_value_printint [OF base, of n] unfolding p by (auto simp del: power.simps)
qed

theorem printint_correct_witness:
  "printint (- 42) 10 True = Some ''-42'' \<and> digits_value 10 (rev ''42'') = 42 \<and>
   printint (- 1000000000000000) 10 True = None \<and> printint 0xFFFFFFFFFFFFFFFF 16 False \<noteq> None"
proof -
  have p: "printint (- 42) 10 True = Some ''-42''"
    by (simp add: printint_def printint_digits.simps digits_def Let_def)
  have "digits_value 10 (rev ''42'') = 42"
    using printint_correct [of 10 True True "- 42" 42] unfolding p by simp
  moreover have "printint (- 1000000000000000) 10 True = None"
    using printint_correct [of 10 True True "- 1000000000000000" "1000000000000000"] by (simp split: option.splits)
  moreover have "printint 0xFFFFFFFFFFFFFFFF 16 False \<noteq> None"
    using printint_correct [of 16 False False "0xFFFFFFFFFFFFFFFF" "0xFFFFFFFFFFFFFFFF"] by (simp split: option.splits)
  ultimately show ?thesis using p by simp
qed

end
