(* ===== verification/Proc.thy ===== *)
theory Proc
  imports Vm Printf
begin

text \<open>
  The process table of \<^verbatim>\<open>kernel/proc.c\<close> and the operations on it that do not involve files:
  allocating and freeing a process with its page table, growing its memory, sleeping and waking,
  killing, waiting for a child, and the copies between kernel and user memory on behalf of the
  current process. A process is its index in the table. The state extends the memory of the
  allocator; \<open>curproc\<close> is \<^verbatim>\<open>mycpu()->proc\<close> of the hart that runs the operation, and \<open>con_out\<close> collects
  what \<^verbatim>\<open>printf\<close> sends to the console.

  Critical sections of spin locks are single steps of this model, so \<^verbatim>\<open>acquire\<close> and \<^verbatim>\<open>release\<close> do not
  appear in it. An operation that calls \<^verbatim>\<open>sleep\<close> ends its run there with \<open>Sleep\<close>; the loops that
  sleep test their condition again when they are run again.
\<close>

section \<open>State\<close>

datatype procstate = UNUSED | USED | SLEEPING | RUNNABLE | RUNNING | ZOMBIE

record kcontext =
  c_ra :: u64
  c_sp :: u64
  c_s :: "nat \<Rightarrow> u64"

definition NOFILE :: nat where
  "NOFILE = 16"

record proc =
  p_state :: procstate
  p_chan :: "chan option"
  p_killed :: int
  p_xstate :: int
  p_pid :: int
  p_parent :: "nat option"
  p_kstack :: u64
  p_sz :: u64
  p_pagetable :: u64
  p_trapframe :: u64
  p_context :: kcontext
  p_ofile :: "nat \<Rightarrow> nat option"
  p_cwd :: "nat option"
  p_name :: "u8 list"

record kproc = kmem +
  procs :: "nat \<Rightarrow> proc"
  nextpid :: int
  initproc :: "nat option"
  curproc :: "nat option"
  ticks :: u32
  con_out :: string
  trampoline :: u64
  forkret :: u64

definition upd_proc :: "nat \<Rightarrow> (proc \<Rightarrow> proc) \<Rightarrow> 'a kproc_scheme \<Rightarrow> 'a kproc_scheme" where
  "upd_proc p f s = s\<lparr>procs := (procs s)(p := f (procs s p))\<rparr>"

text \<open>\<^verbatim>\<open>myproc()\<close>, in code that uses the result without a test for null.\<close>

definition myproc :: "'a kproc_scheme \<Rightarrow> ('a kproc_scheme, nat) res" where
  "myproc s = (case curproc s of None \<Rightarrow> Fault ''myproc: null'' | Some p \<Rightarrow> Ok p s)"

definition cur_pagetable :: "'a kproc_scheme \<Rightarrow> u64 option" where
  "cur_pagetable s = map_option (\<lambda>p. p_pagetable (procs s p)) (curproc s)"

definition kprintf :: "string \<Rightarrow> parg list \<Rightarrow> 'a kproc_scheme \<Rightarrow> ('a kproc_scheme, unit) res" where
  "kprintf fmt ap s =
     (case printf fmt ap of None \<Rightarrow> Fault ''printf'' | Some out \<Rightarrow> Ok () (s\<lparr>con_out := con_out s @ out\<rparr>))"

text \<open>The saved user registers live in the trapframe page; these are their offsets.\<close>

definition TF_kernel_satp :: u64 where "TF_kernel_satp = 0"
definition TF_kernel_sp :: u64 where "TF_kernel_sp = 8"
definition TF_kernel_trap :: u64 where "TF_kernel_trap = 16"
definition TF_epc :: u64 where "TF_epc = 24"
definition TF_kernel_hartid :: u64 where "TF_kernel_hartid = 32"
definition TF_sp :: u64 where "TF_sp = 48"
definition TF_a :: "nat \<Rightarrow> u64" where "TF_a n = 112 + 8 * of_nat n"
definition TF_size :: nat where "TF_size = 288"

definition tf_get :: "nat \<Rightarrow> u64 \<Rightarrow> 'a kproc_scheme \<Rightarrow> u64" where
  "tf_get p off s = ld64 (mem s) (p_trapframe (procs s p) + off)"

definition tf_set :: "nat \<Rightarrow> u64 \<Rightarrow> u64 \<Rightarrow> 'a kproc_scheme \<Rightarrow> 'a kproc_scheme" where
  "tf_set p off v s = s\<lparr>mem := st64 (mem s) (p_trapframe (procs s p) + off) v\<rparr>"

definition procinit :: "'a kproc_scheme \<Rightarrow> 'a kproc_scheme" where
  "procinit s =
     s\<lparr>procs := (\<lambda>p. if p < NPROC then (procs s p)\<lparr>p_state := UNUSED, p_kstack := KSTACK (of_nat p)\<rparr> else procs s p)\<rparr>"

definition allocpid :: "'a kproc_scheme \<Rightarrow> int \<times> 'a kproc_scheme" where
  "allocpid s = (nextpid s, s\<lparr>nextpid := nextpid s + 1\<rparr>)"

section \<open>Page tables of processes\<close>

definition proc_pagetable :: "nat \<Rightarrow> 'a kproc_scheme \<Rightarrow> ('a kproc_scheme, u64) res" where
  "proc_pagetable p s =
     (case uvmcreate s of (pagetable, s) \<Rightarrow>
        if pagetable = 0 then Ok 0 s
        else
          andthen (mappages pagetable TRAMPOLINE PGSIZE (trampoline s) (PTE_R OR PTE_X) s) (\<lambda>r s.
            if r < 0 then andthen (uvmfree pagetable 0 s) (\<lambda>_ s. Ok 0 s)
            else
              andthen (mappages pagetable TRAPFRAME PGSIZE (p_trapframe (procs s p)) (PTE_R OR PTE_W) s) (\<lambda>r s.
                if r < 0 then
                  andthen (uvmunmap pagetable TRAMPOLINE 1 False s) (\<lambda>_ s.
                  andthen (uvmfree pagetable 0 s) (\<lambda>_ s. Ok 0 s))
                else Ok pagetable s)))"

definition proc_freepagetable :: "u64 \<Rightarrow> u64 \<Rightarrow> 'a kproc_scheme \<Rightarrow> ('a kproc_scheme, unit) res" where
  "proc_freepagetable pagetable sz s =
     andthen (uvmunmap pagetable TRAMPOLINE 1 False s) (\<lambda>_ s.
     andthen (uvmunmap pagetable TRAPFRAME 1 False s) (\<lambda>_ s.
     uvmfree pagetable sz s))"

definition freeproc :: "nat \<Rightarrow> 'a kproc_scheme \<Rightarrow> ('a kproc_scheme, unit) res" where
  "freeproc p s =
     andthen (if p_trapframe (procs s p) \<noteq> 0 then kfree (p_trapframe (procs s p)) s else Ok () s) (\<lambda>_ s.
     let s = upd_proc p (\<lambda>x. x\<lparr>p_trapframe := 0\<rparr>) s
     in andthen
          (if p_pagetable (procs s p) \<noteq> 0
           then proc_freepagetable (p_pagetable (procs s p)) (p_sz (procs s p)) s else Ok () s) (\<lambda>_ s.
        Ok () (upd_proc p (\<lambda>x. x\<lparr>p_pagetable := 0, p_sz := 0, p_pid := 0, p_parent := None,
          p_name := (p_name x)[0 := 0], p_chan := None, p_killed := 0, p_xstate := 0, p_state := UNUSED\<rparr>) s)))"

text \<open>The search for an unused process, then its set-up.\<close>

definition find_unused :: "'a kproc_scheme \<Rightarrow> nat option" where
  "find_unused s = List.find (\<lambda>p. p_state (procs s p) = UNUSED) [0..<NPROC]"

definition allocproc :: "'a kproc_scheme \<Rightarrow> ('a kproc_scheme, nat option) res" where
  "allocproc s =
     (case find_unused s of None \<Rightarrow> Ok None s
      | Some p \<Rightarrow>
          (case allocpid s of (pid, s) \<Rightarrow>
             let s = upd_proc p (\<lambda>x. x\<lparr>p_pid := pid, p_state := USED\<rparr>) s
             in (case kalloc s of (tf, s) \<Rightarrow>
               let s = upd_proc p (\<lambda>x. x\<lparr>p_trapframe := tf\<rparr>) s
               in if tf = 0 then andthen (freeproc p s) (\<lambda>_ s. Ok None s)
                  else
                    andthen (proc_pagetable p s) (\<lambda>pagetable s.
                      let s = upd_proc p (\<lambda>x. x\<lparr>p_pagetable := pagetable\<rparr>) s
                      in if pagetable = 0 then andthen (freeproc p s) (\<lambda>_ s. Ok None s)
                         else
                           Ok (Some p) (upd_proc p (\<lambda>x. x\<lparr>p_context :=
                             \<lparr>c_ra = forkret s, c_sp = p_kstack x + PGSIZE, c_s = (\<lambda>_. 0)\<rparr>\<rparr>) s)))))"

definition growproc :: "int \<Rightarrow> 'a kproc_scheme \<Rightarrow> ('a kproc_scheme, int) res" where
  "growproc n s =
     andthen (myproc s) (\<lambda>p s.
     let sz = p_sz (procs s p); pagetable = p_pagetable (procs s p)
     in if n > 0 then
          andthen (uvmalloc pagetable sz (sz + word_of_int n) PTE_W s) (\<lambda>sz s.
            if sz = 0 then Ok (- 1) s else Ok 0 (upd_proc p (\<lambda>x. x\<lparr>p_sz := sz\<rparr>) s))
        else if n < 0 then
          andthen (uvmdealloc pagetable sz (sz + word_of_int n) s) (\<lambda>sz s.
            Ok 0 (upd_proc p (\<lambda>x. x\<lparr>p_sz := sz\<rparr>) s))
        else Ok 0 (upd_proc p (\<lambda>x. x\<lparr>p_sz := sz\<rparr>) s))"

section \<open>Sleep, wakeup and kill\<close>

text \<open>\<^verbatim>\<open>sleep\<close> up to the call of \<^verbatim>\<open>sched\<close>; \<open>sleep_return\<close> is what follows when the process runs again.\<close>

definition sleep :: "chan \<Rightarrow> 'a kproc_scheme \<Rightarrow> ('a kproc_scheme, 'b) res" where
  "sleep c s =
     andthen (myproc s) (\<lambda>p s. Sleep c (upd_proc p (\<lambda>x. x\<lparr>p_chan := Some c, p_state := SLEEPING\<rparr>) s))"

definition sleep_return :: "'a kproc_scheme \<Rightarrow> ('a kproc_scheme, unit) res" where
  "sleep_return s = andthen (myproc s) (\<lambda>p s. Ok () (upd_proc p (\<lambda>x. x\<lparr>p_chan := None\<rparr>) s))"

definition wakeup_proc :: "chan \<Rightarrow> proc \<Rightarrow> proc" where
  "wakeup_proc c x = (if p_state x = SLEEPING \<and> p_chan x = Some c then x\<lparr>p_state := RUNNABLE\<rparr> else x)"

definition wakeup :: "chan \<Rightarrow> 'a kproc_scheme \<Rightarrow> 'a kproc_scheme" where
  "wakeup c s =
     fold (\<lambda>p s. if Some p \<noteq> curproc s then upd_proc p (wakeup_proc c) s else s) [0..<NPROC] s"

fun kill_loop :: "nat list \<Rightarrow> int \<Rightarrow> 'a kproc_scheme \<Rightarrow> int \<times> 'a kproc_scheme" where
  "kill_loop [] pid s = (- 1, s)"
| "kill_loop (p # ps) pid s =
     (if p_pid (procs s p) = pid then
        (0, upd_proc p (\<lambda>x. x\<lparr>p_killed := 1, p_state := (if p_state x = SLEEPING then RUNNABLE else p_state x)\<rparr>) s)
      else kill_loop ps pid s)"

definition kill :: "int \<Rightarrow> 'a kproc_scheme \<Rightarrow> int \<times> 'a kproc_scheme" where
  "kill pid s = kill_loop [0..<NPROC] pid s"

definition setkilled :: "nat \<Rightarrow> 'a kproc_scheme \<Rightarrow> 'a kproc_scheme" where
  "setkilled p s = upd_proc p (\<lambda>x. x\<lparr>p_killed := 1\<rparr>) s"

definition killed :: "nat \<Rightarrow> 'a kproc_scheme \<Rightarrow> int" where
  "killed p s = p_killed (procs s p)"

definition reparent :: "nat \<Rightarrow> 'a kproc_scheme \<Rightarrow> ('a kproc_scheme, unit) res" where
  "reparent p s =
     for_each [0..<NPROC]
       (\<lambda>pp s. if p_parent (procs s pp) = Some p then
           (case initproc s of None \<Rightarrow> Fault ''reparent: initproc''
            | Some ip \<Rightarrow> Ok () (wakeup (Chan_proc ip) (upd_proc pp (\<lambda>x. x\<lparr>p_parent := Some ip\<rparr>) s)))
         else Ok () s) s"

text \<open>One pass of \<^verbatim>\<open>wait\<close> over the table.\<close>

fun wait_loop :: "nat list \<Rightarrow> nat \<Rightarrow> bool \<Rightarrow> u64 \<Rightarrow> 'a kproc_scheme \<Rightarrow> ('a kproc_scheme, int) res" where
  "wait_loop [] p havekids addr s =
     (if \<not> havekids \<or> killed p s \<noteq> 0 then Ok (- 1) s else sleep (Chan_proc p) s)"
| "wait_loop (pp # pps) p havekids addr s =
     (if p_parent (procs s pp) = Some p then
        (if p_state (procs s pp) = ZOMBIE then
           let pid = p_pid (procs s pp)
           in andthen
                (if addr \<noteq> 0
                 then copyout (cur_pagetable s) (p_pagetable (procs s p)) addr
                        (word_le 4 (word_of_int (p_xstate (procs s pp)) :: u32)) s
                 else Ok 0 s) (\<lambda>r s.
              if r < 0 then Ok (- 1) s
              else andthen (freeproc pp s) (\<lambda>_ s. Ok pid s))
         else wait_loop pps p True addr s)
      else wait_loop pps p havekids addr s)"

definition wait :: "u64 \<Rightarrow> 'a kproc_scheme \<Rightarrow> ('a kproc_scheme, int) res" where
  "wait addr s = andthen (myproc s) (\<lambda>p s. wait_loop [0..<NPROC] p False addr s)"

section \<open>Copies to and from the current process\<close>

text \<open>
  A destination or source of a copy: a user address, a kernel address, or a C variable of the
  calling function, given by its bytes.
\<close>

datatype kdst = Udst u64 | Kdst u64 | Bdst "u8 list"
datatype ksrc = Usrc u64 | Ksrc u64 | Bsrc "u8 list"

fun kdst_add :: "kdst \<Rightarrow> nat \<Rightarrow> kdst" where
  "kdst_add (Udst a) n = Udst (a + of_nat n)"
| "kdst_add (Kdst a) n = Kdst (a + of_nat n)"
| "kdst_add (Bdst bs) n = Bdst bs"

fun ksrc_add :: "ksrc \<Rightarrow> nat \<Rightarrow> ksrc" where
  "ksrc_add (Usrc a) n = Usrc (a + of_nat n)"
| "ksrc_add (Ksrc a) n = Ksrc (a + of_nat n)"
| "ksrc_add (Bsrc bs) n = Bsrc (drop n bs)"

text \<open>\<^verbatim>\<open>either_copyout\<close> returns the status and the destination, to which a variable has the bytes added;
  \<^verbatim>\<open>either_copyin\<close> returns the status and the bytes stored.\<close>

fun either_copyout :: "kdst \<Rightarrow> u8 list \<Rightarrow> 'a kproc_scheme \<Rightarrow> ('a kproc_scheme, int \<times> kdst) res" where
  "either_copyout (Udst a) src s =
     andthen (myproc s) (\<lambda>p s.
     andthen (copyout (cur_pagetable s) (p_pagetable (procs s p)) a src s) (\<lambda>r s. Ok (r, Udst a) s))"
| "either_copyout (Kdst a) src s = Ok (0, Kdst a) (s\<lparr>mem := put_bytes (mem s) a src\<rparr>)"
| "either_copyout (Bdst bs) src s = Ok (0, Bdst (bs @ src)) s"

fun either_copyin :: "ksrc \<Rightarrow> nat \<Rightarrow> 'a kproc_scheme \<Rightarrow> ('a kproc_scheme, int \<times> u8 list) res" where
  "either_copyin (Usrc a) len s =
     andthen (myproc s) (\<lambda>p s. copyin (p_pagetable (procs s p)) a len s)"
| "either_copyin (Ksrc a) len s = Ok (0, mem_bytes (mem s) a len) s"
| "either_copyin (Bsrc bs) len s = Ok (0, take len bs) s"

section \<open>Listing\<close>

fun state_name :: "procstate \<Rightarrow> string" where
  "state_name UNUSED = ''unused''"
| "state_name USED = ''used''"
| "state_name SLEEPING = ''sleep ''"
| "state_name RUNNABLE = ''runble''"
| "state_name RUNNING = ''run   ''"
| "state_name ZOMBIE = ''zombie''"

definition name_string :: "u8 list \<Rightarrow> string" where
  "name_string bs = map (\<lambda>b. char_of (unat b)) (takeWhile (\<lambda>b. b \<noteq> 0) bs)"

definition procdump :: "'a kproc_scheme \<Rightarrow> ('a kproc_scheme, unit) res" where
  "procdump s =
     andthen (kprintf [CHR 0x0A] [] s) (\<lambda>_ s.
     for_each [0..<NPROC]
       (\<lambda>p s. if p_state (procs s p) = UNUSED then Ok () s
         else
           andthen (kprintf ''%d %s %s''
             [Num (word_of_int (p_pid (procs s p))), Str (Some (state_name (p_state (procs s p)))),
              Str (Some (name_string (p_name (procs s p))))] s) (\<lambda>_ s.
           kprintf [CHR 0x0A] [] s)) s)"


section \<open>Wakeup in closed form\<close>

text \<open>The loop of \<^verbatim>\<open>wakeup\<close> changes the states of the processes asleep on the channel and nothing else.\<close>

definition woken :: "chan \<Rightarrow> 'a kproc_scheme \<Rightarrow> nat \<Rightarrow> proc" where
  "woken c s = (\<lambda>p. if p < NPROC \<and> Some p \<noteq> curproc s then wakeup_proc c (procs s p) else procs s p)"

lemma wakeup_fold:
  "fold (\<lambda>p s. if Some p \<noteq> curproc s then upd_proc p (wakeup_proc c) s else s) [0..<n] s =
   s\<lparr>procs := (\<lambda>p. if p < n \<and> Some p \<noteq> curproc s then wakeup_proc c (procs s p) else procs s p)\<rparr>"
proof (induction n)
  case (Suc n)
  show ?case
    unfolding upt_Suc_append [OF le0] fold_append comp_def Suc.IH
    by (simp add: upd_proc_def fun_eq_iff less_Suc_eq)
qed simp

lemma wakeup_eq: "wakeup c s = s\<lparr>procs := woken c s\<rparr>"
  unfolding wakeup_def woken_def by (rule wakeup_fold)

end
