(* ===== verification/Bio.thy ===== *)
theory Bio
  imports Proc
begin

text \<open>
  Sleep locks (\<^verbatim>\<open>kernel/sleeplock.c\<close>) and the buffer cache (\<^verbatim>\<open>kernel/bio.c\<close>). A sleep lock is reached
  through a reference: its channel, and how to read and write it in the state. The cache is an
  array of buffers linked by their \<^verbatim>\<open>prev\<close> and \<^verbatim>\<open>next\<close> indices in a ring through the list head, which has
  index \<open>BHEAD\<close>. The disk is a function from block numbers to blocks; \<open>disk_rw\<close> is the contract of
  \<^verbatim>\<open>virtio_disk_rw\<close>, and \<open>disk_log\<close> remembers the block writes in order, so that a crash can be
  described as the disk after a prefix of them.
\<close>

section \<open>Sleep locks\<close>

record sleeplock =
  sl_locked :: bool
  sl_pid :: int

record 's slref =
  slr_chan :: chan
  slr_get :: "'s \<Rightarrow> sleeplock"
  slr_put :: "sleeplock \<Rightarrow> 's \<Rightarrow> 's"

definition initsleeplock :: "'s slref \<Rightarrow> 's \<Rightarrow> 's" where
  "initsleeplock lk s = slr_put lk \<lparr>sl_locked = False, sl_pid = 0\<rparr> s"

definition acquiresleep :: "'a kproc_scheme slref \<Rightarrow> 'a kproc_scheme \<Rightarrow> ('a kproc_scheme, unit) res" where
  "acquiresleep lk s =
     (if sl_locked (slr_get lk s) then sleep (slr_chan lk) s
      else andthen (myproc s) (\<lambda>p s.
        Ok () (slr_put lk \<lparr>sl_locked = True, sl_pid = p_pid (procs s p)\<rparr> s)))"

definition releasesleep :: "'a kproc_scheme slref \<Rightarrow> 'a kproc_scheme \<Rightarrow> 'a kproc_scheme" where
  "releasesleep lk s = wakeup (slr_chan lk) (slr_put lk \<lparr>sl_locked = False, sl_pid = 0\<rparr> s)"

definition holdingsleep :: "'a kproc_scheme slref \<Rightarrow> 'a kproc_scheme \<Rightarrow> ('a kproc_scheme, bool) res" where
  "holdingsleep lk s =
     (if sl_locked (slr_get lk s)
      then andthen (myproc s) (\<lambda>p s. Ok (sl_pid (slr_get lk s) = p_pid (procs s p)) s)
      else Ok False s)"

section \<open>Buffers\<close>

definition BSIZE :: nat where "BSIZE = 1024"
definition MAXOPBLOCKS :: int where "MAXOPBLOCKS = 10"
definition NBUF :: nat where "NBUF = nat MAXOPBLOCKS * 3"

definition BHEAD :: nat where
  "BHEAD = NBUF"

record buf =
  b_valid :: bool
  b_disk :: bool
  b_dev :: u32
  b_blockno :: u32
  b_lock :: sleeplock
  b_refcnt :: u32
  b_prev :: nat
  b_next :: nat
  b_data :: "u8 list"

record kbio = kproc +
  bufs :: "nat \<Rightarrow> buf"
  disk :: "u32 \<Rightarrow> u8 list"
  disk_log :: "(u32 \<times> u8 list) list"

definition upd_buf :: "nat \<Rightarrow> (buf \<Rightarrow> buf) \<Rightarrow> 'a kbio_scheme \<Rightarrow> 'a kbio_scheme" where
  "upd_buf b f s = s\<lparr>bufs := (bufs s)(b := f (bufs s b))\<rparr>"

definition buf_lock :: "nat \<Rightarrow> 'a kbio_scheme slref" where
  "buf_lock b =
     \<lparr>slr_chan = Chan_buf_lock b, slr_get = (\<lambda>s. b_lock (bufs s b)),
      slr_put = (\<lambda>l. upd_buf b (\<lambda>x. x\<lparr>b_lock := l\<rparr>))\<rparr>"

text \<open>The contract of the disk driver: a completed transfer between a buffer and its block.\<close>

definition disk_rw :: "nat \<Rightarrow> bool \<Rightarrow> 'a kbio_scheme \<Rightarrow> 'a kbio_scheme" where
  "disk_rw b write s =
     (let blockno = b_blockno (bufs s b)
      in if write
         then s\<lparr>disk := (disk s)(blockno := b_data (bufs s b)),
                disk_log := disk_log s @ [(blockno, b_data (bufs s b))]\<rparr>
         else upd_buf b (\<lambda>x. x\<lparr>b_data := disk s blockno\<rparr>) s)"

text \<open>Inserting \<^verbatim>\<open>b\<close> after the list head, as at the end of \<^verbatim>\<open>binit\<close>'s and \<^verbatim>\<open>brelse\<close>'s list updates.\<close>

definition link_front :: "nat \<Rightarrow> 'a kbio_scheme \<Rightarrow> 'a kbio_scheme" where
  "link_front b s =
     (let s = upd_buf b (\<lambda>x. x\<lparr>b_next := b_next (bufs s BHEAD)\<rparr>) s;
          s = upd_buf b (\<lambda>x. x\<lparr>b_prev := BHEAD\<rparr>) s;
          s = upd_buf (b_next (bufs s BHEAD)) (\<lambda>x. x\<lparr>b_prev := b\<rparr>) s
      in upd_buf BHEAD (\<lambda>x. x\<lparr>b_next := b\<rparr>) s)"

definition binit :: "'a kbio_scheme \<Rightarrow> 'a kbio_scheme" where
  "binit s =
     fold (\<lambda>b s. link_front b (initsleeplock (buf_lock b) s)) [0..<NBUF]
       (upd_buf BHEAD (\<lambda>x. x\<lparr>b_prev := BHEAD, b_next := BHEAD\<rparr>) s)"

text \<open>The two searches of \<^verbatim>\<open>bget\<close> along the list. The first argument bounds the steps; the list has
  \<open>NBUF\<close> buffers and the head, so \<open>Suc NBUF\<close> is enough.\<close>

fun bget_cached ::
  "nat \<Rightarrow> nat \<Rightarrow> u32 \<Rightarrow> u32 \<Rightarrow> 'a kbio_scheme \<Rightarrow> ('a kbio_scheme, nat option) res" where
  "bget_cached 0 b dev blockno s = Fault ''bget: list''"
| "bget_cached (Suc k) b dev blockno s =
     (if b = BHEAD then Ok None s
      else if b_dev (bufs s b) = dev \<and> b_blockno (bufs s b) = blockno then Ok (Some b) s
      else bget_cached k (b_next (bufs s b)) dev blockno s)"

fun bget_lru :: "nat \<Rightarrow> nat \<Rightarrow> 'a kbio_scheme \<Rightarrow> ('a kbio_scheme, nat option) res" where
  "bget_lru 0 b s = Fault ''bget: list''"
| "bget_lru (Suc k) b s =
     (if b = BHEAD then Ok None s
      else if b_refcnt (bufs s b) = 0 then Ok (Some b) s
      else bget_lru k (b_prev (bufs s b)) s)"

definition bget :: "u32 \<Rightarrow> u32 \<Rightarrow> 'a kbio_scheme \<Rightarrow> ('a kbio_scheme, nat) res" where
  "bget dev blockno s =
     andthen (bget_cached (Suc NBUF) (b_next (bufs s BHEAD)) dev blockno s) (\<lambda>r s.
       case r of
         Some b \<Rightarrow>
           andthen (acquiresleep (buf_lock b) (upd_buf b (\<lambda>x. x\<lparr>b_refcnt := b_refcnt x + 1\<rparr>) s)) (\<lambda>_ s. Ok b s)
       | None \<Rightarrow>
           andthen (bget_lru (Suc NBUF) (b_prev (bufs s BHEAD)) s) (\<lambda>r s.
             case r of
               Some b \<Rightarrow>
                 andthen (acquiresleep (buf_lock b)
                   (upd_buf b (\<lambda>x. x\<lparr>b_dev := dev, b_blockno := blockno, b_valid := False, b_refcnt := 1\<rparr>) s))
                   (\<lambda>_ s. Ok b s)
             | None \<Rightarrow> Panic ''bget: no buffers''))"

definition bread :: "u32 \<Rightarrow> u32 \<Rightarrow> 'a kbio_scheme \<Rightarrow> ('a kbio_scheme, nat) res" where
  "bread dev blockno s =
     andthen (bget dev blockno s) (\<lambda>b s.
       if \<not> b_valid (bufs s b) then Ok b (upd_buf b (\<lambda>x. x\<lparr>b_valid := True\<rparr>) (disk_rw b False s))
       else Ok b s)"

definition bwrite :: "nat \<Rightarrow> 'a kbio_scheme \<Rightarrow> ('a kbio_scheme, unit) res" where
  "bwrite b s =
     andthen (holdingsleep (buf_lock b) s) (\<lambda>h s.
       if \<not> h then Panic ''bwrite'' else Ok () (disk_rw b True s))"

definition brelse :: "nat \<Rightarrow> 'a kbio_scheme \<Rightarrow> ('a kbio_scheme, unit) res" where
  "brelse b s =
     andthen (holdingsleep (buf_lock b) s) (\<lambda>h s.
       if \<not> h then Panic ''brelse''
       else
         let s = releasesleep (buf_lock b) s;
             s = upd_buf b (\<lambda>x. x\<lparr>b_refcnt := b_refcnt x - 1\<rparr>) s
         in if b_refcnt (bufs s b) = 0 then
              let s = upd_buf (b_next (bufs s b)) (\<lambda>x. x\<lparr>b_prev := b_prev (bufs s b)\<rparr>) s;
                  s = upd_buf (b_prev (bufs s b)) (\<lambda>x. x\<lparr>b_next := b_next (bufs s b)\<rparr>) s
              in Ok () (link_front b s)
            else Ok () s)"

definition bpin :: "nat \<Rightarrow> 'a kbio_scheme \<Rightarrow> 'a kbio_scheme" where
  "bpin b s = upd_buf b (\<lambda>x. x\<lparr>b_refcnt := b_refcnt x + 1\<rparr>) s"

definition bunpin :: "nat \<Rightarrow> 'a kbio_scheme \<Rightarrow> 'a kbio_scheme" where
  "bunpin b s = upd_buf b (\<lambda>x. x\<lparr>b_refcnt := b_refcnt x - 1\<rparr>) s"

end
