(* ===== verification/Log.thy ===== *)
theory Log
  imports Bio
begin

text \<open>
  The write-ahead log of \<^verbatim>\<open>kernel/log.c\<close>: system calls reserve room with \<^verbatim>\<open>begin_op\<close>, record the blocks
  they modify with \<^verbatim>\<open>log_write\<close>, and the last \<^verbatim>\<open>end_op\<close> commits the group by writing the blocks to the log,
  then the header, then the blocks to their homes, then an empty header. \<^verbatim>\<open>initlog\<close> repeats the
  installation after a crash. \<^verbatim>\<open>struct logheader\<close> is the pair of fields \<open>lh_n\<close> and \<open>lh_block\<close>.
\<close>

definition LOGSIZE :: int where "LOGSIZE = MAXOPBLOCKS * 3"

record klog = kbio +
  log_start :: u32
  log_size :: int
  log_outstanding :: int
  log_committing :: bool
  log_dev :: u32
  lh_n :: int
  lh_block :: "nat \<Rightarrow> u32"

text \<open>Byte \<open>off\<close> of a block and the following ones, as an update of its bytes, and an element of an array
  of 32-bit integers in it.\<close>

definition blk_put :: "u8 list \<Rightarrow> nat \<Rightarrow> u8 list \<Rightarrow> u8 list" where
  "blk_put d off bs = take off d @ bs @ drop (off + length bs) d"

definition blk_get :: "u8 list \<Rightarrow> nat \<Rightarrow> nat \<Rightarrow> u8 list" where
  "blk_get d off n = take n (drop off d)"

definition blk_u32 :: "u8 list \<Rightarrow> nat \<Rightarrow> u32" where
  "blk_u32 d i = le_word (blk_get d (4 * i) 4)"

definition blk_set_u32 :: "u8 list \<Rightarrow> nat \<Rightarrow> u32 \<Rightarrow> u8 list" where
  "blk_set_u32 d i v = blk_put d (4 * i) (word_le 4 v)"

definition set_data :: "nat \<Rightarrow> u8 list \<Rightarrow> 'a kbio_scheme \<Rightarrow> 'a kbio_scheme" where
  "set_data b d s = upd_buf b (\<lambda>x. x\<lparr>b_data := d\<rparr>) s"

definition install_step :: "bool \<Rightarrow> nat \<Rightarrow> 'a klog_scheme \<Rightarrow> ('a klog_scheme, unit) res" where
  "install_step recovering tail s =
     andthen (bread (log_dev s) (log_start s + of_nat tail + 1) s) (\<lambda>lbuf s.
     andthen (bread (log_dev s) (lh_block s tail) s) (\<lambda>dbuf s.
     let s = set_data dbuf (b_data (bufs s lbuf)) s
     in andthen (bwrite dbuf s) (\<lambda>_ s.
        let s = (if \<not> recovering then bunpin dbuf s else s)
        in andthen (brelse lbuf s) (\<lambda>_ s. brelse dbuf s))))"

definition install_trans :: "bool \<Rightarrow> 'a klog_scheme \<Rightarrow> ('a klog_scheme, unit) res" where
  "install_trans recovering s = for_each [0..<nat (lh_n s)] (install_step recovering) s"

definition read_head :: "'a klog_scheme \<Rightarrow> ('a klog_scheme, unit) res" where
  "read_head s =
     andthen (bread (log_dev s) (log_start s) s) (\<lambda>b s.
     let d = b_data (bufs s b);
         n = sint (blk_u32 d 0)
     in if n > LOGSIZE then Fault ''read_head: index''
        else
          let s = s\<lparr>lh_n := n,
                    lh_block := (\<lambda>i. if i < nat n then blk_u32 d (Suc i) else lh_block s i)\<rparr>
          in brelse b s)"

definition write_head :: "'a klog_scheme \<Rightarrow> ('a klog_scheme, unit) res" where
  "write_head s =
     andthen (bread (log_dev s) (log_start s) s) (\<lambda>b s.
     let d = blk_set_u32 (b_data (bufs s b)) 0 (word_of_int (lh_n s));
         d = fold (\<lambda>i d. blk_set_u32 d (Suc i) (lh_block s i)) [0..<nat (lh_n s)] d;
         s = set_data b d s
     in andthen (bwrite b s) (\<lambda>_ s. brelse b s))"

definition recover_from_log :: "'a klog_scheme \<Rightarrow> ('a klog_scheme, unit) res" where
  "recover_from_log s =
     andthen (read_head s) (\<lambda>_ s.
     andthen (install_trans True s) (\<lambda>_ s.
     write_head (s\<lparr>lh_n := 0\<rparr>)))"

text \<open>\<^verbatim>\<open>initlog\<close>; the size of the log header is 124 bytes. The superblock fields are passed on their own.\<close>

definition initlog :: "u32 \<Rightarrow> u32 \<Rightarrow> u32 \<Rightarrow> 'a klog_scheme \<Rightarrow> ('a klog_scheme, unit) res" where
  "initlog dev logstart nlog s =
     (if 4 + 4 * LOGSIZE \<ge> int BSIZE then Panic ''initlog: too big logheader''
      else recover_from_log (s\<lparr>log_start := logstart, log_size := sint nlog, log_dev := dev\<rparr>))"

definition begin_op :: "'a klog_scheme \<Rightarrow> ('a klog_scheme, unit) res" where
  "begin_op s =
     (if log_committing s then sleep Chan_log s
      else if lh_n s + (log_outstanding s + 1) * MAXOPBLOCKS > LOGSIZE then sleep Chan_log s
      else Ok () (s\<lparr>log_outstanding := log_outstanding s + 1\<rparr>))"

definition write_log_step :: "nat \<Rightarrow> 'a klog_scheme \<Rightarrow> ('a klog_scheme, unit) res" where
  "write_log_step tail s =
     andthen (bread (log_dev s) (log_start s + of_nat tail + 1) s) (\<lambda>to s.
     andthen (bread (log_dev s) (lh_block s tail) s) (\<lambda>from s.
     let s = set_data to (b_data (bufs s from)) s
     in andthen (bwrite to s) (\<lambda>_ s.
        andthen (brelse from s) (\<lambda>_ s. brelse to s))))"

definition write_log :: "'a klog_scheme \<Rightarrow> ('a klog_scheme, unit) res" where
  "write_log s = for_each [0..<nat (lh_n s)] write_log_step s"

definition commit :: "'a klog_scheme \<Rightarrow> ('a klog_scheme, unit) res" where
  "commit s =
     (if lh_n s > 0 then
        andthen (write_log s) (\<lambda>_ s.
        andthen (write_head s) (\<lambda>_ s.
        andthen (install_trans False s) (\<lambda>_ s.
        write_head (s\<lparr>lh_n := 0\<rparr>))))
      else Ok () s)"

definition end_op :: "'a klog_scheme \<Rightarrow> ('a klog_scheme, unit) res" where
  "end_op s =
     (let s = s\<lparr>log_outstanding := log_outstanding s - 1\<rparr>
      in if log_committing s then Panic ''log.committing''
         else if log_outstanding s = 0 then
           andthen (commit (s\<lparr>log_committing := True\<rparr>)) (\<lambda>_ s.
             Ok () (wakeup Chan_log (s\<lparr>log_committing := False\<rparr>)))
         else Ok () (wakeup Chan_log s))"

definition log_write :: "nat \<Rightarrow> 'a klog_scheme \<Rightarrow> ('a klog_scheme, unit) res" where
  "log_write b s =
     (if lh_n s \<ge> LOGSIZE \<or> lh_n s \<ge> log_size s - 1 then Panic ''too big a transaction''
      else if log_outstanding s < 1 then Panic ''log_write outside of trans''
      else
        let blockno = b_blockno (bufs s b)
        in (case List.find (\<lambda>i. lh_block s i = blockno) [0..<nat (lh_n s)] of
              Some i \<Rightarrow> Ok () (s\<lparr>lh_block := (lh_block s)(i := blockno)\<rparr>)
            | None \<Rightarrow>
                let s = bpin b (s\<lparr>lh_block := (lh_block s)(nat (lh_n s) := blockno)\<rparr>)
                in Ok () (s\<lparr>lh_n := lh_n s + 1\<rparr>)))"

end
