(* ===== verification/Fs.thy ===== *)
theory Fs
  imports Log
begin

text \<open>
  The file system of \<^verbatim>\<open>kernel/fs.c\<close>: the block allocator on the free bitmap, the inode table with its
  reference counts and locks, the map from file offsets to blocks, reading and writing file
  contents, directories, and path names. An inode is its index in the table. Block contents are
  byte lists and on-disk structures are decoded from them. Loops over file offsets use natural
  numbers; the wrap-around tests of the C code come before them and are made on 32-bit words.
\<close>

section \<open>On-disk format\<close>

definition ROOTDEV :: u32 where "ROOTDEV = 1"
definition ROOTINO :: u32 where "ROOTINO = 1"
definition FSMAGIC :: u32 where "FSMAGIC = 0x10203040"
definition NDIRECT :: nat where "NDIRECT = 12"
definition NINDIRECT :: nat where "NINDIRECT = BSIZE div 4"
definition MAXFILE :: nat where "MAXFILE = NDIRECT + NINDIRECT"
definition IPB :: nat where "IPB = BSIZE div 64"
definition BPB :: nat where "BPB = BSIZE * 8"
definition DIRSIZ :: nat where "DIRSIZ = 14"
definition NINODE :: nat where "NINODE = 50"
definition T_DIR :: u16 where "T_DIR = 1"
definition T_FILE :: u16 where "T_FILE = 2"
definition T_DEVICE :: u16 where "T_DEVICE = 3"

record superblock =
  sb_magic :: u32
  sb_size :: u32
  sb_nblocks :: u32
  sb_ninodes :: u32
  sb_nlog :: u32
  sb_logstart :: u32
  sb_inodestart :: u32
  sb_bmapstart :: u32

definition superblock_of :: "u8 list \<Rightarrow> superblock" where
  "superblock_of d =
     \<lparr>sb_magic = blk_u32 d 0, sb_size = blk_u32 d 1, sb_nblocks = blk_u32 d 2, sb_ninodes = blk_u32 d 3,
      sb_nlog = blk_u32 d 4, sb_logstart = blk_u32 d 5, sb_inodestart = blk_u32 d 6, sb_bmapstart = blk_u32 d 7\<rparr>"

record dinode =
  d_type :: u16
  d_major :: u16
  d_minor :: u16
  d_nlink :: u16
  d_size :: u32
  d_addrs :: "u32 list"

definition dinode_of :: "u8 list \<Rightarrow> dinode" where
  "dinode_of bs =
     \<lparr>d_type = le_word (blk_get bs 0 2), d_major = le_word (blk_get bs 2 2), d_minor = le_word (blk_get bs 4 2),
      d_nlink = le_word (blk_get bs 6 2), d_size = le_word (blk_get bs 8 4),
      d_addrs = map (\<lambda>i. le_word (blk_get bs (12 + 4 * i) 4)) [0..<Suc NDIRECT]\<rparr>"

definition dinode_bytes :: "dinode \<Rightarrow> u8 list" where
  "dinode_bytes d =
     word_le 2 (d_type d) @ word_le 2 (d_major d) @ word_le 2 (d_minor d) @ word_le 2 (d_nlink d) @
     word_le 4 (d_size d) @ concat (map (word_le 4) (d_addrs d))"

definition IBLOCK :: "u32 \<Rightarrow> superblock \<Rightarrow> u32" where
  "IBLOCK i sb = i div of_nat IPB + sb_inodestart sb"

definition BBLOCK :: "u32 \<Rightarrow> superblock \<Rightarrow> u32" where
  "BBLOCK b sb = b div of_nat BPB + sb_bmapstart sb"

section \<open>State\<close>

record inode =
  i_dev :: u32
  i_inum :: u32
  i_ref :: int
  i_lock :: sleeplock
  i_valid :: bool
  i_type :: u16
  i_major :: u16
  i_minor :: u16
  i_nlink :: u16
  i_size :: u32
  i_addrs :: "u32 list"

record kfs = klog +
  sb :: superblock
  itable :: "nat \<Rightarrow> inode"

definition upd_inode :: "nat \<Rightarrow> (inode \<Rightarrow> inode) \<Rightarrow> 'a kfs_scheme \<Rightarrow> 'a kfs_scheme" where
  "upd_inode ip f s = s\<lparr>itable := (itable s)(ip := f (itable s ip))\<rparr>"

definition inode_lock :: "nat \<Rightarrow> 'a kfs_scheme slref" where
  "inode_lock ip =
     \<lparr>slr_chan = Chan_inode_lock ip, slr_get = (\<lambda>s. i_lock (itable s ip)),
      slr_put = (\<lambda>l. upd_inode ip (\<lambda>x. x\<lparr>i_lock := l\<rparr>))\<rparr>"

section \<open>Blocks\<close>

definition readsb :: "u32 \<Rightarrow> 'a kfs_scheme \<Rightarrow> ('a kfs_scheme, unit) res" where
  "readsb dev s =
     andthen (bread dev 1 s) (\<lambda>bp s. brelse bp (s\<lparr>sb := superblock_of (b_data (bufs s bp))\<rparr>))"

definition fsinit :: "u32 \<Rightarrow> 'a kfs_scheme \<Rightarrow> ('a kfs_scheme, unit) res" where
  "fsinit dev s =
     andthen (readsb dev s) (\<lambda>_ s.
       if sb_magic (sb s) \<noteq> FSMAGIC then Panic ''invalid file system''
       else initlog dev (sb_logstart (sb s)) (sb_nlog (sb s)) s)"

definition bzero :: "u32 \<Rightarrow> u32 \<Rightarrow> 'a kfs_scheme \<Rightarrow> ('a kfs_scheme, unit) res" where
  "bzero dev bno s =
     andthen (bread dev bno s) (\<lambda>bp s.
     andthen (log_write bp (set_data bp (replicate BSIZE 0) s)) (\<lambda>_ s.
     brelse bp s))"

text \<open>Bit \<open>bi\<close> of a bitmap block.\<close>

definition bm_used :: "u8 list \<Rightarrow> nat \<Rightarrow> bool" where
  "bm_used d bi \<longleftrightarrow> d ! (bi div 8) AND push_bit (bi mod 8) 1 \<noteq> 0"

definition bm_set :: "u8 list \<Rightarrow> nat \<Rightarrow> u8 list" where
  "bm_set d bi = d[bi div 8 := d ! (bi div 8) OR push_bit (bi mod 8) 1]"

definition bm_clear :: "u8 list \<Rightarrow> nat \<Rightarrow> u8 list" where
  "bm_clear d bi = d[bi div 8 := d ! (bi div 8) AND NOT (push_bit (bi mod 8) 1)]"

function balloc_loop :: "u32 \<Rightarrow> nat \<Rightarrow> nat \<Rightarrow> 'a kfs_scheme \<Rightarrow> ('a kfs_scheme, u32) res" where
  "balloc_loop dev nblk b s =
     (if b < nblk then
        andthen (bread dev (BBLOCK (of_nat b) (sb s)) s) (\<lambda>bp s.
          case List.find (\<lambda>bi. b + bi < nblk \<and> \<not> bm_used (b_data (bufs s bp)) bi) [0..<BPB] of
            Some bi \<Rightarrow>
              andthen (log_write bp (set_data bp (bm_set (b_data (bufs s bp)) bi) s)) (\<lambda>_ s.
              andthen (brelse bp s) (\<lambda>_ s.
              andthen (bzero dev (of_nat (b + bi)) s) (\<lambda>_ s. Ok (of_nat (b + bi)) s)))
          | None \<Rightarrow> andthen (brelse bp s) (\<lambda>_ s. balloc_loop dev nblk (b + BPB) s))
      else andthen (kprintf (''balloc: out of blocks'' @ [CHR 0x0A]) [] s) (\<lambda>_ s. Ok 0 s))"
  by (pat_completeness, simp)
termination
  by (relation "measure (\<lambda>(dev, nblk, b, s). nblk - b)") (simp_all add: BPB_def BSIZE_def)

declare balloc_loop.simps [simp del]

definition balloc :: "u32 \<Rightarrow> 'a kfs_scheme \<Rightarrow> ('a kfs_scheme, u32) res" where
  "balloc dev s = balloc_loop dev (unat (sb_size (sb s))) 0 s"

definition bfree :: "u32 \<Rightarrow> u32 \<Rightarrow> 'a kfs_scheme \<Rightarrow> ('a kfs_scheme, unit) res" where
  "bfree dev b s =
     andthen (bread dev (BBLOCK b (sb s)) s) (\<lambda>bp s.
     let bi = unat b mod BPB; d = b_data (bufs s bp)
     in if \<not> bm_used d bi then Panic ''freeing free block''
        else andthen (log_write bp (set_data bp (bm_clear d bi) s)) (\<lambda>_ s. brelse bp s))"

section \<open>Inodes\<close>

definition iinit :: "'a kfs_scheme \<Rightarrow> 'a kfs_scheme" where
  "iinit s = fold (\<lambda>i s. initsleeplock (inode_lock i) s) [0..<NINODE] s"

definition iget :: "u32 \<Rightarrow> u32 \<Rightarrow> 'a kfs_scheme \<Rightarrow> ('a kfs_scheme, nat) res" where
  "iget dev inum s =
     (case List.find (\<lambda>ip. i_ref (itable s ip) > 0 \<and> i_dev (itable s ip) = dev \<and> i_inum (itable s ip) = inum)
        [0..<NINODE] of
        Some ip \<Rightarrow> Ok ip (upd_inode ip (\<lambda>x. x\<lparr>i_ref := i_ref x + 1\<rparr>) s)
      | None \<Rightarrow>
          (case List.find (\<lambda>ip. i_ref (itable s ip) = 0) [0..<NINODE] of
             None \<Rightarrow> Panic ''iget: no inodes''
           | Some ip \<Rightarrow>
               Ok ip (upd_inode ip (\<lambda>x. x\<lparr>i_dev := dev, i_inum := inum, i_ref := 1, i_valid := False\<rparr>) s)))"

text \<open>The inode of number \<open>inum\<close> in its block.\<close>

definition dip_off :: "u32 \<Rightarrow> nat" where
  "dip_off inum = 64 * (unat inum mod IPB)"

function ialloc_loop :: "u32 \<Rightarrow> u16 \<Rightarrow> nat \<Rightarrow> nat \<Rightarrow> 'a kfs_scheme \<Rightarrow> ('a kfs_scheme, nat option) res" where
  "ialloc_loop dev type ninodes inum s =
     (if inum < ninodes then
        andthen (bread dev (IBLOCK (of_nat inum) (sb s)) s) (\<lambda>bp s.
        let d = b_data (bufs s bp); off = dip_off (of_nat inum)
        in if d_type (dinode_of (blk_get d off 64)) = 0 then
             let d = blk_put d off (replicate 64 0); d = blk_put d off (word_le 2 type)
             in andthen (log_write bp (set_data bp d s)) (\<lambda>_ s.
                andthen (brelse bp s) (\<lambda>_ s.
                andthen (iget dev (of_nat inum) s) (\<lambda>ip s. Ok (Some ip) s)))
           else andthen (brelse bp s) (\<lambda>_ s. ialloc_loop dev type ninodes (Suc inum) s))
      else andthen (kprintf (''ialloc: no inodes'' @ [CHR 0x0A]) [] s) (\<lambda>_ s. Ok None s))"
  by (pat_completeness, simp)
termination
  by (relation "measure (\<lambda>(dev, type, ninodes, inum, s). ninodes - inum)") simp_all

declare ialloc_loop.simps [simp del]

definition ialloc :: "u32 \<Rightarrow> u16 \<Rightarrow> 'a kfs_scheme \<Rightarrow> ('a kfs_scheme, nat option) res" where
  "ialloc dev type s = ialloc_loop dev type (unat (sb_ninodes (sb s))) 1 s"

definition dinode_of_inode :: "inode \<Rightarrow> dinode" where
  "dinode_of_inode x =
     \<lparr>d_type = i_type x, d_major = i_major x, d_minor = i_minor x, d_nlink = i_nlink x, d_size = i_size x,
      d_addrs = i_addrs x\<rparr>"

definition iupdate :: "nat \<Rightarrow> 'a kfs_scheme \<Rightarrow> ('a kfs_scheme, unit) res" where
  "iupdate ip s =
     andthen (bread (i_dev (itable s ip)) (IBLOCK (i_inum (itable s ip)) (sb s)) s) (\<lambda>bp s.
     let d = blk_put (b_data (bufs s bp)) (dip_off (i_inum (itable s ip)))
               (dinode_bytes (dinode_of_inode (itable s ip)))
     in andthen (log_write bp (set_data bp d s)) (\<lambda>_ s. brelse bp s))"

definition idup :: "nat \<Rightarrow> 'a kfs_scheme \<Rightarrow> 'a kfs_scheme" where
  "idup ip s = upd_inode ip (\<lambda>x. x\<lparr>i_ref := i_ref x + 1\<rparr>) s"

definition ilock :: "nat \<Rightarrow> 'a kfs_scheme \<Rightarrow> ('a kfs_scheme, unit) res" where
  "ilock ip s =
     (if i_ref (itable s ip) < 1 then Panic ''ilock''
      else
        andthen (acquiresleep (inode_lock ip) s) (\<lambda>_ s.
          if \<not> i_valid (itable s ip) then
            andthen (bread (i_dev (itable s ip)) (IBLOCK (i_inum (itable s ip)) (sb s)) s) (\<lambda>bp s.
            let d = dinode_of (blk_get (b_data (bufs s bp)) (dip_off (i_inum (itable s ip))) 64);
                s = upd_inode ip (\<lambda>x. x\<lparr>i_type := d_type d, i_major := d_major d, i_minor := d_minor d,
                      i_nlink := d_nlink d, i_size := d_size d, i_addrs := d_addrs d\<rparr>) s
            in andthen (brelse bp s) (\<lambda>_ s.
               let s = upd_inode ip (\<lambda>x. x\<lparr>i_valid := True\<rparr>) s
               in if i_type (itable s ip) = 0 then Panic ''ilock: no type'' else Ok () s))
          else Ok () s))"

definition iunlock :: "nat \<Rightarrow> 'a kfs_scheme \<Rightarrow> ('a kfs_scheme, unit) res" where
  "iunlock ip s =
     andthen (holdingsleep (inode_lock ip) s) (\<lambda>h s.
       if \<not> h \<or> i_ref (itable s ip) < 1 then Panic ''iunlock''
       else Ok () (releasesleep (inode_lock ip) s))"

section \<open>Inode content\<close>

definition bmap :: "nat \<Rightarrow> nat \<Rightarrow> 'a kfs_scheme \<Rightarrow> ('a kfs_scheme, u32) res" where
  "bmap ip bn s =
     (if bn < NDIRECT then
        (if i_addrs (itable s ip) ! bn = 0 then
           andthen (balloc (i_dev (itable s ip)) s) (\<lambda>addr s.
             if addr = 0 then Ok 0 s
             else Ok addr (upd_inode ip (\<lambda>x. x\<lparr>i_addrs := (i_addrs x)[bn := addr]\<rparr>) s))
         else Ok (i_addrs (itable s ip) ! bn) s)
      else
        let bn = bn - NDIRECT
        in if bn < NINDIRECT then
             andthen
               (if i_addrs (itable s ip) ! NDIRECT = 0 then
                  andthen (balloc (i_dev (itable s ip)) s) (\<lambda>addr s.
                    if addr = 0 then Ok 0 s
                    else Ok addr (upd_inode ip (\<lambda>x. x\<lparr>i_addrs := (i_addrs x)[NDIRECT := addr]\<rparr>) s))
                else Ok (i_addrs (itable s ip) ! NDIRECT) s)
               (\<lambda>addr s.
                  if addr = 0 then Ok 0 s
                  else
                    andthen (bread (i_dev (itable s ip)) addr s) (\<lambda>bp s.
                    andthen
                      (if blk_u32 (b_data (bufs s bp)) bn = 0 then
                         andthen (balloc (i_dev (itable s ip)) s) (\<lambda>addr s.
                           if addr \<noteq> 0 then
                             andthen (log_write bp (set_data bp (blk_set_u32 (b_data (bufs s bp)) bn addr) s))
                               (\<lambda>_ s. Ok addr s)
                           else Ok addr s)
                       else Ok (blk_u32 (b_data (bufs s bp)) bn) s)
                      (\<lambda>addr s. andthen (brelse bp s) (\<lambda>_ s. Ok addr s))))
           else Panic ''bmap: out of range'')"

definition itrunc :: "nat \<Rightarrow> 'a kfs_scheme \<Rightarrow> ('a kfs_scheme, unit) res" where
  "itrunc ip s =
     andthen
       (for_each [0..<NDIRECT]
         (\<lambda>i s. if i_addrs (itable s ip) ! i \<noteq> 0 then
             andthen (bfree (i_dev (itable s ip)) (i_addrs (itable s ip) ! i) s) (\<lambda>_ s.
               Ok () (upd_inode ip (\<lambda>x. x\<lparr>i_addrs := (i_addrs x)[i := 0]\<rparr>) s))
           else Ok () s) s)
       (\<lambda>_ s.
          andthen
            (if i_addrs (itable s ip) ! NDIRECT \<noteq> 0 then
               andthen (bread (i_dev (itable s ip)) (i_addrs (itable s ip) ! NDIRECT) s) (\<lambda>bp s.
               andthen
                 (for_each [0..<NINDIRECT]
                   (\<lambda>j s. if blk_u32 (b_data (bufs s bp)) j \<noteq> 0
                      then bfree (i_dev (itable s ip)) (blk_u32 (b_data (bufs s bp)) j) s else Ok () s) s)
                 (\<lambda>_ s.
                    andthen (brelse bp s) (\<lambda>_ s.
                    andthen (bfree (i_dev (itable s ip)) (i_addrs (itable s ip) ! NDIRECT) s) (\<lambda>_ s.
                      Ok () (upd_inode ip (\<lambda>x. x\<lparr>i_addrs := (i_addrs x)[NDIRECT := 0]\<rparr>) s)))))
             else Ok () s)
            (\<lambda>_ s. iupdate ip (upd_inode ip (\<lambda>x. x\<lparr>i_size := 0\<rparr>) s)))"

definition iput :: "nat \<Rightarrow> 'a kfs_scheme \<Rightarrow> ('a kfs_scheme, unit) res" where
  "iput ip s =
     andthen
       (if i_ref (itable s ip) = 1 \<and> i_valid (itable s ip) \<and> i_nlink (itable s ip) = 0 then
          andthen (acquiresleep (inode_lock ip) s) (\<lambda>_ s.
          andthen (itrunc ip s) (\<lambda>_ s.
          andthen (iupdate ip (upd_inode ip (\<lambda>x. x\<lparr>i_type := 0\<rparr>) s)) (\<lambda>_ s.
            Ok () (releasesleep (inode_lock ip) (upd_inode ip (\<lambda>x. x\<lparr>i_valid := False\<rparr>) s)))))
        else Ok () s)
       (\<lambda>_ s. Ok () (upd_inode ip (\<lambda>x. x\<lparr>i_ref := i_ref x - 1\<rparr>) s))"

definition iunlockput :: "nat \<Rightarrow> 'a kfs_scheme \<Rightarrow> ('a kfs_scheme, unit) res" where
  "iunlockput ip s = andthen (iunlock ip s) (\<lambda>_ s. iput ip s)"

record stat =
  st_dev :: u32
  st_ino :: u32
  st_type :: u16
  st_nlink :: u16
  st_size :: u64

definition stati :: "nat \<Rightarrow> 'a kfs_scheme \<Rightarrow> stat" where
  "stati ip s =
     (let x = itable s ip
      in \<lparr>st_dev = i_dev x, st_ino = i_inum x, st_type = i_type x, st_nlink = i_nlink x, st_size = ucast (i_size x)\<rparr>)"

definition blk_chunk :: "nat \<Rightarrow> nat \<Rightarrow> nat" where
  "blk_chunk off n = min n (BSIZE - off mod BSIZE)"

lemma blk_chunk_pos: "0 < n \<Longrightarrow> 0 < blk_chunk off n"
  by (simp add: blk_chunk_def BSIZE_def)

function readi_loop ::
  "nat \<Rightarrow> kdst \<Rightarrow> nat \<Rightarrow> nat \<Rightarrow> nat \<Rightarrow> 'a kfs_scheme \<Rightarrow> ('a kfs_scheme, int \<times> kdst) res" where
  "readi_loop ip dst off n tot s =
     (if tot < n then
        andthen (bmap ip (off div BSIZE) s) (\<lambda>addr s.
          if addr = 0 then Ok (int tot, dst) s
          else
            andthen (bread (i_dev (itable s ip)) addr s) (\<lambda>bp s.
            let m = blk_chunk off (n - tot)
            in andthen (either_copyout dst (blk_get (b_data (bufs s bp)) (off mod BSIZE) m) s) (\<lambda>(r, dst) s.
                 if r = - 1 then andthen (brelse bp s) (\<lambda>_ s. Ok (- 1, dst) s)
                 else andthen (brelse bp s) (\<lambda>_ s. readi_loop ip (kdst_add dst m) (off + m) n (tot + m) s))))
      else Ok (int tot, dst) s)"
  by (pat_completeness, simp)
termination
  by (relation "measure (\<lambda>(ip, dst, off, n, tot, s). n - tot)") (simp_all add: blk_chunk_pos diff_less_mono2)

declare readi_loop.simps [simp del]

definition readi :: "nat \<Rightarrow> kdst \<Rightarrow> u32 \<Rightarrow> u32 \<Rightarrow> 'a kfs_scheme \<Rightarrow> ('a kfs_scheme, int \<times> kdst) res" where
  "readi ip dst off n s =
     (let isz = i_size (itable s ip)
      in if off > isz \<or> off + n < off then Ok (0, dst) s
         else
           let n = (if off + n > isz then isz - off else n)
           in readi_loop ip dst (unat off) (unat n) 0 s)"

function writei_loop ::
  "nat \<Rightarrow> ksrc \<Rightarrow> nat \<Rightarrow> nat \<Rightarrow> nat \<Rightarrow> 'a kfs_scheme \<Rightarrow> ('a kfs_scheme, nat \<times> nat) res" where
  "writei_loop ip src off n tot s =
     (if tot < n then
        andthen (bmap ip (off div BSIZE) s) (\<lambda>addr s.
          if addr = 0 then Ok (tot, off) s
          else
            andthen (bread (i_dev (itable s ip)) addr s) (\<lambda>bp s.
            let m = blk_chunk off (n - tot)
            in andthen (either_copyin src m s) (\<lambda>(r, bs) s.
                 let s = set_data bp (blk_put (b_data (bufs s bp)) (off mod BSIZE) bs) s
                 in if r = - 1 then andthen (brelse bp s) (\<lambda>_ s. Ok (tot, off) s)
                    else
                      andthen (log_write bp s) (\<lambda>_ s.
                      andthen (brelse bp s) (\<lambda>_ s.
                        writei_loop ip (ksrc_add src m) (off + m) n (tot + m) s)))))
      else Ok (tot, off) s)"
  by (pat_completeness, simp)
termination
  by (relation "measure (\<lambda>(ip, src, off, n, tot, s). n - tot)") (simp_all add: blk_chunk_pos diff_less_mono2)

declare writei_loop.simps [simp del]

definition writei :: "nat \<Rightarrow> ksrc \<Rightarrow> u32 \<Rightarrow> u32 \<Rightarrow> 'a kfs_scheme \<Rightarrow> ('a kfs_scheme, int) res" where
  "writei ip src off n s =
     (if off > i_size (itable s ip) \<or> off + n < off then Ok (- 1) s
      else if unat (off + n) > MAXFILE * BSIZE then Ok (- 1) s
      else
        andthen (writei_loop ip src (unat off) (unat n) 0 s) (\<lambda>(tot, off) s.
        let s = (if off > unat (i_size (itable s ip))
                 then upd_inode ip (\<lambda>x. x\<lparr>i_size := of_nat off\<rparr>) s else s)
        in andthen (iupdate ip s) (\<lambda>_ s. Ok (int tot) s)))"

section \<open>Directories\<close>

definition namecmp :: "cstr \<Rightarrow> cstr \<Rightarrow> int" where
  "namecmp a b = strncmp a b (of_nat DIRSIZ)"

text \<open>A directory entry is 16 bytes: the inode number and the name.\<close>

definition de_inum :: "u8 list \<Rightarrow> u16" where
  "de_inum de = le_word (take 2 de)"

definition de_name :: "u8 list \<Rightarrow> u8 list" where
  "de_name de = take DIRSIZ (drop 2 de)"

fun kdst_bytes :: "kdst \<Rightarrow> u8 list" where
  "kdst_bytes (Bdst bs) = bs"
| "kdst_bytes d = []"

text \<open>\<^verbatim>\<open>readi\<close> of one entry into a variable, with the panic of the callers when it is short.\<close>

definition read_de :: "string \<Rightarrow> nat \<Rightarrow> nat \<Rightarrow> 'a kfs_scheme \<Rightarrow> ('a kfs_scheme, u8 list) res" where
  "read_de msg dp off s =
     andthen (readi dp (Bdst []) (of_nat off) 16 s) (\<lambda>(r, d) s.
       if r \<noteq> 16 then Panic msg else Ok (kdst_bytes d) s)"

function dirlookup_loop ::
  "nat \<Rightarrow> cstr \<Rightarrow> nat \<Rightarrow> nat \<Rightarrow> 'a kfs_scheme \<Rightarrow> ('a kfs_scheme, (nat \<times> nat) option) res" where
  "dirlookup_loop dp name dsz off s =
     (if off < dsz then
        andthen (read_de ''dirlookup read'' dp off s) (\<lambda>de s.
          if de_inum de \<noteq> 0 \<and> namecmp name (of_buf (de_name de)) = 0 then
            andthen (iget (i_dev (itable s dp)) (ucast (de_inum de)) s) (\<lambda>ip s. Ok (Some (ip, off)) s)
          else dirlookup_loop dp name dsz (off + 16) s)
      else Ok None s)"
  by (pat_completeness, simp)
termination
  by (relation "measure (\<lambda>(dp, name, dsz, off, s). dsz - off)") simp_all

declare dirlookup_loop.simps [simp del]

definition dirlookup :: "nat \<Rightarrow> cstr \<Rightarrow> 'a kfs_scheme \<Rightarrow> ('a kfs_scheme, (nat \<times> nat) option) res" where
  "dirlookup dp name s =
     (if i_type (itable s dp) \<noteq> T_DIR then Panic ''dirlookup not DIR''
      else dirlookup_loop dp name (unat (i_size (itable s dp))) 0 s)"

function dirlink_slot :: "nat \<Rightarrow> nat \<Rightarrow> nat \<Rightarrow> 'a kfs_scheme \<Rightarrow> ('a kfs_scheme, nat) res" where
  "dirlink_slot dp dsz off s =
     (if off < dsz then
        andthen (read_de ''dirlink read'' dp off s) (\<lambda>de s.
          if de_inum de = 0 then Ok off s else dirlink_slot dp dsz (off + 16) s)
      else Ok off s)"
  by (pat_completeness, simp)
termination
  by (relation "measure (\<lambda>(dp, dsz, off, s). dsz - off)") simp_all

declare dirlink_slot.simps [simp del]

definition dirlink :: "nat \<Rightarrow> cstr \<Rightarrow> u32 \<Rightarrow> 'a kfs_scheme \<Rightarrow> ('a kfs_scheme, int) res" where
  "dirlink dp name inum s =
     andthen (dirlookup dp name s) (\<lambda>r s.
       case r of
         Some (ip, off) \<Rightarrow> andthen (iput ip s) (\<lambda>_ s. Ok (- 1) s)
       | None \<Rightarrow>
           andthen (dirlink_slot dp (unat (i_size (itable s dp))) 0 s) (\<lambda>off s.
           let de = word_le 2 (ucast inum :: u16) @ strncpy (replicate DIRSIZ 0) name (int DIRSIZ)
           in andthen (writei dp (Bsrc de) (of_nat off) 16 s) (\<lambda>r s.
                if r \<noteq> 16 then Ok (- 1) s else Ok 0 s)))"

section \<open>Paths\<close>

text \<open>A path is the bytes before its NUL, \<^verbatim>\<open>name\<close> a buffer of \<open>DIRSIZ\<close> bytes.\<close>

definition slash :: u8 where "slash = 0x2F"

definition skipelem :: "u8 list \<Rightarrow> u8 list \<Rightarrow> (u8 list \<times> u8 list) option" where
  "skipelem path name =
     (let path = dropWhile (\<lambda>c. c = slash) path
      in if path = [] then None
         else
           let s = takeWhile (\<lambda>c. c \<noteq> slash) path;
               path = dropWhile (\<lambda>c. c \<noteq> slash) path;
               name = (if length s \<ge> DIRSIZ then take DIRSIZ s
                       else s @ [0] @ drop (Suc (length s)) name)
           in Some (dropWhile (\<lambda>c. c = slash) path, name))"

lemma skipelem_shorter: "skipelem path name = Some (path', name') \<Longrightarrow> length path' < length path"
proof -
  assume s: "skipelem path name = Some (path', name')"
  let ?p = "dropWhile (\<lambda>c. c = slash) path"
  have ne: "?p \<noteq> []" and p': "path' = dropWhile (\<lambda>c. c = slash) (dropWhile (\<lambda>c. c \<noteq> slash) ?p)"
    using s by (auto simp: skipelem_def Let_def split: if_splits)
  obtain c cs where c: "?p = c # cs" using ne by (cases ?p) auto
  have "c \<noteq> slash" using hd_dropWhile [OF ne] c by simp
  then have "length path' \<le> length (dropWhile (\<lambda>c. c \<noteq> slash) cs)" unfolding p' c by (simp add: length_dropWhile_le)
  also have "\<dots> \<le> length cs" by (rule length_dropWhile_le)
  also have "\<dots> < length path" using c length_dropWhile_le [of "\<lambda>c. c = slash" path] by simp
  finally show ?thesis .
qed

function namex_loop ::
  "nat \<Rightarrow> u8 list \<Rightarrow> bool \<Rightarrow> u8 list \<Rightarrow> 'a kfs_scheme \<Rightarrow> ('a kfs_scheme, nat option \<times> u8 list) res" where
  "namex_loop ip path nameiparent name s =
     (case skipelem path name of
        None \<Rightarrow>
          if nameiparent then andthen (iput ip s) (\<lambda>_ s. Ok (None, name) s)
          else Ok (Some ip, name) s
      | Some (path', name) \<Rightarrow>
          andthen (ilock ip s) (\<lambda>_ s.
            if i_type (itable s ip) \<noteq> T_DIR then andthen (iunlockput ip s) (\<lambda>_ s. Ok (None, name) s)
            else if nameiparent \<and> path' = [] then andthen (iunlock ip s) (\<lambda>_ s. Ok (Some ip, name) s)
            else
              andthen (dirlookup ip (of_buf name) s) (\<lambda>r s.
                case r of
                  None \<Rightarrow> andthen (iunlockput ip s) (\<lambda>_ s. Ok (None, name) s)
                | Some (ip', off) \<Rightarrow>
                    andthen (iunlockput ip s) (\<lambda>_ s. namex_loop ip' path' nameiparent name s))))"
  by (pat_completeness, simp)
termination
  by (relation "measure (\<lambda>(ip, path, nameiparent, name, s). length path)") (auto dest: skipelem_shorter)

declare namex_loop.simps [simp del]

definition namex :: "u8 list \<Rightarrow> bool \<Rightarrow> u8 list \<Rightarrow> 'a kfs_scheme \<Rightarrow> ('a kfs_scheme, nat option \<times> u8 list) res" where
  "namex path nameiparent name s =
     andthen
       (if path \<noteq> [] \<and> hd path = slash then iget ROOTDEV ROOTINO s
        else andthen (myproc s) (\<lambda>p s.
          case p_cwd (procs s p) of None \<Rightarrow> Fault ''namex: cwd'' | Some ip \<Rightarrow> Ok ip (idup ip s)))
       (\<lambda>ip s. namex_loop ip path nameiparent name s)"

definition namei :: "u8 list \<Rightarrow> 'a kfs_scheme \<Rightarrow> ('a kfs_scheme, nat option) res" where
  "namei path s = andthen (namex path False (replicate DIRSIZ 0) s) (\<lambda>(ip, name) s. Ok ip s)"

definition nameiparent :: "u8 list \<Rightarrow> 'a kfs_scheme \<Rightarrow> ('a kfs_scheme, nat option \<times> u8 list) res" where
  "nameiparent path s = namex path True (replicate DIRSIZ 0) s"

end
