(* ===== verification/Console.thy ===== *)
theory Console
  imports Fs
begin

text \<open>
  The serial port driver (\<^verbatim>\<open>kernel/uart.c\<close>) and the console (\<^verbatim>\<open>kernel/console.c\<close>). The device is seen
  through its registers: \<open>uart_rx\<close> are the bytes waiting in the receive register (line status bit 0
  says whether there are any), \<open>uart_room\<close> is how many bytes the transmit register accepts before
  line status bit 5 goes off, and a byte written to it is appended to \<open>con_out\<close>. \<open>uart_cfg\<close> records
  the set-up writes. A wait for the transmit register to become idle ends with it idle.
\<close>

definition UART_TX_BUF_SIZE :: nat where "UART_TX_BUF_SIZE = 32"
definition INPUT_BUF_SIZE :: nat where "INPUT_BUF_SIZE = 128"
definition BACKSPACE :: int where "BACKSPACE = 0x100"
definition NDEV :: nat where "NDEV = 10"
definition CONSOLE :: nat where "CONSOLE = 1"

text \<open>The device functions installed in \<^verbatim>\<open>devsw\<close>.\<close>

datatype devfn = Fn_consoleread | Fn_consolewrite

record kcons = kfs +
  uart_cfg :: "(nat \<times> u8) list"
  uart_rx :: "u8 list"
  uart_room :: nat
  uart_tx_buf :: "nat \<Rightarrow> u8"
  uart_tx_w :: u64
  uart_tx_r :: u64
  panicked :: bool
  cons_buf :: "nat \<Rightarrow> u8"
  cons_r :: u32
  cons_w :: u32
  cons_e :: u32
  devsw_read :: "nat \<Rightarrow> devfn option"
  devsw_write :: "nat \<Rightarrow> devfn option"

section \<open>The serial port\<close>

definition IER :: nat where "IER = 1"
definition FCR :: nat where "FCR = 2"
definition LCR :: nat where "LCR = 3"
definition IER_RX_ENABLE :: u8 where "IER_RX_ENABLE = 1"
definition IER_TX_ENABLE :: u8 where "IER_TX_ENABLE = push_bit 1 1"
definition FCR_FIFO_ENABLE :: u8 where "FCR_FIFO_ENABLE = 1"
definition FCR_FIFO_CLEAR :: u8 where "FCR_FIFO_CLEAR = push_bit 1 3"
definition LCR_EIGHT_BITS :: u8 where "LCR_EIGHT_BITS = 3"
definition LCR_BAUD_LATCH :: u8 where "LCR_BAUD_LATCH = push_bit 7 1"

definition WriteReg :: "nat \<Rightarrow> u8 \<Rightarrow> 'a kcons_scheme \<Rightarrow> 'a kcons_scheme" where
  "WriteReg reg v s = s\<lparr>uart_cfg := uart_cfg s @ [(reg, v)]\<rparr>"

definition uartinit :: "'a kcons_scheme \<Rightarrow> 'a kcons_scheme" where
  "uartinit s =
     (let s = WriteReg IER 0 s;
          s = WriteReg LCR LCR_BAUD_LATCH s;
          s = WriteReg 0 3 s;
          s = WriteReg 1 0 s;
          s = WriteReg LCR LCR_EIGHT_BITS s;
          s = WriteReg FCR (FCR_FIFO_ENABLE OR FCR_FIFO_CLEAR) s
      in WriteReg IER (IER_TX_ENABLE OR IER_RX_ENABLE) s)"

text \<open>A byte written to the transmit holding register.\<close>

definition write_THR :: "u8 \<Rightarrow> 'a kcons_scheme \<Rightarrow> 'a kcons_scheme" where
  "write_THR c s = s\<lparr>con_out := con_out s @ [char_of (unat c)], uart_room := uart_room s - 1\<rparr>"

definition uartputc_sync :: "int \<Rightarrow> 'a kcons_scheme \<Rightarrow> ('a kcons_scheme, unit) res" where
  "uartputc_sync c s =
     (if panicked s then Panic ''panicked'' else Ok () (write_THR (word_of_int c) s))"

function uartstart :: "'a kcons_scheme \<Rightarrow> 'a kcons_scheme" where
  "uartstart s =
     (if uart_tx_w s = uart_tx_r s then s
      else if uart_room s = 0 then s
      else
        let c = uart_tx_buf s (unat (uart_tx_r s) mod UART_TX_BUF_SIZE);
            s = s\<lparr>uart_tx_r := uart_tx_r s + 1\<rparr>
        in uartstart (write_THR c (wakeup Chan_uart_tx_r s)))"
  by (pat_completeness, simp)
termination
  by (relation "measure uart_room") (simp_all add: write_THR_def wakeup_eq)

declare uartstart.simps [simp del]

definition uartputc :: "int \<Rightarrow> 'a kcons_scheme \<Rightarrow> ('a kcons_scheme, unit) res" where
  "uartputc c s =
     (if panicked s then Panic ''panicked''
      else if uart_tx_w s = uart_tx_r s + of_nat UART_TX_BUF_SIZE then sleep Chan_uart_tx_r s
      else
        let s = s\<lparr>uart_tx_buf := (uart_tx_buf s)(unat (uart_tx_w s) mod UART_TX_BUF_SIZE := word_of_int c)\<rparr>;
            s = s\<lparr>uart_tx_w := uart_tx_w s + 1\<rparr>
        in Ok () (uartstart s))"

definition uartgetc :: "'a kcons_scheme \<Rightarrow> int \<times> 'a kcons_scheme" where
  "uartgetc s = (case uart_rx s of [] \<Rightarrow> (- 1, s) | c # cs \<Rightarrow> (uint c, s\<lparr>uart_rx := cs\<rparr>))"

section \<open>The console\<close>

definition consputc :: "int \<Rightarrow> 'a kcons_scheme \<Rightarrow> ('a kcons_scheme, unit) res" where
  "consputc c s =
     (if c = BACKSPACE then
        andthen (uartputc_sync 8 s) (\<lambda>_ s.
        andthen (uartputc_sync 0x20 s) (\<lambda>_ s.
        uartputc_sync 8 s))
      else uartputc_sync c s)"

definition echoed :: "int \<Rightarrow> string" where
  "echoed c = (if c = BACKSPACE then map char_of [8, 32, 8 :: nat]
               else [char_of (unat (word_of_int c :: u8))])"

lemma consputc_eq:
  "consputc c s = (if panicked s then Panic ''panicked''
     else Ok () (s\<lparr>con_out := con_out s @ echoed c, uart_room := uart_room s - length (echoed c)\<rparr>))"
  by (simp add: consputc_def uartputc_sync_def write_THR_def echoed_def)

definition ctrl :: "char \<Rightarrow> int" where
  "ctrl x = of_char x - of_char CHR ''@''"

function consolewrite_loop :: "ksrc \<Rightarrow> nat \<Rightarrow> nat \<Rightarrow> 'a kcons_scheme \<Rightarrow> ('a kcons_scheme, int) res" where
  "consolewrite_loop src i n s =
     (if i < n then
        andthen (either_copyin (ksrc_add src i) 1 s) (\<lambda>(r, bs) s.
          if r = - 1 then Ok (int i) s
          else andthen (uartputc (uint (hd bs)) s) (\<lambda>_ s. consolewrite_loop src (Suc i) n s))
      else Ok (int i) s)"
  by (pat_completeness, simp)
termination
  by (relation "measure (\<lambda>(src, i, n, s). n - i)") simp_all

declare consolewrite_loop.simps [simp del]

definition consolewrite :: "ksrc \<Rightarrow> int \<Rightarrow> 'a kcons_scheme \<Rightarrow> ('a kcons_scheme, int) res" where
  "consolewrite src n s = consolewrite_loop src 0 (nat n) s"

function consoleread_loop :: "kdst \<Rightarrow> nat \<Rightarrow> nat \<Rightarrow> 'a kcons_scheme \<Rightarrow> ('a kcons_scheme, int \<times> kdst) res" where
  "consoleread_loop dst target n s =
     (if n > 0 then
        (if cons_r s = cons_w s then
           andthen (myproc s) (\<lambda>p s. if killed p s \<noteq> 0 then Ok (- 1, dst) s else sleep Chan_cons_r s)
         else
           let c = cons_buf s (unat (cons_r s) mod INPUT_BUF_SIZE);
               s = s\<lparr>cons_r := cons_r s + 1\<rparr>
           in if uint c = ctrl CHR ''D'' then
                Ok (int (target - n), dst) (if n < target then s\<lparr>cons_r := cons_r s - 1\<rparr> else s)
              else
                andthen (either_copyout dst [c] s) (\<lambda>(r, dst) s.
                  if r = - 1 then Ok (int (target - n), dst) s
                  else if c = 10 then Ok (int (target - (n - 1)), kdst_add dst 1) s
                  else consoleread_loop (kdst_add dst 1) target (n - 1) s))
      else Ok (int (target - n), dst) s)"
  by (pat_completeness, simp)
termination
  by (relation "measure (\<lambda>(dst, target, n, s). n)") simp_all

declare consoleread_loop.simps [simp del]

definition consoleread :: "kdst \<Rightarrow> int \<Rightarrow> 'a kcons_scheme \<Rightarrow> ('a kcons_scheme, int \<times> kdst) res" where
  "consoleread dst n s = (if n \<le> 0 then Ok (0, dst) s else consoleread_loop dst (nat n) (nat n) s)"

text \<open>The loop of control-U.\<close>

function kill_line :: "'a kcons_scheme \<Rightarrow> ('a kcons_scheme, unit) res" where
  "kill_line s =
     (if cons_e s \<noteq> cons_w s \<and> cons_buf s (unat (cons_e s - 1) mod INPUT_BUF_SIZE) \<noteq> 10 then
        andthen (consputc BACKSPACE (s\<lparr>cons_e := cons_e s - 1\<rparr>)) (\<lambda>_ s. kill_line s)
      else Ok () s)"
  by (pat_completeness, simp)
termination
proof (relation "measure (\<lambda>s. unat (cons_e s - cons_w s))")
  fix s :: "'a kcons_scheme" and x t
  assume "cons_e s \<noteq> cons_w s \<and> cons_buf s (unat (cons_e s - 1) mod INPUT_BUF_SIZE) \<noteq> 10"
    and "consputc BACKSPACE (s\<lparr>cons_e := cons_e s - 1\<rparr>) = Ok x t"
  then have t: "cons_e t - cons_w t = (cons_e s - cons_w s) - 1" "cons_e s - cons_w s \<noteq> 0"
    by (auto simp: consputc_eq algebra_simps split: if_splits)
  then have "unat (cons_e t - cons_w t) < unat (cons_e s - cons_w s)"
    unfolding t(1) by (simp add: unat_minus_one unat_gt_0)
  then show "(t, s) \<in> measure (\<lambda>s. unat (cons_e s - cons_w s))" by simp
qed simp

declare kill_line.simps [simp del]

definition consoleintr :: "int \<Rightarrow> 'a kcons_scheme \<Rightarrow> ('a kcons_scheme, unit) res" where
  "consoleintr c s =
     (if c = ctrl CHR ''P'' then procdump s
      else if c = ctrl CHR ''U'' then kill_line s
      else if c = ctrl CHR ''H'' \<or> c = 0x7F then
        (if cons_e s \<noteq> cons_w s then consputc BACKSPACE (s\<lparr>cons_e := cons_e s - 1\<rparr>) else Ok () s)
      else if c \<noteq> 0 \<and> unat (cons_e s - cons_r s) < INPUT_BUF_SIZE then
        let c = (if c = 13 then 10 else c)
        in andthen (consputc c s) (\<lambda>_ s.
           let s = s\<lparr>cons_buf := (cons_buf s)(unat (cons_e s) mod INPUT_BUF_SIZE := word_of_int c),
                     cons_e := cons_e s + 1\<rparr>
           in if c = 10 \<or> c = ctrl CHR ''D'' \<or> unat (cons_e s - cons_r s) = INPUT_BUF_SIZE
              then Ok () (wakeup Chan_cons_r (s\<lparr>cons_w := cons_e s\<rparr>))
              else Ok () s)
      else Ok () s)"

definition consoleinit :: "'a kcons_scheme \<Rightarrow> 'a kcons_scheme" where
  "consoleinit s =
     (let s = uartinit s
      in s\<lparr>devsw_read := (devsw_read s)(CONSOLE := Some Fn_consoleread),
           devsw_write := (devsw_write s)(CONSOLE := Some Fn_consolewrite)\<rparr>)"

text \<open>The input loop of \<^verbatim>\<open>uartintr\<close>, over the bytes that are waiting.\<close>

primrec uartintr_input :: "u8 list \<Rightarrow> 'a kcons_scheme \<Rightarrow> ('a kcons_scheme, unit) res" where
  "uartintr_input [] s = Ok () s"
| "uartintr_input (x # xs) s =
     (case uartgetc s of (c, s) \<Rightarrow> andthen (consoleintr c s) (\<lambda>_ s. uartintr_input xs s))"

definition uartintr :: "'a kcons_scheme \<Rightarrow> ('a kcons_scheme, unit) res" where
  "uartintr s = andthen (uartintr_input (uart_rx s) s) (\<lambda>_ s. Ok () (uartstart s))"

end
