(* ===== verification/File.thy ===== *)
theory File
  imports Console
begin

text \<open>
  Pipes (\<^verbatim>\<open>kernel/pipe.c\<close>) and the file table (\<^verbatim>\<open>kernel/file.c\<close>). A file is its index in \<open>ftable\<close>. A
  pipe lives in a page from \<^verbatim>\<open>kalloc\<close>; \<open>pipes\<close> is the contents of such pages as \<^verbatim>\<open>struct pipe\<close>, indexed
  by the address of the page. \<^verbatim>\<open>nread\<close> and \<^verbatim>\<open>nwrite\<close> are 32-bit counters that wrap around.
\<close>

definition PIPESIZE :: nat where "PIPESIZE = 512"
definition NFILE :: nat where "NFILE = 100"

datatype fdtype = FD_NONE | FD_PIPE | FD_INODE | FD_DEVICE

record file_t =
  f_type :: fdtype
  f_ref :: int
  f_readable :: bool
  f_writable :: bool
  f_pipe :: u64
  f_ip :: nat
  f_off :: u32
  f_major :: u16

record pipe =
  pi_data :: "nat \<Rightarrow> u8"
  pi_nread :: u32
  pi_nwrite :: u32
  pi_readopen :: bool
  pi_writeopen :: bool

record kfile = kcons +
  ftable :: "nat \<Rightarrow> file_t"
  pipes :: "u64 \<Rightarrow> pipe"

definition upd_file :: "nat \<Rightarrow> (file_t \<Rightarrow> file_t) \<Rightarrow> 'a kfile_scheme \<Rightarrow> 'a kfile_scheme" where
  "upd_file f g s = s\<lparr>ftable := (ftable s)(f := g (ftable s f))\<rparr>"

definition upd_pipe :: "u64 \<Rightarrow> (pipe \<Rightarrow> pipe) \<Rightarrow> 'a kfile_scheme \<Rightarrow> 'a kfile_scheme" where
  "upd_pipe pi g s = s\<lparr>pipes := (pipes s)(pi := g (pipes s pi))\<rparr>"

section \<open>Pipes\<close>

definition pipe_push :: "u8 \<Rightarrow> pipe \<Rightarrow> pipe" where
  "pipe_push ch x =
     x\<lparr>pi_data := (pi_data x)(unat (pi_nwrite x) mod PIPESIZE := ch), pi_nwrite := pi_nwrite x + 1\<rparr>"

function pipewrite_loop :: "u64 \<Rightarrow> u64 \<Rightarrow> nat \<Rightarrow> nat \<Rightarrow> 'a kfile_scheme \<Rightarrow> ('a kfile_scheme, int) res" where
  "pipewrite_loop pi addr i n s =
     (if i < n then
        andthen (myproc s) (\<lambda>pr s.
          if \<not> pi_readopen (pipes s pi) \<or> killed pr s \<noteq> 0 then Ok (- 1) s
          else if pi_nwrite (pipes s pi) = pi_nread (pipes s pi) + of_nat PIPESIZE then
            sleep (Chan_nwrite pi) (wakeup (Chan_nread pi) s)
          else
            andthen (copyin (p_pagetable (procs s pr)) (addr + of_nat i) 1 s) (\<lambda>(r, bs) s.
              if r = - 1 then Ok (int i) (wakeup (Chan_nread pi) s)
              else pipewrite_loop pi addr (Suc i) n (upd_pipe pi (pipe_push (hd bs)) s)))
      else Ok (int i) (wakeup (Chan_nread pi) s))"
  by (pat_completeness, simp)
termination
  by (relation "measure (\<lambda>(pi, addr, i, n, s). n - i)") simp_all

declare pipewrite_loop.simps [simp del]

definition pipewrite :: "u64 \<Rightarrow> u64 \<Rightarrow> int \<Rightarrow> 'a kfile_scheme \<Rightarrow> ('a kfile_scheme, int) res" where
  "pipewrite pi addr n s = andthen (myproc s) (\<lambda>pr s. pipewrite_loop pi addr 0 (nat n) s)"

function piperead_loop :: "u64 \<Rightarrow> u64 \<Rightarrow> nat \<Rightarrow> nat \<Rightarrow> 'a kfile_scheme \<Rightarrow> ('a kfile_scheme, int) res" where
  "piperead_loop pi addr i n s =
     (if i < n \<and> pi_nread (pipes s pi) \<noteq> pi_nwrite (pipes s pi) then
        andthen (myproc s) (\<lambda>pr s.
        let ch = pi_data (pipes s pi) (unat (pi_nread (pipes s pi)) mod PIPESIZE);
            s = upd_pipe pi (\<lambda>x. x\<lparr>pi_nread := pi_nread x + 1\<rparr>) s
        in andthen (copyout (cur_pagetable s) (p_pagetable (procs s pr)) (addr + of_nat i) [ch] s) (\<lambda>r s.
             if r = - 1 then Ok (int i) (wakeup (Chan_nwrite pi) s)
             else piperead_loop pi addr (Suc i) n s))
      else Ok (int i) (wakeup (Chan_nwrite pi) s))"
  by (pat_completeness, simp)
termination
  by (relation "measure (\<lambda>(pi, addr, i, n, s). n - i)") (simp_all add: diff_less_mono2)

declare piperead_loop.simps [simp del]

definition piperead :: "u64 \<Rightarrow> u64 \<Rightarrow> int \<Rightarrow> 'a kfile_scheme \<Rightarrow> ('a kfile_scheme, int) res" where
  "piperead pi addr n s =
     andthen (myproc s) (\<lambda>pr s.
       if pi_nread (pipes s pi) = pi_nwrite (pipes s pi) \<and> pi_writeopen (pipes s pi) then
         (if killed pr s \<noteq> 0 then Ok (- 1) s else sleep (Chan_nread pi) s)
       else piperead_loop pi addr 0 (nat n) s)"

definition pipeclose :: "u64 \<Rightarrow> bool \<Rightarrow> 'a kfile_scheme \<Rightarrow> ('a kfile_scheme, unit) res" where
  "pipeclose pi writable s =
     (let s = (if writable
               then wakeup (Chan_nread pi) (upd_pipe pi (\<lambda>x. x\<lparr>pi_writeopen := False\<rparr>) s)
               else wakeup (Chan_nwrite pi) (upd_pipe pi (\<lambda>x. x\<lparr>pi_readopen := False\<rparr>) s))
      in if \<not> pi_readopen (pipes s pi) \<and> \<not> pi_writeopen (pipes s pi) then kfree pi s else Ok () s)"

section \<open>Files\<close>

definition filealloc :: "'a kfile_scheme \<Rightarrow> nat option \<times> 'a kfile_scheme" where
  "filealloc s =
     (case List.find (\<lambda>f. f_ref (ftable s f) = 0) [0..<NFILE] of
        None \<Rightarrow> (None, s)
      | Some f \<Rightarrow> (Some f, upd_file f (\<lambda>x. x\<lparr>f_ref := 1\<rparr>) s))"

definition filedup :: "nat \<Rightarrow> 'a kfile_scheme \<Rightarrow> ('a kfile_scheme, unit) res" where
  "filedup f s =
     (if f_ref (ftable s f) < 1 then Panic ''filedup''
      else Ok () (upd_file f (\<lambda>x. x\<lparr>f_ref := f_ref x + 1\<rparr>) s))"

definition fileclose :: "nat \<Rightarrow> 'a kfile_scheme \<Rightarrow> ('a kfile_scheme, unit) res" where
  "fileclose f s =
     (if f_ref (ftable s f) < 1 then Panic ''fileclose''
      else
        let s = upd_file f (\<lambda>x. x\<lparr>f_ref := f_ref x - 1\<rparr>) s
        in if f_ref (ftable s f) > 0 then Ok () s
           else
             let ff = ftable s f;
                 s = upd_file f (\<lambda>x. x\<lparr>f_ref := 0, f_type := FD_NONE\<rparr>) s
             in (case f_type ff of
                   FD_PIPE \<Rightarrow> pipeclose (f_pipe ff) (f_writable ff) s
                 | FD_NONE \<Rightarrow> Ok () s
                 | _ \<Rightarrow>
                     andthen (begin_op s) (\<lambda>_ s.
                     andthen (iput (f_ip ff) s) (\<lambda>_ s.
                     end_op s))))"

definition pipealloc :: "'a kfile_scheme \<Rightarrow> ('a kfile_scheme, (nat \<times> nat) option) res" where
  "pipealloc s =
     (case filealloc s of
        (None, s) \<Rightarrow> Ok None s
      | (Some f0, s) \<Rightarrow>
          (case filealloc s of
             (None, s) \<Rightarrow> andthen (fileclose f0 s) (\<lambda>_ s. Ok None s)
           | (Some f1, s) \<Rightarrow>
               (case kalloc s of (pi, s) \<Rightarrow>
                  if pi = 0 then
                    andthen (fileclose f0 s) (\<lambda>_ s.
                    andthen (fileclose f1 s) (\<lambda>_ s. Ok None s))
                  else
                    let s = upd_pipe pi (\<lambda>x. x\<lparr>pi_readopen := True, pi_writeopen := True, pi_nwrite := 0, pi_nread := 0\<rparr>) s;
                        s = upd_file f0 (\<lambda>x. x\<lparr>f_type := FD_PIPE, f_readable := True, f_writable := False, f_pipe := pi\<rparr>) s;
                        s = upd_file f1 (\<lambda>x. x\<lparr>f_type := FD_PIPE, f_readable := False, f_writable := True, f_pipe := pi\<rparr>) s
                    in Ok (Some (f0, f1)) s)))"

text \<open>\<^verbatim>\<open>struct stat\<close> in memory; the four bytes before \<^verbatim>\<open>size\<close> are padding.\<close>

definition stat_bytes :: "stat \<Rightarrow> u8 list" where
  "stat_bytes st =
     word_le 4 (st_dev st) @ word_le 4 (st_ino st) @ word_le 2 (st_type st) @ word_le 2 (st_nlink st) @
     replicate 4 0 @ word_le 8 (st_size st)"

definition filestat :: "nat \<Rightarrow> u64 \<Rightarrow> 'a kfile_scheme \<Rightarrow> ('a kfile_scheme, int) res" where
  "filestat f addr s =
     andthen (myproc s) (\<lambda>p s.
       if f_type (ftable s f) = FD_INODE \<or> f_type (ftable s f) = FD_DEVICE then
         let ip = f_ip (ftable s f)
         in andthen (ilock ip s) (\<lambda>_ s.
            let st = stati ip s
            in andthen (iunlock ip s) (\<lambda>_ s.
               andthen (copyout (cur_pagetable s) (p_pagetable (procs s p)) addr (stat_bytes st) s) (\<lambda>r s.
                 if r < 0 then Ok (- 1) s else Ok 0 s)))
       else Ok (- 1) s)"

text \<open>The device functions reached through \<^verbatim>\<open>devsw\<close>.\<close>

fun dev_read :: "devfn \<Rightarrow> kdst \<Rightarrow> int \<Rightarrow> 'a kcons_scheme \<Rightarrow> ('a kcons_scheme, int) res" where
  "dev_read Fn_consoleread dst n s = andthen (consoleread dst n s) (\<lambda>(r, dst) s. Ok r s)"
| "dev_read Fn_consolewrite dst n s = Fault ''devsw''"

fun dev_write :: "devfn \<Rightarrow> ksrc \<Rightarrow> int \<Rightarrow> 'a kcons_scheme \<Rightarrow> ('a kcons_scheme, int) res" where
  "dev_write Fn_consolewrite src n s = consolewrite src n s"
| "dev_write Fn_consoleread src n s = Fault ''devsw''"

definition dev_major :: "u16 \<Rightarrow> (nat \<Rightarrow> devfn option) \<Rightarrow> devfn option" where
  "dev_major m tab = (if sint m < 0 \<or> sint m \<ge> int NDEV then None else tab (unat m))"

definition fileread :: "nat \<Rightarrow> u64 \<Rightarrow> int \<Rightarrow> 'a kfile_scheme \<Rightarrow> ('a kfile_scheme, int) res" where
  "fileread f addr n s =
     (if \<not> f_readable (ftable s f) then Ok (- 1) s
      else
        (case f_type (ftable s f) of
           FD_PIPE \<Rightarrow> piperead (f_pipe (ftable s f)) addr n s
         | FD_DEVICE \<Rightarrow>
             (case dev_major (f_major (ftable s f)) (devsw_read s) of
                None \<Rightarrow> Ok (- 1) s
              | Some fn \<Rightarrow> dev_read fn (Udst addr) n s)
         | FD_INODE \<Rightarrow>
             let ip = f_ip (ftable s f)
             in andthen (ilock ip s) (\<lambda>_ s.
                andthen (readi ip (Udst addr) (f_off (ftable s f)) (word_of_int n) s) (\<lambda>(r, dst) s.
                let s = (if r > 0 then upd_file f (\<lambda>x. x\<lparr>f_off := f_off x + word_of_int r\<rparr>) s else s)
                in andthen (iunlock ip s) (\<lambda>_ s. Ok r s)))
         | FD_NONE \<Rightarrow> Panic ''fileread''))"

definition FILE_MAX :: nat where
  "FILE_MAX = ((nat MAXOPBLOCKS - 1 - 1 - 2) div 2) * BSIZE"

function filewrite_loop :: "nat \<Rightarrow> u64 \<Rightarrow> nat \<Rightarrow> nat \<Rightarrow> 'a kfile_scheme \<Rightarrow> ('a kfile_scheme, nat) res" where
  "filewrite_loop f addr i n s =
     (if i < n then
        let n1 = min (n - i) FILE_MAX; ip = f_ip (ftable s f)
        in andthen (begin_op s) (\<lambda>_ s.
           andthen (ilock ip s) (\<lambda>_ s.
           andthen (writei ip (Usrc (addr + of_nat i)) (f_off (ftable s f)) (of_nat n1) s) (\<lambda>r s.
           let s = (if r > 0 then upd_file f (\<lambda>x. x\<lparr>f_off := f_off x + word_of_int r\<rparr>) s else s)
           in andthen (iunlock ip s) (\<lambda>_ s.
              andthen (end_op s) (\<lambda>_ s.
                if r \<noteq> int n1 then Ok i s else filewrite_loop f addr (i + n1) n s)))))
      else Ok i s)"
  by (pat_completeness, simp)
termination
  by (relation "measure (\<lambda>(f, addr, i, n, s). n - i)") (simp_all add: FILE_MAX_def MAXOPBLOCKS_def BSIZE_def)

declare filewrite_loop.simps [simp del]

definition filewrite :: "nat \<Rightarrow> u64 \<Rightarrow> int \<Rightarrow> 'a kfile_scheme \<Rightarrow> ('a kfile_scheme, int) res" where
  "filewrite f addr n s =
     (if \<not> f_writable (ftable s f) then Ok (- 1) s
      else
        (case f_type (ftable s f) of
           FD_PIPE \<Rightarrow> pipewrite (f_pipe (ftable s f)) addr n s
         | FD_DEVICE \<Rightarrow>
             (case dev_major (f_major (ftable s f)) (devsw_write s) of
                None \<Rightarrow> Ok (- 1) s
              | Some fn \<Rightarrow> dev_write fn (Usrc addr) n s)
         | FD_INODE \<Rightarrow>
             andthen (filewrite_loop f addr 0 (nat n) s) (\<lambda>i s. Ok (if int i = n then n else - 1) s)
         | FD_NONE \<Rightarrow> Panic ''filewrite''))"

end
