(* ===== verification/Process.thy ===== *)
theory Process
  imports File
begin

text \<open>
  The operations of \<^verbatim>\<open>kernel/proc.c\<close> that involve files: creating the first process, \<^verbatim>\<open>fork\<close> and \<^verbatim>\<open>exit\<close>;
  and \<^verbatim>\<open>exec\<close> of \<^verbatim>\<open>kernel/exec.c\<close>. \<^verbatim>\<open>exit\<close> does not return: it ends in the scheduler with the process
  a zombie.
\<close>

section \<open>The first process\<close>

definition initcode :: "u8 list" where
  "initcode = [
     0x17, 0x05, 0x00, 0x00, 0x13, 0x05, 0x45, 0x02,
     0x97, 0x05, 0x00, 0x00, 0x93, 0x85, 0x35, 0x02,
     0x93, 0x08, 0x70, 0x00, 0x73, 0x00, 0x00, 0x00,
     0x93, 0x08, 0x20, 0x00, 0x73, 0x00, 0x00, 0x00,
     0xef, 0xf0, 0x9f, 0xff, 0x2f, 0x69, 0x6e, 0x69,
     0x74, 0x00, 0x00, 0x24, 0x00, 0x00, 0x00, 0x00,
     0x00, 0x00, 0x00, 0x00]"

text \<open>A string constant of the C code.\<close>

definition lit :: "string \<Rightarrow> u8 list" where
  "lit t = map (\<lambda>c. word_of_nat (of_char c)) t"

definition userinit :: "'a kfile_scheme \<Rightarrow> ('a kfile_scheme, unit) res" where
  "userinit s =
     andthen (allocproc s) (\<lambda>r s.
     let s = s\<lparr>initproc := r\<rparr>
     in case r of
          None \<Rightarrow> Fault ''userinit: null process''
        | Some p \<Rightarrow>
            andthen (uvmfirst (p_pagetable (procs s p)) initcode s) (\<lambda>_ s.
            let s = upd_proc p (\<lambda>x. x\<lparr>p_sz := PGSIZE\<rparr>) s;
                s = tf_set p TF_epc 0 s;
                s = tf_set p TF_sp PGSIZE s;
                s = upd_proc p (\<lambda>x. x\<lparr>p_name := safestrcpy (p_name x) (of_buf (lit ''initcode'')) 16\<rparr>) s
            in andthen (namei (lit ''/'') s) (\<lambda>ip s.
               Ok () (upd_proc p (\<lambda>x. x\<lparr>p_cwd := ip, p_state := RUNNABLE\<rparr>) s))))"

section \<open>Fork\<close>

definition fork :: "'a kfile_scheme \<Rightarrow> ('a kfile_scheme, int) res" where
  "fork s =
     andthen (myproc s) (\<lambda>p s.
     andthen (allocproc s) (\<lambda>r s.
       case r of
         None \<Rightarrow> Ok (- 1) s
       | Some np \<Rightarrow>
           andthen (uvmcopy (p_pagetable (procs s p)) (p_pagetable (procs s np)) (p_sz (procs s p)) s) (\<lambda>r s.
             if r < 0 then andthen (freeproc np s) (\<lambda>_ s. Ok (- 1) s)
             else
               let s = upd_proc np (\<lambda>x. x\<lparr>p_sz := p_sz (procs s p)\<rparr>) s;
                   s = s\<lparr>mem := put_bytes (mem s) (p_trapframe (procs s np))
                                  (mem_bytes (mem s) (p_trapframe (procs s p)) TF_size)\<rparr>;
                   s = tf_set np (TF_a 0) 0 s
               in andthen
                    (for_each [0..<NOFILE]
                      (\<lambda>i s. case p_ofile (procs s p) i of
                          None \<Rightarrow> Ok () s
                        | Some f \<Rightarrow>
                            andthen (filedup f s) (\<lambda>_ s.
                              Ok () (upd_proc np (\<lambda>x. x\<lparr>p_ofile := (p_ofile x)(i := Some f)\<rparr>) s))) s)
                    (\<lambda>_ s.
                       case p_cwd (procs s p) of
                         None \<Rightarrow> Fault ''fork: cwd''
                       | Some ip \<Rightarrow>
                           let s = idup ip s;
                               s = upd_proc np (\<lambda>x. x\<lparr>p_cwd := Some ip,
                                     p_name := safestrcpy (p_name x) (of_buf (p_name (procs s p))) 16\<rparr>) s;
                               pid = p_pid (procs s np);
                               s = upd_proc np (\<lambda>x. x\<lparr>p_parent := Some p\<rparr>) s
                           in Ok pid (upd_proc np (\<lambda>x. x\<lparr>p_state := RUNNABLE\<rparr>) s)))))"

section \<open>Exit\<close>

definition exit :: "int \<Rightarrow> 'a kfile_scheme \<Rightarrow> ('a kfile_scheme, 'b) res" where
  "exit status s =
     andthen (myproc s) (\<lambda>p s.
       if Some p = initproc s then Panic ''init exiting''
       else
         andthen
           (for_each [0..<NOFILE]
             (\<lambda>fd s. case p_ofile (procs s p) fd of
                 None \<Rightarrow> Ok () s
               | Some f \<Rightarrow>
                   andthen (fileclose f s) (\<lambda>_ s.
                     Ok () (upd_proc p (\<lambda>x. x\<lparr>p_ofile := (p_ofile x)(fd := None)\<rparr>) s))) s)
           (\<lambda>_ s.
              andthen (begin_op s) (\<lambda>_ s.
              andthen (case p_cwd (procs s p) of None \<Rightarrow> Fault ''exit: cwd'' | Some ip \<Rightarrow> iput ip s) (\<lambda>_ s.
              andthen (end_op s) (\<lambda>_ s.
              let s = upd_proc p (\<lambda>x. x\<lparr>p_cwd := None\<rparr>) s
              in andthen (reparent p s) (\<lambda>_ s.
                 let s = (case p_parent (procs s p) of None \<Rightarrow> s | Some pp \<Rightarrow> wakeup (Chan_proc pp) s);
                     s = upd_proc p (\<lambda>x. x\<lparr>p_xstate := status, p_state := ZOMBIE\<rparr>) s
                 in Switch (s\<lparr>curproc := None\<rparr>)))))))"

section \<open>Exec\<close>

definition USERSTACK :: nat where "USERSTACK = 1"
definition MAXARG :: nat where "MAXARG = 32"
definition ELF_MAGIC :: u32 where "ELF_MAGIC = 0x464C457F"
definition ELF_PROG_LOAD :: u32 where "ELF_PROG_LOAD = 1"

definition flags2perm :: "u32 \<Rightarrow> u64" where
  "flags2perm flags =
     (let perm = (if flags AND 1 \<noteq> 0 then PTE_X else 0)
      in if flags AND 2 \<noteq> 0 then perm OR PTE_W else perm)"

text \<open>The fields of the ELF structures that are used, at their offsets.\<close>

record elfhdr =
  e_magic :: u32
  e_entry :: u64
  e_phoff :: u64
  e_phnum :: u16

definition elfhdr_of :: "u8 list \<Rightarrow> elfhdr" where
  "elfhdr_of d =
     \<lparr>e_magic = le_word (blk_get d 0 4), e_entry = le_word (blk_get d 24 8), e_phoff = le_word (blk_get d 32 8),
      e_phnum = le_word (blk_get d 56 2)\<rparr>"

record proghdr =
  ph_type :: u32
  ph_flags :: u32
  ph_off :: u64
  ph_vaddr :: u64
  ph_filesz :: u64
  ph_memsz :: u64

definition proghdr_of :: "u8 list \<Rightarrow> proghdr" where
  "proghdr_of d =
     \<lparr>ph_type = le_word (blk_get d 0 4), ph_flags = le_word (blk_get d 4 4), ph_off = le_word (blk_get d 8 8),
      ph_vaddr = le_word (blk_get d 16 8), ph_filesz = le_word (blk_get d 32 8), ph_memsz = le_word (blk_get d 40 8)\<rparr>"

function loadseg_loop ::
  "u64 \<Rightarrow> u64 \<Rightarrow> nat \<Rightarrow> u32 \<Rightarrow> nat \<Rightarrow> nat \<Rightarrow> 'a kfs_scheme \<Rightarrow> ('a kfs_scheme, int) res" where
  "loadseg_loop pagetable va ip offset i sz s =
     (if i < sz then
        andthen (walkaddr pagetable (va + of_nat i) s) (\<lambda>pa s.
          if pa = 0 then Panic ''loadseg: address should exist''
          else
            let n = (if sz - i < 4096 then sz - i else 4096)
            in andthen (readi ip (Kdst pa) (offset + of_nat i) (of_nat n) s) (\<lambda>(r, dst) s.
                 if r \<noteq> int n then Ok (- 1) s else loadseg_loop pagetable va ip offset (i + 4096) sz s))
      else Ok 0 s)"
  by (pat_completeness, simp)
termination
  by (relation "measure (\<lambda>(pagetable, va, ip, offset, i, sz, s). sz - i)") simp_all

declare loadseg_loop.simps [simp del]

definition loadseg :: "u64 \<Rightarrow> u64 \<Rightarrow> nat \<Rightarrow> u32 \<Rightarrow> u32 \<Rightarrow> 'a kfs_scheme \<Rightarrow> ('a kfs_scheme, int) res" where
  "loadseg pagetable va ip offset sz s = loadseg_loop pagetable va ip offset 0 (unat sz) s"

text \<open>The loop over the program headers: whether it succeeded, and the size reached.\<close>

primrec exec_load ::
  "nat \<Rightarrow> u32 \<Rightarrow> nat \<Rightarrow> u64 \<Rightarrow> u64 \<Rightarrow> 'a kfs_scheme \<Rightarrow> ('a kfs_scheme, bool \<times> u64) res" where
  "exec_load 0 off ip pagetable sz s = Ok (True, sz) s"
| "exec_load (Suc k) off ip pagetable sz s =
     andthen (readi ip (Bdst []) off 56 s) (\<lambda>(r, d) s.
       if r \<noteq> 56 then Ok (False, sz) s
       else
         let ph = proghdr_of (kdst_bytes d)
         in if ph_type ph \<noteq> ELF_PROG_LOAD then exec_load k (off + 56) ip pagetable sz s
            else if ph_memsz ph < ph_filesz ph then Ok (False, sz) s
            else if ph_vaddr ph + ph_memsz ph < ph_vaddr ph then Ok (False, sz) s
            else if ph_vaddr ph mod PGSIZE \<noteq> 0 then Ok (False, sz) s
            else
              andthen (uvmalloc pagetable sz (ph_vaddr ph + ph_memsz ph) (flags2perm (ph_flags ph)) s) (\<lambda>sz1 s.
                if sz1 = 0 then Ok (False, sz) s
                else
                  andthen (loadseg pagetable (ph_vaddr ph) ip (ucast (ph_off ph)) (ucast (ph_filesz ph)) s) (\<lambda>r s.
                    if r < 0 then Ok (False, sz1) s
                    else exec_load k (off + 56) ip pagetable sz1 s)))"

text \<open>A string in kernel memory with its NUL.\<close>

definition str_at :: "u64 \<Rightarrow> 'a kmem_scheme \<Rightarrow> ('a kmem_scheme, u8 list) res" where
  "str_at a s =
     (case strlen (at_addr (mem s) a) of
        None \<Rightarrow> Fault ''strlen'' | Some n \<Rightarrow> Ok (mem_bytes (mem s) a (Suc n)) s)"

text \<open>The loop that pushes the argument strings; \<open>ustack\<close> are their addresses so far. It returns the
  stack pointer and the addresses, or \<open>None\<close> for \<^verbatim>\<open>goto bad\<close>.\<close>

fun exec_args ::
  "u64 list \<Rightarrow> u64 \<Rightarrow> u64 \<Rightarrow> u64 \<Rightarrow> u64 list \<Rightarrow> 'a kproc_scheme \<Rightarrow> ('a kproc_scheme, (u64 \<times> u64 list) option) res" where
  "exec_args [] pagetable stackbase sp ustack s = Ok (Some (sp, ustack)) s"
| "exec_args (a # argv) pagetable stackbase sp ustack s =
     (if length ustack \<ge> MAXARG then Ok None s
      else
        andthen (str_at a s) (\<lambda>str s.
        let sp = sp - of_nat (length str);
            sp = sp - sp mod 16
        in if sp < stackbase then Ok None s
           else
             andthen (copyout (cur_pagetable s) pagetable sp str s) (\<lambda>r s.
               if r < 0 then Ok None s
               else exec_args argv pagetable stackbase sp (ustack @ [sp]) s)))"

text \<open>The label \<^verbatim>\<open>bad\<close>.\<close>

definition exec_bad :: "u64 \<Rightarrow> u64 \<Rightarrow> nat option \<Rightarrow> 'a kfs_scheme \<Rightarrow> ('a kfs_scheme, int) res" where
  "exec_bad pagetable sz ip s =
     andthen (if pagetable \<noteq> 0 then proc_freepagetable pagetable sz s else Ok () s) (\<lambda>_ s.
       case ip of
         None \<Rightarrow> Ok (- 1) s
       | Some ip \<Rightarrow>
           andthen (iunlockput ip s) (\<lambda>_ s.
           andthen (end_op s) (\<lambda>_ s. Ok (- 1) s)))"

text \<open>The name of the program: what follows the last slash of the path.\<close>

definition path_last :: "u8 list \<Rightarrow> u8 list" where
  "path_last path = rev (takeWhile (\<lambda>c. c \<noteq> slash) (rev path))"

text \<open>The second half of \<^verbatim>\<open>exec\<close>, once the program is loaded and the inode is released.\<close>

definition exec_stack ::
  "u8 list \<Rightarrow> u64 list \<Rightarrow> elfhdr \<Rightarrow> u64 \<Rightarrow> u64 \<Rightarrow> 'a kfs_scheme \<Rightarrow> ('a kfs_scheme, int) res" where
  "exec_stack path argv elf pagetable sz s =
     andthen (myproc s) (\<lambda>p s.
     let oldsz = p_sz (procs s p); sz = PGROUNDUP sz; k = of_nat (USERSTACK + 1) * PGSIZE
     in andthen (uvmalloc pagetable sz (sz + k) PTE_W s) (\<lambda>sz1 s.
        if sz1 = 0 then exec_bad pagetable sz None s
        else
          let sz = sz1
          in andthen (uvmclear pagetable (sz - k) s) (\<lambda>_ s.
             let stackbase = sz - of_nat USERSTACK * PGSIZE
             in andthen (exec_args argv pagetable stackbase sz [] s) (\<lambda>r s.
                case r of
                  None \<Rightarrow> exec_bad pagetable sz None s
                | Some (sp, ustack) \<Rightarrow>
                    if length ustack \<ge> MAXARG then Fault ''exec: ustack''
                    else
                      let argc = length ustack;
                          sp = sp - of_nat (argc + 1) * 8;
                          sp = sp - sp mod 16
                      in if sp < stackbase then exec_bad pagetable sz None s
                         else
                           andthen (copyout (cur_pagetable s) pagetable sp (concat (map (word_le 8) (ustack @ [0]))) s)
                             (\<lambda>r s.
                               if r < 0 then exec_bad pagetable sz None s
                               else
                                 let s = tf_set p (TF_a 1) sp s;
                                     s = upd_proc p (\<lambda>x. x\<lparr>p_name := safestrcpy (p_name x) (of_buf (path_last path)) 16\<rparr>) s;
                                     oldpagetable = p_pagetable (procs s p);
                                     s = upd_proc p (\<lambda>x. x\<lparr>p_pagetable := pagetable, p_sz := sz\<rparr>) s;
                                     s = tf_set p TF_epc (e_entry elf) s;
                                     s = tf_set p TF_sp sp s
                                 in andthen (proc_freepagetable oldpagetable oldsz s) (\<lambda>_ s. Ok (int argc) s))))))"

definition exec :: "u8 list \<Rightarrow> u64 list \<Rightarrow> 'a kfs_scheme \<Rightarrow> ('a kfs_scheme, int) res" where
  "exec path argv s =
     andthen (myproc s) (\<lambda>p s.
     andthen (begin_op s) (\<lambda>_ s.
     andthen (namei path s) (\<lambda>r s.
       case r of
         None \<Rightarrow> andthen (end_op s) (\<lambda>_ s. Ok (- 1) s)
       | Some ip \<Rightarrow>
           andthen (ilock ip s) (\<lambda>_ s.
           andthen (readi ip (Bdst []) 0 64 s) (\<lambda>(r, d) s.
             if r \<noteq> 64 then exec_bad 0 0 (Some ip) s
             else
               let elf = elfhdr_of (kdst_bytes d)
               in if e_magic elf \<noteq> ELF_MAGIC then exec_bad 0 0 (Some ip) s
                  else
                    andthen (proc_pagetable p s) (\<lambda>pagetable s.
                      if pagetable = 0 then exec_bad 0 0 (Some ip) s
                      else
                        andthen (exec_load (unat (e_phnum elf)) (ucast (e_phoff elf)) ip pagetable 0 s) (\<lambda>(ok, sz) s.
                          if \<not> ok then exec_bad pagetable sz (Some ip) s
                          else
                            andthen (iunlockput ip s) (\<lambda>_ s.
                            andthen (end_op s) (\<lambda>_ s.
                            exec_stack path argv elf pagetable sz s))))))))) "

end
