(* ===== verification/Virtio.thy ===== *)
theory Virtio
  imports Process
begin

text \<open>
  The disk driver of \<^verbatim>\<open>kernel/virtio_disk.c\<close>. The descriptor table and the two rings are arrays of the
  state; a descriptor refers to a command header, to the data of a buffer or to a status byte. The
  memory-mapped registers are read from \<open>vd_mmio\<close>, and \<open>vd_writes\<close> records the writes to them in order;
  \<open>vd_refused\<close> are the status bits the device does not accept. \<^verbatim>\<open>virtio_disk_rw\<close> is split at its sleep:
  \<open>rw_submit\<close> queues a request and \<open>rw_wait\<close> is the loop that waits for its completion.
\<close>

definition NUM :: nat where "NUM = 8"

datatype dma = Dma_null | Dma_op nat | Dma_data nat | Dma_status nat

record virtq_desc =
  vq_addr :: dma
  vq_len :: u32
  vq_flags :: u16
  vq_next :: u16

record virtio_blk_req =
  rq_type :: u32
  rq_reserved :: u32
  rq_sector :: u64

record kvirt = kfile +
  vd_mmio :: "u32 \<Rightarrow> u32"
  vd_writes :: "(u32 \<times> u32) list"
  vd_refused :: u32
  vd_desc_page :: u64
  vd_avail_page :: u64
  vd_used_page :: u64
  vd_desc :: "nat \<Rightarrow> virtq_desc"
  vd_avail_idx :: u16
  vd_avail_ring :: "nat \<Rightarrow> u16"
  vd_dev_used_idx :: u16
  vd_used_ring :: "nat \<Rightarrow> u32"
  vd_free :: "nat \<Rightarrow> bool"
  vd_used_idx :: u16
  vd_info_b :: "nat \<Rightarrow> nat option"
  vd_info_status :: "nat \<Rightarrow> u8"
  vd_ops :: "nat \<Rightarrow> virtio_blk_req"

definition VRING_DESC_F_NEXT :: u16 where "VRING_DESC_F_NEXT = 1"
definition VRING_DESC_F_WRITE :: u16 where "VRING_DESC_F_WRITE = 2"
definition VIRTIO_BLK_T_IN :: u32 where "VIRTIO_BLK_T_IN = 0"
definition VIRTIO_BLK_T_OUT :: u32 where "VIRTIO_BLK_T_OUT = 1"
definition VIRTIO_MMIO_MAGIC_VALUE :: u32 where "VIRTIO_MMIO_MAGIC_VALUE = 0x000"
definition VIRTIO_MMIO_VERSION :: u32 where "VIRTIO_MMIO_VERSION = 0x004"
definition VIRTIO_MMIO_DEVICE_ID :: u32 where "VIRTIO_MMIO_DEVICE_ID = 0x008"
definition VIRTIO_MMIO_VENDOR_ID :: u32 where "VIRTIO_MMIO_VENDOR_ID = 0x00c"
definition VIRTIO_MMIO_DEVICE_FEATURES :: u32 where "VIRTIO_MMIO_DEVICE_FEATURES = 0x010"
definition VIRTIO_MMIO_DRIVER_FEATURES :: u32 where "VIRTIO_MMIO_DRIVER_FEATURES = 0x020"
definition VIRTIO_MMIO_QUEUE_SEL :: u32 where "VIRTIO_MMIO_QUEUE_SEL = 0x030"
definition VIRTIO_MMIO_QUEUE_NUM_MAX :: u32 where "VIRTIO_MMIO_QUEUE_NUM_MAX = 0x034"
definition VIRTIO_MMIO_QUEUE_NUM :: u32 where "VIRTIO_MMIO_QUEUE_NUM = 0x038"
definition VIRTIO_MMIO_QUEUE_READY :: u32 where "VIRTIO_MMIO_QUEUE_READY = 0x044"
definition VIRTIO_MMIO_QUEUE_NOTIFY :: u32 where "VIRTIO_MMIO_QUEUE_NOTIFY = 0x050"
definition VIRTIO_MMIO_INTERRUPT_STATUS :: u32 where "VIRTIO_MMIO_INTERRUPT_STATUS = 0x060"
definition VIRTIO_MMIO_INTERRUPT_ACK :: u32 where "VIRTIO_MMIO_INTERRUPT_ACK = 0x064"
definition VIRTIO_MMIO_STATUS :: u32 where "VIRTIO_MMIO_STATUS = 0x070"
definition VIRTIO_MMIO_QUEUE_DESC_LOW :: u32 where "VIRTIO_MMIO_QUEUE_DESC_LOW = 0x080"
definition VIRTIO_MMIO_QUEUE_DESC_HIGH :: u32 where "VIRTIO_MMIO_QUEUE_DESC_HIGH = 0x084"
definition VIRTIO_MMIO_DRIVER_DESC_LOW :: u32 where "VIRTIO_MMIO_DRIVER_DESC_LOW = 0x090"
definition VIRTIO_MMIO_DRIVER_DESC_HIGH :: u32 where "VIRTIO_MMIO_DRIVER_DESC_HIGH = 0x094"
definition VIRTIO_MMIO_DEVICE_DESC_LOW :: u32 where "VIRTIO_MMIO_DEVICE_DESC_LOW = 0x0a0"
definition VIRTIO_MMIO_DEVICE_DESC_HIGH :: u32 where "VIRTIO_MMIO_DEVICE_DESC_HIGH = 0x0a4"
definition VIRTIO_CONFIG_S_ACKNOWLEDGE :: u32 where "VIRTIO_CONFIG_S_ACKNOWLEDGE = 1"
definition VIRTIO_CONFIG_S_DRIVER :: u32 where "VIRTIO_CONFIG_S_DRIVER = 2"
definition VIRTIO_CONFIG_S_DRIVER_OK :: u32 where "VIRTIO_CONFIG_S_DRIVER_OK = 4"
definition VIRTIO_CONFIG_S_FEATURES_OK :: u32 where "VIRTIO_CONFIG_S_FEATURES_OK = 8"

text \<open>The feature bits the driver declines.\<close>

definition declined_features :: "nat list" where
  "declined_features = [5, 7, 11, 12, 27, 29, 28]"

section \<open>Initialisation\<close>

definition mmio_w :: "u32 \<Rightarrow> u32 \<Rightarrow> 'a kvirt_scheme \<Rightarrow> 'a kvirt_scheme" where
  "mmio_w r v s =
     s\<lparr>vd_mmio := (vd_mmio s)(r := (if r = VIRTIO_MMIO_STATUS then v AND NOT (vd_refused s) else v)),
       vd_writes := vd_writes s @ [(r, v)]\<rparr>"

definition virtio_features :: "u32 \<Rightarrow> u32" where
  "virtio_features f = fold (\<lambda>b f. f AND NOT (push_bit b 1)) declined_features f"

definition zero_desc :: virtq_desc where
  "zero_desc = \<lparr>vq_addr = Dma_null, vq_len = 0, vq_flags = 0, vq_next = 0\<rparr>"

text \<open>The queue set-up, after the checks of the device.\<close>

definition virtio_queue_init :: "u32 \<Rightarrow> 'a kvirt_scheme \<Rightarrow> ('a kvirt_scheme, unit) res" where
  "virtio_queue_init status s =
     (case kalloc s of (d, s) \<Rightarrow> (case kalloc s of (a, s) \<Rightarrow> (case kalloc s of (u, s) \<Rightarrow>
        if d = 0 \<or> a = 0 \<or> u = 0 then Panic ''virtio disk kalloc''
        else
          let s = s\<lparr>vd_desc_page := d, vd_avail_page := a, vd_used_page := u,
                    mem := memset (memset (memset (mem s) d 0 4096) a 0 4096) u 0 4096,
                    vd_desc := (\<lambda>_. zero_desc), vd_avail_idx := 0, vd_avail_ring := (\<lambda>_. 0),
                    vd_dev_used_idx := 0, vd_used_ring := (\<lambda>_. 0)\<rparr>;
              s = mmio_w VIRTIO_MMIO_QUEUE_NUM (of_nat NUM) s;
              s = mmio_w VIRTIO_MMIO_QUEUE_DESC_LOW (ucast d) s;
              s = mmio_w VIRTIO_MMIO_QUEUE_DESC_HIGH (ucast (drop_bit 32 d)) s;
              s = mmio_w VIRTIO_MMIO_DRIVER_DESC_LOW (ucast a) s;
              s = mmio_w VIRTIO_MMIO_DRIVER_DESC_HIGH (ucast (drop_bit 32 a)) s;
              s = mmio_w VIRTIO_MMIO_DEVICE_DESC_LOW (ucast u) s;
              s = mmio_w VIRTIO_MMIO_DEVICE_DESC_HIGH (ucast (drop_bit 32 u)) s;
              s = mmio_w VIRTIO_MMIO_QUEUE_READY 1 s;
              s = s\<lparr>vd_free := (\<lambda>i. if i < NUM then True else vd_free s i)\<rparr>
          in Ok () (mmio_w VIRTIO_MMIO_STATUS (status OR VIRTIO_CONFIG_S_DRIVER_OK) s))))"

definition virtio_disk_init :: "'a kvirt_scheme \<Rightarrow> ('a kvirt_scheme, unit) res" where
  "virtio_disk_init s =
     (if vd_mmio s VIRTIO_MMIO_MAGIC_VALUE \<noteq> 0x74726976 \<or> vd_mmio s VIRTIO_MMIO_VERSION \<noteq> 2 \<or>
         vd_mmio s VIRTIO_MMIO_DEVICE_ID \<noteq> 2 \<or> vd_mmio s VIRTIO_MMIO_VENDOR_ID \<noteq> 0x554d4551
      then Panic ''could not find virtio disk''
      else
        let s = mmio_w VIRTIO_MMIO_STATUS 0 s;
            status = VIRTIO_CONFIG_S_ACKNOWLEDGE;
            s = mmio_w VIRTIO_MMIO_STATUS status s;
            status = status OR VIRTIO_CONFIG_S_DRIVER;
            s = mmio_w VIRTIO_MMIO_STATUS status s;
            features = virtio_features (vd_mmio s VIRTIO_MMIO_DEVICE_FEATURES);
            s = mmio_w VIRTIO_MMIO_DRIVER_FEATURES features s;
            status = status OR VIRTIO_CONFIG_S_FEATURES_OK;
            s = mmio_w VIRTIO_MMIO_STATUS status s;
            status = vd_mmio s VIRTIO_MMIO_STATUS
        in if status AND VIRTIO_CONFIG_S_FEATURES_OK = 0 then Panic ''virtio disk FEATURES_OK unset''
           else
             let s = mmio_w VIRTIO_MMIO_QUEUE_SEL 0 s
             in if vd_mmio s VIRTIO_MMIO_QUEUE_READY \<noteq> 0 then Panic ''virtio disk should not be ready''
                else
                  let qmax = vd_mmio s VIRTIO_MMIO_QUEUE_NUM_MAX
                  in if qmax = 0 then Panic ''virtio disk has no queue 0''
                     else if qmax < of_nat NUM then Panic ''virtio disk max queue too short''
                     else virtio_queue_init status s)"

section \<open>Descriptors\<close>

definition alloc_desc :: "'a kvirt_scheme \<Rightarrow> nat option \<times> 'a kvirt_scheme" where
  "alloc_desc s =
     (case List.find (vd_free s) [0..<NUM] of
        None \<Rightarrow> (None, s)
      | Some i \<Rightarrow> (Some i, s\<lparr>vd_free := (vd_free s)(i := False)\<rparr>))"

definition free_desc :: "nat \<Rightarrow> 'a kvirt_scheme \<Rightarrow> ('a kvirt_scheme, unit) res" where
  "free_desc i s =
     (if i \<ge> NUM then Panic ''free_desc 1''
      else if vd_free s i then Panic ''free_desc 2''
      else Ok () (wakeup Chan_disk_free
             (s\<lparr>vd_desc := (vd_desc s)(i := zero_desc), vd_free := (vd_free s)(i := True)\<rparr>)))"

definition busy_descs :: "'a kvirt_scheme \<Rightarrow> nat" where
  "busy_descs s = card {i. i < NUM \<and> \<not> vd_free s i}"

lemma free_desc_busy:
  assumes "free_desc i s = Ok x t"
  shows "busy_descs t < busy_descs s"
proof -
  have i: "i < NUM" "\<not> vd_free s i" and t: "vd_free t = (vd_free s)(i := True)"
    using assms by (auto simp: free_desc_def wakeup_eq split: if_splits)
  have "{j. j < NUM \<and> \<not> vd_free t j} \<subset> {j. j < NUM \<and> \<not> vd_free s j}" using i t by auto
  then show ?thesis unfolding busy_descs_def by (intro psubset_card_mono) auto
qed

function free_chain :: "nat \<Rightarrow> 'a kvirt_scheme \<Rightarrow> ('a kvirt_scheme, unit) res" where
  "free_chain i s =
     (let flag = vq_flags (vd_desc s i); nxt = vq_next (vd_desc s i)
      in andthen (free_desc i s) (\<lambda>_ s.
           if flag AND VRING_DESC_F_NEXT \<noteq> 0 then free_chain (unat nxt) s else Ok () s))"
  by (pat_completeness, simp)
termination
  by (relation "measure (\<lambda>(i, s). busy_descs s)") (simp_all add: free_desc_busy)

declare free_chain.simps [simp del]

definition free_descs :: "nat list \<Rightarrow> 'a kvirt_scheme \<Rightarrow> ('a kvirt_scheme, unit) res" where
  "free_descs is s = for_each is free_desc s"

text \<open>\<open>alloc3_desc\<close> returns the three indices, or nothing after freeing those it got.\<close>

primrec alloc_descs :: "nat \<Rightarrow> nat list \<Rightarrow> 'a kvirt_scheme \<Rightarrow> ('a kvirt_scheme, nat list option) res" where
  "alloc_descs 0 idx s = Ok (Some idx) s"
| "alloc_descs (Suc k) idx s =
     (case alloc_desc s of
        (None, s) \<Rightarrow> andthen (free_descs idx s) (\<lambda>_ s. Ok None s)
      | (Some i, s) \<Rightarrow> alloc_descs k (idx @ [i]) s)"

definition alloc3_desc :: "'a kvirt_scheme \<Rightarrow> ('a kvirt_scheme, nat list option) res" where
  "alloc3_desc s = alloc_descs 3 [] s"

section \<open>Requests\<close>

definition upd_desc :: "nat \<Rightarrow> virtq_desc \<Rightarrow> 'a kvirt_scheme \<Rightarrow> 'a kvirt_scheme" where
  "upd_desc i d s = s\<lparr>vd_desc := (vd_desc s)(i := d)\<rparr>"

definition rw_format :: "nat list \<Rightarrow> nat \<Rightarrow> bool \<Rightarrow> 'a kvirt_scheme \<Rightarrow> 'a kvirt_scheme" where
  "rw_format idx b write s =
     (let i0 = idx ! 0; i1 = idx ! 1; i2 = idx ! 2;
          sector = ucast (b_blockno (bufs s b) * of_nat (BSIZE div 512) :: u32);
          s = s\<lparr>vd_ops := (vd_ops s)(i0 := \<lparr>rq_type = (if write then VIRTIO_BLK_T_OUT else VIRTIO_BLK_T_IN),
                 rq_reserved = 0, rq_sector = sector\<rparr>)\<rparr>;
          s = upd_desc i0 \<lparr>vq_addr = Dma_op i0, vq_len = 16, vq_flags = VRING_DESC_F_NEXT, vq_next = of_nat i1\<rparr> s;
          s = upd_desc i1 \<lparr>vq_addr = Dma_data b, vq_len = of_nat BSIZE,
                vq_flags = (if write then 0 else VRING_DESC_F_WRITE) OR VRING_DESC_F_NEXT, vq_next = of_nat i2\<rparr> s;
          s = s\<lparr>vd_info_status := (vd_info_status s)(i0 := 0xff)\<rparr>;
          s = upd_desc i2 \<lparr>vq_addr = Dma_status i0, vq_len = 1, vq_flags = VRING_DESC_F_WRITE, vq_next = 0\<rparr> s;
          s = upd_buf b (\<lambda>x. x\<lparr>b_disk := True\<rparr>) s;
          s = s\<lparr>vd_info_b := (vd_info_b s)(i0 := Some b)\<rparr>;
          s = s\<lparr>vd_avail_ring := (vd_avail_ring s)(unat (vd_avail_idx s) mod NUM := of_nat i0)\<rparr>;
          s = s\<lparr>vd_avail_idx := vd_avail_idx s + 1\<rparr>
      in mmio_w VIRTIO_MMIO_QUEUE_NOTIFY 0 s)"

definition rw_submit :: "nat \<Rightarrow> bool \<Rightarrow> 'a kvirt_scheme \<Rightarrow> ('a kvirt_scheme, nat) res" where
  "rw_submit b write s =
     andthen (alloc3_desc s) (\<lambda>r s.
       case r of
         None \<Rightarrow> sleep Chan_disk_free s
       | Some idx \<Rightarrow> Ok (idx ! 0) (rw_format idx b write s))"

definition rw_wait :: "nat \<Rightarrow> nat \<Rightarrow> 'a kvirt_scheme \<Rightarrow> ('a kvirt_scheme, unit) res" where
  "rw_wait b i0 s =
     (if b_disk (bufs s b) then sleep (Chan_buf b) s
      else free_chain i0 (s\<lparr>vd_info_b := (vd_info_b s)(i0 := None)\<rparr>))"

definition virtio_disk_rw :: "nat \<Rightarrow> bool \<Rightarrow> 'a kvirt_scheme \<Rightarrow> ('a kvirt_scheme, unit) res" where
  "virtio_disk_rw b write s = andthen (rw_submit b write s) (\<lambda>i0 s. rw_wait b i0 s)"

text \<open>The loop of the interrupt handler over the used ring. \<^verbatim>\<open>disk.info[id].b\<close> of an unknown \<^verbatim>\<open>id\<close> is null.\<close>

function intr_loop :: "u16 \<Rightarrow> 'a kvirt_scheme \<Rightarrow> ('a kvirt_scheme, unit) res" where
  "intr_loop dev_idx s =
     (if vd_used_idx s \<noteq> dev_idx then
        let id = unat (vd_used_ring s (unat (vd_used_idx s) mod NUM))
        in if vd_info_status s id \<noteq> 0 then Panic ''virtio_disk_intr status''
           else
             (case vd_info_b s id of
                None \<Rightarrow> Fault ''virtio_disk_intr: null buffer''
              | Some b \<Rightarrow>
                  let s = wakeup (Chan_buf b) (upd_buf b (\<lambda>x. x\<lparr>b_disk := False\<rparr>) s)
                  in intr_loop dev_idx (s\<lparr>vd_used_idx := vd_used_idx s + 1\<rparr>))
      else Ok () s)"
  by (pat_completeness, simp)
termination
proof (relation "measure (\<lambda>(dev_idx, s). unat (dev_idx - vd_used_idx s))")
  fix dev_idx :: u16 and s t :: "'a kvirt_scheme" and x b
  assume "vd_used_idx s \<noteq> dev_idx" and t: "t = wakeup (Chan_buf b) (upd_buf b (\<lambda>x. x\<lparr>b_disk := False\<rparr>) s)"
  have "unat (dev_idx - (vd_used_idx s + 1)) < unat (dev_idx - vd_used_idx s)"
    using \<open>vd_used_idx s \<noteq> dev_idx\<close> unat_minus_one [of "dev_idx - vd_used_idx s"]
    by (simp add: unat_gt_0 diff_diff_add)
  then show "((dev_idx, t\<lparr>vd_used_idx := vd_used_idx t + 1\<rparr>), dev_idx, s)
      \<in> measure (\<lambda>(dev_idx, s). unat (dev_idx - vd_used_idx s))"
    unfolding t by (simp add: wakeup_eq upd_buf_def)
qed simp

declare intr_loop.simps [simp del]

definition virtio_disk_intr :: "'a kvirt_scheme \<Rightarrow> ('a kvirt_scheme, unit) res" where
  "virtio_disk_intr s =
     (let s = mmio_w VIRTIO_MMIO_INTERRUPT_ACK (vd_mmio s VIRTIO_MMIO_INTERRUPT_STATUS AND 3) s
      in intr_loop (vd_dev_used_idx s) s)"

end
