(* ===== verification/Syscall.thy ===== *)
theory Syscall
  imports Process
begin

text \<open>
  System calls: the fetching of arguments and the dispatch of \<^verbatim>\<open>kernel/syscall.c\<close>, the process calls of
  \<^verbatim>\<open>kernel/sysproc.c\<close> and the file calls of \<^verbatim>\<open>kernel/sysfile.c\<close>. Arguments are the saved user registers
  of the current process. A handler returns the 64-bit value stored in \<^verbatim>\<open>a0\<close>.
\<close>

section \<open>Arguments\<close>

definition MAXPATH :: nat where "MAXPATH = 128"

definition fetchaddr :: "u64 \<Rightarrow> 'a kproc_scheme \<Rightarrow> ('a kproc_scheme, int \<times> u64) res" where
  "fetchaddr addr s =
     andthen (myproc s) (\<lambda>p s.
       if addr \<ge> p_sz (procs s p) \<or> addr + 8 > p_sz (procs s p) then Ok (- 1, 0) s
       else
         andthen (copyin (p_pagetable (procs s p)) addr 8 s) (\<lambda>(r, bs) s.
           if r \<noteq> 0 then Ok (- 1, 0) s else Ok (0, le_word bs) s))"

text \<open>\<^verbatim>\<open>fetchstr\<close> returns the length, or -1, and the bytes it stored in the buffer.\<close>

definition fetchstr :: "u64 \<Rightarrow> nat \<Rightarrow> 'a kproc_scheme \<Rightarrow> ('a kproc_scheme, int \<times> u8 list) res" where
  "fetchstr addr max_len s =
     andthen (myproc s) (\<lambda>p s.
     andthen (copyinstr (p_pagetable (procs s p)) addr max_len s) (\<lambda>(r, bs) s.
       if r < 0 then Ok (- 1, bs) s
       else Ok (int (length (takeWhile (\<lambda>b. b \<noteq> 0) bs)), bs) s))"

definition argraw :: "nat \<Rightarrow> 'a kproc_scheme \<Rightarrow> ('a kproc_scheme, u64) res" where
  "argraw n s =
     andthen (myproc s) (\<lambda>p s. if n \<le> 5 then Ok (tf_get p (TF_a n) s) s else Panic ''argraw'')"

definition argint :: "nat \<Rightarrow> 'a kproc_scheme \<Rightarrow> ('a kproc_scheme, int) res" where
  "argint n s = andthen (argraw n s) (\<lambda>w s. Ok (to_int w) s)"

definition argaddr :: "nat \<Rightarrow> 'a kproc_scheme \<Rightarrow> ('a kproc_scheme, u64) res" where
  "argaddr n s = argraw n s"

text \<open>\<^verbatim>\<open>argstr\<close> into a buffer of \<open>max_len\<close> bytes: the result of \<^verbatim>\<open>fetchstr\<close> and the string before its NUL.\<close>

definition argstr :: "nat \<Rightarrow> nat \<Rightarrow> 'a kproc_scheme \<Rightarrow> ('a kproc_scheme, int \<times> u8 list) res" where
  "argstr n max_len s =
     andthen (argaddr n s) (\<lambda>addr s.
     andthen (fetchstr addr max_len s) (\<lambda>(r, bs) s. Ok (r, takeWhile (\<lambda>b. b \<noteq> 0) bs) s))"

definition of_ret :: "int \<Rightarrow> u64" where
  "of_ret r = word_of_int r"

section \<open>Process calls\<close>

definition sys_exit :: "'a kfile_scheme \<Rightarrow> ('a kfile_scheme, u64) res" where
  "sys_exit s = andthen (argint 0 s) (\<lambda>n s. exit n s)"

definition sys_getpid :: "'a kfile_scheme \<Rightarrow> ('a kfile_scheme, u64) res" where
  "sys_getpid s = andthen (myproc s) (\<lambda>p s. Ok (of_ret (p_pid (procs s p))) s)"

definition sys_fork :: "'a kfile_scheme \<Rightarrow> ('a kfile_scheme, u64) res" where
  "sys_fork s = andthen (fork s) (\<lambda>r s. Ok (of_ret r) s)"

definition sys_wait :: "'a kfile_scheme \<Rightarrow> ('a kfile_scheme, u64) res" where
  "sys_wait s = andthen (argaddr 0 s) (\<lambda>p s. andthen (wait p s) (\<lambda>r s. Ok (of_ret r) s))"

definition sys_sbrk :: "'a kfile_scheme \<Rightarrow> ('a kfile_scheme, u64) res" where
  "sys_sbrk s =
     andthen (argint 0 s) (\<lambda>n s.
     andthen (myproc s) (\<lambda>p s.
     let addr = p_sz (procs s p)
     in andthen (growproc n s) (\<lambda>r s. if r < 0 then Ok (of_ret (- 1)) s else Ok addr s)))"

text \<open>The loop of \<^verbatim>\<open>sys_sleep\<close>: one test of its condition, with the tick count at its start.\<close>

definition sys_sleep_loop :: "u32 \<Rightarrow> u32 \<Rightarrow> 'a kfile_scheme \<Rightarrow> ('a kfile_scheme, u64) res" where
  "sys_sleep_loop ticks0 n s =
     (if ticks s - ticks0 < n then
        andthen (myproc s) (\<lambda>p s. if killed p s \<noteq> 0 then Ok (of_ret (- 1)) s else sleep Chan_ticks s)
      else Ok 0 s)"

definition sys_sleep :: "'a kfile_scheme \<Rightarrow> ('a kfile_scheme, u64) res" where
  "sys_sleep s =
     andthen (argint 0 s) (\<lambda>n s.
     let n = (if n < 0 then 0 else n)
     in sys_sleep_loop (ticks s) (word_of_int n) s)"

definition sys_kill :: "'a kfile_scheme \<Rightarrow> ('a kfile_scheme, u64) res" where
  "sys_kill s = andthen (argint 0 s) (\<lambda>pid s. case kill pid s of (r, s) \<Rightarrow> Ok (of_ret r) s)"

definition sys_uptime :: "'a kfile_scheme \<Rightarrow> ('a kfile_scheme, u64) res" where
  "sys_uptime s = Ok (ucast (ticks s)) s"

section \<open>File descriptors\<close>

definition argfd :: "nat \<Rightarrow> 'a kfile_scheme \<Rightarrow> ('a kfile_scheme, (nat \<times> nat) option) res" where
  "argfd n s =
     andthen (argint n s) (\<lambda>fd s.
       if fd < 0 \<or> fd \<ge> int NOFILE then Ok None s
       else
         andthen (myproc s) (\<lambda>p s.
           case p_ofile (procs s p) (nat fd) of None \<Rightarrow> Ok None s | Some f \<Rightarrow> Ok (Some (nat fd, f)) s))"

definition fdalloc :: "nat \<Rightarrow> 'a kfile_scheme \<Rightarrow> ('a kfile_scheme, nat option) res" where
  "fdalloc f s =
     andthen (myproc s) (\<lambda>p s.
       case List.find (\<lambda>fd. p_ofile (procs s p) fd = None) [0..<NOFILE] of
         None \<Rightarrow> Ok None s
       | Some fd \<Rightarrow> Ok (Some fd) (upd_proc p (\<lambda>x. x\<lparr>p_ofile := (p_ofile x)(fd := Some f)\<rparr>) s))"

definition clear_fd :: "nat \<Rightarrow> 'a kfile_scheme \<Rightarrow> ('a kfile_scheme, unit) res" where
  "clear_fd fd s =
     andthen (myproc s) (\<lambda>p s. Ok () (upd_proc p (\<lambda>x. x\<lparr>p_ofile := (p_ofile x)(fd := None)\<rparr>) s))"

definition sys_dup :: "'a kfile_scheme \<Rightarrow> ('a kfile_scheme, u64) res" where
  "sys_dup s =
     andthen (argfd 0 s) (\<lambda>r s.
       case r of
         None \<Rightarrow> Ok (of_ret (- 1)) s
       | Some (_, f) \<Rightarrow>
           andthen (fdalloc f s) (\<lambda>r s.
             case r of
               None \<Rightarrow> Ok (of_ret (- 1)) s
             | Some fd \<Rightarrow> andthen (filedup f s) (\<lambda>_ s. Ok (of_ret (int fd)) s)))"

definition sys_read :: "'a kfile_scheme \<Rightarrow> ('a kfile_scheme, u64) res" where
  "sys_read s =
     andthen (argaddr 1 s) (\<lambda>p s.
     andthen (argint 2 s) (\<lambda>n s.
     andthen (argfd 0 s) (\<lambda>r s.
       case r of
         None \<Rightarrow> Ok (of_ret (- 1)) s
       | Some (_, f) \<Rightarrow> andthen (fileread f p n s) (\<lambda>r s. Ok (of_ret r) s))))"

definition sys_write :: "'a kfile_scheme \<Rightarrow> ('a kfile_scheme, u64) res" where
  "sys_write s =
     andthen (argaddr 1 s) (\<lambda>p s.
     andthen (argint 2 s) (\<lambda>n s.
     andthen (argfd 0 s) (\<lambda>r s.
       case r of
         None \<Rightarrow> Ok (of_ret (- 1)) s
       | Some (_, f) \<Rightarrow> andthen (filewrite f p n s) (\<lambda>r s. Ok (of_ret r) s))))"

definition sys_close :: "'a kfile_scheme \<Rightarrow> ('a kfile_scheme, u64) res" where
  "sys_close s =
     andthen (argfd 0 s) (\<lambda>r s.
       case r of
         None \<Rightarrow> Ok (of_ret (- 1)) s
       | Some (fd, f) \<Rightarrow>
           andthen (clear_fd fd s) (\<lambda>_ s.
           andthen (fileclose f s) (\<lambda>_ s. Ok 0 s)))"

definition sys_fstat :: "'a kfile_scheme \<Rightarrow> ('a kfile_scheme, u64) res" where
  "sys_fstat s =
     andthen (argaddr 1 s) (\<lambda>st s.
     andthen (argfd 0 s) (\<lambda>r s.
       case r of
         None \<Rightarrow> Ok (of_ret (- 1)) s
       | Some (_, f) \<Rightarrow> andthen (filestat f st s) (\<lambda>r s. Ok (of_ret r) s)))"

section \<open>Links and directories\<close>

text \<open>\<^verbatim>\<open>end_op(); return v\<close>, a common ending.\<close>

definition end_return :: "int \<Rightarrow> 'a klog_scheme \<Rightarrow> ('a klog_scheme, u64) res" where
  "end_return v s = andthen (end_op s) (\<lambda>_ s. Ok (of_ret v) s)"

definition add_nlink :: "nat \<Rightarrow> u16 \<Rightarrow> 'a kfs_scheme \<Rightarrow> ('a kfs_scheme, unit) res" where
  "add_nlink ip k s = iupdate ip (upd_inode ip (\<lambda>x. x\<lparr>i_nlink := i_nlink x + k\<rparr>) s)"

text \<open>The label \<^verbatim>\<open>bad\<close> of \<^verbatim>\<open>sys_link\<close>.\<close>

definition link_bad :: "nat \<Rightarrow> 'a kfs_scheme \<Rightarrow> ('a kfs_scheme, u64) res" where
  "link_bad ip s =
     andthen (ilock ip s) (\<lambda>_ s.
     andthen (add_nlink ip (- 1) s) (\<lambda>_ s.
     andthen (iunlockput ip s) (\<lambda>_ s. end_return (- 1) s)))"

definition sys_link :: "'a kfs_scheme \<Rightarrow> ('a kfs_scheme, u64) res" where
  "sys_link s =
     andthen (argstr 0 MAXPATH s) (\<lambda>(r, old) s.
       if r < 0 then Ok (of_ret (- 1)) s
       else
         andthen (argstr 1 MAXPATH s) (\<lambda>(r, new) s.
           if r < 0 then Ok (of_ret (- 1)) s
           else
             andthen (begin_op s) (\<lambda>_ s.
             andthen (namei old s) (\<lambda>r s.
               case r of
                 None \<Rightarrow> end_return (- 1) s
               | Some ip \<Rightarrow>
                   andthen (ilock ip s) (\<lambda>_ s.
                     if i_type (itable s ip) = T_DIR then
                       andthen (iunlockput ip s) (\<lambda>_ s. end_return (- 1) s)
                     else
                       andthen (add_nlink ip 1 s) (\<lambda>_ s.
                       andthen (iunlock ip s) (\<lambda>_ s.
                       andthen (nameiparent new s) (\<lambda>(r, name) s.
                         case r of
                           None \<Rightarrow> link_bad ip s
                         | Some dp \<Rightarrow>
                             andthen (ilock dp s) (\<lambda>_ s.
                             andthen
                               (if i_dev (itable s dp) \<noteq> i_dev (itable s ip) then Ok (- 1) s
                                else dirlink dp (of_buf name) (i_inum (itable s ip)) s)
                               (\<lambda>r s.
                                  if r < 0 then andthen (iunlockput dp s) (\<lambda>_ s. link_bad ip s)
                                  else
                                    andthen (iunlockput dp s) (\<lambda>_ s.
                                    andthen (iput ip s) (\<lambda>_ s. end_return 0 s))))))))))))"

function isdirempty_loop :: "nat \<Rightarrow> nat \<Rightarrow> nat \<Rightarrow> 'a kfs_scheme \<Rightarrow> ('a kfs_scheme, bool) res" where
  "isdirempty_loop dp dsz off s =
     (if off < dsz then
        andthen (read_de ''isdirempty: readi'' dp off s) (\<lambda>de s.
          if de_inum de \<noteq> 0 then Ok False s else isdirempty_loop dp dsz (off + 16) s)
      else Ok True s)"
  by (pat_completeness, simp)
termination
  by (relation "measure (\<lambda>(dp, dsz, off, s). dsz - off)") simp_all

declare isdirempty_loop.simps [simp del]

definition isdirempty :: "nat \<Rightarrow> 'a kfs_scheme \<Rightarrow> ('a kfs_scheme, bool) res" where
  "isdirempty dp s = isdirempty_loop dp (unat (i_size (itable s dp))) (2 * 16) s"

definition unlink_bad :: "nat \<Rightarrow> 'a kfs_scheme \<Rightarrow> ('a kfs_scheme, u64) res" where
  "unlink_bad dp s = andthen (iunlockput dp s) (\<lambda>_ s. end_return (- 1) s)"

definition sys_unlink :: "'a kfs_scheme \<Rightarrow> ('a kfs_scheme, u64) res" where
  "sys_unlink s =
     andthen (argstr 0 MAXPATH s) (\<lambda>(r, path) s.
       if r < 0 then Ok (of_ret (- 1)) s
       else
         andthen (begin_op s) (\<lambda>_ s.
         andthen (nameiparent path s) (\<lambda>(r, name) s.
           case r of
             None \<Rightarrow> end_return (- 1) s
           | Some dp \<Rightarrow>
               andthen (ilock dp s) (\<lambda>_ s.
                 if namecmp (of_buf name) (of_buf (lit ''.'')) = 0 \<or> namecmp (of_buf name) (of_buf (lit ''..'')) = 0
                 then unlink_bad dp s
                 else
                   andthen (dirlookup dp (of_buf name) s) (\<lambda>r s.
                     case r of
                       None \<Rightarrow> unlink_bad dp s
                     | Some (ip, off) \<Rightarrow>
                         andthen (ilock ip s) (\<lambda>_ s.
                           if sint (i_nlink (itable s ip)) < 1 then Panic ''unlink: nlink < 1''
                           else
                             andthen (if i_type (itable s ip) = T_DIR then isdirempty ip s else Ok True s) (\<lambda>e s.
                               if \<not> e then andthen (iunlockput ip s) (\<lambda>_ s. unlink_bad dp s)
                               else
                                 andthen (writei dp (Bsrc (replicate 16 0)) (of_nat off) 16 s) (\<lambda>r s.
                                   if r \<noteq> 16 then Panic ''unlink: writei''
                                   else
                                     andthen (if i_type (itable s ip) = T_DIR then add_nlink dp (- 1) s else Ok () s) (\<lambda>_ s.
                                     andthen (iunlockput dp s) (\<lambda>_ s.
                                     andthen (add_nlink ip (- 1) s) (\<lambda>_ s.
                                     andthen (iunlockput ip s) (\<lambda>_ s. end_return 0 s))))))))))))"

text \<open>The label \<^verbatim>\<open>fail\<close> of \<^verbatim>\<open>create\<close>.\<close>

definition create_fail :: "nat \<Rightarrow> nat \<Rightarrow> 'a kfs_scheme \<Rightarrow> ('a kfs_scheme, nat option) res" where
  "create_fail dp ip s =
     andthen (iupdate ip (upd_inode ip (\<lambda>x. x\<lparr>i_nlink := 0\<rparr>) s)) (\<lambda>_ s.
     andthen (iunlockput ip s) (\<lambda>_ s.
     andthen (iunlockput dp s) (\<lambda>_ s. Ok None s)))"

definition create :: "u8 list \<Rightarrow> u16 \<Rightarrow> u16 \<Rightarrow> u16 \<Rightarrow> 'a kfs_scheme \<Rightarrow> ('a kfs_scheme, nat option) res" where
  "create path type major minor s =
     andthen (nameiparent path s) (\<lambda>(r, name) s.
       case r of
         None \<Rightarrow> Ok None s
       | Some dp \<Rightarrow>
           andthen (ilock dp s) (\<lambda>_ s.
           andthen (dirlookup dp (of_buf name) s) (\<lambda>r s.
             case r of
               Some (ip, off) \<Rightarrow>
                 andthen (iunlockput dp s) (\<lambda>_ s.
                 andthen (ilock ip s) (\<lambda>_ s.
                   if type = T_FILE \<and> (i_type (itable s ip) = T_FILE \<or> i_type (itable s ip) = T_DEVICE)
                   then Ok (Some ip) s
                   else andthen (iunlockput ip s) (\<lambda>_ s. Ok None s)))
             | None \<Rightarrow>
                 andthen (ialloc (i_dev (itable s dp)) type s) (\<lambda>r s.
                   case r of
                     None \<Rightarrow> andthen (iunlockput dp s) (\<lambda>_ s. Ok None s)
                   | Some ip \<Rightarrow>
                       andthen (ilock ip s) (\<lambda>_ s.
                       andthen (iupdate ip (upd_inode ip (\<lambda>x. x\<lparr>i_major := major, i_minor := minor, i_nlink := 1\<rparr>) s)) (\<lambda>_ s.
                       andthen
                         (if type = T_DIR then
                            andthen (dirlink ip (of_buf (lit ''.'')) (i_inum (itable s ip)) s) (\<lambda>r s.
                              if r < 0 then Ok r s
                              else dirlink ip (of_buf (lit ''..'')) (i_inum (itable s dp)) s)
                          else Ok 0 s)
                         (\<lambda>r s.
                            if r < 0 then create_fail dp ip s
                            else
                              andthen (dirlink dp (of_buf name) (i_inum (itable s ip)) s) (\<lambda>r s.
                                if r < 0 then create_fail dp ip s
                                else
                                  andthen (if type = T_DIR then add_nlink dp 1 s else Ok () s) (\<lambda>_ s.
                                  andthen (iunlockput dp s) (\<lambda>_ s. Ok (Some ip) s))))))))))"

section \<open>Opening files\<close>

definition O_RDONLY :: u32 where "O_RDONLY = 0"
definition O_WRONLY :: u32 where "O_WRONLY = 1"
definition O_RDWR :: u32 where "O_RDWR = 2"
definition O_CREATE :: u32 where "O_CREATE = 0x200"
definition O_TRUNC :: u32 where "O_TRUNC = 0x400"

definition open_bad :: "nat \<Rightarrow> 'a kfs_scheme \<Rightarrow> ('a kfs_scheme, u64) res" where
  "open_bad ip s = andthen (iunlockput ip s) (\<lambda>_ s. end_return (- 1) s)"

text \<open>The part of \<^verbatim>\<open>sys_open\<close> after the inode is found and locked.\<close>

definition open_inode :: "nat \<Rightarrow> u32 \<Rightarrow> 'a kfile_scheme \<Rightarrow> ('a kfile_scheme, u64) res" where
  "open_inode ip omode s =
     (if i_type (itable s ip) = T_DEVICE \<and>
         (sint (i_major (itable s ip)) < 0 \<or> sint (i_major (itable s ip)) \<ge> int NDEV) then open_bad ip s
      else
        (case filealloc s of
           (None, s) \<Rightarrow> open_bad ip s
         | (Some f, s) \<Rightarrow>
             andthen (fdalloc f s) (\<lambda>r s.
               case r of
                 None \<Rightarrow> andthen (fileclose f s) (\<lambda>_ s. open_bad ip s)
               | Some fd \<Rightarrow>
                   let s = (if i_type (itable s ip) = T_DEVICE
                            then upd_file f (\<lambda>x. x\<lparr>f_type := FD_DEVICE, f_major := i_major (itable s ip)\<rparr>) s
                            else upd_file f (\<lambda>x. x\<lparr>f_type := FD_INODE, f_off := 0\<rparr>) s);
                       s = upd_file f (\<lambda>x. x\<lparr>f_ip := ip, f_readable := omode AND O_WRONLY = 0,
                             f_writable := omode AND O_WRONLY \<noteq> 0 \<or> omode AND O_RDWR \<noteq> 0\<rparr>) s
                   in andthen
                        (if omode AND O_TRUNC \<noteq> 0 \<and> i_type (itable s ip) = T_FILE then itrunc ip s else Ok () s)
                        (\<lambda>_ s. andthen (iunlock ip s) (\<lambda>_ s. end_return (int fd) s)))))"

definition sys_open :: "'a kfile_scheme \<Rightarrow> ('a kfile_scheme, u64) res" where
  "sys_open s =
     andthen (argraw 1 s) (\<lambda>w s.
     let omode = ucast w :: u32
     in andthen (argstr 0 MAXPATH s) (\<lambda>(r, path) s.
          if r < 0 then Ok (of_ret (- 1)) s
          else
            andthen (begin_op s) (\<lambda>_ s.
              if omode AND O_CREATE \<noteq> 0 then
                andthen (create path T_FILE 0 0 s) (\<lambda>r s.
                  case r of None \<Rightarrow> end_return (- 1) s | Some ip \<Rightarrow> open_inode ip omode s)
              else
                andthen (namei path s) (\<lambda>r s.
                  case r of
                    None \<Rightarrow> end_return (- 1) s
                  | Some ip \<Rightarrow>
                      andthen (ilock ip s) (\<lambda>_ s.
                        if i_type (itable s ip) = T_DIR \<and> omode \<noteq> O_RDONLY then open_bad ip s
                        else open_inode ip omode s)))))"

definition sys_mkdir :: "'a kfs_scheme \<Rightarrow> ('a kfs_scheme, u64) res" where
  "sys_mkdir s =
     andthen (begin_op s) (\<lambda>_ s.
     andthen (argstr 0 MAXPATH s) (\<lambda>(r, path) s.
       if r < 0 then end_return (- 1) s
       else
         andthen (create path T_DIR 0 0 s) (\<lambda>r s.
           case r of
             None \<Rightarrow> end_return (- 1) s
           | Some ip \<Rightarrow> andthen (iunlockput ip s) (\<lambda>_ s. end_return 0 s))))"

definition sys_mknod :: "'a kfs_scheme \<Rightarrow> ('a kfs_scheme, u64) res" where
  "sys_mknod s =
     andthen (begin_op s) (\<lambda>_ s.
     andthen (argint 1 s) (\<lambda>major s.
     andthen (argint 2 s) (\<lambda>minor s.
     andthen (argstr 0 MAXPATH s) (\<lambda>(r, path) s.
       if r < 0 then end_return (- 1) s
       else
         andthen (create path T_DEVICE (word_of_int major) (word_of_int minor) s) (\<lambda>r s.
           case r of
             None \<Rightarrow> end_return (- 1) s
           | Some ip \<Rightarrow> andthen (iunlockput ip s) (\<lambda>_ s. end_return 0 s))))))"

definition sys_chdir :: "'a kfs_scheme \<Rightarrow> ('a kfs_scheme, u64) res" where
  "sys_chdir s =
     andthen (myproc s) (\<lambda>p s.
     andthen (begin_op s) (\<lambda>_ s.
     andthen (argstr 0 MAXPATH s) (\<lambda>(r, path) s.
       if r < 0 then end_return (- 1) s
       else
         andthen (namei path s) (\<lambda>r s.
           case r of
             None \<Rightarrow> end_return (- 1) s
           | Some ip \<Rightarrow>
               andthen (ilock ip s) (\<lambda>_ s.
                 if i_type (itable s ip) \<noteq> T_DIR then andthen (iunlockput ip s) (\<lambda>_ s. end_return (- 1) s)
                 else
                   andthen (iunlock ip s) (\<lambda>_ s.
                   andthen (case p_cwd (procs s p) of None \<Rightarrow> Fault ''chdir: cwd'' | Some cwd \<Rightarrow> iput cwd s) (\<lambda>_ s.
                   andthen (end_op s) (\<lambda>_ s.
                     Ok 0 (upd_proc p (\<lambda>x. x\<lparr>p_cwd := Some ip\<rparr>) s)))))))))"

section \<open>Exec and pipe\<close>

definition kfree_all :: "u64 list \<Rightarrow> 'a kmem_scheme \<Rightarrow> ('a kmem_scheme, unit) res" where
  "kfree_all argv s = for_each argv kfree s"

text \<open>The loop of \<^verbatim>\<open>sys_exec\<close>: whether it ended with the null pointer, and the pages of the arguments.\<close>

function exec_argv :: "u64 \<Rightarrow> u64 list \<Rightarrow> 'a kproc_scheme \<Rightarrow> ('a kproc_scheme, bool \<times> u64 list) res" where
  "exec_argv uargv argv s =
     (if length argv \<ge> MAXARG then Ok (False, argv) s
      else
        andthen (fetchaddr (uargv + 8 * of_nat (length argv)) s) (\<lambda>(r, uarg) s.
          if r < 0 then Ok (False, argv) s
          else if uarg = 0 then Ok (True, argv) s
          else
            (case kalloc s of (page, s) \<Rightarrow>
               if page = 0 then Ok (False, argv) s
               else
                 andthen (fetchstr uarg 4096 s) (\<lambda>(r, bs) s.
                 let s = s\<lparr>mem := put_bytes (mem s) page bs\<rparr>
                 in if r < 0 then Ok (False, argv @ [page]) s
                    else exec_argv uargv (argv @ [page]) s))))"
  by (pat_completeness, simp)
termination
  by (relation "measure (\<lambda>(uargv, argv, s). MAXARG - length argv)") simp_all

declare exec_argv.simps [simp del]

definition sys_exec :: "'a kfs_scheme \<Rightarrow> ('a kfs_scheme, u64) res" where
  "sys_exec s =
     andthen (argaddr 1 s) (\<lambda>uargv s.
     andthen (argstr 0 MAXPATH s) (\<lambda>(r, path) s.
       if r < 0 then Ok (of_ret (- 1)) s
       else
         andthen (exec_argv uargv [] s) (\<lambda>(ok, argv) s.
           if \<not> ok then andthen (kfree_all argv s) (\<lambda>_ s. Ok (of_ret (- 1)) s)
           else
             andthen (exec path argv s) (\<lambda>ret s.
             andthen (kfree_all argv s) (\<lambda>_ s. Ok (of_ret ret) s)))))"

definition pipe_bad :: "nat \<Rightarrow> nat \<Rightarrow> 'a kfile_scheme \<Rightarrow> ('a kfile_scheme, u64) res" where
  "pipe_bad rf0 wf0 s =
     andthen (fileclose rf0 s) (\<lambda>_ s.
     andthen (fileclose wf0 s) (\<lambda>_ s. Ok (of_ret (- 1)) s))"

definition sys_pipe :: "'a kfile_scheme \<Rightarrow> ('a kfile_scheme, u64) res" where
  "sys_pipe s =
     andthen (myproc s) (\<lambda>p s.
     andthen (argaddr 0 s) (\<lambda>fdarray s.
     andthen (pipealloc s) (\<lambda>r s.
       case r of
         None \<Rightarrow> Ok (of_ret (- 1)) s
       | Some (rf0, wf0) \<Rightarrow>
           andthen (fdalloc rf0 s) (\<lambda>r s.
             case r of
               None \<Rightarrow> pipe_bad rf0 wf0 s
             | Some fd0 \<Rightarrow>
                 andthen (fdalloc wf0 s) (\<lambda>r s.
                   case r of
                     None \<Rightarrow> andthen (clear_fd fd0 s) (\<lambda>_ s. pipe_bad rf0 wf0 s)
                   | Some fd1 \<Rightarrow>
                       andthen (copyout (cur_pagetable s) (p_pagetable (procs s p)) fdarray
                         (word_le 4 (of_nat fd0 :: u32)) s) (\<lambda>r s.
                       andthen
                         (if r < 0 then Ok r s
                          else copyout (cur_pagetable s) (p_pagetable (procs s p)) (fdarray + 4)
                                 (word_le 4 (of_nat fd1 :: u32)) s)
                         (\<lambda>r s.
                            if r < 0 then
                              andthen (clear_fd fd0 s) (\<lambda>_ s.
                              andthen (clear_fd fd1 s) (\<lambda>_ s. pipe_bad rf0 wf0 s))
                            else Ok 0 s)))))))"

section \<open>Dispatch\<close>

definition syscalls :: "nat \<Rightarrow> ('a kfile_scheme \<Rightarrow> ('a kfile_scheme, u64) res) option" where
  "syscalls num =
     (if num = 1 then Some sys_fork else if num = 2 then Some sys_exit else if num = 3 then Some sys_wait
      else if num = 4 then Some sys_pipe else if num = 5 then Some sys_read else if num = 6 then Some sys_kill
      else if num = 7 then Some sys_exec else if num = 8 then Some sys_fstat else if num = 9 then Some sys_chdir
      else if num = 10 then Some sys_dup else if num = 11 then Some sys_getpid else if num = 12 then Some sys_sbrk
      else if num = 13 then Some sys_sleep else if num = 14 then Some sys_uptime else if num = 15 then Some sys_open
      else if num = 16 then Some sys_write else if num = 17 then Some sys_mknod else if num = 18 then Some sys_unlink
      else if num = 19 then Some sys_link else if num = 20 then Some sys_mkdir else if num = 21 then Some sys_close
      else None)"

definition syscall :: "'a kfile_scheme \<Rightarrow> ('a kfile_scheme, unit) res" where
  "syscall s =
     andthen (myproc s) (\<lambda>p s.
     let num = to_int (tf_get p (TF_a 7) s)
     in case (if num > 0 then syscalls (nat num) else None) of
          Some f \<Rightarrow> andthen (f s) (\<lambda>v s. Ok () (tf_set p (TF_a 0) v s))
        | None \<Rightarrow>
            andthen (kprintf (''%d %s: unknown sys call %d'' @ [CHR 0x0A])
              [Num (word_of_int (p_pid (procs s p))), Str (Some (name_string (p_name (procs s p)))),
               Num (word_of_int num)] s) (\<lambda>_ s.
            Ok () (tf_set p (TF_a 0) (of_ret (- 1)) s)))"

end
