(* ===== verification/Trap.thy ===== *)
theory Trap
  imports Virtio Syscall
begin

text \<open>
  Traps (\<^verbatim>\<open>kernel/trap.c\<close>), the interrupt controller (\<^verbatim>\<open>kernel/plic.c\<close>), the first run of a process
  (\<^verbatim>\<open>forkret\<close>) and the boot sequence (\<^verbatim>\<open>kernel/main.c\<close>). The state gains the registers of the hart, the
  link-time addresses used in traps and the interrupt controller: \<open>plic_irq\<close> is the number its claim
  register yields, \<open>plic_writes\<close> the writes to its registers. \<^verbatim>\<open>usertrapret\<close> returns the value it passes to
  \<^verbatim>\<open>userret\<close>.
\<close>

record ktrap = kvirt +
  hart :: hart
  kernelvec :: u64
  uservec :: u64
  userret :: u64
  usertrap_addr :: u64
  etext :: u64
  kernel_pagetable :: u64
  first_run :: bool
  started :: bool
  plic_irq :: u32
  plic_writes :: "(u64 \<times> u32) list"

definition on_hart :: "(hart \<Rightarrow> hart) \<Rightarrow> 'a ktrap_scheme \<Rightarrow> 'a ktrap_scheme" where
  "on_hart f s = s\<lparr>hart := f (hart s)\<rparr>"

section \<open>Interrupt controller\<close>

definition UART0_IRQ :: nat where "UART0_IRQ = 10"
definition VIRTIO0_IRQ :: nat where "VIRTIO0_IRQ = 1"
definition PLIC_SENABLE :: "u64 \<Rightarrow> u64" where "PLIC_SENABLE h = PLIC + 0x2080 + h * 0x100"
definition PLIC_SPRIORITY :: "u64 \<Rightarrow> u64" where "PLIC_SPRIORITY h = PLIC + 0x201000 + h * 0x2000"
definition PLIC_SCLAIM :: "u64 \<Rightarrow> u64" where "PLIC_SCLAIM h = PLIC + 0x201004 + h * 0x2000"

definition cpuid :: "'a ktrap_scheme \<Rightarrow> u64" where
  "cpuid s = scast (ucast (r_tp (hart s)) :: u32)"

definition plic_w :: "u64 \<Rightarrow> u32 \<Rightarrow> 'a ktrap_scheme \<Rightarrow> 'a ktrap_scheme" where
  "plic_w a v s = s\<lparr>plic_writes := plic_writes s @ [(a, v)]\<rparr>"

definition plicinit :: "'a ktrap_scheme \<Rightarrow> 'a ktrap_scheme" where
  "plicinit s = plic_w (PLIC + of_nat (VIRTIO0_IRQ * 4)) 1 (plic_w (PLIC + of_nat (UART0_IRQ * 4)) 1 s)"

definition plicinithart :: "'a ktrap_scheme \<Rightarrow> 'a ktrap_scheme" where
  "plicinithart s =
     (let h = cpuid s;
          s = plic_w (PLIC_SENABLE h) (push_bit UART0_IRQ 1 OR push_bit VIRTIO0_IRQ 1) s
      in plic_w (PLIC_SPRIORITY h) 0 s)"

definition plic_claim :: "'a ktrap_scheme \<Rightarrow> u32" where
  "plic_claim s = plic_irq s"

definition plic_complete :: "u32 \<Rightarrow> 'a ktrap_scheme \<Rightarrow> 'a ktrap_scheme" where
  "plic_complete irq s = plic_w (PLIC_SCLAIM (cpuid s)) irq s"

section \<open>Traps\<close>

definition trapinithart :: "'a ktrap_scheme \<Rightarrow> 'a ktrap_scheme" where
  "trapinithart s = on_hart (w_stvec (kernelvec s)) s"

definition clockintr :: "'a ktrap_scheme \<Rightarrow> 'a ktrap_scheme" where
  "clockintr s =
     (let s = (if cpuid s = 0 then wakeup Chan_ticks (s\<lparr>ticks := ticks s + 1\<rparr>) else s)
      in on_hart (\<lambda>h. w_stimecmp (r_time h + 1000000) h) s)"

definition devintr :: "'a ktrap_scheme \<Rightarrow> ('a ktrap_scheme, int) res" where
  "devintr s =
     (let sc = r_scause (hart s)
      in if sc = 0x8000000000000009 then
           let irq = plic_claim s
           in andthen
                (if irq = of_nat UART0_IRQ then uartintr s
                 else if irq = of_nat VIRTIO0_IRQ then virtio_disk_intr s
                 else if irq \<noteq> 0 then kprintf (''unexpected interrupt irq=%d'' @ [CHR 0x0A]) [Num (ucast irq)] s
                 else Ok () s)
                (\<lambda>_ s. Ok 1 (if irq \<noteq> 0 then plic_complete irq s else s))
         else if sc = 0x8000000000000005 then Ok 2 (clockintr s)
         else Ok 0 s)"

definition yield :: "'a kproc_scheme \<Rightarrow> ('a kproc_scheme, 'b) res" where
  "yield s =
     andthen (myproc s) (\<lambda>p s. Switch ((upd_proc p (\<lambda>x. x\<lparr>p_state := RUNNABLE\<rparr>) s)\<lparr>curproc := None\<rparr>))"

definition usertrapret :: "'a ktrap_scheme \<Rightarrow> ('a ktrap_scheme, u64) res" where
  "usertrapret s =
     andthen (myproc s) (\<lambda>p s.
     let s = on_hart intr_off s;
         s = on_hart (w_stvec (TRAMPOLINE + (uservec s - trampoline s))) s;
         s = tf_set p TF_kernel_satp (r_satp (hart s)) s;
         s = tf_set p TF_kernel_sp (p_kstack (procs s p) + PGSIZE) s;
         s = tf_set p TF_kernel_trap (usertrap_addr s) s;
         s = tf_set p TF_kernel_hartid (r_tp (hart s)) s;
         x = r_sstatus (hart s);
         x = x AND NOT SSTATUS_SPP;
         x = x OR SSTATUS_SPIE;
         s = on_hart (w_sstatus x) s;
         s = on_hart (w_sepc (tf_get p TF_epc s)) s
     in Ok (MAKE_SATP (p_pagetable (procs s p))) s)"

text \<open>The part of \<^verbatim>\<open>usertrap\<close> after the cause has been dealt with.\<close>

definition usertrap_end :: "nat \<Rightarrow> int \<Rightarrow> 'a ktrap_scheme \<Rightarrow> ('a ktrap_scheme, u64) res" where
  "usertrap_end p which_dev s =
     (if killed p s \<noteq> 0 then exit (- 1) s
      else if which_dev = 2 then yield s
      else usertrapret s)"

definition usertrap :: "'a ktrap_scheme \<Rightarrow> ('a ktrap_scheme, u64) res" where
  "usertrap s =
     (if r_sstatus (hart s) AND SSTATUS_SPP \<noteq> 0 then Panic ''usertrap: not from user mode''
      else
        let s = on_hart (w_stvec (kernelvec s)) s
        in andthen (myproc s) (\<lambda>p s.
           let s = tf_set p TF_epc (r_sepc (hart s)) s;
               sc = r_scause (hart s)
           in if sc = 8 then
                (if killed p s \<noteq> 0 then exit (- 1) s
                 else
                   let s = tf_set p TF_epc (tf_get p TF_epc s + 4) s;
                       s = on_hart intr_off s
                   in andthen (syscall s) (\<lambda>_ s. usertrap_end p 0 s))
              else
                andthen (devintr s) (\<lambda>which_dev s.
                  if which_dev \<noteq> 0 then usertrap_end p which_dev s
                  else if sc = 15 then
                    andthen (handle_cow_fault (cur_pagetable s) (r_stval (hart s)) s) (\<lambda>r s.
                      if r \<noteq> 0 then
                        andthen (kprintf (''usertrap(): cow page fault failed'' @ [CHR 0x0A]) [] s) (\<lambda>_ s.
                        usertrap_end p 0 (setkilled p s))
                      else usertrap_end p 0 s)
                  else
                    andthen (kprintf (''usertrap(): unexpected scause 0x%lx pid=%d'' @ [CHR 0x0A])
                      [Num sc, Num (word_of_int (p_pid (procs s p)))] s) (\<lambda>_ s.
                    andthen (kprintf (''            sepc=0x%lx stval=0x%lx'' @ [CHR 0x0A])
                      [Num (r_sepc (hart s)), Num (r_stval (hart s))] s) (\<lambda>_ s.
                    usertrap_end p 0 (setkilled p s))))))"

text \<open>
  Both traps call \<^verbatim>\<open>yield\<close>, which ends the run of the thread; when the scheduler takes it up again,
  \<^verbatim>\<open>usertrap\<close> goes on with \<^verbatim>\<open>usertrapret\<close> and \<^verbatim>\<open>kerneltrap\<close> with the restoration of its two registers.
\<close>

definition kerneltrap_return :: "u64 \<Rightarrow> u64 \<Rightarrow> 'a ktrap_scheme \<Rightarrow> 'a ktrap_scheme" where
  "kerneltrap_return epc st s = on_hart (w_sstatus st) (on_hart (w_sepc epc) s)"

definition kerneltrap :: "'a ktrap_scheme \<Rightarrow> ('a ktrap_scheme, unit) res" where
  "kerneltrap s =
     (let epc = r_sepc (hart s); st = r_sstatus (hart s); sc = r_scause (hart s)
      in if st AND SSTATUS_SPP = 0 then Panic ''kerneltrap: not from supervisor mode''
         else if intr_get (hart s) then Panic ''kerneltrap: interrupts enabled''
         else
           andthen (devintr s) (\<lambda>which_dev s.
             if which_dev = 0 then
               andthen (kprintf (''scause=0x%lx sepc=0x%lx stval=0x%lx'' @ [CHR 0x0A])
                 [Num sc, Num (r_sepc (hart s)), Num (r_stval (hart s))] s) (\<lambda>_ s. Panic ''kerneltrap'')
             else if which_dev = 2 \<and> curproc s \<noteq> None then yield s
             else Ok () (kerneltrap_return epc st s)))"

definition forkret :: "'a ktrap_scheme \<Rightarrow> ('a ktrap_scheme, u64) res" where
  "forkret s =
     andthen
       (if first_run s then andthen (fsinit ROOTDEV s) (\<lambda>_ s. Ok () (s\<lparr>first_run := False\<rparr>)) else Ok () s)
       (\<lambda>_ s. usertrapret s)"

section \<open>Boot\<close>

definition kvminit :: "'a ktrap_scheme \<Rightarrow> ('a ktrap_scheme, unit) res" where
  "kvminit s = andthen (kvmmake (etext s) (trampoline s) s) (\<lambda>pt s. Ok () (s\<lparr>kernel_pagetable := pt\<rparr>))"

text \<open>\<^verbatim>\<open>main\<close> on hart 0, up to the scheduler.\<close>

definition main_hart0 :: "'a ktrap_scheme \<Rightarrow> ('a ktrap_scheme, unit) res" where
  "main_hart0 s =
     (let s = consoleinit s
      in andthen (kprintf [CHR 0x0A] [] s) (\<lambda>_ s.
         andthen (kprintf (''xv6 kernel is booting'' @ [CHR 0x0A]) [] s) (\<lambda>_ s.
         andthen (kprintf [CHR 0x0A] [] s) (\<lambda>_ s.
         andthen (kinit s) (\<lambda>_ s.
         andthen (kvminit s) (\<lambda>_ s.
         let s = on_hart (kvminithart (kernel_pagetable s)) s;
             s = procinit s;
             s = trapinithart s;
             s = plicinit s;
             s = plicinithart s;
             s = binit s;
             s = iinit s
         in andthen (virtio_disk_init s) (\<lambda>_ s.
            andthen (userinit s) (\<lambda>_ s. Ok () (s\<lparr>started := True\<rparr>)))))))))"

text \<open>\<^verbatim>\<open>main\<close> on another hart, once it has seen \<open>started\<close>.\<close>

definition main_other :: "'a ktrap_scheme \<Rightarrow> ('a ktrap_scheme, unit) res" where
  "main_other s =
     andthen (kprintf (''hart %d starting'' @ [CHR 0x0A]) [Num (cpuid s)] s) (\<lambda>_ s.
     Ok () (plicinithart (trapinithart (on_hart (kvminithart (kernel_pagetable s)) s))))"

end
