(* ===== verification/Spinlock.thy ===== *)
theory Spinlock
  imports Proc
begin

text \<open>
  Spin locks (\<^verbatim>\<open>kernel/spinlock.c\<close>) on several harts. A lock is named by \<open>lockid\<close>: the locks of the
  process table, and all others by a number. Every operation takes the hart that executes it;
  \<^verbatim>\<open>mycpu()\<close> is found through the hart's \<^verbatim>\<open>tp\<close> register, as in the code. The loop of \<^verbatim>\<open>acquire\<close> is cut at its
  atomic swap: \<open>acquire\<close> returns \<open>True\<close> when the swap took the lock and \<open>False\<close> when the hart still spins.

  The second part interleaves the single memory operations of \<^verbatim>\<open>acquire\<close> and \<^verbatim>\<open>release\<close> on all harts
  (\<open>lstep\<close>), and shows that at most one hart is between the two for each lock.
\<close>

section \<open>Code\<close>

definition NCPU :: nat where "NCPU = 8"

datatype lockid = Lk_proc nat | Lk nat

record spinlock =
  locked :: u32
  lk_name :: string
  lk_cpu :: "nat option"

record cpu =
  c_proc :: "nat option"
  c_context :: kcontext
  noff :: int
  intena :: bool

record smp =
  harts :: "nat \<Rightarrow> hart"
  cpus :: "nat \<Rightarrow> cpu"
  locks :: "lockid \<Rightarrow> spinlock"

definition mycpu :: "nat \<Rightarrow> 'a smp_scheme \<Rightarrow> nat" where
  "mycpu h s = unat (r_tp (harts s h))"

definition upd_hart :: "nat \<Rightarrow> (hart \<Rightarrow> hart) \<Rightarrow> 'a smp_scheme \<Rightarrow> 'a smp_scheme" where
  "upd_hart h f s = s\<lparr>harts := (harts s)(h := f (harts s h))\<rparr>"

definition upd_cpu :: "nat \<Rightarrow> (cpu \<Rightarrow> cpu) \<Rightarrow> 'a smp_scheme \<Rightarrow> 'a smp_scheme" where
  "upd_cpu c f s = s\<lparr>cpus := (cpus s)(c := f (cpus s c))\<rparr>"

definition upd_lock :: "lockid \<Rightarrow> (spinlock \<Rightarrow> spinlock) \<Rightarrow> 'a smp_scheme \<Rightarrow> 'a smp_scheme" where
  "upd_lock l f s = s\<lparr>locks := (locks s)(l := f (locks s l))\<rparr>"

definition initlock :: "lockid \<Rightarrow> string \<Rightarrow> 'a smp_scheme \<Rightarrow> 'a smp_scheme" where
  "initlock l nm s = upd_lock l (\<lambda>x. x\<lparr>lk_name := nm, locked := 0, lk_cpu := None\<rparr>) s"

definition holding :: "nat \<Rightarrow> lockid \<Rightarrow> 'a smp_scheme \<Rightarrow> bool" where
  "holding h l s \<longleftrightarrow> locked (locks s l) \<noteq> 0 \<and> lk_cpu (locks s l) = Some (mycpu h s)"

definition push_off :: "nat \<Rightarrow> 'a smp_scheme \<Rightarrow> 'a smp_scheme" where
  "push_off h s =
     (let old = intr_get (harts s h);
          s = upd_hart h intr_off s;
          s = (if noff (cpus s (mycpu h s)) = 0 then upd_cpu (mycpu h s) (\<lambda>c. c\<lparr>intena := old\<rparr>) s else s)
      in upd_cpu (mycpu h s) (\<lambda>c. c\<lparr>noff := noff c + 1\<rparr>) s)"

definition pop_off :: "nat \<Rightarrow> 'a smp_scheme \<Rightarrow> ('a smp_scheme, unit) res" where
  "pop_off h s =
     (let c = mycpu h s
      in if intr_get (harts s h) then Panic ''pop_off - interruptible''
         else if noff (cpus s c) < 1 then Panic ''pop_off''
         else
           let s = upd_cpu c (\<lambda>x. x\<lparr>noff := noff x - 1\<rparr>) s
           in Ok () (if noff (cpus s c) = 0 \<and> intena (cpus s c) then upd_hart h intr_on s else s))"

definition acquire_enter :: "nat \<Rightarrow> lockid \<Rightarrow> 'a smp_scheme \<Rightarrow> ('a smp_scheme, unit) res" where
  "acquire_enter h l s =
     (let s = push_off h s
      in if holding h l s then Panic ''acquire'' else Ok () s)"

definition test_and_set :: "lockid \<Rightarrow> 'a smp_scheme \<Rightarrow> u32 \<times> 'a smp_scheme" where
  "test_and_set l s = (locked (locks s l), upd_lock l (\<lambda>x. x\<lparr>locked := 1\<rparr>) s)"

definition acquire_done :: "nat \<Rightarrow> lockid \<Rightarrow> 'a smp_scheme \<Rightarrow> 'a smp_scheme" where
  "acquire_done h l s = upd_lock l (\<lambda>x. x\<lparr>lk_cpu := Some (mycpu h s)\<rparr>) s"

definition acquire :: "nat \<Rightarrow> lockid \<Rightarrow> 'a smp_scheme \<Rightarrow> ('a smp_scheme, bool) res" where
  "acquire h l s =
     andthen (acquire_enter h l s) (\<lambda>_ s.
       case test_and_set l s of (old, s) \<Rightarrow>
         if old \<noteq> 0 then Ok False s else Ok True (acquire_done h l s))"

definition release_enter :: "nat \<Rightarrow> lockid \<Rightarrow> 'a smp_scheme \<Rightarrow> ('a smp_scheme, unit) res" where
  "release_enter h l s =
     (if \<not> holding h l s then Panic ''release''
      else Ok () (upd_lock l (\<lambda>x. x\<lparr>lk_cpu := None\<rparr>) s))"

definition release_done :: "nat \<Rightarrow> lockid \<Rightarrow> 'a smp_scheme \<Rightarrow> ('a smp_scheme, unit) res" where
  "release_done h l s = pop_off h (upd_lock l (\<lambda>x. x\<lparr>locked := 0\<rparr>) s)"

definition release :: "nat \<Rightarrow> lockid \<Rightarrow> 'a smp_scheme \<Rightarrow> ('a smp_scheme, unit) res" where
  "release h l s = andthen (release_enter h l s) (\<lambda>_ s. release_done h l s)"


section \<open>Interleaved execution\<close>

text \<open>
  \<open>lpc\<close> says how far a hart is in \<^verbatim>\<open>acquire\<close> or \<^verbatim>\<open>release\<close>: in other code, spinning, past the swap but
  before it has recorded itself as the holder, or past clearing the holder but before it has freed the
  lock. Other code may turn interrupts on and off while the hart is outside every critical section.
\<close>

datatype lock_pc = Run | Spin lockid | Got lockid | Rel lockid

record lconf = smp +
  lpc :: "nat \<Rightarrow> lock_pc"

definition at_pc :: "nat \<Rightarrow> lock_pc \<Rightarrow> lconf \<Rightarrow> lconf" where
  "at_pc h k s = s\<lparr>lpc := (lpc s)(h := k)\<rparr>"

inductive lstep :: "lconf \<Rightarrow> lconf \<Rightarrow> bool" where
  enter: "h < NCPU \<Longrightarrow> lpc s h = Run \<Longrightarrow> acquire_enter h l s = Ok () s' \<Longrightarrow> lstep s (at_pc h (Spin l) s')"
| spin: "h < NCPU \<Longrightarrow> lpc s h = Spin l \<Longrightarrow> test_and_set l s = (old, s') \<Longrightarrow> old \<noteq> 0 \<Longrightarrow> lstep s s'"
| got: "h < NCPU \<Longrightarrow> lpc s h = Spin l \<Longrightarrow> test_and_set l s = (0, s') \<Longrightarrow> lstep s (at_pc h (Got l) s')"
| taken: "h < NCPU \<Longrightarrow> lpc s h = Got l \<Longrightarrow> lstep s (at_pc h Run (acquire_done h l s))"
| leave: "h < NCPU \<Longrightarrow> lpc s h = Run \<Longrightarrow> release_enter h l s = Ok () s' \<Longrightarrow> lstep s (at_pc h (Rel l) s')"
| free: "h < NCPU \<Longrightarrow> lpc s h = Rel l \<Longrightarrow> release_done h l s = Ok () s' \<Longrightarrow> lstep s (at_pc h Run s')"
| intr: "h < NCPU \<Longrightarrow> lpc s h = Run \<Longrightarrow> noff (cpus s (mycpu h s)) = 0 \<Longrightarrow> f = intr_on \<or> f = intr_off \<Longrightarrow>
    lstep s (upd_hart h f s)"

text \<open>\<open>inside h l s\<close>: hart \<open>h\<close> has swapped the lock in and not yet freed it.\<close>

definition inside :: "nat \<Rightarrow> lockid \<Rightarrow> lconf \<Rightarrow> bool" where
  "inside h l s \<longleftrightarrow> lpc s h = Got l \<or> lpc s h = Rel l \<or> lk_cpu (locks s l) = Some h"

definition tp_ok :: "'a smp_scheme \<Rightarrow> bool" where
  "tp_ok s \<longleftrightarrow> (\<forall>h < NCPU. r_tp (harts s h) = of_nat h)"

definition linit :: "lconf \<Rightarrow> bool" where
  "linit s \<longleftrightarrow> tp_ok s \<and> (\<forall>l. locked (locks s l) = 0 \<and> lk_cpu (locks s l) = None) \<and>
     (\<forall>h. lpc s h = Run \<and> noff (cpus s h) = 0)"

inductive lreach :: "lconf \<Rightarrow> bool" where
  init: "linit s \<Longrightarrow> lreach s"
| step: "lreach s \<Longrightarrow> lstep s s' \<Longrightarrow> lreach s'"

section \<open>What the operations change\<close>

named_theorems smp_simps \<open>fields of the state after an operation on locks\<close>

lemma intr_simps [simp]:
  "\<not> intr_get (intr_off h)" "intr_get (intr_on h)"
  "r_tp (intr_off h) = r_tp h" "r_tp (intr_on h) = r_tp h"
proof -
  show "\<not> intr_get (intr_off h)"
    by (simp add: intr_off_def intr_get_def csr_defs and.assoc)
  have "bit (SSTATUS_SIE) 1" by (simp add: SSTATUS_SIE_def bit_simps)
  then have "bit ((sstatus h OR SSTATUS_SIE) AND SSTATUS_SIE) 1" by (simp add: bit_simps)
  then show "intr_get (intr_on h)"
    by (auto simp: intr_on_def intr_get_def csr_defs)
qed (simp_all add: intr_off_def intr_on_def csr_defs)

lemma upd_simps [smp_simps]:
  "harts (upd_hart h f s) = (harts s)(h := f (harts s h))" "cpus (upd_hart h f s) = cpus s" "locks (upd_hart h f s) = locks s"
  "harts (upd_cpu c g s) = harts s" "cpus (upd_cpu c g s) = (cpus s)(c := g (cpus s c))" "locks (upd_cpu c g s) = locks s"
  "harts (upd_lock l k s) = harts s" "cpus (upd_lock l k s) = cpus s" "locks (upd_lock l k s) = (locks s)(l := k (locks s l))"
  by (simp_all add: upd_hart_def upd_cpu_def upd_lock_def)

lemma pc_simps [smp_simps]:
  "lpc (upd_hart h f t) = lpc t" "lpc (upd_cpu c g t) = lpc t" "lpc (upd_lock l k t) = lpc t"
  "lpc (at_pc h p s) = (lpc s)(h := p)" "harts (at_pc h p s) = harts s" "cpus (at_pc h p s) = cpus s" "locks (at_pc h p s) = locks s"
  by (simp_all add: upd_hart_def upd_cpu_def upd_lock_def at_pc_def)

lemma mycpu_simps [smp_simps]:
  "mycpu h (upd_hart h' intr_off s) = mycpu h s" "mycpu h (upd_hart h' intr_on s) = mycpu h s"
  "mycpu h (upd_cpu c g s) = mycpu h s" "mycpu h (upd_lock l k s) = mycpu h s" "mycpu h (at_pc h' p t) = mycpu h t"
  by (simp_all add: mycpu_def smp_simps)

lemma push_off_simps [smp_simps]:
  "harts (push_off h s) = (harts s)(h := intr_off (harts s h))"
  "cpus (push_off h s) = (cpus s)(mycpu h s := (cpus s (mycpu h s))\<lparr>noff := noff (cpus s (mycpu h s)) + 1,
     intena := if noff (cpus s (mycpu h s)) = 0 then intr_get (harts s h) else intena (cpus s (mycpu h s))\<rparr>)"
  "locks (push_off h s) = locks s" "mycpu h' (push_off h s) = mycpu h' s" "lpc (push_off h t) = lpc t"
  by (simp_all add: push_off_def smp_simps Let_def fun_eq_iff)

lemma pop_off_Ok:
  "pop_off h s = Ok u s' \<longleftrightarrow> \<not> intr_get (harts s h) \<and> 1 \<le> noff (cpus s (mycpu h s)) \<and>
     s' = (let s1 = upd_cpu (mycpu h s) (\<lambda>x. x\<lparr>noff := noff x - 1\<rparr>) s in
       if noff (cpus s (mycpu h s)) = 1 \<and> intena (cpus s (mycpu h s)) then upd_hart h intr_on s1 else s1)"
  by (auto simp: pop_off_def Let_def smp_simps)

lemma acquire_enter_Ok: "acquire_enter h l s = Ok u s' \<longleftrightarrow> \<not> holding h l s \<and> s' = push_off h s"
  by (auto simp: acquire_enter_def Let_def holding_def smp_simps)

lemma release_enter_Ok:
  "release_enter h l s = Ok u s' \<longleftrightarrow> holding h l s \<and> s' = upd_lock l (\<lambda>x. x\<lparr>lk_cpu := None\<rparr>) s"
  by (auto simp: release_enter_def)


section \<open>Mutual exclusion\<close>

definition owned :: "nat \<Rightarrow> lconf \<Rightarrow> lockid set" where
  "owned h s = {l. inside h l s}"

definition excl_locks :: "lconf \<Rightarrow> bool" where
  "excl_locks s \<longleftrightarrow>
     (\<exists>own. (\<forall>l h. inside h l s \<longleftrightarrow> own l = Some h) \<and> (\<forall>l. locked (locks s l) = 0 \<longrightarrow> own l = None)) \<and>
     (\<forall>l h. lk_cpu (locks s l) = Some h \<longrightarrow> h < NCPU \<and> lpc s h \<noteq> Got l \<and> lpc s h \<noteq> Rel l) \<and>
     (\<forall>h \<ge> NCPU. lpc s h = Run)"

definition counted :: "lconf \<Rightarrow> bool" where
  "counted s \<longleftrightarrow> (\<forall>h < NCPU. finite (owned h s) \<and>
     noff (cpus s h) = int (card (owned h s)) + (if \<exists>l. lpc s h = Spin l then 1 else 0) \<and>
     (0 < noff (cpus s h) \<longrightarrow> \<not> intr_get (harts s h)))"

lemma mycpu_tp: "tp_ok s \<Longrightarrow> h < NCPU \<Longrightarrow> mycpu h s = h"
  by (simp add: tp_ok_def mycpu_def NCPU_def unat_of_nat take_bit_nat_eq_self)

lemma holding_iff: "tp_ok s \<Longrightarrow> h < NCPU \<Longrightarrow> excl_locks s \<Longrightarrow> holding h l s \<longleftrightarrow> lk_cpu (locks s l) = Some h"
  unfolding holding_def mycpu_tp excl_locks_def inside_def by (metis option.distinct(1))

lemma tp_ok_upd [smp_simps]:
  "tp_ok (upd_hart h intr_off s) = tp_ok s" "tp_ok (upd_hart h intr_on s) = tp_ok s" "tp_ok (upd_cpu c g s) = tp_ok s"
  "tp_ok (upd_lock l k s) = tp_ok s" "tp_ok (push_off h s) = tp_ok s" "tp_ok (at_pc h p t) = tp_ok t"
  by (auto simp: tp_ok_def smp_simps)

lemma lstep_tp_ok: "lstep s s' \<Longrightarrow> tp_ok s \<Longrightarrow> tp_ok s'"
  by (induction rule: lstep.induct)
    (auto simp: acquire_enter_Ok release_enter_Ok release_done_def pop_off_Ok test_and_set_def acquire_done_def
      smp_simps Let_def)

lemma inside_simps [smp_simps]:
  "inside h l (upd_hart h' f s) = inside h l s" "inside h l (upd_cpu c g s) = inside h l s"
  "inside h l (push_off h' s) = inside h l s"
  "inside h l (upd_lock l' (\<lambda>x. x\<lparr>locked := v\<rparr>) s) = inside h l s"
  by (simp_all add: inside_def smp_simps)

lemma inside_at_pc:
  "lpc s h = Run \<or> (\<exists>l. lpc s h = Spin l) \<Longrightarrow> inside h' l (at_pc h (Spin l') s) = inside h' l s"
  "lpc s h = Spin l' \<Longrightarrow> inside h' l (at_pc h (Got l') s) \<longleftrightarrow> inside h' l s \<or> h' = h \<and> l = l'"
  by (auto simp: inside_def smp_simps)

lemma inside_taken:
  assumes "lpc s h = Got l'" "lk_cpu (locks s l') = None"
  shows "inside h' l (at_pc h Run (upd_lock l' (\<lambda>x. x\<lparr>lk_cpu := Some h\<rparr>) s)) = inside h' l s"
  using assms by (auto simp: inside_def smp_simps)

lemma inside_leave:
  assumes "lpc s h = Run" "lk_cpu (locks s l') = Some h"
  shows "inside h' l (at_pc h (Rel l') (upd_lock l' (\<lambda>x. x\<lparr>lk_cpu := None\<rparr>) s)) = inside h' l s"
  using assms by (auto simp: inside_def smp_simps)

lemma inside_free:
  assumes "lpc s h = Rel l'" "lk_cpu (locks s l') \<noteq> Some h"
  shows "inside h' l (at_pc h Run s) \<longleftrightarrow> inside h' l s \<and> \<not> (h' = h \<and> l = l')"
  using assms by (auto simp: inside_def smp_simps)

lemma no_holder:
  assumes "excl_locks s" "lpc s h = Got l \<or> lpc s h = Rel l"
  shows "lk_cpu (locks s l) = None"
proof (rule ccontr)
  assume "lk_cpu (locks s l) \<noteq> None"
  then obtain h' where h': "lk_cpu (locks s l) = Some h'" by blast
  then have "inside h l s" "inside h' l s" using assms(2) by (auto simp: inside_def)
  then have "h' = h" using assms(1) unfolding excl_locks_def by (metis option.inject)
  then show False using h' assms unfolding excl_locks_def by blast
qed

lemma lstep_excl:
  assumes "lstep s s'" "tp_ok s" "excl_locks s"
  shows "excl_locks s'"
proof -
  obtain own where o: "\<And>l h. inside h l s \<longleftrightarrow> own l = Some h" "\<And>l. locked (locks s l) = 0 \<Longrightarrow> own l = None"
    using assms(3) unfolding excl_locks_def by blast
  have k: "h < NCPU" "lpc s h \<noteq> Got l" "lpc s h \<noteq> Rel l" if "lk_cpu (locks s l) = Some h" for l h
    using assms(3) that unfolding excl_locks_def by blast+
  have n: "lpc s h = Run" if "NCPU \<le> h" for h using assms(3) that unfolding excl_locks_def by blast
  have hd: "holding h l s \<longleftrightarrow> lk_cpu (locks s l) = Some h" if "h < NCPU" for h l
    by (rule holding_iff [OF assms(2) that assms(3)])
  note got_none = no_holder [OF assms(3)]
  have free_none: "lk_cpu (locks s l) = None" if "locked (locks s l) = 0" for l
    using o(1) [of _ l] o(2) [OF that] by (cases "lk_cpu (locks s l)") (auto simp: inside_def)
  show ?thesis using assms(1)
  proof (cases rule: lstep.cases)
    case (enter h l s1)
    then show ?thesis unfolding excl_locks_def
      by (intro conjI exI [of _ own]) (auto simp: acquire_enter_Ok smp_simps inside_at_pc o n split: if_splits dest: k)
  next
    case (spin h l old)
    then show ?thesis unfolding excl_locks_def
      by (intro conjI exI [of _ own]) (auto simp: test_and_set_def smp_simps o n split: if_splits dest: k)
  next
    case (got h l s1)
    then show ?thesis unfolding excl_locks_def
      by (intro conjI exI [of _ "own(l := Some h)"]) (auto simp: test_and_set_def free_none smp_simps inside_at_pc o n split: if_splits dest: k)
  next
    case (taken h l)
    then show ?thesis using got_none [of h l] unfolding excl_locks_def
      by (intro conjI exI [of _ own])
        (auto simp: acquire_done_def mycpu_tp [OF assms(2)] inside_taken smp_simps o n split: if_splits dest: k)
  next
    case (leave h l s1)
    then have "lk_cpu (locks s l) = Some h" by (simp add: release_enter_Ok hd)
    with leave show ?thesis unfolding excl_locks_def
      by (intro conjI exI [of _ own]) (auto simp: release_enter_Ok inside_leave smp_simps o n split: if_splits dest: k)
  next
    case (free h l s1)
    then have "lpc s1 h = Rel l" "lk_cpu (locks s1 l) \<noteq> Some h" using got_none [of h l]
      by (auto simp: release_done_def pop_off_Ok Let_def smp_simps)
    moreover have "own l = Some h" using free o(1) [of h l] by (simp add: inside_def)
    ultimately show ?thesis using free unfolding excl_locks_def
      by (intro conjI exI [of _ "own(l := None)"])
        (auto simp: inside_free release_done_def pop_off_Ok Let_def smp_simps o n split: if_splits dest: k)
  next
    case (intr h f)
    then show ?thesis unfolding excl_locks_def
      by (intro conjI exI [of _ own]) (auto simp: smp_simps o n split: if_splits dest: k)
  qed
qed

lemma owned_Spin_Got:
  "lpc s h = Spin l \<Longrightarrow> owned h' (at_pc h (Got l) s) = (if h' = h then insert l (owned h' s) else owned h' s)"
  by (auto simp: owned_def inside_at_pc)

lemma owned_free:
  assumes "lpc s h = Rel l" "lk_cpu (locks s l) \<noteq> Some h"
  shows "owned h' (at_pc h Run s) = (if h' = h then owned h' s - {l} else owned h' s)"
  using inside_free [OF assms] by (auto simp: owned_def)

lemma lstep_counted:
  assumes "lstep s s'" "tp_ok s" "excl_locks s" "counted s"
  shows "counted s'"
proof -
  obtain own where o: "\<And>l h. inside h l s \<longleftrightarrow> own l = Some h" "\<And>l. locked (locks s l) = 0 \<Longrightarrow> own l = None"
    using assms(3) unfolding excl_locks_def by blast
  have c: "finite (owned h s)" "noff (cpus s h) = int (card (owned h s)) + (if \<exists>l. lpc s h = Spin l then 1 else 0)"
    "0 < noff (cpus s h) \<Longrightarrow> \<not> intr_get (harts s h)" if "h < NCPU" for h
    using assms(4) that unfolding counted_def by blast+
  note my = mycpu_tp [OF assms(2)]
  show ?thesis using assms(1)
  proof (cases rule: lstep.cases)
    case (enter h l s1)
    then have "owned h' s' = owned h' s" for h' by (auto simp: owned_def acquire_enter_Ok smp_simps inside_at_pc)
    with enter show ?thesis by (auto simp: counted_def acquire_enter_Ok smp_simps my c)
  next
    case (spin h l old)
    then have "owned h' s' = owned h' s" for h' by (auto simp: owned_def test_and_set_def smp_simps)
    with spin show ?thesis using assms(4) by (auto simp: counted_def test_and_set_def smp_simps)
  next
    case (got h l s1)
    then have "owned h' s1 = owned h' s" "lpc s1 h = Spin l" for h' by (auto simp: owned_def test_and_set_def smp_simps)
    moreover have "l \<notin> owned h s" using got o by (auto simp: owned_def test_and_set_def)
    ultimately show ?thesis using got c unfolding counted_def
      by (auto simp: owned_Spin_Got test_and_set_def smp_simps)
  next
    case (taken h l)
    then have "owned h' s' = owned h' s" for h' using no_holder [OF assms(3), of h l]
      by (auto simp: owned_def acquire_done_def my inside_taken)
    with taken show ?thesis using assms(4) by (auto simp: counted_def acquire_done_def smp_simps)
  next
    case (leave h l s1)
    then have "lk_cpu (locks s l) = Some h" by (simp add: release_enter_Ok holding_iff [OF assms(2) _ assms(3)])
    with leave have "owned h' s' = owned h' s" for h' by (auto simp: owned_def release_enter_Ok inside_leave)
    with leave show ?thesis using assms(4) by (auto simp: counted_def release_enter_Ok smp_simps)
  next
    case (free h l s1)
    then have "lpc s1 h = Rel l" "lk_cpu (locks s1 l) \<noteq> Some h" "\<And>h'. owned h' s1 = owned h' s"
      using no_holder [OF assms(3), of h l]
      by (auto simp: owned_def release_done_def pop_off_Ok Let_def smp_simps)
    then have "owned h' s' = (if h' = h then owned h' s - {l} else owned h' s)" for h'
      using free by (simp add: owned_free)
    moreover have "l \<in> owned h s" using free by (simp add: owned_def inside_def)
    then have "int (card (owned h s - {l})) = int (card (owned h s)) - 1"
      using c(1) [of h] free by (simp add: card_Diff_singleton card_gt_0_iff)
        (metis One_nat_def Suc_leI card_gt_0_iff empty_iff of_nat_1 of_nat_diff)
    ultimately show ?thesis using free c unfolding counted_def
      by (auto simp: release_done_def pop_off_Ok Let_def my smp_simps split: if_splits)
  next
    case (intr h f)
    then have "owned h' s' = owned h' s" for h' by (auto simp: owned_def smp_simps)
    with intr show ?thesis using assms(4) by (auto simp: counted_def smp_simps my)
  qed
qed


section \<open>A whole acquire and release\<close>

definition lock_state :: "'a smp_scheme \<Rightarrow> bool" where
  "lock_state s \<longleftrightarrow> tp_ok s \<and> (\<forall>l. locked (locks s l) = 0 \<longleftrightarrow> lk_cpu (locks s l) = None) \<and>
     (\<forall>h < NCPU. 0 \<le> noff (cpus s h) \<and> (0 < noff (cpus s h) \<longrightarrow> \<not> intr_get (harts s h)))"

lemma acquire_Ok:
  "acquire h l s = Ok b s' \<longleftrightarrow> \<not> holding h l s \<and> b = (locked (locks s l) = 0) \<and>
     s' = (let s1 = upd_lock l (\<lambda>x. x\<lparr>locked := 1\<rparr>) (push_off h s) in
       if b then upd_lock l (\<lambda>x. x\<lparr>lk_cpu := Some (mycpu h s)\<rparr>) s1 else s1)"
  by (auto simp: acquire_def andthen_def acquire_enter_def test_and_set_def acquire_done_def Let_def holding_def
      smp_simps split: res.splits if_splits)

lemma release_Ok:
  "release h l s = Ok u s' \<longleftrightarrow> holding h l s \<and>
     pop_off h (upd_lock l (\<lambda>x. x\<lparr>lk_cpu := None, locked := 0\<rparr>) s) = Ok u s'"
proof -
  have "upd_lock l (\<lambda>x. x\<lparr>locked := 0\<rparr>) (upd_lock l (\<lambda>x. x\<lparr>lk_cpu := None\<rparr>) s) =
      upd_lock l (\<lambda>x. x\<lparr>lk_cpu := None, locked := 0\<rparr>) s"
    by (simp add: upd_lock_def)
  then show ?thesis by (auto simp: release_def release_enter_def release_done_def)
qed

lemma intr_on_off [simp]: "intr_get h \<Longrightarrow> intr_on (intr_off h) = h"
proof -
  assume "intr_get h"
  then have "bit (sstatus h) 1"
    by (simp add: intr_get_def csr_defs SSTATUS_SIE_def and_exp_iff_bit [where n = 1, simplified])
  then have "(sstatus h AND NOT SSTATUS_SIE) OR SSTATUS_SIE = sstatus h"
    by (intro bit_word_eqI) (auto simp: SSTATUS_SIE_def bit_simps)
  then show ?thesis by (simp add: intr_on_def intr_off_def csr_defs)
qed

lemma intr_off_idem [simp]: "\<not> intr_get h \<Longrightarrow> intr_off h = h"
proof -
  assume "\<not> intr_get h"
  then have "\<not> bit (sstatus h) 1"
    by (simp add: intr_get_def csr_defs SSTATUS_SIE_def and_exp_iff_bit [where n = 1, simplified])
  then have "sstatus h AND NOT SSTATUS_SIE = sstatus h"
    by (intro bit_word_eqI) (auto simp: SSTATUS_SIE_def bit_simps)
  then show ?thesis by (simp add: intr_off_def csr_defs)
qed


section \<open>Properties\<close>

lemma lreach_inv: "lreach s \<Longrightarrow> tp_ok s \<and> excl_locks s \<and> counted s"
proof (induction rule: lreach.induct)
  case (init s)
  then show ?case
    by (auto simp: linit_def excl_locks_def counted_def owned_def inside_def intro: exI [of _ "\<lambda>_. None"])
next
  case (step s s')
  then show ?case using lstep_tp_ok lstep_excl lstep_counted by blast
qed

text \<open>
  C9: Spin locks exclude. In every interleaving of the memory operations of \<^verbatim>\<open>acquire\<close> and \<^verbatim>\<open>release\<close> on
  all harts, at most one hart is between taking and freeing a given lock; a hart inside any critical
  section has interrupts off and its \<^verbatim>\<open>noff\<close> is the number of locks it has taken, plus one while it
  spins; and the final \<^verbatim>\<open>pop_off\<close> of a release never panics.
\<close>

theorem spinlock_mutex:
  assumes "lreach s"
  shows "(inside h l s \<and> inside h' l s \<longrightarrow> h = h') \<and>
    (h < NCPU \<longrightarrow> noff (cpus s h) = int (card (owned h s)) + (if \<exists>l. lpc s h = Spin l then 1 else 0) \<and>
      (owned h s \<noteq> {} \<longrightarrow> \<not> intr_get (harts s h))) \<and>
    (h < NCPU \<and> lpc s h = Rel l \<longrightarrow> (\<exists>s'. release_done h l s = Ok () s'))"
proof (intro conjI)
  note inv = lreach_inv [OF assms]
  show "inside h l s \<and> inside h' l s \<longrightarrow> h = h'"
    using inv unfolding excl_locks_def by (metis option.inject)
  show "h < NCPU \<longrightarrow> noff (cpus s h) = int (card (owned h s)) + (if \<exists>l. lpc s h = Spin l then 1 else 0) \<and>
      (owned h s \<noteq> {} \<longrightarrow> \<not> intr_get (harts s h))"
  proof (intro impI conjI)
    assume h: "h < NCPU"
    then show n: "noff (cpus s h) = int (card (owned h s)) + (if \<exists>l. lpc s h = Spin l then 1 else 0)"
      using inv by (simp add: counted_def)
    assume "owned h s \<noteq> {}"
    then have "0 < card (owned h s)" using inv h by (auto simp: counted_def card_gt_0_iff)
    then have "0 < noff (cpus s h)" by (simp add: n)
    then show "\<not> intr_get (harts s h)" using inv h by (simp add: counted_def)
  qed
  show "h < NCPU \<and> lpc s h = Rel l \<longrightarrow> (\<exists>s'. release_done h l s = Ok () s')"
  proof
    assume h: "h < NCPU \<and> lpc s h = Rel l"
    then have "l \<in> owned h s" by (simp add: owned_def inside_def)
    then have "0 < card (owned h s)" using inv h by (auto simp: counted_def card_gt_0_iff)
    then have "1 \<le> noff (cpus s h)" "\<not> intr_get (harts s h)" using inv h by (auto simp: counted_def)
    then show "\<exists>s'. release_done h l s = Ok () s'"
      using h inv by (simp add: release_done_def pop_off_Ok mycpu_tp smp_simps)
  qed
qed

text \<open>Harts as they are after \<^verbatim>\<open>start\<close>, with interrupts on, and a configuration with all locks free.\<close>

definition hart_on :: "nat \<Rightarrow> hart" where
  "hart_on h = \<lparr>mhartid = of_nat h, mstatus = 0, mepc = 0, sstatus = 2, sip = 0, sie = 0, mie = 0, sepc = 0,
     medeleg = 0, mideleg = 0, stvec = 0, stimecmp = 0, menvcfg = 0, pmpcfg0 = 0, pmpaddr0 = 0, satp = 0,
     scause = 0, stval = 0, mcounteren = 0, hart_time = 0, tp = of_nat h\<rparr>"

definition cpu_idle :: cpu where
  "cpu_idle = \<lparr>c_proc = None, c_context = \<lparr>c_ra = 0, c_sp = 0, c_s = (\<lambda>_. 0)\<rparr>, noff = 0, intena = False\<rparr>"

definition lock_free :: spinlock where
  "lock_free = \<lparr>locked = 0, lk_name = '''', lk_cpu = None\<rparr>"

definition lboot :: lconf where
  "lboot = \<lparr>harts = hart_on, cpus = (\<lambda>_. cpu_idle), locks = (\<lambda>_. lock_free), lpc = (\<lambda>_. Run)\<rparr>"

lemma boot_simps [simp]:
  "r_tp (hart_on h) = of_nat h" "intr_get (hart_on h)" "locked lock_free = 0" "lk_cpu lock_free = None"
  "noff cpu_idle = 0" "c_proc cpu_idle = None"
  by (simp_all add: hart_on_def r_tp_def intr_get_def csr_defs SSTATUS_SIE_def lock_free_def cpu_idle_def)

lemma linit_lboot: "linit lboot"
  by (simp add: linit_def lboot_def tp_ok_def)

text \<open>Hart 0 takes lock 3, and hart 1 spins for it.\<close>

definition lcontend :: lconf where
  "lcontend =
     at_pc 1 (Spin (Lk 3)) (push_off 1
       (at_pc 0 (Got (Lk 3)) (upd_lock (Lk 3) (\<lambda>x. x\<lparr>locked := 1\<rparr>) (at_pc 0 (Spin (Lk 3)) (push_off 0 lboot)))))"

lemma lreach_lcontend: "lreach lcontend"
proof -
  note free = lock_free_def and boot = lboot_def
  have 1: "lstep lboot (at_pc 0 (Spin (Lk 3)) (push_off 0 lboot))" (is "lstep _ ?a")
    by (rule lstep.enter [where h = 0 and l = "Lk 3"])
      (simp_all add: NCPU_def boot acquire_enter_Ok holding_def)
  have 2: "lstep ?a (at_pc 0 (Got (Lk 3)) (upd_lock (Lk 3) (\<lambda>x. x\<lparr>locked := 1\<rparr>) ?a))" (is "lstep _ ?b")
    by (rule lstep.got [where h = 0 and l = "Lk 3"]) (simp_all add: NCPU_def boot test_and_set_def smp_simps)
  have "lstep ?b lcontend" unfolding lcontend_def
    by (rule lstep.enter [where h = 1 and l = "Lk 3"])
      (simp_all add: NCPU_def boot acquire_enter_Ok holding_def smp_simps)
  with 1 2 show ?thesis using lreach.init [OF linit_lboot] lreach.step by blast
qed

theorem spinlock_mutex_witness:
  "inside 0 (Lk 3) lcontend \<and> \<not> inside 1 (Lk 3) lcontend \<and> noff (cpus lcontend 1) = 1 \<and> \<not> intr_get (harts lcontend 0)"
proof -
  have i: "inside 0 (Lk 3) lcontend" by (simp add: inside_def lcontend_def smp_simps)
  moreover have "\<not> inside 1 (Lk 3) lcontend"
    using spinlock_mutex [OF lreach_lcontend, of 0 "Lk 3" 1] i by auto
  moreover have "owned 1 lcontend = {}"
    by (auto simp: owned_def inside_def lcontend_def smp_simps lboot_def)
  then have "noff (cpus lcontend 1) = 1"
    using spinlock_mutex [OF lreach_lcontend, of 1] by (auto simp: NCPU_def lcontend_def smp_simps)
  moreover have "owned 0 lcontend \<noteq> {}" using i by (auto simp: owned_def)
  then have "\<not> intr_get (harts lcontend 0)"
    using spinlock_mutex [OF lreach_lcontend, of 0] by (simp add: NCPU_def)
  ultimately show ?thesis by blast
qed

end
