(* ===== verification/Sched.thy ===== *)
theory Sched
  imports Spinlock
begin

text \<open>
  The scheduler of \<^verbatim>\<open>kernel/proc.c\<close> and the context switch of \<^verbatim>\<open>kernel/swtch.S\<close> on all harts. The state
  adds to the locks the callee-saved registers of each hart, and of each process its state and
  saved context. On the kernel stack of a process that has switched away are the local variable
  \<^verbatim>\<open>intena\<close> of \<^verbatim>\<open>sched\<close> (\<open>saved\<close>) and, when \<^verbatim>\<open>sleep\<close> called it, the parameter \<^verbatim>\<open>lk\<close> of \<^verbatim>\<open>sleep\<close> (\<open>slept\<close>).

  \<open>ctl\<close> is the place a hart has reached: in the scheduler loop at a process (\<open>SScan\<close>), with that process
  locked (\<open>SLocked\<close>), after the test that it is runnable (\<open>SChosen\<close>), back from the switch (\<open>SBack\<close>); or on
  the kernel stack of a process, just switched to (\<open>PEntry\<close>), running (\<open>PRun\<close>), or with its own lock taken
  (\<open>PLocked\<close>, as in \<^verbatim>\<open>killed\<close>). The three ways of giving up the processor are followed lock by lock:
  \<^verbatim>\<open>sleep\<close> when called (\<open>PCall\<close>), with the lock of the process (\<open>PHeld\<close>), with the lock \<^verbatim>\<open>lk\<close> released
  (\<open>PFreed\<close>), and after it was woken, before it takes \<^verbatim>\<open>lk\<close> again (\<open>PAwake\<close>); \<^verbatim>\<open>yield\<close> with the lock of the
  process (\<open>PHeld\<close>); \<^verbatim>\<open>exit\<close> with \<^verbatim>\<open>wait_lock\<close> (\<open>PExit\<close>), in a \<^verbatim>\<open>wakeup\<close> with the lock of a sleeper
  (\<open>PWake\<close>), with the lock of the process (\<open>PHeld\<close>) and as a zombie before it releases \<^verbatim>\<open>wait_lock\<close> (\<open>PZombie\<close>).
  All three end in the call of \<^verbatim>\<open>sched\<close> (\<open>PLeft\<close>). Their callers keep the contract of the code: \<^verbatim>\<open>yield\<close> and
  \<^verbatim>\<open>exit\<close> are called with no spin lock held, and \<^verbatim>\<open>sleep\<close> with the lock it is given and no other.

  Kernel code between these places is represented by what it may do here: take and release other
  locks, change the state of a locked process as \<^verbatim>\<open>wakeup\<close>, \<^verbatim>\<open>kill\<close>, \<^verbatim>\<open>allocproc\<close>, \<^verbatim>\<open>fork\<close>, \<^verbatim>\<open>freeproc\<close> and \<^verbatim>\<open>wait\<close> do,
  turn interrupts on and off outside critical sections, and compute. A hart that spins for a lock
  takes no step. \<open>waiting\<close> is no part of the code: it records the lock with which a process called
  \<^verbatim>\<open>sleep\<close>, until some code has woken it.
\<close>

section \<open>Context switch\<close>

datatype leave = LYield | LSleep lockid | LExit

datatype ctl =
    SScan nat | SLocked nat | SChosen nat | SBack nat
  | PEntry nat | PRun nat | PLocked nat
  | PCall nat lockid | PExit nat | PWake nat nat | PHeld nat leave | PFreed nat lockid | PZombie nat
  | PLeft nat | PAwake nat lockid

record sconf = smp +
  regs :: "nat \<Rightarrow> kcontext"
  pstate :: "nat \<Rightarrow> procstate"
  pcontext :: "nat \<Rightarrow> kcontext"
  saved :: "nat \<Rightarrow> bool option"
  slept :: "nat \<Rightarrow> lockid option"
  waiting :: "nat \<Rightarrow> lockid option"
  ctl :: "nat \<Rightarrow> ctl"

datatype ctxref = Ctx_cpu nat | Ctx_proc nat

definition ctx_get :: "ctxref \<Rightarrow> 'a sconf_scheme \<Rightarrow> kcontext" where
  "ctx_get r s = (case r of Ctx_cpu c \<Rightarrow> c_context (cpus s c) | Ctx_proc p \<Rightarrow> pcontext s p)"

definition ctx_put :: "ctxref \<Rightarrow> kcontext \<Rightarrow> 'a sconf_scheme \<Rightarrow> 'a sconf_scheme" where
  "ctx_put r x s = (case r of
     Ctx_cpu c \<Rightarrow> upd_cpu c (\<lambda>y. y\<lparr>c_context := x\<rparr>) s
   | Ctx_proc p \<Rightarrow> s\<lparr>pcontext := (pcontext s)(p := x)\<rparr>)"

definition swtch :: "nat \<Rightarrow> ctxref \<Rightarrow> ctxref \<Rightarrow> 'a sconf_scheme \<Rightarrow> 'a sconf_scheme" where
  "swtch h old new s =
     (let s = ctx_put old (regs s h) s
      in s\<lparr>regs := (regs s)(h := ctx_get new s)\<rparr>)"

section \<open>Scheduler\<close>

definition at_ctl :: "nat \<Rightarrow> ctl \<Rightarrow> 'a sconf_scheme \<Rightarrow> 'a sconf_scheme" where
  "at_ctl h k s = s\<lparr>ctl := (ctl s)(h := k)\<rparr>"

definition set_pstate :: "nat \<Rightarrow> procstate \<Rightarrow> 'a sconf_scheme \<Rightarrow> 'a sconf_scheme" where
  "set_pstate p st s = s\<lparr>pstate := (pstate s)(p := st)\<rparr>"

definition next_proc :: "nat \<Rightarrow> nat" where
  "next_proc p = (p + 1) mod NPROC"

text \<open>The body of the scheduler's loop, from the test of the state to the switch.\<close>

definition scheduler_switch :: "nat \<Rightarrow> nat \<Rightarrow> 'a sconf_scheme \<Rightarrow> 'a sconf_scheme" where
  "scheduler_switch h p s =
     (let s = set_pstate p RUNNING s;
          s = upd_cpu (mycpu h s) (\<lambda>c. c\<lparr>c_proc := Some p\<rparr>) s
      in swtch h (Ctx_cpu (mycpu h s)) (Ctx_proc p) s)"

text \<open>The rest of the body, when the process has switched back.\<close>

definition scheduler_back :: "nat \<Rightarrow> nat \<Rightarrow> 'a sconf_scheme \<Rightarrow> ('a sconf_scheme, unit) res" where
  "scheduler_back h p s = release h (Lk_proc p) (upd_cpu (mycpu h s) (\<lambda>c. c\<lparr>c_proc := None\<rparr>) s)"

definition sched :: "nat \<Rightarrow> 'a sconf_scheme \<Rightarrow> ('a sconf_scheme, unit) res" where
  "sched h s =
     (case c_proc (cpus s (mycpu h s)) of
        None \<Rightarrow> Fault ''sched: null''
      | Some p \<Rightarrow>
          if \<not> holding h (Lk_proc p) s then Panic ''sched p->lock''
          else if noff (cpus s (mycpu h s)) \<noteq> 1 then Panic ''sched locks''
          else if pstate s p = RUNNING then Panic ''sched running''
          else if intr_get (harts s h) then Panic ''sched interruptible''
          else
            let s = s\<lparr>saved := (saved s)(p := Some (intena (cpus s (mycpu h s))))\<rparr>
            in Ok () (swtch h (Ctx_proc p) (Ctx_cpu (mycpu h s)) s))"

text \<open>
  The end of \<^verbatim>\<open>sched\<close> on the hart that resumes the process, and the release of the process lock that
  follows it in \<^verbatim>\<open>yield\<close> and \<^verbatim>\<open>sleep\<close>. A new process starts in \<^verbatim>\<open>forkret\<close> instead, which only releases the lock.
  Of the two callers, \<^verbatim>\<open>sleep\<close> still has to take its lock again.
\<close>

definition sched_return :: "nat \<Rightarrow> nat \<Rightarrow> 'a sconf_scheme \<Rightarrow> ('a sconf_scheme, unit) res" where
  "sched_return h p s =
     (let s = (case saved s p of None \<Rightarrow> s | Some b \<Rightarrow> upd_cpu (mycpu h s) (\<lambda>c. c\<lparr>intena := b\<rparr>) s)
      in release h (Lk_proc p) s)"

definition resume :: "nat \<Rightarrow> 'a sconf_scheme \<Rightarrow> ctl" where
  "resume p s = (case slept s p of None \<Rightarrow> PRun p | Some lk \<Rightarrow> PAwake p lk)"

section \<open>Steps\<close>

definition wait_lock :: lockid where "wait_lock = Lk 0"

text \<open>The contract of the callers: the hart holds these locks and no other.\<close>

definition holds_only :: "nat \<Rightarrow> lockid set \<Rightarrow> 'a smp_scheme \<Rightarrow> bool" where
  "holds_only h L s \<longleftrightarrow> (\<forall>l. holding h l s \<longleftrightarrow> l \<in> L)"

text \<open>A change of the state of another process, which ends its wait.\<close>

definition poke :: "nat \<Rightarrow> procstate \<Rightarrow> 'a sconf_scheme \<Rightarrow> 'a sconf_scheme" where
  "poke q st s = (set_pstate q st s)\<lparr>waiting := (waiting s)(q := None)\<rparr>"

text \<open>The changes of state other code makes to a process that is not running, holding its lock.\<close>

fun poke_ok :: "procstate \<Rightarrow> procstate \<Rightarrow> bool" where
  "poke_ok SLEEPING st = (st = RUNNABLE)"
| "poke_ok UNUSED st = (st = USED)"
| "poke_ok USED st = (st = RUNNABLE \<or> st = UNUSED)"
| "poke_ok ZOMBIE st = (st = UNUSED)"
| "poke_ok _ st = False"

text \<open>Code outside the places above runs in the scheduler's loop (interrupts) or in a process.\<close>

fun in_code :: "ctl \<Rightarrow> bool" where
  "in_code (SScan p) = True"
| "in_code (PRun p) = True"
| "in_code (PLocked p) = True"
| "in_code _ = False"

fun own_lock :: "ctl \<Rightarrow> lockid \<Rightarrow> bool" where
  "own_lock (PRun p) l = (l = Lk_proc p)"
| "own_lock (PLocked p) l = (l = Lk_proc p)"
| "own_lock _ l = False"

inductive sstep :: "sconf \<Rightarrow> sconf \<Rightarrow> bool" where
  s_lock: "h < NCPU \<Longrightarrow> ctl s h = SScan p \<Longrightarrow> noff (cpus s (mycpu h s)) = 0 \<Longrightarrow>
    acquire h (Lk_proc p) s = Ok True s' \<Longrightarrow> sstep s (at_ctl h (SLocked p) s')"
| s_skip: "h < NCPU \<Longrightarrow> ctl s h = SLocked p \<Longrightarrow> pstate s p \<noteq> RUNNABLE \<Longrightarrow>
    release h (Lk_proc p) s = Ok () s' \<Longrightarrow> sstep s (at_ctl h (SScan (next_proc p)) s')"
| s_choose: "h < NCPU \<Longrightarrow> ctl s h = SLocked p \<Longrightarrow> pstate s p = RUNNABLE \<Longrightarrow> sstep s (at_ctl h (SChosen p) s)"
| s_switch: "h < NCPU \<Longrightarrow> ctl s h = SChosen p \<Longrightarrow> sstep s (at_ctl h (PEntry p) (scheduler_switch h p s))"
| s_back: "h < NCPU \<Longrightarrow> ctl s h = SBack p \<Longrightarrow> scheduler_back h p s = Ok () s' \<Longrightarrow>
    sstep s (at_ctl h (SScan (next_proc p)) s')"
| p_entry: "h < NCPU \<Longrightarrow> ctl s h = PEntry p \<Longrightarrow> sched_return h p s = Ok () s' \<Longrightarrow> sstep s (at_ctl h (resume p s) s')"
| p_awake: "h < NCPU \<Longrightarrow> ctl s h = PAwake p lk \<Longrightarrow> acquire h lk s = Ok True s' \<Longrightarrow> sstep s (at_ctl h (PRun p) s')"
| p_lock: "h < NCPU \<Longrightarrow> ctl s h = PRun p \<Longrightarrow> acquire h (Lk_proc p) s = Ok True s' \<Longrightarrow>
    sstep s (at_ctl h (PLocked p) s')"
| p_unlock: "h < NCPU \<Longrightarrow> ctl s h = PLocked p \<Longrightarrow> release h (Lk_proc p) s = Ok () s' \<Longrightarrow>
    sstep s (at_ctl h (PRun p) s')"
| yield_lock: "h < NCPU \<Longrightarrow> ctl s h = PRun p \<Longrightarrow> holds_only h {} s \<Longrightarrow> acquire h (Lk_proc p) s = Ok True s' \<Longrightarrow>
    sstep s (at_ctl h (PHeld p LYield) (s'\<lparr>slept := (slept s')(p := None)\<rparr>))"
| yield_state: "h < NCPU \<Longrightarrow> ctl s h = PHeld p LYield \<Longrightarrow> sstep s (at_ctl h (PLeft p) (set_pstate p RUNNABLE s))"
| sleep_call: "h < NCPU \<Longrightarrow> ctl s h = PRun p \<Longrightarrow> holds_only h {lk} s \<Longrightarrow> lk \<noteq> Lk_proc p \<Longrightarrow>
    sstep s (at_ctl h (PCall p lk) (s\<lparr>slept := (slept s)(p := Some lk), waiting := (waiting s)(p := Some lk)\<rparr>))"
| sleep_lock: "h < NCPU \<Longrightarrow> ctl s h = PCall p lk \<Longrightarrow> acquire h (Lk_proc p) s = Ok True s' \<Longrightarrow>
    sstep s (at_ctl h (PHeld p (LSleep lk)) s')"
| sleep_free: "h < NCPU \<Longrightarrow> ctl s h = PHeld p (LSleep lk) \<Longrightarrow> release h lk s = Ok () s' \<Longrightarrow>
    sstep s (at_ctl h (PFreed p lk) s')"
| sleep_state: "h < NCPU \<Longrightarrow> ctl s h = PFreed p lk \<Longrightarrow> sstep s (at_ctl h (PLeft p) (set_pstate p SLEEPING s))"
| exit_lock: "h < NCPU \<Longrightarrow> ctl s h = PRun p \<Longrightarrow> holds_only h {} s \<Longrightarrow> acquire h wait_lock s = Ok True s' \<Longrightarrow>
    sstep s (at_ctl h (PExit p) s')"
| exit_wakeup: "h < NCPU \<Longrightarrow> ctl s h = PExit p \<Longrightarrow> q \<noteq> p \<Longrightarrow> acquire h (Lk_proc q) s = Ok True s' \<Longrightarrow>
    sstep s (at_ctl h (PWake p q) s')"
| exit_wake: "h < NCPU \<Longrightarrow> ctl s h = PWake p q \<Longrightarrow> pstate s q = SLEEPING \<Longrightarrow> sstep s (poke q RUNNABLE s)"
| exit_woken: "h < NCPU \<Longrightarrow> ctl s h = PWake p q \<Longrightarrow> release h (Lk_proc q) s = Ok () s' \<Longrightarrow>
    sstep s (at_ctl h (PExit p) s')"
| exit_own: "h < NCPU \<Longrightarrow> ctl s h = PExit p \<Longrightarrow> acquire h (Lk_proc p) s = Ok True s' \<Longrightarrow>
    sstep s (at_ctl h (PHeld p LExit) s')"
| exit_state: "h < NCPU \<Longrightarrow> ctl s h = PHeld p LExit \<Longrightarrow> sstep s (at_ctl h (PZombie p) (set_pstate p ZOMBIE s))"
| exit_free: "h < NCPU \<Longrightarrow> ctl s h = PZombie p \<Longrightarrow> release h wait_lock s = Ok () s' \<Longrightarrow>
    sstep s (at_ctl h (PLeft p) s')"
| p_sched: "h < NCPU \<Longrightarrow> ctl s h = PLeft p \<Longrightarrow> sched h s = Ok () s' \<Longrightarrow> sstep s (at_ctl h (SBack p) s')"
| k_acquire: "h < NCPU \<Longrightarrow> in_code (ctl s h) \<Longrightarrow> \<not> own_lock (ctl s h) l \<Longrightarrow> acquire h l s = Ok True s' \<Longrightarrow> sstep s s'"
| k_release: "h < NCPU \<Longrightarrow> in_code (ctl s h) \<Longrightarrow> \<not> own_lock (ctl s h) l \<Longrightarrow> release h l s = Ok () s' \<Longrightarrow> sstep s s'"
| k_poke: "h < NCPU \<Longrightarrow> in_code (ctl s h) \<Longrightarrow> \<not> own_lock (ctl s h) (Lk_proc q) \<Longrightarrow> holding h (Lk_proc q) s \<Longrightarrow>
    poke_ok (pstate s q) st \<Longrightarrow> sstep s (poke q st s)"
| k_context: "h < NCPU \<Longrightarrow> in_code (ctl s h) \<Longrightarrow> holding h (Lk_proc q) s \<Longrightarrow> pstate s q = USED \<Longrightarrow>
    sstep s (s\<lparr>pcontext := (pcontext s)(q := x), saved := (saved s)(q := None), slept := (slept s)(q := None)\<rparr>)"
| k_intr: "h < NCPU \<Longrightarrow> in_code (ctl s h) \<Longrightarrow> noff (cpus s (mycpu h s)) = 0 \<Longrightarrow> f = intr_on \<or> f = intr_off \<Longrightarrow>
    sstep s (upd_hart h f s)"
| k_compute: "h < NCPU \<Longrightarrow> in_code (ctl s h) \<Longrightarrow> sstep s (s\<lparr>regs := (regs s)(h := x)\<rparr>)"

text \<open>At the start every hart enters the scheduler, holding nothing; no process runs or sleeps.\<close>

definition sinit :: "sconf \<Rightarrow> bool" where
  "sinit s \<longleftrightarrow> tp_ok s \<and> (\<forall>l. locked (locks s l) = 0 \<and> lk_cpu (locks s l) = None) \<and>
     (\<forall>h. ctl s h = SScan 0 \<and> noff (cpus s h) = 0 \<and> c_proc (cpus s h) = None) \<and>
     (\<forall>p. pstate s p \<noteq> RUNNING \<and> slept s p = None \<and> waiting s p = None)"

inductive sreach :: "sconf \<Rightarrow> bool" where
  init: "sinit s \<Longrightarrow> sreach s"
| step: "sreach s \<Longrightarrow> sstep s s' \<Longrightarrow> sreach s'"


section \<open>Locks held\<close>

definition held :: "nat \<Rightarrow> 'a smp_scheme \<Rightarrow> lockid set" where
  "held h s = {l. lk_cpu (locks s l) = Some h}"

definition lock_inv :: "'a smp_scheme \<Rightarrow> bool" where
  "lock_inv s \<longleftrightarrow> tp_ok s \<and> (\<forall>l. locked (locks s l) = 0 \<longleftrightarrow> lk_cpu (locks s l) = None) \<and>
     (\<forall>h < NCPU. finite (held h s) \<and> noff (cpus s h) = int (card (held h s)) \<and>
       (held h s \<noteq> {} \<longrightarrow> \<not> intr_get (harts s h)))"

text \<open>What \<^verbatim>\<open>acquire\<close> and \<^verbatim>\<open>release\<close> leave alone; the second state is compared with the first.\<close>

definition same_proc :: "'a sconf_scheme \<Rightarrow> 'a sconf_scheme \<Rightarrow> bool" where
  "same_proc s s' \<longleftrightarrow> ctl s' = ctl s \<and> pstate s' = pstate s \<and> pcontext s' = pcontext s \<and> saved s' = saved s \<and> slept s' = slept s \<and> waiting s' = waiting s \<and>
     regs s' = regs s \<and> (\<forall>h. c_proc (cpus s' h) = c_proc (cpus s h) \<and> c_context (cpus s' h) = c_context (cpus s h))"

lemma sconf_upd [smp_simps]:
  "ctl (upd_hart h f s) = ctl s" "ctl (upd_cpu c g s) = ctl s" "ctl (upd_lock l k s) = ctl s"
  "pstate (upd_hart h f s) = pstate s" "pstate (upd_cpu c g s) = pstate s" "pstate (upd_lock l k s) = pstate s"
  "pcontext (upd_hart h f s) = pcontext s" "pcontext (upd_cpu c g s) = pcontext s" "pcontext (upd_lock l k s) = pcontext s"
  "saved (upd_hart h f s) = saved s" "saved (upd_cpu c g s) = saved s" "saved (upd_lock l k s) = saved s"
  "slept (upd_hart h f s) = slept s" "slept (upd_cpu c g s) = slept s" "slept (upd_lock l k s) = slept s"
  "waiting (upd_hart h f s) = waiting s" "waiting (upd_cpu c g s) = waiting s" "waiting (upd_lock l k s) = waiting s"
  "regs (upd_hart h f s) = regs s" "regs (upd_cpu c g s) = regs s" "regs (upd_lock l k s) = regs s"
  by (simp_all add: upd_hart_def upd_cpu_def upd_lock_def)

lemma sconf_push_off [smp_simps]:
  "ctl (push_off h s) = ctl s" "pstate (push_off h s) = pstate s" "pcontext (push_off h s) = pcontext s"
  "saved (push_off h s) = saved s" "slept (push_off h s) = slept s" "waiting (push_off h s) = waiting s" "regs (push_off h s) = regs s"
  by (simp_all add: push_off_def smp_simps Let_def)

lemma set_pstate_simps [smp_simps]:
  "harts (set_pstate p st s) = harts s" "cpus (set_pstate p st s) = cpus s" "locks (set_pstate p st s) = locks s"
  "ctl (set_pstate p st s) = ctl s" "pstate (set_pstate p st s) = (pstate s)(p := st)" "regs (set_pstate p st s) = regs s"
  "pcontext (set_pstate p st s) = pcontext s" "saved (set_pstate p st s) = saved s" "mycpu h (set_pstate p st s) = mycpu h s"
  "slept (set_pstate p st s) = slept s" "waiting (set_pstate p st s) = waiting s"
  by (simp_all add: set_pstate_def mycpu_def)

lemma at_ctl_simps [smp_simps]:
  "harts (at_ctl h k s) = harts s" "cpus (at_ctl h k s) = cpus s" "locks (at_ctl h k s) = locks s"
  "ctl (at_ctl h k s) = (ctl s)(h := k)" "pstate (at_ctl h k s) = pstate s" "regs (at_ctl h k s) = regs s"
  "pcontext (at_ctl h k s) = pcontext s" "saved (at_ctl h k s) = saved s"
  "slept (at_ctl h k s) = slept s" "waiting (at_ctl h k s) = waiting s"
  by (simp_all add: at_ctl_def)

lemma lock_inv_cong:
  assumes "locks s' = locks s" "harts s' = harts s" "\<And>h. noff (cpus s' h) = noff (cpus s h)"
  shows "lock_inv s' = lock_inv s" "held h s' = held h s"
  using assms by (simp_all add: lock_inv_def held_def tp_ok_def)

lemma lock_inv_my: "lock_inv s \<Longrightarrow> h < NCPU \<Longrightarrow> mycpu h s = h"
  by (simp add: lock_inv_def mycpu_tp)

lemma holding_held: "lock_inv s \<Longrightarrow> h < NCPU \<Longrightarrow> holding h l s \<longleftrightarrow> l \<in> held h s"
  by (auto simp: holding_def lock_inv_my held_def) (auto simp: lock_inv_def)

lemma acquire_effect:
  assumes "lock_inv s" "h < NCPU" "acquire h l s = Ok True s'"
  shows "lock_inv s'" "l \<notin> held h' s" "held h' s' = (if h' = h then insert l (held h s) else held h' s)" "same_proc s s'"
proof -
  note my = lock_inv_my [OF assms(1,2)]
  have e: "locked (locks s l) = 0" "lk_cpu (locks s l) = None"
    "s' = upd_lock l (\<lambda>x. x\<lparr>lk_cpu := Some h\<rparr>) (upd_lock l (\<lambda>x. x\<lparr>locked := 1\<rparr>) (push_off h s))"
    using assms(1,3) by (auto simp: acquire_Ok Let_def my lock_inv_def)
  show l: "l \<notin> held h' s" for h' using e by (simp add: held_def)
  show hd: "held h' s' = (if h' = h then insert l (held h s) else held h' s)" for h'
    using e by (auto simp: held_def smp_simps)
  show "same_proc s s'" by (simp add: same_proc_def e(3) smp_simps)
  have "tp_ok s'" using assms(1) by (simp add: lock_inv_def e(3) smp_simps)
  moreover have "locked (locks s' l') = 0 \<longleftrightarrow> lk_cpu (locks s' l') = None" for l'
    using assms(1) by (simp add: lock_inv_def e(3) smp_simps)
  moreover have "finite (held h' s') \<and> noff (cpus s' h') = int (card (held h' s')) \<and>
      (held h' s' \<noteq> {} \<longrightarrow> \<not> intr_get (harts s' h'))" if "h' < NCPU" for h'
    using assms(1) that l [of h] by (auto simp: lock_inv_def e(3) smp_simps my hd [unfolded e(3)])
  ultimately show "lock_inv s'" by (simp add: lock_inv_def)
qed

lemma release_effect:
  assumes "lock_inv s" "h < NCPU" "l \<in> held h s"
  shows "\<exists>s'. release h l s = Ok () s' \<and> lock_inv s' \<and> (\<forall>h'. held h' s' = held h' s - {l}) \<and> same_proc s s'"
proof -
  note my = lock_inv_my [OF assms(1,2)]
  let ?s1 = "upd_cpu h (\<lambda>x. x\<lparr>noff := noff x - 1\<rparr>) (upd_lock l (\<lambda>x. x\<lparr>lk_cpu := None, locked := 0\<rparr>) s)"
  define s' where "s' = (if noff (cpus s h) = 1 \<and> intena (cpus s h) then upd_hart h intr_on ?s1 else ?s1)"
  have c: "finite (held h s)" "0 < card (held h s)" "noff (cpus s h) = int (card (held h s))" "\<not> intr_get (harts s h)"
    using assms by (auto simp: lock_inv_def card_gt_0_iff)
  have rel: "release h l s = Ok () s'"
    using assms c by (simp add: release_Ok holding_held pop_off_Ok my smp_simps s'_def Let_def)
  have hd: "held h' s' = held h' s - {l}" for h' by (auto simp: held_def s'_def smp_simps)
  have one: "held h' s' = held h' s" if "h' \<noteq> h" for h' using hd assms(3) that by (auto simp: held_def)
  have "same_proc s s'" by (simp add: same_proc_def s'_def smp_simps)
  moreover have "tp_ok s'" using assms(1) by (simp add: lock_inv_def s'_def smp_simps)
  moreover have "locked (locks s' l') = 0 \<longleftrightarrow> lk_cpu (locks s' l') = None" for l'
    using assms(1) by (simp add: lock_inv_def s'_def smp_simps)
  moreover have "finite (held h' s') \<and> noff (cpus s' h') = int (card (held h' s')) \<and>
      (held h' s' \<noteq> {} \<longrightarrow> \<not> intr_get (harts s' h'))" if "h' < NCPU" for h'
  proof (cases "h' = h")
    case True
    have k: "int (card (held h s - {l})) = int (card (held h s)) - 1"
      using c assms(3) by (simp add: card_Diff_singleton of_nat_diff)
    have "held h s - {l} \<noteq> {} \<Longrightarrow> noff (cpus s h) \<noteq> 1"
      using k c by (metis card_gt_0_iff diff_self finite_Diff less_irrefl of_nat_0_less_iff)
    moreover have "noff (cpus s' h) = noff (cpus s h) - 1" "noff (cpus s h) \<noteq> 1 \<Longrightarrow> \<not> intr_get (harts s' h)"
      using c(4) by (auto simp: s'_def smp_simps)
    ultimately show ?thesis using True c k by (auto simp: hd)
  next
    case False
    then have "noff (cpus s' h') = noff (cpus s h')" "harts s' h' = harts s h'" by (simp_all add: s'_def smp_simps)
    then show ?thesis using assms(1) that by (simp add: one [OF False] lock_inv_def)
  qed
  ultimately show ?thesis using rel hd by (auto simp: lock_inv_def)
qed

lemma release_effect':
  assumes "lock_inv s" "h < NCPU" "release h l s = Ok u s'"
  shows "l \<in> held h s" "lock_inv s'" "held h' s' = held h' s - {l}" "same_proc s s'"
proof -
  show l: "l \<in> held h s" using assms by (simp add: release_Ok holding_held)
  then show "lock_inv s'" "held h' s' = held h' s - {l}" "same_proc s s'"
    using release_effect [OF assms(1,2) l] assms(3) by auto
qed

section \<open>Invariant\<close>

text \<open>The locks with which the ways of leaving were called, or that they took first.\<close>

fun leave_locks :: "leave \<Rightarrow> lockid set" where
  "leave_locks LYield = {}"
| "leave_locks (LSleep lk) = {lk}"
| "leave_locks LExit = {wait_lock}"

fun ctl_ok :: "ctl \<Rightarrow> lockid set \<Rightarrow> nat option \<Rightarrow> (nat \<Rightarrow> procstate) \<Rightarrow> bool" where
  "ctl_ok (SScan p) H c ps \<longleftrightarrow> c = None"
| "ctl_ok (SLocked p) H c ps \<longleftrightarrow> c = None \<and> H = {Lk_proc p}"
| "ctl_ok (SChosen p) H c ps \<longleftrightarrow> c = None \<and> H = {Lk_proc p} \<and> ps p = RUNNABLE"
| "ctl_ok (SBack p) H c ps \<longleftrightarrow> c = Some p \<and> H = {Lk_proc p} \<and> ps p \<noteq> RUNNING"
| "ctl_ok (PEntry p) H c ps \<longleftrightarrow> c = Some p \<and> H = {Lk_proc p} \<and> ps p = RUNNING"
| "ctl_ok (PRun p) H c ps \<longleftrightarrow> c = Some p \<and> Lk_proc p \<notin> H \<and> ps p = RUNNING"
| "ctl_ok (PLocked p) H c ps \<longleftrightarrow> c = Some p \<and> Lk_proc p \<in> H \<and> ps p = RUNNING"
| "ctl_ok (PCall p lk) H c ps \<longleftrightarrow> c = Some p \<and> H = {lk} \<and> lk \<noteq> Lk_proc p \<and> ps p = RUNNING"
| "ctl_ok (PExit p) H c ps \<longleftrightarrow> c = Some p \<and> H = {wait_lock} \<and> ps p = RUNNING"
| "ctl_ok (PWake p q) H c ps \<longleftrightarrow> c = Some p \<and> H = {wait_lock, Lk_proc q} \<and> q \<noteq> p \<and> ps p = RUNNING"
| "ctl_ok (PHeld p k) H c ps \<longleftrightarrow> c = Some p \<and> H = insert (Lk_proc p) (leave_locks k) \<and> Lk_proc p \<notin> leave_locks k \<and> ps p = RUNNING"
| "ctl_ok (PFreed p lk) H c ps \<longleftrightarrow> c = Some p \<and> H = {Lk_proc p} \<and> ps p = RUNNING"
| "ctl_ok (PZombie p) H c ps \<longleftrightarrow> c = Some p \<and> H = {wait_lock, Lk_proc p} \<and> ps p = ZOMBIE"
| "ctl_ok (PAwake p lk) H c ps \<longleftrightarrow> c = Some p \<and> H = {} \<and> lk \<noteq> Lk_proc p \<and> ps p = RUNNING"
| "ctl_ok (PLeft p) H c ps \<longleftrightarrow> c = Some p \<and> H = {Lk_proc p} \<and> (ps p = RUNNABLE \<or> ps p = SLEEPING \<or> ps p = ZOMBIE)"

fun on_cpu :: "ctl \<Rightarrow> nat option" where
  "on_cpu (PEntry p) = Some p"
| "on_cpu (PRun p) = Some p"
| "on_cpu (PLocked p) = Some p"
| "on_cpu (PCall p lk) = Some p"
| "on_cpu (PExit p) = Some p"
| "on_cpu (PWake p q) = Some p"
| "on_cpu (PHeld p k) = Some p"
| "on_cpu (PFreed p lk) = Some p"
| "on_cpu (PAwake p lk) = Some p"
| "on_cpu _ = None"

text \<open>The process whose kernel stack a hart is using.\<close>

fun on_stack :: "ctl \<Rightarrow> nat option" where
  "on_stack (PLeft p) = Some p"
| "on_stack (PZombie p) = Some p"
| "on_stack k = on_cpu k"

definition sinv :: "sconf \<Rightarrow> bool" where
  "sinv s \<longleftrightarrow> lock_inv s \<and> (\<forall>h < NCPU. ctl_ok (ctl s h) (held h s) (c_proc (cpus s h)) (pstate s)) \<and>
     (\<forall>h < NCPU. \<forall>h' < NCPU. on_cpu (ctl s h) \<noteq> None \<longrightarrow> on_cpu (ctl s h) = on_cpu (ctl s h') \<longrightarrow> h = h')"

lemma held_disjoint: "l \<in> held h s \<Longrightarrow> l \<in> held h' s \<Longrightarrow> h = h'"
  by (simp add: held_def)

text \<open>
  A step of one hart that changes its own place and locks, and of the process table at most the
  state of one process, keeps the invariant when the other harts do not depend on that state.
\<close>

lemma sinvI:
  assumes "sinv s" "h < NCPU" "lock_inv s'" "\<And>h'. h' \<noteq> h \<Longrightarrow> held h' s' = held h' s"
    and "\<And>h'. h' \<noteq> h \<Longrightarrow> c_proc (cpus s' h') = c_proc (cpus s h') \<and> ctl s' h' = ctl s h'"
    and "\<And>p. p \<noteq> q \<Longrightarrow> pstate s' p = pstate s p"
    and "ctl_ok (ctl s' h) (held h s') (c_proc (cpus s' h)) (pstate s')"
    and "pstate s' q = pstate s q \<or> pstate s q \<noteq> RUNNING \<and> Lk_proc q \<in> held h s \<or> on_cpu (ctl s h) = Some q"
    and "on_cpu (ctl s' h) = None \<or> on_cpu (ctl s' h) = on_cpu (ctl s h) \<or>
      (\<exists>p. on_cpu (ctl s' h) = Some p \<and> pstate s p \<noteq> RUNNING)"
  shows "sinv s'"
proof -
  have ok: "ctl_ok (ctl s h') (held h' s) (c_proc (cpus s h')) (pstate s)" if "h' < NCPU" for h'
    using assms(1) that by (simp add: sinv_def)
  have u: "h' = h''" if "h' < NCPU" "h'' < NCPU" "on_cpu (ctl s h') = Some p" "on_cpu (ctl s h'') = Some p" for h' h'' p
    using assms(1) that unfolding sinv_def by (metis option.distinct(1))
  have run: "pstate s p = RUNNING" if "h' < NCPU" "on_cpu (ctl s h') = Some p" for h' p
    using ok [OF that(1)] that(2) by (cases "ctl s h'") auto
  have other: "ctl_ok (ctl s' h') (held h' s') (c_proc (cpus s' h')) (pstate s')" if h': "h' < NCPU" "h' \<noteq> h" for h'
  proof -
    have "ctl_ok (ctl s h') (held h' s) (c_proc (cpus s h')) (pstate s')"
    proof (cases "pstate s' q = pstate s q")
      case True
      then have "pstate s' = pstate s" using assms(6) by (metis ext)
      then show ?thesis using ok [OF h'(1)] by simp
    next
      case False
      have 1: "Lk_proc q \<notin> held h' s" if "Lk_proc q \<in> held h s" using held_disjoint [OF that] h'(2) by blast
      have 2: "on_cpu (ctl s h') \<noteq> Some q" if "on_cpu (ctl s h) = Some q" using u h' assms(2) that by blast
      have 3: "pstate s' p = pstate s p" if "p \<noteq> q" for p by (rule assms(6) [OF that])
      consider "pstate s q \<noteq> RUNNING" "Lk_proc q \<notin> held h' s" | "pstate s q = RUNNING" "on_cpu (ctl s h') \<noteq> Some q"
        using assms(8) False 1 2 run [OF assms(2)] by blast
      then show ?thesis
      proof cases
        case 1
        have "pstate s' p = RUNNING" if "pstate s p = RUNNING" for p using 1 3 [of p] that by auto
        then show ?thesis using ok [OF h'(1)] 1 3 by (cases "ctl s h'") auto
      next
        case 2
        have "pstate s' p = pstate s p" if "pstate s p \<noteq> RUNNING" for p using 2 3 [of p] that by auto
        then show ?thesis using ok [OF h'(1)] 2 3 by (cases "ctl s h'") auto
      qed
    qed
    then show ?thesis using assms(4,5) h'(2) by simp
  qed
  have uniq: "h' = h" if "h' < NCPU" "on_cpu (ctl s' h) = Some p" "on_cpu (ctl s' h') = Some p" for h' p
  proof (rule ccontr)
    assume ne: "h' \<noteq> h"
    then have o: "on_cpu (ctl s h') = Some p" using assms(5) that(3) by simp
    then have "pstate s p = RUNNING" by (rule run [OF that(1)])
    then have "on_cpu (ctl s h) = Some p" using assms(9) that(2) by auto
    then show False using u [OF that(1) assms(2) o] ne by blast
  qed
  have "h1 = h2" if "h1 < NCPU" "h2 < NCPU" "on_cpu (ctl s' h1) = Some p" "on_cpu (ctl s' h2) = Some p" for h1 h2 p
  proof (cases "h1 = h \<or> h2 = h")
    case True
    then show ?thesis using uniq [OF that(1) _ that(3)] uniq [OF that(2) _ that(4)] that(3,4) by blast
  next
    case False
    then show ?thesis using u [OF that(1,2)] assms(5) [of h1] assms(5) [of h2] that(3,4) by simp
  qed
  then have "\<forall>h < NCPU. \<forall>h' < NCPU. on_cpu (ctl s' h) \<noteq> None \<longrightarrow> on_cpu (ctl s' h) = on_cpu (ctl s' h') \<longrightarrow> h = h'"
    by (metis option.exhaust)
  moreover have "ctl_ok (ctl s' h') (held h' s') (c_proc (cpus s' h')) (pstate s')" if "h' < NCPU" for h'
    using other [OF that] assms(7) by blast
  ultimately show ?thesis using assms(3) by (simp add: sinv_def)
qed

section \<open>Every step keeps the invariant\<close>

lemma same_procD:
  assumes "same_proc s s'"
  shows "ctl s' = ctl s" "pstate s' = pstate s" "c_proc (cpus s' h) = c_proc (cpus s h)"
  using assms by (simp_all add: same_proc_def)

lemma sinv_lock: "sinv s \<Longrightarrow> lock_inv s"
  by (simp add: sinv_def)

lemma sinv_ctl: "sinv s \<Longrightarrow> h < NCPU \<Longrightarrow> ctl_ok (ctl s h) (held h s) (c_proc (cpus s h)) (pstate s)"
  by (simp add: sinv_def)

lemma lock_inv_at_ctl [simp]: "lock_inv (at_ctl h k s) = lock_inv s" "held h' (at_ctl h k s) = held h' s"
  by (rule lock_inv_cong; simp add: smp_simps)+

lemma sinv_acquire:
  assumes "sinv s" "h < NCPU" "acquire h l s = Ok True s'" "on_cpu k = on_cpu (ctl s h)"
    and "ctl_ok k (insert l (held h s)) (c_proc (cpus s h)) (pstate s)"
  shows "sinv (at_ctl h k s')"
proof -
  note e = acquire_effect [OF sinv_lock [OF assms(1)] assms(2,3)]
  note p = same_procD [OF e(4)]
  show ?thesis
    by (rule sinvI [OF assms(1,2), where q = 0]) (use assms(4,5) in \<open>simp_all add: e(1,3) p smp_simps\<close>)
qed

lemma sinv_release:
  assumes "sinv s" "h < NCPU" "release h l s = Ok () s'" "on_cpu k = on_cpu (ctl s h)"
    and "ctl_ok k (held h s - {l}) (c_proc (cpus s h)) (pstate s)"
  shows "sinv (at_ctl h k s')"
proof -
  note e = release_effect' [OF sinv_lock [OF assms(1)] assms(2,3)]
  note p = same_procD [OF e(4)]
  have "held h' s' = held h' s" if "h' \<noteq> h" for h' using e(1,3) that by (auto simp: held_def)
  then show ?thesis
    by (intro sinvI [OF assms(1,2), where q = 0]) (use assms(4,5) in \<open>simp_all add: e(2,3) p smp_simps\<close>)
qed

end
