(* ===== verification/Sched_Props.thy ===== *)
theory Sched_Props
  imports Sched
begin

text \<open>
  The invariant of the scheduler is kept by every step, and its consequences: no two harts use the
  kernel stack of one process, the checks of \<^verbatim>\<open>sched\<close>, \<^verbatim>\<open>acquire\<close> and \<^verbatim>\<open>release\<close> do not fire in the scheduler and
  in \<^verbatim>\<open>yield\<close>, \<^verbatim>\<open>sleep\<close> and \<^verbatim>\<open>exit\<close>, no wake-up is lost, and the context of a process that has left its hart
  is kept until it is resumed.
\<close>


lemma swtch_simps [smp_simps]:
  "harts (swtch h a b s) = harts s" "locks (swtch h a b s) = locks s" "noff (cpus (swtch h a b s) c) = noff (cpus s c)"
  "c_proc (cpus (swtch h a b s) c) = c_proc (cpus s c)" "ctl (swtch h a b s) = ctl s" "pstate (swtch h a b s) = pstate s"
  "saved (swtch h a b s) = saved s" "slept (swtch h a b s) = slept s" "waiting (swtch h a b s) = waiting s" "mycpu h' (swtch h a b s) = mycpu h' s"
  by (simp_all add: swtch_def ctx_put_def Let_def smp_simps mycpu_def split: ctxref.splits)

lemma lock_inv_swtch [simp]: "lock_inv (swtch h a b s) = lock_inv s" "held h' (swtch h a b s) = held h' s"
  by (rule lock_inv_cong; simp add: smp_simps)+

lemma lock_inv_set_pstate [simp]: "lock_inv (set_pstate p st s) = lock_inv s" "held h' (set_pstate p st s) = held h' s"
  by (rule lock_inv_cong; simp add: smp_simps)+

lemma lock_inv_upd_cpu:
  assumes "\<And>x. noff (g x) = noff x"
  shows "lock_inv (upd_cpu c g s) = lock_inv s" "held h' (upd_cpu c g s) = held h' s"
  by (rule lock_inv_cong; simp add: smp_simps assms)+

lemma sinv_upd_cpu:
  assumes "sinv s" "\<And>x. noff (g x) = noff x" "\<And>x. c_proc (g x) = c_proc x"
  shows "sinv (upd_cpu c g s)"
  using assms unfolding sinv_def by (simp add: lock_inv_upd_cpu smp_simps, blast)

lemma lock_invD:
  assumes "lock_inv s" "h < NCPU"
  shows "noff (cpus s h) = int (card (held h s))" "finite (held h s)" "held h s \<noteq> {} \<Longrightarrow> \<not> intr_get (harts s h)"
  using assms unfolding lock_inv_def by blast+

lemma mycpu_saved: "mycpu h (saved_update f s) = mycpu h s" "mycpu h (s\<lparr>regs := r\<rparr>) = mycpu h s"
  by (simp_all add: mycpu_def)

lemma sched_Ok:
  assumes "sinv s" "h < NCPU" "ctl s h = PLeft p"
  shows "sched h s = Ok () (swtch h (Ctx_proc p) (Ctx_cpu h)
    (s\<lparr>saved := (saved s)(p := Some (intena (cpus s h)))\<rparr>))"
proof -
  note l = sinv_lock [OF assms(1)]
  have c: "c_proc (cpus s h) = Some p" "held h s = {Lk_proc p}" "pstate s p \<noteq> RUNNING"
    using sinv_ctl [OF assms(1,2), unfolded assms(3) ctl_ok.simps] by (blast, blast, metis procstate.distinct)
  then have "noff (cpus s h) = 1" "\<not> intr_get (harts s h)" using lock_invD [OF l assms(2)] by simp_all
  moreover have "holding h (Lk_proc p) s" using c by (simp add: holding_held [OF l assms(2)])
  ultimately show ?thesis using c by (simp add: sched_def lock_inv_my [OF l assms(2)] mycpu_saved)
qed

lemma sinv_scan:
  assumes "sinv s" "h < NCPU" "ctl s h = SScan p" "noff (cpus s (mycpu h s)) = 0" "acquire h (Lk_proc p) s = Ok True s'"
  shows "sinv (at_ctl h (SLocked p) s')"
proof (rule sinv_acquire [OF assms(1,2,5)])
  note l = sinv_lock [OF assms(1)]
  have "held h s = {}" using assms(4) lock_invD(1,2) [OF l assms(2)] by (simp add: lock_inv_my [OF l assms(2)])
  then show "ctl_ok (SLocked p) (insert (Lk_proc p) (held h s)) (c_proc (cpus s h)) (pstate s)"
    using sinv_ctl [OF assms(1,2)] assms(3) by simp
qed (simp add: assms(3))

lemma at_ctl_same: "ctl s h = k \<Longrightarrow> at_ctl h k s = s"
  by (simp add: at_ctl_def fun_upd_idem)

lemma sinv_code_acquire:
  assumes "sinv s" "h < NCPU" "in_code (ctl s h)" "\<not> own_lock (ctl s h) l" "acquire h l s = Ok True s'"
  shows "sinv s'"
proof -
  have "sinv (at_ctl h (ctl s h) s')" using sinv_ctl [OF assms(1,2)] assms(3,4)
    by (intro sinv_acquire [OF assms(1,2,5)]) (cases "ctl s h"; simp)+
  moreover have "ctl s' h = ctl s h"
    using same_procD(1) [OF acquire_effect(4) [OF sinv_lock [OF assms(1)] assms(2,5)]] by simp
  ultimately show ?thesis by (simp add: at_ctl_same)
qed

lemma sinv_code_release:
  assumes "sinv s" "h < NCPU" "in_code (ctl s h)" "\<not> own_lock (ctl s h) l" "release h l s = Ok () s'"
  shows "sinv s'"
proof -
  have "sinv (at_ctl h (ctl s h) s')" using sinv_ctl [OF assms(1,2)] assms(3,4)
    by (intro sinv_release [OF assms(1,2,5)]) (cases "ctl s h"; auto)+
  moreover have "ctl s' h = ctl s h"
    using same_procD(1) [OF release_effect'(4) [OF sinv_lock [OF assms(1)] assms(2,5)]] by simp
  ultimately show ?thesis by (simp add: at_ctl_same)
qed


lemma sinv_switch:
  assumes "sinv s" "h < NCPU" "ctl s h = SChosen p"
  shows "sinv (at_ctl h (PEntry p) (scheduler_switch h p s))"
proof -
  note l = sinv_lock [OF assms(1)]
  have c: "held h s = {Lk_proc p}" "pstate s p = RUNNABLE"
    using sinv_ctl [OF assms(1,2), unfolded assms(3) ctl_ok.simps] by blast+
  show ?thesis
    by (rule sinvI [OF assms(1,2), where q = p])
      (simp_all add: scheduler_switch_def Let_def smp_simps lock_inv_my [OF l assms(2)] lock_inv_upd_cpu l c assms(3))
qed

lemma sinv_back:
  assumes "sinv s" "h < NCPU" "ctl s h = SBack p" "scheduler_back h p s = Ok () s'"
  shows "sinv (at_ctl h (SScan q) s')"
proof -
  note l = sinv_lock [OF assms(1)]
  let ?s1 = "upd_cpu h (\<lambda>c. c\<lparr>c_proc := None\<rparr>) s"
  have s1: "lock_inv ?s1" using l by (simp add: lock_inv_upd_cpu)
  have "release h (Lk_proc p) ?s1 = Ok () s'" using assms(4) by (simp add: scheduler_back_def lock_inv_my [OF l assms(2)])
  note e = release_effect' [OF s1 assms(2) this]
  note p = same_procD [OF e(4)]
  have "held h' s' = held h' s" if "h' \<noteq> h" for h'
    using e(1,3) that by (auto simp: held_def smp_simps)
  then show ?thesis
    by (intro sinvI [OF assms(1,2), where q = 0]) (simp_all add: p e(2) smp_simps)
qed

lemma sinv_fields:
  "sinv (s\<lparr>pcontext := a, saved := b\<rparr>) = sinv s" "sinv (s\<lparr>regs := r\<rparr>) = sinv s"
  "sinv (s\<lparr>slept := c\<rparr>) = sinv s" "sinv (s\<lparr>waiting := d\<rparr>) = sinv s" "sinv (s\<lparr>slept := c, waiting := d\<rparr>) = sinv s"
  by (simp_all add: sinv_def lock_inv_def held_def tp_ok_def)

lemma at_ctl_fields:
  "at_ctl h k (s\<lparr>slept := c\<rparr>) = (at_ctl h k s)\<lparr>slept := c\<rparr>"
  "at_ctl h k (s\<lparr>slept := c, waiting := d\<rparr>) = (at_ctl h k s)\<lparr>slept := c, waiting := d\<rparr>"
  by (simp_all add: at_ctl_def)

definition slept_ok :: "'a sconf_scheme \<Rightarrow> bool" where
  "slept_ok s \<longleftrightarrow> (\<forall>p. slept s p \<noteq> Some (Lk_proc p))"

lemma sinv_entry:
  assumes "slept_ok s" "sinv s" "h < NCPU" "ctl s h = PEntry p" "sched_return h p s = Ok () s'"
  shows "sinv (at_ctl h (resume p s) s')"
proof -
  obtain s1 where s1: "sinv s1" "ctl s1 = ctl s" "release h (Lk_proc p) s1 = Ok () s'"
  proof (cases "saved s p")
    case None
    then show thesis using that [of s] assms by (simp add: sched_return_def)
  next
    case (Some b)
    then show thesis
      using that [of "upd_cpu (mycpu h s) (\<lambda>c. c\<lparr>intena := b\<rparr>) s"] assms
      by (simp add: sched_return_def sinv_upd_cpu smp_simps)
  qed
  show ?thesis
    by (rule sinv_release [OF s1(1) assms(3) s1(3)])
      (use sinv_ctl [OF s1(1) assms(3)] assms(1) in \<open>auto simp: s1(2) assms(4) resume_def slept_ok_def split: option.splits\<close>)
qed

text \<open>A process on its own stack changes its state and gives up the processor.\<close>

lemma sinv_state:
  assumes "sinv s" "h < NCPU" "on_cpu (ctl s h) = Some p" "on_cpu k = None"
    and "ctl_ok k (held h s) (c_proc (cpus s h)) ((pstate s)(p := st))"
  shows "sinv (at_ctl h k (set_pstate p st s))"
  by (rule sinvI [OF assms(1,2), where q = p]) (use assms(3-5) sinv_lock [OF assms(1)] in \<open>simp_all add: smp_simps\<close>)

lemma holds_only_held: "sinv s \<Longrightarrow> h < NCPU \<Longrightarrow> holds_only h L s \<longleftrightarrow> held h s = L"
  by (auto simp: holds_only_def holding_held [OF sinv_lock])

lemma sinv_sched:
  assumes "sinv s" "h < NCPU" "ctl s h = PLeft p" "sched h s = Ok () s'"
  shows "sinv (at_ctl h (SBack p) s')"
proof -
  note l = sinv_lock [OF assms(1)]
  have c: "c_proc (cpus s h) = Some p" "held h s = {Lk_proc p}" "pstate s p \<noteq> RUNNING"
    using sinv_ctl [OF assms(1,2), unfolded assms(3) ctl_ok.simps] by (blast, blast, metis procstate.distinct)
  have eq: "lock_inv (s\<lparr>saved := f\<rparr>) = lock_inv s" "held h' (s\<lparr>saved := f\<rparr>) = held h' s" for f h'
    by (rule lock_inv_cong; simp)+
  have s': "s' = swtch h (Ctx_proc p) (Ctx_cpu h) (s\<lparr>saved := (saved s)(p := Some (intena (cpus s h)))\<rparr>)"
    using assms(4) by (simp add: sched_Ok [OF assms(1-3)])
  show ?thesis
    by (rule sinvI [OF assms(1,2), where q = 0]) (simp_all add: s' smp_simps eq l c assms(3))
qed

lemma sinv_poke:
  assumes "sinv s" "h < NCPU" "in_code (ctl s h) \<or> (\<exists>p. ctl s h = PWake p q)" "Lk_proc q \<in> held h s" "poke_ok (pstate s q) st"
  shows "sinv (poke q st s)"
proof -
  note l = sinv_lock [OF assms(1)]
  have n: "pstate s q \<noteq> RUNNING" using assms(5) by (cases "pstate s q") auto
  have "ctl_ok (ctl s h) (held h s) (c_proc (cpus s h)) ((pstate s)(q := st))"
    using sinv_ctl [OF assms(1,2)] assms(3) n by (cases "ctl s h") auto
  then have "sinv (set_pstate q st s)" using assms(4) n
    by (intro sinvI [OF assms(1,2), where q = q]) (simp_all add: smp_simps l)
  then show ?thesis by (simp add: poke_def sinv_fields)
qed

lemma sinv_intr:
  assumes "sinv s" "h < NCPU" "noff (cpus s (mycpu h s)) = 0" "f = intr_on \<or> f = intr_off"
  shows "sinv (upd_hart h f s)"
proof -
  note l = sinv_lock [OF assms(1)]
  have e: "held h s = {}" using assms(3) lock_invD(1,2) [OF l assms(2)] by (simp add: lock_inv_my [OF l assms(2)])
  have hd: "held h' (upd_hart h f s) = held h' s" for h' by (simp add: held_def smp_simps)
  have "tp_ok (upd_hart h f s)" using l assms(4) by (auto simp: lock_inv_def smp_simps)
  then have "lock_inv (upd_hart h f s)" using l e by (simp add: lock_inv_def hd) (simp add: smp_simps)
  then show ?thesis using sinv_ctl [OF assms(1,2)]
    by (intro sinvI [OF assms(1,2), where q = 0]) (simp_all add: hd smp_simps)
qed


lemma sched_return_frame:
  assumes "lock_inv s" "h < NCPU" "sched_return h p s = Ok () s'"
  shows "ctl s' = ctl s" "pstate s' = pstate s" "pcontext s' = pcontext s" "saved s' = saved s" "slept s' = slept s" "waiting s' = waiting s"
proof -
  obtain s1 where s1: "lock_inv s1" "release h (Lk_proc p) s1 = Ok () s'" and f: "ctl s1 = ctl s" "pstate s1 = pstate s"
    "pcontext s1 = pcontext s" "saved s1 = saved s" "slept s1 = slept s" "waiting s1 = waiting s"
  proof (cases "saved s p")
    case None
    then show thesis using that [of s] assms by (simp add: sched_return_def)
  next
    case (Some b)
    then show thesis using that [of "upd_cpu (mycpu h s) (\<lambda>c. c\<lparr>intena := b\<rparr>) s"] assms
      by (simp add: sched_return_def lock_inv_upd_cpu smp_simps)
  qed
  from release_effect'(4) [OF s1(1) assms(2) s1(2)]
  show "ctl s' = ctl s" "pstate s' = pstate s" "pcontext s' = pcontext s" "saved s' = saved s" "slept s' = slept s" "waiting s' = waiting s"
    using f by (simp_all add: same_proc_def)
qed

lemma scheduler_back_frame:
  assumes "lock_inv s" "h < NCPU" "scheduler_back h p s = Ok () s'"
  shows "ctl s' = ctl s" "pstate s' = pstate s" "pcontext s' = pcontext s" "saved s' = saved s" "slept s' = slept s" "waiting s' = waiting s"
proof -
  have "lock_inv (upd_cpu (mycpu h s) (\<lambda>c. c\<lparr>c_proc := None\<rparr>) s)" using assms(1) by (simp add: lock_inv_upd_cpu)
  from release_effect'(4) [OF this assms(2) assms(3) [unfolded scheduler_back_def]]
  show "ctl s' = ctl s" "pstate s' = pstate s" "pcontext s' = pcontext s" "saved s' = saved s" "slept s' = slept s" "waiting s' = waiting s"
    by (simp_all add: same_proc_def smp_simps)
qed

text \<open>What a step does to the lock of a sleep and to the record of a wait.\<close>

lemma sched_frame:
  assumes "sinv s" "h < NCPU" "ctl s h = PLeft p" "sched h s = Ok () s'"
  shows "ctl s' = ctl s" "pstate s' = pstate s" "slept s' = slept s" "waiting s' = waiting s"
  using assms(4) by (auto simp: sched_Ok [OF assms(1-3)] smp_simps)

lemma scheduler_switch_frame [smp_simps]:
  "ctl (scheduler_switch h p s) = ctl s" "slept (scheduler_switch h p s) = slept s" "waiting (scheduler_switch h p s) = waiting s"
  "pstate (scheduler_switch h p s) = (pstate s)(p := RUNNING)"
  by (simp_all add: scheduler_switch_def Let_def smp_simps)

lemma poke_simps [smp_simps]:
  "ctl (poke q st s) = ctl s" "slept (poke q st s) = slept s" "waiting (poke q st s) = (waiting s)(q := None)"
  "pstate (poke q st s) = (pstate s)(q := st)" "pcontext (poke q st s) = pcontext s" "saved (poke q st s) = saved s"
  by (simp_all add: poke_def smp_simps)

lemma same_proc_slept: "same_proc s s' \<Longrightarrow> slept s' = slept s \<and> waiting s' = waiting s"
  by (simp add: same_proc_def)

lemma sstep_slept_ok: "sstep s s' \<Longrightarrow> sinv s \<Longrightarrow> slept_ok s \<Longrightarrow> slept_ok s'"
  by (induction rule: sstep.induct)
    (simp_all add: slept_ok_def smp_simps sched_frame sched_return_frame [OF sinv_lock] scheduler_back_frame [OF sinv_lock]
      same_proc_slept [OF acquire_effect(4) [OF sinv_lock]] same_proc_slept [OF release_effect'(4) [OF sinv_lock]])

lemma sstep_sinv: "sstep s s' \<Longrightarrow> sinv s \<Longrightarrow> slept_ok s \<Longrightarrow> sinv s'"
proof (induction rule: sstep.induct)
  case (s_lock h s p s')
  show ?case by (rule sinv_scan [OF s_lock.prems(1) s_lock.hyps])
next
  case (s_skip h s p s')
  show ?case by (rule sinv_release [OF s_skip.prems(1) s_skip.hyps(1,4)])
      (use sinv_ctl [OF s_skip.prems(1) s_skip.hyps(1)] s_skip.hyps(2) in simp_all)
next
  case (s_choose h s p)
  show ?case by (rule sinvI [OF s_choose.prems(1) s_choose.hyps(1), where q = 0])
      (use sinv_ctl [OF s_choose.prems(1) s_choose.hyps(1)] s_choose.hyps(2,3) sinv_lock [OF s_choose.prems(1)]
        in \<open>simp_all add: smp_simps\<close>)
next
  case (s_switch h s p)
  show ?case by (rule sinv_switch [OF s_switch.prems(1) s_switch.hyps])
next
  case (s_back h s p s')
  show ?case by (rule sinv_back [OF s_back.prems(1) s_back.hyps])
next
  case (p_entry h s p s')
  show ?case by (rule sinv_entry [OF p_entry.prems(2,1) p_entry.hyps])
next
  case (p_lock h s p s')
  show ?case by (rule sinv_acquire [OF p_lock.prems(1) p_lock.hyps(1,3)])
      (use sinv_ctl [OF p_lock.prems(1) p_lock.hyps(1)] p_lock.hyps(2) in simp_all)
next
  case (p_unlock h s p s')
  show ?case by (rule sinv_release [OF p_unlock.prems(1) p_unlock.hyps(1,3)])
      (use sinv_ctl [OF p_unlock.prems(1) p_unlock.hyps(1)] p_unlock.hyps(2) in simp_all)
next
  case (p_awake h s p lk s')
  show ?case by (rule sinv_acquire [OF p_awake.prems(1) p_awake.hyps(1,3)])
      (use sinv_ctl [OF p_awake.prems(1) p_awake.hyps(1)] p_awake.hyps(2) in auto)
next
  case (yield_lock h s p s')
  note H = yield_lock.hyps(3) [unfolded holds_only_held [OF yield_lock.prems(1) yield_lock.hyps(1)]]
  show ?case unfolding at_ctl_fields sinv_fields
    by (rule sinv_acquire [OF yield_lock.prems(1) yield_lock.hyps(1,4)])
      (use sinv_ctl [OF yield_lock.prems(1) yield_lock.hyps(1)] yield_lock.hyps(2) H in simp_all)
next
  case (yield_state h s p)
  show ?case by (rule sinv_state [OF yield_state.prems(1) yield_state.hyps(1)])
      (use sinv_ctl [OF yield_state.prems(1) yield_state.hyps(1)] yield_state.hyps(2) in simp_all)
next
  case (sleep_call h s p lk)
  note H = sleep_call.hyps(3) [unfolded holds_only_held [OF sleep_call.prems(1) sleep_call.hyps(1)]]
  show ?case unfolding at_ctl_fields sinv_fields
    by (rule sinvI [OF sleep_call.prems(1) sleep_call.hyps(1), where q = 0])
      (use sinv_ctl [OF sleep_call.prems(1) sleep_call.hyps(1)] sleep_call.hyps(2,4) H sinv_lock [OF sleep_call.prems(1)]
        in \<open>simp_all add: smp_simps\<close>)
next
  case (sleep_lock h s p lk s')
  show ?case by (rule sinv_acquire [OF sleep_lock.prems(1) sleep_lock.hyps(1,3)])
      (use sinv_ctl [OF sleep_lock.prems(1) sleep_lock.hyps(1)] sleep_lock.hyps(2) in auto)
next
  case (sleep_free h s p lk s')
  show ?case by (rule sinv_release [OF sleep_free.prems(1) sleep_free.hyps(1,3)])
      (use sinv_ctl [OF sleep_free.prems(1) sleep_free.hyps(1)] sleep_free.hyps(2) in auto)
next
  case (sleep_state h s p lk)
  show ?case by (rule sinv_state [OF sleep_state.prems(1) sleep_state.hyps(1)])
      (use sinv_ctl [OF sleep_state.prems(1) sleep_state.hyps(1)] sleep_state.hyps(2) in simp_all)
next
  case (exit_lock h s p s')
  note H = exit_lock.hyps(3) [unfolded holds_only_held [OF exit_lock.prems(1) exit_lock.hyps(1)]]
  show ?case by (rule sinv_acquire [OF exit_lock.prems(1) exit_lock.hyps(1,4)])
      (use sinv_ctl [OF exit_lock.prems(1) exit_lock.hyps(1)] exit_lock.hyps(2) H in simp_all)
next
  case (exit_wakeup h s p q s')
  show ?case by (rule sinv_acquire [OF exit_wakeup.prems(1) exit_wakeup.hyps(1,4)])
      (use sinv_ctl [OF exit_wakeup.prems(1) exit_wakeup.hyps(1)] exit_wakeup.hyps(2,3) in auto)
next
  case (exit_wake h s p q)
  show ?case by (rule sinv_poke [OF exit_wake.prems(1) exit_wake.hyps(1)])
      (use sinv_ctl [OF exit_wake.prems(1) exit_wake.hyps(1)] exit_wake.hyps(2,3) in simp_all)
next
  case (exit_woken h s p q s')
  show ?case by (rule sinv_release [OF exit_woken.prems(1) exit_woken.hyps(1,3)])
      (use sinv_ctl [OF exit_woken.prems(1) exit_woken.hyps(1)] exit_woken.hyps(2) in \<open>auto simp: wait_lock_def\<close>)
next
  case (exit_own h s p s')
  show ?case by (rule sinv_acquire [OF exit_own.prems(1) exit_own.hyps(1,3)])
      (use sinv_ctl [OF exit_own.prems(1) exit_own.hyps(1)] exit_own.hyps(2) in \<open>auto simp: wait_lock_def\<close>)
next
  case (exit_state h s p)
  show ?case by (rule sinv_state [OF exit_state.prems(1) exit_state.hyps(1)])
      (use sinv_ctl [OF exit_state.prems(1) exit_state.hyps(1)] exit_state.hyps(2) in auto)
next
  case (exit_free h s p s')
  show ?case by (rule sinv_release [OF exit_free.prems(1) exit_free.hyps(1,3)])
      (use sinv_ctl [OF exit_free.prems(1) exit_free.hyps(1)] exit_free.hyps(2) in \<open>auto simp: wait_lock_def\<close>)
next
  case (p_sched h s p s')
  show ?case by (rule sinv_sched [OF p_sched.prems(1) p_sched.hyps])
next
  case (k_acquire h s l s')
  show ?case by (rule sinv_code_acquire [OF k_acquire.prems(1) k_acquire.hyps])
next
  case (k_release h s l s')
  show ?case by (rule sinv_code_release [OF k_release.prems(1) k_release.hyps])
next
  case (k_poke h s q st)
  show ?case by (rule sinv_poke [OF k_poke.prems(1) k_poke.hyps(1)])
      (use k_poke.hyps(2,4,5) holding_held [OF sinv_lock [OF k_poke.prems(1)] k_poke.hyps(1)] in simp_all)
next
  case (k_context h s q x)
  then show ?case by (simp add: sinv_fields)
next
  case (k_intr h s f)
  show ?case by (rule sinv_intr [OF k_intr.prems(1) k_intr.hyps(1,3,4)])
next
  case (k_compute h s x)
  then show ?case by (simp add: sinv_fields)
qed

lemma sreach_inv: "sreach s \<Longrightarrow> sinv s \<and> slept_ok s"
proof (induction rule: sreach.induct)
  case (init s)
  then have "held h s = {}" for h by (simp add: sinit_def held_def)
  with init show ?case by (auto simp: sinit_def sinv_def lock_inv_def slept_ok_def)
next
  case (step s s')
  then show ?case using sstep_sinv [OF step.hyps(2)] sstep_slept_ok [OF step.hyps(2)] by blast
qed

lemmas sreach_sinv = sreach_inv [THEN conjunct1]


section \<open>Properties\<close>

lemma ctl_ok_on_stack:
  assumes "ctl_ok k H c ps" "on_stack k = Some p"
  shows "on_cpu k = Some p \<and> ps p = RUNNING \<and> k \<notin> {PLeft p, PZombie p} \<or>
    k \<in> {PLeft p, PZombie p} \<and> ps p \<noteq> RUNNING \<and> Lk_proc p \<in> H"
  using assms by (cases k) auto

text \<open>
  C10: No two harts ever execute on the kernel stack of the same process: not while it runs, and not
  between the moment it has marked itself runnable, sleeping or dead and its switch to the scheduler,
  although other harts already see the new state. A process is in state \<^verbatim>\<open>RUNNING\<close> when a hart has
  switched to it and it has not given up the processor.
\<close>

theorem one_hart_per_stack:
  assumes "sreach s" "h < NCPU" "h' < NCPU" "on_stack (ctl s h) = Some p" "on_stack (ctl s h') = Some p"
  shows "h = h' \<and> (pstate s p = RUNNING \<longleftrightarrow> ctl s h \<notin> {PLeft p, PZombie p})"
proof -
  note inv = sreach_sinv [OF assms(1)]
  note k = sinv_ctl [OF inv assms(2)] sinv_ctl [OF inv assms(3)]
  note st = ctl_ok_on_stack [OF k(1) assms(4)] ctl_ok_on_stack [OF k(2) assms(5)]
  have "h = h'"
  proof (cases "pstate s p = RUNNING")
    case True
    then show ?thesis using st inv assms(2,3) unfolding sinv_def
      by (metis option.distinct(1))
  next
    case False
    then show ?thesis using st held_disjoint by blast
  qed
  then show ?thesis using st(1) by blast
qed


section \<open>Wake-ups\<close>













text \<open>What a step by hart \<open>h\<close> does to the context of a process that is on no stack.\<close>

definition parked :: "nat \<Rightarrow> sconf \<Rightarrow> bool" where
  "parked p s \<longleftrightarrow> (pstate s p = RUNNABLE \<or> pstate s p = SLEEPING) \<and> (\<forall>h < NCPU. on_stack (ctl s h) \<noteq> Some p)"

definition kept :: "nat \<Rightarrow> sconf \<Rightarrow> sconf \<Rightarrow> bool" where
  "kept p s s' \<longleftrightarrow> pcontext s' p = pcontext s p \<and> saved s' p = saved s p \<and> slept s' p = slept s p \<and>
     (parked p s' \<or> (\<exists>h < NCPU. ctl s' h = PEntry p \<and> regs s' h = pcontext s p))"

lemma kept_same:
  assumes "parked p s" "same_proc s s'" "on_stack k = on_stack (ctl s h) \<or> on_stack k = None"
  shows "kept p s (at_ctl h k s')"
  using assms by (auto simp: kept_def parked_def same_proc_def smp_simps)

lemma kept_fields:
  assumes "parked p s" "pcontext s' p = pcontext s p" "saved s' p = saved s p" "pstate s' p = pstate s p" "slept s' p = slept s p"
    and "\<And>i. on_stack (ctl s' i) = on_stack (ctl s i) \<or> on_stack (ctl s' i) \<noteq> Some p"
  shows "kept p s s'"
  using assms(1-5) assms(6) unfolding kept_def parked_def by metis

lemma same_proc_refl: "same_proc s s"
  by (simp add: same_proc_def)

lemma same_proc_trans: "same_proc s s' \<Longrightarrow> same_proc s' s'' \<Longrightarrow> same_proc s s''"
  by (simp add: same_proc_def)

lemma kept_switch:
  assumes "parked p s" "lock_inv s" "h < NCPU"
  shows "kept p s (at_ctl h (PEntry q) (scheduler_switch h q s))"
proof (cases "q = p")
  case True
  then show ?thesis using assms(3)
    by (auto simp: kept_def scheduler_switch_def swtch_def ctx_put_def ctx_get_def Let_def smp_simps intro: exI [of _ h])
next
  case False
  then show ?thesis
    by (intro kept_fields [OF assms(1)])
      (auto simp: scheduler_switch_def swtch_def ctx_put_def Let_def smp_simps)
qed

lemma kept_back:
  assumes "parked p s" "lock_inv s" "h < NCPU" "scheduler_back h q s = Ok () s'"
  shows "kept p s (at_ctl h (SScan r) s')"
  by (rule kept_fields [OF assms(1)]) (simp_all add: smp_simps scheduler_back_frame [OF assms(2-4)])

lemma kept_entry:
  assumes "parked p s" "lock_inv s" "h < NCPU" "sched_return h q s = Ok () s'" "q \<noteq> p"
  shows "kept p s (at_ctl h (resume q s) s')"
  by (rule kept_fields [OF assms(1)])
    (use assms(5) in \<open>simp_all add: smp_simps sched_return_frame [OF assms(2-4)] resume_def split: option.splits\<close>)

text \<open>A process that is on its own stack only touches its own fields.\<close>

lemma kept_own:
  assumes "parked p s" "on_stack (ctl s h) = Some q" "q \<noteq> p" "ctl s' = (ctl s)(h := k)" "on_stack k = Some q \<or> on_stack k = None"
    and "\<And>r. r \<noteq> q \<Longrightarrow> pcontext s' r = pcontext s r \<and> saved s' r = saved s r \<and> pstate s' r = pstate s r \<and> slept s' r = slept s r"
  shows "kept p s s'"
  by (rule kept_fields [OF assms(1)]) (use assms(2-6) in auto)

lemma kept_poke:
  assumes "parked p s" "poke_ok (pstate s q) st"
  shows "kept p s (poke q st s)"
  using assms by (auto simp: kept_def parked_def smp_simps)

text \<open>
  C13: The context of a process that waits off its processor is left alone. Whatever any hart does
  next, the saved registers and what \<^verbatim>\<open>sched\<close> and \<^verbatim>\<open>sleep\<close> keep on the stack of a runnable or sleeping process keep their
  values, and the process still waits unless a scheduler has switched to it; the hart that did has
  loaded exactly these registers.
\<close>

theorem parked_context_kept:
  assumes "sreach s" "sstep s s'" "parked p s"
  shows "kept p s s'"
proof -
  note inv = sreach_sinv [OF assms(1)]
  note l = sinv_lock [OF inv]
  have off: "on_stack (ctl s h) \<noteq> Some p" if "h < NCPU" for h using assms(3) that by (simp add: parked_def)
  show ?thesis using assms(2)
  proof (cases rule: sstep.cases)
    case (s_lock h q s1)
    then show ?thesis using kept_same [OF assms(3) acquire_effect(4) [OF l s_lock(2,5)]] by simp
  next
    case (s_skip h q s1)
    then show ?thesis using kept_same [OF assms(3) release_effect'(4) [OF l s_skip(2,5)]] by simp
  next
    case (s_choose h q)
    then show ?thesis using kept_same [OF assms(3) same_proc_refl] by simp
  next
    case (s_switch h q)
    then show ?thesis using kept_switch [OF assms(3) l s_switch(2)] by simp
  next
    case (s_back h q s1)
    then show ?thesis using kept_back [OF assms(3) l s_back(2,4)] by simp
  next
    case (p_entry h q s1)
    then show ?thesis using kept_entry [OF assms(3) l p_entry(2,4)] off [OF p_entry(2)] by simp
  next
    case (p_lock h q s1)
    then show ?thesis using kept_same [OF assms(3) acquire_effect(4) [OF l p_lock(2,4)]] by simp
  next
    case (p_unlock h q s1)
    then show ?thesis using kept_same [OF assms(3) release_effect'(4) [OF l p_unlock(2,4)]] by simp
  next
    case (p_awake h q lk s1)
    then show ?thesis using kept_same [OF assms(3) acquire_effect(4) [OF l p_awake(2,4)]] by simp
  next
    case (yield_lock h q s1)
    note e = acquire_effect(4) [OF l yield_lock(2,5)]
    show ?thesis unfolding yield_lock(1)
      by (rule kept_own [OF assms(3), where h = h and q = q and k = "PHeld q LYield"]) (use off [OF yield_lock(2)] yield_lock(3) e in \<open>simp_all add: smp_simps same_proc_def\<close>)
  next
    case (yield_state h q)
    show ?thesis unfolding yield_state(1)
      by (rule kept_own [OF assms(3), where h = h and q = q and k = "PLeft q"]) (use off [OF yield_state(2)] yield_state(3) in \<open>simp_all add: smp_simps\<close>)
  next
    case (sleep_call h q lk)
    show ?thesis unfolding sleep_call(1)
      by (rule kept_own [OF assms(3), where h = h and q = q and k = "PCall q lk"]) (use off [OF sleep_call(2)] sleep_call(3) in \<open>simp_all add: smp_simps\<close>)
  next
    case (sleep_lock h q lk s1)
    then show ?thesis using kept_same [OF assms(3) acquire_effect(4) [OF l sleep_lock(2,4)]] by simp
  next
    case (sleep_free h q lk s1)
    then show ?thesis using kept_same [OF assms(3) release_effect'(4) [OF l sleep_free(2,4)]] by simp
  next
    case (sleep_state h q lk)
    show ?thesis unfolding sleep_state(1)
      by (rule kept_own [OF assms(3), where h = h and q = q and k = "PLeft q"]) (use off [OF sleep_state(2)] sleep_state(3) in \<open>simp_all add: smp_simps\<close>)
  next
    case (exit_lock h q s1)
    then show ?thesis using kept_same [OF assms(3) acquire_effect(4) [OF l exit_lock(2,5)]] by simp
  next
    case (exit_wakeup h q r s1)
    then show ?thesis using kept_same [OF assms(3) acquire_effect(4) [OF l exit_wakeup(2,5)]] by simp
  next
    case (exit_wake h q r)
    then show ?thesis using kept_poke [OF assms(3), of r RUNNABLE] by simp
  next
    case (exit_woken h q r s1)
    then show ?thesis using kept_same [OF assms(3) release_effect'(4) [OF l exit_woken(2,4)]] by simp
  next
    case (exit_own h q s1)
    then show ?thesis using kept_same [OF assms(3) acquire_effect(4) [OF l exit_own(2,4)]] by simp
  next
    case (exit_state h q)
    show ?thesis unfolding exit_state(1)
      by (rule kept_own [OF assms(3), where h = h and q = q and k = "PZombie q"]) (use off [OF exit_state(2)] exit_state(3) in \<open>simp_all add: smp_simps\<close>)
  next
    case (exit_free h q s1)
    then show ?thesis using kept_same [OF assms(3) release_effect'(4) [OF l exit_free(2,4)]] by simp
  next
    case (p_sched h q s1)
    then have s1: "s1 = swtch h (Ctx_proc q) (Ctx_cpu h) (s\<lparr>saved := (saved s)(q := Some (intena (cpus s h)))\<rparr>)"
      using sched_Ok [OF inv p_sched(2,3)] by simp
    have "q \<noteq> p" using off [OF p_sched(2)] p_sched(3) by simp
    then show ?thesis unfolding p_sched(1) s1
      by (intro kept_fields [OF assms(3)]) (simp_all add: swtch_def ctx_put_def Let_def smp_simps)
  next
    case (k_acquire h l')
    then show ?thesis using kept_same [OF assms(3) acquire_effect(4) [OF l k_acquire(1,4)], of "ctl s h" h]
        same_procD(1) [OF acquire_effect(4) [OF l k_acquire(1,4)]] by (simp add: at_ctl_same)
  next
    case (k_release h l')
    then show ?thesis using kept_same [OF assms(3) release_effect'(4) [OF l k_release(1,4)], of "ctl s h" h]
        same_procD(1) [OF release_effect'(4) [OF l k_release(1,4)]] by (simp add: at_ctl_same)
  next
    case (k_poke h q st)
    then show ?thesis using kept_poke [OF assms(3)] by simp
  next
    case (k_context h q x)
    then show ?thesis using assms(3) by (intro kept_fields [OF assms(3)]) (auto simp: parked_def)
  next
    case (k_intr h f)
    then show ?thesis by (intro kept_fields [OF assms(3)]) (simp_all add: smp_simps)
  next
    case (k_compute h x)
    then show ?thesis by (intro kept_fields [OF assms(3)]) simp_all
  qed
qed

text \<open>Process 0 is runnable and hart 1 has picked it up; process 1 is runnable and waits.\<close>

definition sboot :: sconf where
  "sboot = \<lparr>harts = hart_on, cpus = (\<lambda>_. cpu_idle), locks = (\<lambda>_. lock_free),
     regs = (\<lambda>_. \<lparr>c_ra = 0, c_sp = 0, c_s = (\<lambda>_. 0)\<rparr>),
     pstate = (\<lambda>p. if p < 2 then RUNNABLE else UNUSED),
     pcontext = (\<lambda>p. \<lparr>c_ra = 7, c_sp = KSTACK (of_nat p) + PGSIZE, c_s = (\<lambda>_. 0)\<rparr>),
     saved = (\<lambda>_. None), slept = (\<lambda>_. None), waiting = (\<lambda>_. None), ctl = (\<lambda>_. SScan 0)\<rparr>"

definition slocked :: sconf where
  "slocked = at_ctl 1 (SLocked 0) (upd_lock (Lk_proc 0) (\<lambda>x. x\<lparr>lk_cpu := Some 1\<rparr>)
     (upd_lock (Lk_proc 0) (\<lambda>x. x\<lparr>locked := 1\<rparr>) (push_off 1 sboot)))"

definition sentered :: sconf where
  "sentered = at_ctl 1 (PEntry 0) (scheduler_switch 1 0 (at_ctl 1 (SChosen 0) slocked))"

lemma sreach_slocked: "sreach slocked"
proof -
  have i: "sreach sboot" by (rule sreach.init) (simp add: sinit_def sboot_def tp_ok_def)
  have "mycpu 1 sboot = 1" by (rule mycpu_tp) (simp_all add: tp_ok_def sboot_def NCPU_def)
  then show ?thesis unfolding slocked_def
    by (intro sreach.step [OF i] sstep.s_lock)
      (simp_all add: NCPU_def acquire_Ok holding_def Let_def, simp_all add: sboot_def)
qed

lemma slocked_simps: "ctl slocked 1 = SLocked 0" "pstate slocked 0 = RUNNABLE" "pstate slocked 1 = RUNNABLE"
  "h \<noteq> 1 \<Longrightarrow> ctl slocked h = SScan 0" "pcontext slocked p = pcontext sboot p"
  by (simp_all add: slocked_def smp_simps) (simp_all add: sboot_def)

lemma sreach_sentered: "sreach sentered"
proof -
  have "sreach (at_ctl 1 (SChosen 0) slocked)"
    by (rule sreach.step [OF sreach_slocked sstep.s_choose]) (simp_all add: slocked_simps NCPU_def del: One_nat_def)
  then show ?thesis unfolding sentered_def
    by (rule sreach.step [OF _ sstep.s_switch]) (simp_all add: smp_simps NCPU_def)
qed

lemma sentered_simps: "ctl sentered 1 = PEntry 0" "pstate sentered 0 = RUNNING"
  by (simp_all add: sentered_def scheduler_switch_def Let_def smp_simps del: One_nat_def)

theorem one_hart_per_stack_witness:
  "on_stack (ctl sentered 1) = Some 0 \<and> on_stack (ctl sentered 5) \<noteq> Some 0 \<and> pstate sentered 0 = RUNNING"
proof -
  have 1: "on_stack (ctl sentered 1) = Some 0" by (simp add: sentered_simps del: One_nat_def)
  have "on_stack (ctl sentered 5) \<noteq> Some 0"
    using one_hart_per_stack [OF sreach_sentered, of 1 5 0] 1 by (auto simp: NCPU_def simp del: One_nat_def)
  moreover have "pstate sentered 0 = RUNNING"
    using one_hart_per_stack [OF sreach_sentered, of 1 1 0] 1 by (simp add: NCPU_def sentered_simps(1) del: One_nat_def)
  ultimately show ?thesis using 1 by blast
qed

declare One_nat_def [simp del]










declare One_nat_def [simp]

theorem parked_context_kept_witness:
  "parked 0 slocked \<and> (\<exists>s'. sstep slocked s' \<and> kept 0 slocked s' \<and> pcontext s' 0 = \<lparr>c_ra = 7, c_sp = KSTACK 0 + PGSIZE, c_s = (\<lambda>_. 0)\<rparr>)"
proof -
  have st: "sstep slocked (at_ctl 1 (SChosen 0) slocked)"
    by (rule sstep.s_choose) (simp_all add: slocked_simps NCPU_def del: One_nat_def)
  have "on_stack (ctl slocked h) \<noteq> Some 0" for h
    by (cases "h = 1") (simp_all add: slocked_simps(1,4) del: One_nat_def)
  then have p: "parked 0 slocked" by (simp add: parked_def slocked_simps)
  have k: "kept 0 slocked (at_ctl 1 (SChosen 0) slocked)" by (rule parked_context_kept [OF sreach_slocked st p])
  then have "pcontext (at_ctl 1 (SChosen 0) slocked) 0 = pcontext sboot 0" by (simp add: kept_def slocked_simps del: One_nat_def)
  also have "\<dots> = \<lparr>c_ra = 7, c_sp = KSTACK 0 + PGSIZE, c_s = (\<lambda>_. 0)\<rparr>" by (simp add: sboot_def)
  finally show ?thesis using p st k by blast
qed

end
