(* ===== verification/Ring.thy ===== *)
theory Ring
  imports File
begin

text \<open>
  Ring buffers. Pipes, the console input and the serial output all keep a byte array of \<open>N\<close> slots and
  two counters that run freely and wrap around with their machine word; a counter selects the slot
  \<^verbatim>\<open>counter % N\<close>. The locale states what the code relies on, that \<open>N\<close> divides the number of counter
  values, and proves once that the array is then a bounded queue, across the wrap-around of the
  counters. It is interpreted for the three buffers of the kernel.
\<close>

definition ring_list :: "nat \<Rightarrow> (nat \<Rightarrow> 'a) \<Rightarrow> 'w::len word \<Rightarrow> 'w word \<Rightarrow> 'a list" where
  "ring_list N b r w = map (\<lambda>i. b (unat (r + of_nat i) mod N)) [0..<unat (w - r)]"

definition ring_ok :: "nat \<Rightarrow> 'w::len word \<Rightarrow> 'w word \<Rightarrow> bool" where
  "ring_ok N r w \<longleftrightarrow> unat (w - r) \<le> N"

lemma unat_of_nat_small: "n < 2 ^ LENGTH('w) \<Longrightarrow> unat (of_nat n :: 'w::len word) = n"
  by (simp add: unat_of_nat take_bit_nat_eq_self)

lemma unat_plus1: "unat x + 1 < 2 ^ LENGTH('w) \<Longrightarrow> unat (x + 1) = unat x + 1" for x :: "'w::len word"
  by (metis Suc_eq_plus1 add.commute less_irrefl mod_less unat_word_ariths(1) unsigned_1 word_arith_nat_defs(1))

lemma unat_minus1: "x \<noteq> 0 \<Longrightarrow> unat (x - 1) = unat x - 1" for x :: "'w::len word"
  by (rule unat_minus_one)

locale ring =
  fixes N :: nat and ty :: "'w::len itself"
  assumes pos: "0 < N" and bound: "N < 2 ^ LENGTH('w)" and divides: "N dvd 2 ^ LENGTH('w)"
begin

lemma length_list: "length (ring_list N b r w) = unat (w - r)"
  for r w :: "'w word"
  by (simp add: ring_list_def)

lemma empty_iff: "ring_list N b r w = [] \<longleftrightarrow> r = w"
  for r w :: "'w word"
  by (auto simp: ring_list_def unat_eq_0)

lemma full_iff: "w = r + of_nat N \<longleftrightarrow> length (ring_list N b r w) = N"
  for r w :: "'w word"
proof -
  have "w = r + of_nat N \<longleftrightarrow> w - r = of_nat N" by (auto simp: algebra_simps)
  also have "\<dots> \<longleftrightarrow> unat (w - r) = N"
    by (simp add: word_unat_eq_iff unat_of_nat_small [OF bound])
  finally show ?thesis by (simp add: length_list)
qed

text \<open>The slot of a counter, counted from another one.\<close>

lemma slot: "unat (r + of_nat i) mod N = (unat r + i) mod N"
  for r :: "'w word"
proof -
  have "unat (r + of_nat i) = (unat r + i) mod 2 ^ LENGTH('w)"
    by (simp add: unat_word_ariths unat_of_nat take_bit_eq_mod mod_simps)
  then show ?thesis using divides by (simp add: mod_mod_cancel)
qed

lemma slot_inj:
  assumes "(a + i) mod N = (a + j) mod N" "i < N" "j < N"
  shows "i = j"
proof -
  have *: "i' = j'" if "(a + i') mod N = (a + j') mod N" "i' \<le> j'" "j' < N" for i' j'
  proof -
    have "N dvd (a + j') - (a + i')" using that by (metis add_left_mono mod_eq_dvd_iff_nat)
    then show ?thesis using that by (auto dest: dvd_imp_le)
  qed
  show ?thesis using * [of i j] * [of j i] assms by (cases "i \<le> j") auto
qed

lemma list_eq: "ring_list N b r w = map (\<lambda>i. b ((unat r + i) mod N)) [0..<unat (w - r)]"
  for r w :: "'w word"
  by (simp add: ring_list_def slot)

lemma push:
  fixes r w :: "'w word"
  assumes "ring_ok N r w" "w \<noteq> r + of_nat N"
  shows "ring_list N (b(unat w mod N := x)) r (w + 1) = ring_list N b r w @ [x]" "ring_ok N r (w + 1)"
proof -
  have less: "unat (w - r) < N"
    using assms full_iff [of w r b] by (simp add: ring_ok_def length_list)
  then have d: "unat (w + 1 - r) = unat (w - r) + 1"
    using unat_plus1 [of "w - r"] bound by (simp add: algebra_simps)
  then show "ring_ok N r (w + 1)" using less by (simp add: ring_ok_def)
  have w: "unat w mod N = (unat r + unat (w - r)) mod N"
    using slot [of r "unat (w - r)"] by simp
  have "(unat r + i) mod N \<noteq> unat w mod N" if "i < unat (w - r)" for i
    using slot_inj [of "unat r" i "unat (w - r)"] that less w by auto
  then show "ring_list N (b(unat w mod N := x)) r (w + 1) = ring_list N b r w @ [x]"
    by (simp add: list_eq d w)
qed

lemma pop:
  fixes r w :: "'w word"
  assumes "ring_ok N r w" "r \<noteq> w"
  shows "ring_list N b r w = b (unat r mod N) # ring_list N b (r + 1) w" "ring_ok N (r + 1) w"
proof -
  have n0: "w - r \<noteq> 0" using assms(2) by simp
  then have d: "unat (w - (r + 1)) = unat (w - r) - 1" using unat_minus1 [of "w - r"] by (simp add: algebra_simps)
  have p: "0 < unat (w - r)" using n0 by (simp add: unat_gt_0)
  show "ring_ok N (r + 1) w" using assms(1) by (simp add: ring_ok_def d)
  have "[0..<unat (w - r)] = 0 # map Suc [0..<unat (w - r) - 1]"
    using p by (metis Suc_pred' map_Suc_upt upt_conv_Cons)
  then show "ring_list N b r w = b (unat r mod N) # ring_list N b (r + 1) w"
    by (simp add: ring_list_def d add.assoc add.commute [of 1])
qed

lemma pop_back:
  fixes r w :: "'w word"
  assumes "ring_ok N r w" "w \<noteq> r"
  shows "ring_list N b r (w - 1) = butlast (ring_list N b r w)" "ring_ok N r (w - 1)"
proof -
  have "w - r \<noteq> 0" using assms(2) by simp
  then have d: "unat (w - 1 - r) = unat (w - r) - 1" using unat_minus1 [of "w - r"] by (simp add: algebra_simps)
  show "ring_ok N r (w - 1)" using assms(1) by (simp add: ring_ok_def d)
  show "ring_list N b r (w - 1) = butlast (ring_list N b r w)"
    by (cases "unat (w - r)") (simp_all add: ring_list_def d)
qed

lemma elements: "i < length (ring_list N b r w) \<Longrightarrow> ring_list N b r w ! i = b (unat (r + of_nat i) mod N)"
  for r w :: "'w word"
  by (simp add: ring_list_def)

end

interpretation pipe_ring: ring PIPESIZE "TYPE(32)"
  by unfold_locales (simp_all add: PIPESIZE_def)

interpretation cons_ring: ring INPUT_BUF_SIZE "TYPE(32)"
  by unfold_locales (simp_all add: INPUT_BUF_SIZE_def)

interpretation uart_ring: ring UART_TX_BUF_SIZE "TYPE(64)"
  by unfold_locales (simp_all add: UART_TX_BUF_SIZE_def)

end
