(* ===== verification/Frame.thy ===== *)
theory Frame
  imports Vm
begin

text \<open>
  What the virtual memory code leaves alone: it changes physical memory, the reference counts and the
  free list, and no other part of the kernel state. \<open>keeps m r\<close> says that a result, when it returns,
  has \<open>m\<close> as the rest of its state.
\<close>

named_theorems keeps_rules \<open>operations that change memory only\<close>

definition keeps :: "'a \<Rightarrow> ('a kmem_scheme, 'b) res \<Rightarrow> bool" where
  "keeps m r \<longleftrightarrow> (\<forall>x s. r = Ok x s \<longrightarrow> kmem.more s = m)"

lemma keeps_simps [simp]:
  "keeps m (Ok x s) \<longleftrightarrow> kmem.more s = m" "keeps m (Sleep c s)" "keeps m (Switch s)" "keeps m (Panic p)" "keeps m (Fault p)"
  by (auto simp: keeps_def)

lemma keepsD: "keeps m r \<Longrightarrow> r = Ok x s \<Longrightarrow> kmem.more s = m"
  by (simp add: keeps_def)

lemma keeps_andthen [keeps_rules]:
  "keeps m r \<Longrightarrow> (\<And>x s. r = Ok x s \<Longrightarrow> kmem.more s = m \<Longrightarrow> keeps m (f x s)) \<Longrightarrow> keeps m (andthen r f)"
  by (cases r) auto

lemma more_kalloc [simp]: "kalloc s = (p, s') \<Longrightarrow> kmem.more s' = kmem.more s"
  by (auto simp: kalloc_def Let_def split: if_splits)

lemma keeps_kfree [keeps_rules]: "kmem.more s = m \<Longrightarrow> keeps m (kfree pa s)"
  by (simp add: kfree_def Let_def)

lemma keeps_counts [keeps_rules]:
  "kmem.more s = m \<Longrightarrow> keeps m (incref pa s)" "kmem.more s = m \<Longrightarrow> keeps m (decref pa s)"
  "kmem.more s = m \<Longrightarrow> keeps m (refcount pa s)"
  by (simp_all add: incref_def decref_def refcount_def Let_def keeps_kfree)

lemma more_walk_levels: "walk_levels l pagetable va alloc s = (pte, s') \<Longrightarrow> kmem.more s' = kmem.more s"
  by (induction l pagetable va alloc s rule: walk_levels.induct)
    (auto simp: Let_def split: if_splits prod.splits)

lemma keeps_walk [keeps_rules]: "kmem.more s = m \<Longrightarrow> keeps m (walk pagetable va alloc s)"
  by (auto simp: walk_def dest: more_walk_levels split: prod.splits)

lemma keeps_walkaddr [keeps_rules]: "kmem.more s = m \<Longrightarrow> keeps m (walkaddr pagetable va s)"
  by (simp add: walkaddr_def) (intro impI keeps_rules, simp_all add: Let_def)

lemma keeps_mappages_loop [keeps_rules]: "kmem.more s = m \<Longrightarrow> keeps m (mappages_loop pagetable a z pa perm s)"
proof (induction pagetable a z pa perm s rule: mappages_loop.induct)
  case (1 pagetable a last_va pa perm s)
  show ?case
    by (subst mappages_loop.simps) (intro keeps_rules 1, simp add: Let_def 1)
qed


lemma keeps_mappages [keeps_rules]: "kmem.more s = m \<Longrightarrow> keeps m (mappages pagetable va sz pa perm s)"
  by (simp add: mappages_def keeps_mappages_loop)

lemma keeps_if: "(b \<Longrightarrow> keeps m x) \<Longrightarrow> (\<not> b \<Longrightarrow> keeps m y) \<Longrightarrow> keeps m (if b then x else y)"
  by simp

lemma keeps_Ok: "kmem.more s = m \<Longrightarrow> keeps m (Ok x s)"
  by simp

lemma keeps_uvmunmap_loop [keeps_rules]: "kmem.more s = m \<Longrightarrow> keeps m (uvmunmap_loop pagetable a z fr s)"
proof (induction pagetable a z fr s rule: uvmunmap_loop.induct)
  case (1 pagetable a last_va do_free s)
  note IH = 1(1) [OF _ _ _ refl]
  show ?case unfolding uvmunmap_loop.simps [of pagetable a] Let_def
    by (intro keeps_if keeps_andthen keeps_walk keeps_kfree keeps_Ok IH; (rule 1(2) | assumption | simp))
qed

lemma keeps_uvmunmap [keeps_rules]: "kmem.more s = m \<Longrightarrow> keeps m (uvmunmap pagetable va n fr s)"
  by (simp add: uvmunmap_def keeps_uvmunmap_loop)

lemma keeps_uvmdealloc [keeps_rules]: "kmem.more s = m \<Longrightarrow> keeps m (uvmdealloc pagetable a b s)"
  by (simp add: uvmdealloc_def Let_def) (intro impI keeps_rules, simp_all)

lemma keeps_uvmalloc_loop [keeps_rules]: "kmem.more s = m \<Longrightarrow> keeps m (uvmalloc_loop pagetable a oldsz newsz x s)"
proof (induction pagetable a oldsz newsz x s rule: uvmalloc_loop.induct)
  case (1 pagetable a oldsz newsz x s)
  obtain p t where k: "kalloc s = (p, t)" by fastforce
  then have t: "kmem.more t = m" using 1(2) by simp
  note IH = 1(1) [OF _ k [symmetric] _ refl]
  show ?case unfolding uvmalloc_loop.simps [of pagetable a] k prod.case Let_def
    by (intro keeps_if keeps_andthen keeps_mappages keeps_kfree keeps_uvmdealloc keeps_Ok IH; (rule 1(2) | assumption | simp add: t))
qed

lemma keeps_uvmalloc [keeps_rules]: "kmem.more s = m \<Longrightarrow> keeps m (uvmalloc pagetable a b x s)"
  by (simp add: uvmalloc_def keeps_uvmalloc_loop)


lemma keeps_for_each [keeps_rules]:
  assumes "kmem.more s = m" "\<And>i t. kmem.more t = m \<Longrightarrow> keeps m (f i t)"
  shows "keeps m (for_each is f s)"
  using assms(1)
proof (induction "is" arbitrary: s)
  case (Cons i "is")
  show ?case unfolding for_each.simps by (intro keeps_andthen assms(2) Cons; assumption)
qed simp

lemma keeps_freewalk_rec [keeps_rules]: "kmem.more s = m \<Longrightarrow> keeps m (freewalk_rec d pagetable s)"
proof (induction d arbitrary: pagetable s)
  case (Suc d)
  show ?case unfolding freewalk_rec.simps Let_def
    by (intro keeps_andthen keeps_for_each keeps_if keeps_kfree keeps_Ok Suc; (rule Suc | assumption | simp))
qed simp

lemma keeps_uvmfree [keeps_rules]: "kmem.more s = m \<Longrightarrow> keeps m (uvmfree pagetable sz s)"
  unfolding uvmfree_def freewalk_def
  by (intro keeps_andthen keeps_if keeps_uvmunmap keeps_freewalk_rec keeps_Ok; assumption)

lemma keeps_uvmcopy_loop:
  fixes s s0 :: "'a kmem_scheme"
  shows "kmem.more s = kmem.more s0 \<Longrightarrow> keeps (kmem.more s0) (uvmcopy_loop old new i sz s)"
proof (induction old new i sz s rule: uvmcopy_loop.induct)
  case (1 old new i sz s)
  note IH = 1(1) [OF _ _ _ refl _ refl refl]
  show ?case unfolding uvmcopy_loop.simps [of old new i] Let_def
    by (intro keeps_if keeps_andthen keeps_walk keeps_Ok; (rule 1(2) | assumption | simp)?)
      (auto intro!: keeps_andthen keeps_mappages keeps_counts keeps_if keeps_Ok intro!: IH split: if_splits simp: Let_def)
qed

lemma keeps_uvmcopy [keeps_rules]: "kmem.more s = m \<Longrightarrow> keeps m (uvmcopy old new sz s)"
  using keeps_uvmcopy_loop [of s s] by (simp add: uvmcopy_def)

lemma keeps_kalloc:
  assumes "kmem.more s = m" "\<And>p t. kalloc s = (p, t) \<Longrightarrow> kmem.more t = m \<Longrightarrow> keeps m (f p t)"
  shows "keeps m (case kalloc s of (p, t) \<Rightarrow> f p t)"
  using assms by (cases "kalloc s") auto

lemma keeps_handle_cow_fault [keeps_rules]: "kmem.more s = m \<Longrightarrow> keeps m (handle_cow_fault cur va s)"
  unfolding handle_cow_fault_def Let_def
  by (cases cur; simp only: option.case)
    (intro keeps_if keeps_andthen keeps_walk keeps_counts keeps_kalloc keeps_Ok; (assumption | simp))+

lemma keeps_copyout_pte [keeps_rules]: "kmem.more s = m \<Longrightarrow> keeps m (copyout_pte cur pagetable va pte s)"
  unfolding copyout_pte_def
  by (intro keeps_if keeps_andthen keeps_handle_cow_fault keeps_walk keeps_Ok; assumption)

lemma keeps_copyout [keeps_rules]: "kmem.more s = m \<Longrightarrow> keeps m (copyout cur pagetable va src s)"
proof (induction cur pagetable va src s rule: copyout.induct)
  case (1 cur pagetable dstva src s)
  note IH = 1(1) [OF _ refl]
  have opt: "keeps m (case z of None \<Rightarrow> Ok (- 1) t | Some y \<Rightarrow> g y)"
    if "kmem.more t = m" "\<And>y. z = Some y \<Longrightarrow> keeps m (g y)" for z and t :: "'a kmem_scheme" and g
    using that by (cases z) auto
  show ?case
    by (subst copyout.simps, unfold Let_def)
      (intro keeps_if keeps_andthen keeps_walk keeps_copyout_pte keeps_Ok opt IH; (rule 1(2) | assumption | simp))
qed

section \<open>Reads leave the whole state alone\<close>

lemma walk_levels_read: "snd (walk_levels l pagetable va False s) = s"
  by (induction l arbitrary: pagetable) (auto simp: Let_def)

lemma walk_read: "walk pagetable va False s = Ok pte s' \<Longrightarrow> s' = s"
  using walk_levels_read [of 2 pagetable va s] by (auto simp: walk_def split: if_splits prod.splits)

lemma walkaddr_read: "walkaddr pagetable va s = Ok pa s' \<Longrightarrow> s' = s"
  by (auto simp: walkaddr_def res_simps Let_def dest: walk_read split: if_splits)

lemma copyin_loop_read: "copyin_loop pagetable dst va len s = Ok x s' \<Longrightarrow> s' = s"
proof (induction pagetable dst va len s rule: copyin_loop.induct)
  case (1 pagetable dst srcva len s)
  from 1(2) show ?case
    by (subst (asm) copyin_loop.simps)
      (auto simp: res_simps Let_def dest: walkaddr_read split: if_splits dest!: 1(1) [OF _ refl])
qed

lemma copyin_read: "copyin pagetable va len s = Ok x s' \<Longrightarrow> s' = s"
  unfolding copyin_def by (rule copyin_loop_read)

end
