(* ===== verification/Kuser.thy ===== *)
theory Kuser
  imports Proc Frame Vm_Props
begin

text \<open>
  The current process and its memory, as kernel code that copies to and from user space sees it.
  \<open>in_space s p r R ps\<close> says that process \<open>p\<close> runs with page table \<open>r\<close> in a kernel whose page tables \<open>R\<close>
  and free pages \<open>ps\<close> are well formed. The lemmas lift the copy routines to kernel states with
  further components, which they leave alone.
\<close>

section \<open>States with the same memory\<close>

definition same_mem :: "'a kmem_scheme \<Rightarrow> 'b kmem_scheme \<Rightarrow> bool" where
  "same_mem s s' \<longleftrightarrow> mem s' = mem s \<and> refcnt s' = refcnt s \<and> freelist s' = freelist s \<and> end_addr s' = end_addr s"

lemma same_mem_vm:
  assumes "same_mem s s'"
  shows "ptinv s' R ps = ptinv s R ps" "vminv s' R ps = vminv s R ps" "uread s' r va = uread s r va"
    "readable s' r va = readable s r va" "writable s' r va = writable s r va" "ubyte s' r va = ubyte s r va"
  using assms
  by (simp_all add: same_mem_def ptinv_def vminv_def refs_ok_def kinv_def page_ok_def uread_def readable_def
      writable_def ubyte_def Let_def)

lemma same_mem_refl [simp]: "same_mem s s"
  by (simp add: same_mem_def)

lemma same_mem_wakeup [simp]: "same_mem s (wakeup c s)" "same_mem s (upd_proc p f s)"
  by (simp_all add: same_mem_def wakeup_eq upd_proc_def)

definition in_space :: "'a kproc_scheme \<Rightarrow> nat \<Rightarrow> u64 \<Rightarrow> u64 set \<Rightarrow> u64 list \<Rightarrow> bool" where
  "in_space s p r R ps \<longleftrightarrow> curproc s = Some p \<and> p_pagetable (procs s p) = r \<and> r \<in> R \<and>
     vminv s R ps \<and> excl (leaf (mem s)) R"

lemma in_spaceD:
  assumes "in_space s p r R ps"
  shows "curproc s = Some p" "p_pagetable (procs s p) = r" "r \<in> R" "vminv s R ps" "excl (leaf (mem s)) R"
    "myproc s = Ok p s" "cur_pagetable s = Some r" "ptinv s R ps"
  using assms by (simp_all add: in_space_def myproc_def cur_pagetable_def vminvD)

lemma in_space_cong:
  assumes "same_mem s s'" "curproc s' = curproc s" "\<And>q. p_pagetable (procs s' q) = p_pagetable (procs s q)"
  shows "in_space s' p r R ps = in_space s p r R ps"
  using assms by (simp add: in_space_def same_mem_vm [OF assms(1)]) (simp add: same_mem_def)

lemma woken_simps [simp]:
  "p_pagetable (woken c s q) = p_pagetable (procs s q)" "p_killed (woken c s q) = p_killed (procs s q)"
  by (simp_all add: woken_def wakeup_proc_def)

lemma in_space_wakeup [simp]: "in_space (wakeup c s) p r R ps = in_space s p r R ps"
  by (rule in_space_cong) (simp_all add: wakeup_eq same_mem_def)

section \<open>Copies\<close>

text \<open>The bytes of user memory at an address.\<close>

definition ubytes :: "'a kmem_scheme \<Rightarrow> u64 \<Rightarrow> u64 \<Rightarrow> nat \<Rightarrow> u8 list" where
  "ubytes s r va n = map (\<lambda>i. ubyte s r (va + of_nat i)) [0..<n]"

lemma length_ubytes [simp]: "length (ubytes s r va n) = n"
  by (simp add: ubytes_def)

definition user_readable :: "'a kmem_scheme \<Rightarrow> u64 \<Rightarrow> u64 \<Rightarrow> nat \<Rightarrow> bool" where
  "user_readable s r va n \<longleftrightarrow> unat va + n \<le> 2 ^ 38 \<and> (\<forall>i < n. readable s r (va + of_nat i))"

definition user_writable :: "'a kmem_scheme \<Rightarrow> u64 \<Rightarrow> u64 \<Rightarrow> nat \<Rightarrow> bool" where
  "user_writable s r va n \<longleftrightarrow> unat va + n \<le> 2 ^ 38 \<and> (\<forall>i < n. writable s r (va + of_nat i))"

lemma user_sub:
  "user_readable s r 0 n \<Longrightarrow> unat va + k \<le> n \<Longrightarrow> user_readable s r va k"
  "user_writable s r 0 n \<Longrightarrow> unat va + k \<le> n \<Longrightarrow> user_writable s r va k"
proof -
  have eq: "va + of_nat i = of_nat (unat va + i)" for i by simp
  show "user_readable s r 0 n \<Longrightarrow> unat va + k \<le> n \<Longrightarrow> user_readable s r va k"
    "user_writable s r 0 n \<Longrightarrow> unat va + k \<le> n \<Longrightarrow> user_writable s r va k"
    unfolding user_readable_def user_writable_def eq by (auto simp del: of_nat_add)
qed

lemma user_cong:
  assumes "same_mem s s'"
  shows "user_readable s' r va n = user_readable s r va n" "user_writable s' r va n = user_writable s r va n"
    "ubytes s' r va n = ubytes s r va n"
  by (simp_all add: user_readable_def user_writable_def ubytes_def same_mem_vm [OF assms])

text \<open>Memory of every process after bytes have been stored at an address of one of them.\<close>

definition user_stored :: "u64 set \<Rightarrow> u64 \<Rightarrow> u64 \<Rightarrow> u8 list \<Rightarrow> 'a kmem_scheme \<Rightarrow> 'a kmem_scheme \<Rightarrow> bool" where
  "user_stored R r va bs s s' \<longleftrightarrow>
     (\<forall>r' \<in> R. \<forall>va'. uread s' r' va' =
       (if r' = r \<and> unat (va' - va) < length bs then Some (bs ! unat (va' - va)) else uread s r' va')) \<and>
     (\<forall>r' \<in> R. \<forall>va'. writable s r' va' \<longrightarrow> writable s' r' va')"

lemma copyin_user:
  assumes "in_space s p r R ps" "user_readable s r va n"
  shows "copyin r va n s = Ok (0, ubytes s r va n) s"
  unfolding copyin_def ubytes_def
  using copyin_loop_spec [OF in_spaceD(8,3) [OF assms(1)], of va n "[]"] assms(2) by (simp add: user_readable_def)

lemma copyin_user_one:
  assumes "in_space s p r R ps" "user_readable s r va n" "i < n"
  shows "copyin r (va + of_nat i) 1 s = Ok (0, [ubytes s r va n ! i]) s"
proof -
  have "unat (va + of_nat i) = unat va + i"
    using unat_add_small [of va n i] assms(2,3) by (simp add: user_readable_def)
  then have "user_readable s r (va + of_nat i) 1" using assms(2,3) by (simp add: user_readable_def)
  from copyin_user [OF assms(1) this] show ?thesis using assms(3) by (simp add: ubytes_def)
qed

lemma more_proc:
  assumes "kmem.more s' = kmem.more s"
  shows "procs s' = procs s" "curproc s' = curproc s" "nextpid s' = nextpid s" "initproc s' = initproc s"
    "ticks s' = ticks s" "con_out s' = con_out s" "kproc.more s' = kproc.more s"
  using assms by (cases s; cases s'; simp)+

lemma copyout_user:
  assumes "in_space s p r R ps" "user_writable s r va (length src)" "length src \<le> length ps"
  obtains s' ps' where "copyout (Some r) r va src s = Ok 0 s'" "in_space s' p r R ps'" "kmem.more s' = kmem.more s"
    "user_stored R r va src s s'" "length ps \<le> length ps' + length src"
proof -
  note D = in_spaceD [OF assms(1)]
  obtain s' ps' where c: "copyout (Some r) r va src s = Ok 0 s'" "vminv s' R ps'" "excl (leaf (mem s')) R"
    "\<forall>r' \<in> R. \<forall>va'. uread s' r' va' =
       (if r' = r \<and> unat (va' - va) < length src then Some (src ! unat (va' - va)) else uread s r' va')"
    "\<forall>r' \<in> R. \<forall>va'. writable s r' va' \<longrightarrow> writable s' r' va'" "length ps \<le> length ps' + length src"
    using copyout_spec [OF D(4,5,3) _ assms(3), of va] assms(2) unfolding user_writable_def by blast
  have m: "kmem.more s' = kmem.more s" by (rule keepsD [OF keeps_copyout [OF refl] c(1)])
  moreover have "in_space s' p r R ps'" using D c(2,3) more_proc [OF m] by (simp add: in_space_def)
  ultimately show ?thesis using that c by (simp add: user_stored_def)
qed

end
