(* ===== verification/Boot_State.thy ===== *)
theory Boot_State
  imports Trap Kuser Spinlock
begin

text \<open>
  A concrete kernel state, as it is in zeroed memory, over a given physical memory. The examples
  that show the hypotheses of a theorem can hold start from it; process 0 runs with a given page table.
\<close>

definition zero_proc :: proc where
  "zero_proc = \<lparr>p_state = UNUSED, p_chan = None, p_killed = 0, p_xstate = 0, p_pid = 0, p_parent = None, p_kstack = 0,
     p_sz = 0, p_pagetable = 0, p_trapframe = 0, p_context = \<lparr>c_ra = 0, c_sp = 0, c_s = (\<lambda>_. 0)\<rparr>,
     p_ofile = (\<lambda>_. None), p_cwd = None, p_name = replicate 16 0\<rparr>"

definition zero_sleeplock :: sleeplock where
  "zero_sleeplock = \<lparr>sl_locked = False, sl_pid = 0\<rparr>"

definition zero_buf :: buf where
  "zero_buf = \<lparr>b_valid = False, b_disk = False, b_dev = 0, b_blockno = 0, b_lock = zero_sleeplock, b_refcnt = 0,
     b_prev = 0, b_next = 0, b_data = replicate BSIZE 0\<rparr>"

definition zero_inode :: inode where
  "zero_inode = \<lparr>i_dev = 0, i_inum = 0, i_ref = 0, i_lock = zero_sleeplock, i_valid = False, i_type = 0, i_major = 0,
     i_minor = 0, i_nlink = 0, i_size = 0, i_addrs = replicate 13 0\<rparr>"

definition zero_file :: file_t where
  "zero_file = \<lparr>f_type = FD_NONE, f_ref = 0, f_readable = False, f_writable = False, f_pipe = 0, f_ip = 0, f_off = 0,
     f_major = 0\<rparr>"

definition zero_pipe :: pipe where
  "zero_pipe = \<lparr>pi_data = (\<lambda>_. 0), pi_nread = 0, pi_nwrite = 0, pi_readopen = False, pi_writeopen = False\<rparr>"

text \<open>Process 0 runs with page table \<open>r\<close>; the disk holds zeroes.\<close>

definition boot_kernel :: "kmem \<Rightarrow> u64 \<Rightarrow> ktrap" where
  "boot_kernel m r =
     \<lparr>mem = mem m, refcnt = refcnt m, freelist = freelist m, end_addr = end_addr m,
      procs = (\<lambda>p. if p = 0 then zero_proc\<lparr>p_state := RUNNING, p_pid := 1, p_pagetable := r\<rparr> else zero_proc),
      nextpid = 2, initproc = Some 0, curproc = Some 0, ticks = 0, con_out = [], trampoline = 0x80007000, forkret = 0x80001000,
      bufs = (\<lambda>_. zero_buf), disk = (\<lambda>_. replicate BSIZE 0), disk_log = [],
      log_start = 2, log_size = 30, log_outstanding = 0, log_committing = False, log_dev = 1, lh_n = 0, lh_block = (\<lambda>_. 0),
      sb = \<lparr>sb_magic = 0x10203040, sb_size = 2000, sb_nblocks = 1954, sb_ninodes = 200, sb_nlog = 30, sb_logstart = 2,
            sb_inodestart = 32, sb_bmapstart = 45\<rparr>,
      itable = (\<lambda>_. zero_inode),
      uart_cfg = [], uart_rx = [], uart_room = 0, uart_tx_buf = (\<lambda>_. 0), uart_tx_w = 0, uart_tx_r = 0, panicked = False,
      cons_buf = (\<lambda>_. 0), cons_r = 0, cons_w = 0, cons_e = 0, devsw_read = (\<lambda>_. None), devsw_write = (\<lambda>_. None),
      ftable = (\<lambda>_. zero_file), pipes = (\<lambda>_. zero_pipe),
      vd_mmio = (\<lambda>_. 0), vd_writes = [], vd_refused = 0, vd_desc_page = 0, vd_avail_page = 0, vd_used_page = 0,
      vd_desc = (\<lambda>_. \<lparr>vq_addr = Dma_null, vq_len = 0, vq_flags = 0, vq_next = 0\<rparr>), vd_avail_idx = 0,
      vd_avail_ring = (\<lambda>_. 0), vd_dev_used_idx = 0, vd_used_ring = (\<lambda>_. 0), vd_free = (\<lambda>i. i < NUM), vd_used_idx = 0,
      vd_info_b = (\<lambda>_. None), vd_info_status = (\<lambda>_. 0), vd_ops = (\<lambda>_. \<lparr>rq_type = 0, rq_reserved = 0, rq_sector = 0\<rparr>),
      hart = hart_on 0, kernelvec = 0x80004000, uservec = 0x80007000, userret = 0x8000709c, usertrap_addr = 0x80002000,
      etext = 0x80008000, kernel_pagetable = 0, first_run = True, started = False, plic_irq = 0, plic_writes = []\<rparr>"

lemma boot_kernel_mem [simp]: "same_mem m (boot_kernel m r)"
  by (simp add: same_mem_def boot_kernel_def)

lemma boot_kernel_space:
  assumes "vminv m R ps" "excl (leaf (mem m)) R" "r \<in> R"
  shows "in_space (boot_kernel m r) 0 r R ps"
proof -
  have "mem (boot_kernel m r) = mem m" "curproc (boot_kernel m r) = Some 0" "p_pagetable (procs (boot_kernel m r) 0) = r"
    by (simp_all add: boot_kernel_def)
  then show ?thesis using assms same_mem_vm(2) [OF boot_kernel_mem] by (simp add: in_space_def)
qed

text \<open>A process with its first page in memory.\<close>

lemma boot_user:
  obtains m r R ps where "in_space (boot_kernel m r) 0 r R ps" "user_writable (boot_kernel m r) r 0 4096"
    "user_readable (boot_kernel m r) r 0 4096" "100 \<le> length ps"
proof -
  obtain m :: kmem and r1 r2 ps where m: "vminv m {r2, r1} ps" "excl (leaf (mem m)) {r2, r1}" "100 \<le> length ps"
    "\<forall>va. unat va < 4096 \<longrightarrow> user_page m r1 va"
    "\<forall>va. unat va < 4096 \<longrightarrow> (\<exists>q. leaf (mem m) r1 va = alloc_entry q PTE_W)"
    using boot_spaces by blast
  have w: "writable m r1 va" if "unat va < 4096" for va by (rule boot_writable [OF m(4,5) that])
  have "readable m r1 va" if "unat va < 4096" for va
  proof -
    have "0 < end_addr m" using m(1) by (simp add: vminv_def ptinv_def kinv_def)
    then show ?thesis using w [OF that] page_ok_nonzero [of m]
      by (auto simp: writable_def readable_def Let_def page_ok_def)
  qed
  moreover have "unat (of_nat i :: u64) < 4096" if "i < 4096" for i
    using that by (simp add: unat_of_nat take_bit_nat_eq_self)
  ultimately show ?thesis using that [OF boot_kernel_space [OF m(1,2), of r1]] w m(3)
    by (simp add: user_writable_def user_readable_def same_mem_vm [OF boot_kernel_mem])
qed

end
