(* ===== verification/Pipe_Props.thy ===== *)
theory Pipe_Props
  imports Ring Boot_State
begin

text \<open>
  Pipes are bounded queues. \<open>pipe_queue\<close> is the list of bytes in a pipe, oldest first, read off its array
  and its two wrapping counters; the lemmas show what \<^verbatim>\<open>pipewrite\<close> and \<^verbatim>\<open>piperead\<close> do to it and to the
  memory of the process that calls them.
\<close>

definition pipe_queue :: "pipe \<Rightarrow> u8 list" where
  "pipe_queue x = ring_list PIPESIZE (pi_data x) (pi_nread x) (pi_nwrite x)"

definition pipe_ok :: "pipe \<Rightarrow> bool" where
  "pipe_ok x \<longleftrightarrow> ring_ok PIPESIZE (pi_nread x) (pi_nwrite x)"

lemma pipe_push_queue:
  assumes "pipe_ok x" "pi_nwrite x \<noteq> pi_nread x + of_nat PIPESIZE"
  shows "pipe_ok (pipe_push c x)" "pipe_queue (pipe_push c x) = pipe_queue x @ [c]"
  using pipe_ring.push [of "pi_nread x" "pi_nwrite x"] assms
  by (simp_all add: pipe_ok_def pipe_queue_def pipe_push_def)

lemma pipe_pop_queue:
  assumes "pipe_ok x" "pi_nread x \<noteq> pi_nwrite x"
  shows "pipe_ok (x\<lparr>pi_nread := pi_nread x + 1\<rparr>)"
    and "pipe_queue x = pi_data x (unat (pi_nread x) mod PIPESIZE) # pipe_queue (x\<lparr>pi_nread := pi_nread x + 1\<rparr>)"
  using pipe_ring.pop [of "pi_nread x" "pi_nwrite x"] assms
  by (simp_all add: pipe_ok_def pipe_queue_def)

lemma pipe_empty_iff: "pipe_queue x = [] \<longleftrightarrow> pi_nread x = pi_nwrite x"
  by (simp add: pipe_queue_def pipe_ring.empty_iff)

lemma pipe_full_iff: "pi_nwrite x = pi_nread x + of_nat PIPESIZE \<longleftrightarrow> length (pipe_queue x) = PIPESIZE"
  by (simp add: pipe_queue_def pipe_ring.full_iff)

lemma pipe_queue_bound: "pipe_ok x \<Longrightarrow> length (pipe_queue x) \<le> PIPESIZE"
  by (simp add: pipe_ok_def ring_ok_def pipe_queue_def pipe_ring.length_list)

lemma pipe_push_sel [simp]:
  "pi_readopen (pipe_push c x) = pi_readopen x" "pi_writeopen (pipe_push c x) = pi_writeopen x"
  "pi_nread (pipe_push c x) = pi_nread x"
  by (simp_all add: pipe_push_def)

text \<open>What the loop of \<^verbatim>\<open>pipewrite\<close> leaves: the bytes up to the room in the pipe have been stored.\<close>

definition pushed :: "u64 \<Rightarrow> u8 list \<Rightarrow> 'a kfile_scheme \<Rightarrow> 'a kfile_scheme" where
  "pushed pi bs s = upd_pipe pi (fold pipe_push bs) s"

lemma pushed_simps [simp]:
  "mem (pushed pi bs s) = mem s" "curproc (pushed pi bs s) = curproc s" "procs (pushed pi bs s) = procs s"
  "pipes (pushed pi bs s) = (pipes s)(pi := fold pipe_push bs (pipes s pi))" "pushed pi [] s = s"
  "pushed pi cs (pushed pi bs s) = pushed pi (bs @ cs) s"
  by (simp_all add: pushed_def upd_pipe_def)


lemma pushed_same_mem [simp]: "same_mem s (pushed pi bs s)"
  by (simp add: same_mem_def pushed_def upd_pipe_def)

lemma pushed_in_space [simp]: "in_space (pushed pi bs s) p r R ps = in_space s p r R ps"
  by (rule in_space_cong) simp_all

lemma pushed_user [simp]:
  "user_readable (pushed pi bs s) r va n = user_readable s r va n" "ubytes (pushed pi bs s) r va n = ubytes s r va n"
  "killed p (pushed pi bs s) = killed p s"
  by (simp_all add: user_readable_def ubytes_def killed_def same_mem_vm [OF pushed_same_mem])

lemma fold_push_queue:
  assumes "pipe_ok x" "length (pipe_queue x) + length bs \<le> PIPESIZE"
  shows "pipe_ok (fold pipe_push bs x)" "pipe_queue (fold pipe_push bs x) = pipe_queue x @ bs"
    "pi_readopen (fold pipe_push bs x) = pi_readopen x" "pi_writeopen (fold pipe_push bs x) = pi_writeopen x"
proof -
  have "pipe_ok (fold pipe_push bs x) \<and> pipe_queue (fold pipe_push bs x) = pipe_queue x @ bs \<and>
    pi_readopen (fold pipe_push bs x) = pi_readopen x \<and> pi_writeopen (fold pipe_push bs x) = pi_writeopen x"
    using assms
  proof (induction bs arbitrary: x)
    case (Cons c bs)
    have nf: "pi_nwrite x \<noteq> pi_nread x + of_nat PIPESIZE" using Cons.prems by (simp add: pipe_full_iff)
    note p = pipe_push_queue [OF Cons.prems(1) nf, of c]
    show ?case using Cons.IH [OF p(1)] Cons.prems(2) p(2) by simp
  qed simp
  then show "pipe_ok (fold pipe_push bs x)" "pipe_queue (fold pipe_push bs x) = pipe_queue x @ bs"
    "pi_readopen (fold pipe_push bs x) = pi_readopen x" "pi_writeopen (fold pipe_push bs x) = pi_writeopen x" by blast+
qed

lemma pipewrite_loop_spec:
  assumes "in_space s p r R ps" "killed p s = 0" "pi_readopen (pipes s pi)" "pipe_ok (pipes s pi)"
    and "user_readable s r addr n" "i \<le> n" "k = min (n - i) (PIPESIZE - length (pipe_queue (pipes s pi)))"
  shows "pipewrite_loop pi addr i n s =
    (let s1 = wakeup (Chan_nread pi) (pushed pi (take k (drop i (ubytes s r addr n))) s)
     in if i + k = n then Ok (int n) s1 else sleep (Chan_nwrite pi) s1)"
  using assms
proof (induction "n - i" arbitrary: i k s)
  case 0
  then show ?case by (subst pipewrite_loop.simps) simp
next
  case (Suc m)
  note P = Suc.prems
  note D = in_spaceD [OF P(1)]
  let ?x = "pipes s pi"
  have i: "i < n" using Suc.hyps(2) by simp
  show ?case
  proof (cases "pi_nwrite ?x = pi_nread ?x + of_nat PIPESIZE")
    case True
    then have "k = 0" using P(7) by (simp add: pipe_full_iff)
    then show ?thesis using i True P(2,3) by (subst pipewrite_loop.simps) (simp add: D(6))
  next
    case False
    let ?c = "ubytes s r addr n ! i"
    have room: "length (pipe_queue ?x) < PIPESIZE"
      using False pipe_queue_bound [OF P(4)] by (simp add: pipe_full_iff)
    note q = pipe_push_queue [OF P(4) False, of ?c]
    let ?s1 = "pushed pi [?c] s"
    have step: "pipewrite_loop pi addr i n s = pipewrite_loop pi addr (Suc i) n ?s1"
      using i False P(2,3) copyin_user_one [OF P(1,5) i]
      by (subst pipewrite_loop.simps) (simp add: D(2,6) pushed_def)
    have k: "k - 1 = min (n - Suc i) (PIPESIZE - length (pipe_queue (pipes ?s1 pi)))" "0 < k"
      using P(7) q(2) room i by (auto simp: min_def)
    have ih: "pipewrite_loop pi addr (Suc i) n ?s1 =
      (let s1 = wakeup (Chan_nread pi) (pushed pi (take (k - 1) (drop (Suc i) (ubytes ?s1 r addr n))) ?s1)
       in if Suc i + (k - 1) = n then Ok (int n) s1 else sleep (Chan_nwrite pi) s1)"
    proof (rule Suc.hyps(1))
      show "m = n - Suc i" using Suc.hyps(2) by simp
    qed (use P q i k(1) in simp_all)
    have "?c # take (k - 1) (drop (Suc i) (ubytes s r addr n)) = take k (drop i (ubytes s r addr n))"
      using k(2) i by (cases k) (simp_all add: Cons_nth_drop_Suc [symmetric])
    then show ?thesis using k(2) unfolding step ih by simp
  qed
qed


section \<open>Reading\<close>

lemma more_file:
  assumes "kmem.more s' = kmem.more s"
  shows "pipes s' = pipes s" "ftable s' = ftable s"
  using assms by (cases s; cases s'; simp)+

lemma user_stored_trans:
  assumes "user_stored R r va [c] s s1" "user_stored R r (va + 1) cs s1 s'" "length cs < 2 ^ 64"
  shows "user_stored R r va (c # cs) s s'"
proof -
  have "uread s' r' va' = (if r' = r \<and> unat (va' - va) < length (c # cs) then Some ((c # cs) ! unat (va' - va)) else uread s r' va')"
    if "r' \<in> R" for r' va'
  proof (cases "va' = va")
    case True
    have "va - (va + 1) = (- 1 :: u64)" by simp
    then have "\<not> unat (va - (va + 1)) < length cs" using assms(3)
      by (simp add: unsigned_minus_1_eq_mask mask_eq_exp_minus_1)
    then have "uread s' r' va = uread s1 r' va" using assms(2) that unfolding user_stored_def by metis
    then show ?thesis using assms(1) that True by (simp add: user_stored_def)
  next
    case False
    then have "unat (va' - (va + 1)) = unat (va' - va) - 1" "0 < unat (va' - va)"
      using unat_minus_one [of "va' - va"] by (simp_all add: algebra_simps unat_gt_0)
    moreover have "uread s1 r' va' = uread s r' va'" using assms(1) that False \<open>0 < unat (va' - va)\<close>
      by (simp add: user_stored_def)
    moreover have "(c # cs) ! unat (va' - va) = cs ! (unat (va' - va) - 1)"
      "unat (va' - va) - 1 < length cs \<longleftrightarrow> unat (va' - va) < length (c # cs)"
      using \<open>0 < unat (va' - va)\<close> by (simp add: nth_Cons', simp, linarith)
    ultimately show ?thesis using assms(2) that unfolding user_stored_def by metis
  qed
  then show ?thesis using assms(1,2) by (simp add: user_stored_def)
qed

lemma user_stored_Nil [simp]: "user_stored R r va [] s s"
  by (simp add: user_stored_def)

lemma user_stored_same:
  "same_mem s t \<Longrightarrow> user_stored R r va bs t s' = user_stored R r va bs s s'"
  "same_mem s' t' \<Longrightarrow> user_stored R r va bs s t' = user_stored R r va bs s s'"
  by (simp_all add: user_stored_def same_mem_vm)

text \<open>What \<^verbatim>\<open>piperead\<close> has done when it has moved \<open>k\<close> bytes: they are in user memory and gone from the pipe.\<close>

definition popped :: "u64 \<Rightarrow> nat \<Rightarrow> 'a kfile_scheme \<Rightarrow> 'a kfile_scheme \<Rightarrow> bool" where
  "popped pi k s s' \<longleftrightarrow> pipe_ok (pipes s' pi) \<and> pipe_queue (pipes s' pi) = drop k (pipe_queue (pipes s pi)) \<and>
     pi_readopen (pipes s' pi) = pi_readopen (pipes s pi) \<and> pi_writeopen (pipes s' pi) = pi_writeopen (pipes s pi) \<and>
     (\<forall>pj. pj \<noteq> pi \<longrightarrow> pipes s' pj = pipes s pj) \<and> ftable s' = ftable s \<and> procs s' = woken (Chan_nwrite pi) s"

lemma piperead_none:
  assumes "in_space s p r R ps" "pipe_ok (pipes s pi)"
  shows "in_space (wakeup (Chan_nwrite pi) s) p r R ps \<and> popped pi 0 s (wakeup (Chan_nwrite pi) s) \<and>
    user_stored R r va [] s (wakeup (Chan_nwrite pi) s)"
proof -
  have "user_stored R r va [] s (wakeup (Chan_nwrite pi) s)"
    unfolding user_stored_same(2) [OF same_mem_wakeup(1)] by simp
  moreover have "popped pi 0 s (wakeup (Chan_nwrite pi) s)" using assms(2) by (simp add: popped_def wakeup_eq)
  ultimately show ?thesis using assms(1) by simp
qed

lemma piperead_loop_spec:
  assumes "in_space s p r R ps" "pipe_ok (pipes s pi)" "i \<le> n" "user_writable s r addr n" "n - i \<le> length ps"
    and "k = min (n - i) (length (pipe_queue (pipes s pi)))"
  shows "\<exists>s' ps'. piperead_loop pi addr i n s = Ok (int (i + k)) s' \<and> in_space s' p r R ps' \<and> popped pi k s s' \<and>
    user_stored R r (addr + of_nat i) (take k (pipe_queue (pipes s pi))) s s'"
  using assms
proof (induction "n - i" arbitrary: i k s ps)
  case 0
  then have "k = 0" by simp
  with 0 have "piperead_loop pi addr i n s = Ok (int (i + k)) (wakeup (Chan_nwrite pi) s)"
    by (subst piperead_loop.simps) simp
  with \<open>k = 0\<close> show ?case using piperead_none [OF 0(2,3)]
    by (intro exI [of _ "wakeup (Chan_nwrite pi) s"] exI [of _ ps]) simp
next
  case (Suc m)
  note P = Suc.prems
  note D = in_spaceD [OF P(1)]
  let ?x = "pipes s pi"
  have i: "i < n" using Suc.hyps(2) by simp
  show ?case
  proof (cases "pi_nread ?x = pi_nwrite ?x")
    case True
    then have "k = 0" using P(6) by (simp add: pipe_empty_iff [symmetric])
    moreover have "piperead_loop pi addr i n s = Ok (int i) (wakeup (Chan_nwrite pi) s)"
      using True by (subst piperead_loop.simps) simp
    ultimately show ?thesis using piperead_none [OF P(1,2)]
      by (intro exI [of _ "wakeup (Chan_nwrite pi) s"] exI [of _ ps]) simp
  next
    case False
    let ?c = "pi_data ?x (unat (pi_nread ?x) mod PIPESIZE)"
    note q = pipe_pop_queue [OF P(2) False]
    define s1 where "s1 = upd_pipe pi (\<lambda>x. x\<lparr>pi_nread := pi_nread x + 1\<rparr>) s"
    have s1: "same_mem s s1" "in_space s1 p r R ps" "pipes s1 = (pipes s)(pi := ?x\<lparr>pi_nread := pi_nread ?x + 1\<rparr>)"
      "ftable s1 = ftable s" "procs s1 = procs s" "curproc s1 = curproc s"
      using P(1) in_space_cong [of s s1 p r R ps] by (simp_all add: s1_def upd_pipe_def same_mem_def)
    have w: "user_writable s1 r (addr + of_nat i) (length [?c])"
      using P(4) i unat_add_small [of addr n i] by (simp add: user_writable_def same_mem_vm [OF s1(1)])
    have room: "length [?c] \<le> length ps" using P(5) i by simp
    obtain s2 ps2 where c: "copyout (Some r) r (addr + of_nat i) [?c] s1 = Ok 0 s2" "in_space s2 p r R ps2"
      "kmem.more s2 = kmem.more s1" "user_stored R r (addr + of_nat i) [?c] s1 s2" "length ps \<le> length ps2 + length [?c]"
      using copyout_user [OF s1(2) w room] by blast
    note m = more_file [OF c(3)] more_proc [OF c(3)]
    have step: "piperead_loop pi addr i n s = piperead_loop pi addr (Suc i) n s2"
      using i False D c(1) in_spaceD(7) [OF s1(2)]
      by (subst piperead_loop.simps) (simp add: Let_def s1_def [symmetric] s1(5))
    have st: "user_stored R r (addr + of_nat i) [?c] s s2" using c(4) by (simp add: user_stored_same(1) [OF s1(1)])
    have w2: "user_writable s2 r addr n"
      using P(4) st D(3) unfolding user_writable_def user_stored_def by blast
    have k: "k - 1 = min (n - Suc i) (length (pipe_queue (pipes s2 pi)))" "0 < k"
      using P(6) q(2) i by (auto simp: m s1(3) min_def)
    obtain s' ps' where ih: "piperead_loop pi addr (Suc i) n s2 = Ok (int (Suc i + (k - 1))) s'" "in_space s' p r R ps'"
      "popped pi (k - 1) s2 s'"
      "user_stored R r (addr + of_nat (Suc i)) (take (k - 1) (pipe_queue (pipes s2 pi))) s2 s'"
    proof -
      have a: "m = n - Suc i" "pipe_ok (pipes s2 pi)" "Suc i \<le> n" "n - Suc i \<le> length ps2"
        using Suc.hyps(2) q(1) i P(5) c(5) by (simp_all add: m s1(3))
      show thesis using Suc.hyps(1) [OF a(1) c(2) a(2,3) w2 a(4) k(1)] that by blast
    qed
    have tk: "take k (pipe_queue ?x) = ?c # take (k - 1) (pipe_queue (pipes s2 pi))"
      "drop k (pipe_queue ?x) = drop (k - 1) (pipe_queue (pipes s2 pi))"
      using q(2) k(2) by (simp_all add: m s1(3) take_Cons' drop_Cons')
    have "length (take (k - 1) (pipe_queue (pipes s2 pi))) < 2 ^ 64"
      using pipe_queue_bound [OF q(1)] by (simp add: m s1(3) PIPESIZE_def min_def)
    moreover have "addr + of_nat i + 1 = addr + of_nat (Suc i)" by simp
    ultimately have "user_stored R r (addr + of_nat i) (take k (pipe_queue ?x)) s s'"
      unfolding tk using user_stored_trans [OF st] ih(4) by metis
    moreover have "woken (Chan_nwrite pi) s2 = woken (Chan_nwrite pi) s"
      unfolding woken_def m(3,4) s1(5,6) by (rule refl)
    then have "popped pi k s s'"
      using ih(3) tk(2) by (simp add: popped_def m(1,2) s1(3,4))
    moreover have "piperead_loop pi addr i n s = Ok (int (i + k)) s'" using step ih(1) k(2) by simp
    ultimately show ?thesis using ih(2) by blast
  qed
qed


section \<open>Properties\<close>

text \<open>
  C14: \<^verbatim>\<open>pipewrite\<close> appends to the queue. With the read end open and the writer not killed, writing \<open>n\<close>
  readable bytes to a pipe that holds \<open>q\<close> either has room for all of them, and then returns \<open>n\<close> with the
  queue \<open>q\<close> followed by exactly these bytes in order; or it fills the pipe with the first of them up
  to its 512 bytes and sleeps until a reader makes room. In both cases readers waiting for
  data have been woken, and memory, other pipes and files are unchanged. The counters may wrap.
\<close>

theorem pipewrite_appends:
  assumes "in_space s p r R ps" "killed p s = 0" "pi_readopen (pipes s pi)" "pipe_ok (pipes s pi)"
    and "user_readable s r addr n" "q = pipe_queue (pipes s pi)" "bs = take (PIPESIZE - length q) (ubytes s r addr n)"
  shows "\<exists>s1. pipewrite pi addr (int n) s =
      (if length q + n \<le> PIPESIZE then Ok (int n) s1 else sleep (Chan_nwrite pi) s1) \<and>
    pipe_queue (pipes s1 pi) = q @ bs \<and> pipe_ok (pipes s1 pi) \<and> pi_readopen (pipes s1 pi) \<and>
    (length q + n \<le> PIPESIZE \<longrightarrow> bs = ubytes s r addr n) \<and> (\<not> length q + n \<le> PIPESIZE \<longrightarrow> length (q @ bs) = PIPESIZE) \<and>
    procs s1 = woken (Chan_nread pi) s \<and> mem s1 = mem s \<and> ftable s1 = ftable s \<and> (\<forall>pj. pj \<noteq> pi \<longrightarrow> pipes s1 pj = pipes s pj)"
proof -
  let ?k = "min (n - 0) (PIPESIZE - length (pipe_queue (pipes s pi)))"
  let ?s1 = "wakeup (Chan_nread pi) (pushed pi bs s)"
  have len: "length q \<le> PIPESIZE" using pipe_queue_bound [OF assms(4)] assms(6) by simp
  have tk: "take ?k (drop 0 (ubytes s r addr n)) = bs" using assms(6,7) by (simp add: min_def)
  have kn: "0 + ?k = n \<longleftrightarrow> length q + n \<le> PIPESIZE" using len assms(6) by auto
  have pw: "pipewrite pi addr (int n) s = (if length q + n \<le> PIPESIZE then Ok (int n) ?s1 else sleep (Chan_nwrite pi) ?s1)"
    using pipewrite_loop_spec [OF assms(1-5) le0 refl, unfolded tk kn] in_spaceD(6) [OF assms(1)]
    by (simp add: pipewrite_def Let_def)
  have "length (pipe_queue (pipes s pi)) + length bs \<le> PIPESIZE" using len assms(6,7) by simp
  note f = fold_push_queue [OF assms(4) this, folded assms(6)]
  have "woken (Chan_nread pi) (pushed pi bs s) = woken (Chan_nread pi) s"
    by (rule ext) (simp add: woken_def)
  then have "procs ?s1 = woken (Chan_nread pi) s" by (simp add: wakeup_eq)
  moreover have "pipes ?s1 = (pipes s)(pi := fold pipe_push bs (pipes s pi))" "mem ?s1 = mem s" "ftable ?s1 = ftable s"
    by (simp_all add: wakeup_eq pushed_def upd_pipe_def)
  moreover have "length q + n \<le> PIPESIZE \<longrightarrow> bs = ubytes s r addr n" using assms(7) by simp
  moreover have "\<not> length q + n \<le> PIPESIZE \<longrightarrow> length (q @ bs) = PIPESIZE" using assms(7) len by auto
  ultimately show ?thesis using pw f assms(3) by (intro exI [of _ ?s1] conjI) simp_all
qed

text \<open>
  C15: \<^verbatim>\<open>piperead\<close> takes from the front of the queue. When the pipe is not empty, or its write end is closed,
  a read of up to \<open>n\<close> bytes returns \<open>k\<close>, the smaller of \<open>n\<close> and the length of the queue: the first \<open>k\<close> bytes of
  the queue are now at the given address, nothing else has changed in the memory of any process, the
  rest of the queue remains, and writers waiting for room have been woken. A read of an empty pipe
  whose write end is closed returns 0.
\<close>

theorem piperead_takes:
  assumes "in_space s p r R ps" "pipe_ok (pipes s pi)" "user_writable s r addr n" "n \<le> length ps"
    and "q = pipe_queue (pipes s pi)" "k = min n (length q)" "q \<noteq> [] \<or> \<not> pi_writeopen (pipes s pi)"
  shows "\<exists>s' ps'. piperead pi addr (int n) s = Ok (int k) s' \<and> in_space s' p r R ps' \<and>
    pipe_queue (pipes s' pi) = drop k q \<and> pipe_ok (pipes s' pi) \<and> procs s' = woken (Chan_nwrite pi) s \<and>
    (\<forall>pj. pj \<noteq> pi \<longrightarrow> pipes s' pj = pipes s pj) \<and>
    (\<forall>r' \<in> R. \<forall>va. uread s' r' va =
       (if r' = r \<and> unat (va - addr) < k then Some (q ! unat (va - addr)) else uread s r' va))"
proof -
  have k: "k = min (n - 0) (length (pipe_queue (pipes s pi)))" using assms(5,6) by simp
  obtain s' ps' where l: "piperead_loop pi addr 0 n s = Ok (int k) s'" "in_space s' p r R ps'" "popped pi k s s'"
    "user_stored R r addr (take k q) s s'"
    using piperead_loop_spec [OF assms(1,2) le0 assms(3) _ k] assms(4,5) by auto
  have "(pi_nread (pipes s pi) = pi_nwrite (pipes s pi) \<and> pi_writeopen (pipes s pi)) = False"
    using assms(5,7) by (simp add: pipe_empty_iff [symmetric])
  then have "piperead pi addr (int n) s = Ok (int k) s'"
    using l(1) unfolding piperead_def in_spaceD(6) [OF assms(1)] by (simp del: de_Morgan_conj)
  moreover have "length (take k q) = k" using assms(6) by simp
  ultimately show ?thesis using l(2-4) assms(5) unfolding popped_def user_stored_def by (intro exI conjI) auto
qed

text \<open>A pipe with both ends open whose counters are about to wrap, and a process with a page of memory.\<close>

definition old_pipe :: pipe where
  "old_pipe = \<lparr>pi_data = (\<lambda>i. of_nat i), pi_nread = 0xFFFFFFFE, pi_nwrite = 1, pi_readopen = True, pi_writeopen = True\<rparr>"

lemma old_pipe: "pipe_ok old_pipe" "pipe_queue old_pipe = [254, 255, 0]"
  by (simp_all add: pipe_ok_def ring_ok_def old_pipe_def pipe_queue_def ring_list_def PIPESIZE_def upt_rec)

lemma pipe_process:
  "\<exists>(s :: ktrap) r R ps. in_space s 0 r R ps \<and> killed 0 s = 0 \<and> pipes s 9 = old_pipe \<and> user_writable s r 16 2 \<and>
     user_readable s r 16 2 \<and> 100 \<le> length ps"
proof -
  obtain m r R ps where m: "in_space (boot_kernel m r) 0 r R ps" "user_writable (boot_kernel m r) r 0 4096"
    "user_readable (boot_kernel m r) r 0 4096" "100 \<le> length ps" by (rule boot_user)
  let ?s = "upd_pipe 9 (\<lambda>_. old_pipe) (boot_kernel m r)"
  have "same_mem (boot_kernel m r) ?s" by (simp add: same_mem_def upd_pipe_def)
  moreover have "killed 0 ?s = 0" "pipes ?s 9 = old_pipe" by (simp_all add: killed_def upd_pipe_def boot_kernel_def zero_proc_def)
  moreover have "curproc ?s = curproc (boot_kernel m r)" "procs ?s = procs (boot_kernel m r)" by (simp_all add: upd_pipe_def)
  ultimately show ?thesis using m in_space_cong [of "boot_kernel m r" ?s 0 r R ps] user_cong [of "boot_kernel m r" ?s]
      user_sub(1) [OF m(3), of 16 2] user_sub(2) [OF m(2), of 16 2]
    by (intro exI [of _ ?s] exI [of _ r] exI [of _ R] exI [of _ ps]) simp
qed

theorem pipewrite_appends_witness:
  "\<exists>(s :: ktrap) s1 r. pipewrite 9 16 2 s = Ok 2 s1 \<and> pipe_queue (pipes s 9) = [254, 255, 0] \<and>
     pipe_queue (pipes s1 9) = [254, 255, 0] @ ubytes s r 16 2"
proof -
  obtain s :: ktrap and r R ps where s: "in_space s 0 r R ps" "killed 0 s = 0" "pipes s 9 = old_pipe" "user_readable s r 16 2"
    using pipe_process by blast
  have "pi_readopen (pipes s 9)" "pipe_ok (pipes s 9)" "pipe_queue (pipes s 9) = [254, 255, 0]"
    using old_pipe by (simp_all add: s(3)) (simp add: old_pipe_def)
  then show ?thesis
    using pipewrite_appends [OF s(1,2) _ _ s(4) refl refl, of 9] by (auto simp: PIPESIZE_def)
qed

theorem piperead_takes_witness:
  "\<exists>(s :: ktrap) s' r. piperead 9 16 2 s = Ok 2 s' \<and> pipe_queue (pipes s' 9) = [0] \<and> uread s' r 16 = Some 254 \<and>
     uread s' r 17 = Some 255 \<and> uread s' r 18 = uread s r 18"
proof -
  obtain s :: ktrap and r R ps where s: "in_space s 0 r R ps" "pipes s 9 = old_pipe" "user_writable s r 16 2" "100 \<le> length ps"
    using pipe_process by blast
  have q: "pipe_ok (pipes s 9)" "pipe_queue (pipes s 9) = [254, 255, 0]" using old_pipe by (simp_all add: s(2))
  have len: "2 \<le> length ps" using s(4) by simp
  obtain s' where s': "piperead 9 16 (int 2) s = Ok (int 2) s'" "pipe_queue (pipes s' 9) = drop 2 [254, 255, 0]"
    "\<forall>r' \<in> R. \<forall>va. uread s' r' va =
       (if r' = r \<and> unat (va - 16) < 2 then Some ([254, 255, 0] ! unat (va - 16)) else uread s r' va)"
    using piperead_takes [OF s(1) q(1) s(3) len refl refl] q(2) by auto
  have "r \<in> R" using s(1) by (simp add: in_space_def)
  then have "uread s' r 16 = Some 254" "uread s' r 17 = Some 255" "uread s' r 18 = uread s r 18"
    using s'(3) by simp_all
  then show ?thesis using s'(1,2) by auto
qed

end
