(* ===== verification/Console_Props.thy ===== *)
theory Console_Props
  imports Ring Boot_State
begin

text \<open>
  The console and the serial port as queues. The abstract console is a pair of byte lists: the lines
  that are ready to be read, and the line being edited. \<open>cons_edit\<close> says what a key does to them, and the
  driver's array with its three wrapping counters refines it. The serial port sends its output queue
  in order.
\<close>

section \<open>Input\<close>

definition cons_list :: "'a kcons_scheme \<Rightarrow> u8 list" where
  "cons_list s = ring_list INPUT_BUF_SIZE (cons_buf s) (cons_r s) (cons_e s)"

definition cons_ready :: "'a kcons_scheme \<Rightarrow> nat" where
  "cons_ready s = unat (cons_w s - cons_r s)"

definition cons_abs :: "'a kcons_scheme \<Rightarrow> u8 list \<times> u8 list" where
  "cons_abs s = (take (cons_ready s) (cons_list s), drop (cons_ready s) (cons_list s))"

definition cons_inv :: "'a kcons_scheme \<Rightarrow> bool" where
  "cons_inv s \<longleftrightarrow> ring_ok INPUT_BUF_SIZE (cons_r s) (cons_e s) \<and> cons_ready s \<le> length (cons_list s) \<and>
     10 \<notin> set (snd (cons_abs s))"

text \<open>
  The line discipline: control-U erases the line being edited, backspace and delete its last
  byte; any other byte is added to it if there is room, a carriage return as a newline; newline,
  control-D and a full buffer make the line ready.
\<close>

fun cons_edit :: "int \<Rightarrow> u8 list \<times> u8 list \<Rightarrow> u8 list \<times> u8 list" where
  "cons_edit c (lines, cur) =
     (if c = 16 then (lines, cur)
      else if c = 21 then (lines, [])
      else if c = 8 \<or> c = 127 then (lines, butlast cur)
      else if c \<noteq> 0 \<and> length lines + length cur < 128 then
        (let x = (if c = 13 then 10 else c); cur = cur @ [word_of_int x]
         in if x = 10 \<or> x = 4 \<or> length lines + length cur = 128 then (lines @ cur, []) else (lines, cur))
      else (lines, cur))"

lemma ctrl_simps [simp]:
  "ctrl CHR ''P'' = 16" "ctrl CHR ''U'' = 21" "ctrl CHR ''H'' = 8" "ctrl CHR ''D'' = 4"
  by (simp_all add: ctrl_def)

lemma cons_list_length: "length (cons_list s) = unat (cons_e s - cons_r s)"
  by (simp add: cons_list_def cons_ring.length_list)

lemma cons_abs_length: "cons_inv s \<Longrightarrow> length (fst (cons_abs s)) + length (snd (cons_abs s)) = unat (cons_e s - cons_r s)"
  by (simp add: cons_abs_def cons_inv_def cons_list_length)

lemma cons_at_edit: "cons_inv s \<Longrightarrow> cons_e s = cons_w s \<longleftrightarrow> snd (cons_abs s) = []"
proof -
  assume i: "cons_inv s"
  have "cons_e s = cons_w s \<longleftrightarrow> unat (cons_e s - cons_r s) = unat (cons_w s - cons_r s)"
    by (metis diff_add_cancel word_unat_eq_iff)
  also have "\<dots> \<longleftrightarrow> length (cons_list s) = cons_ready s" by (simp add: cons_list_length cons_ready_def)
  finally show ?thesis using i by (auto simp: cons_abs_def cons_inv_def)
qed


text \<open>States that differ in what has been printed only.\<close>

definition same_cons :: "'a kcons_scheme \<Rightarrow> 'a kcons_scheme \<Rightarrow> bool" where
  "same_cons s t \<longleftrightarrow> cons_buf t = cons_buf s \<and> cons_r t = cons_r s \<and> cons_w t = cons_w s \<and> cons_e t = cons_e s \<and>
     panicked t = panicked s"

lemma same_consD:
  assumes "same_cons s t"
  shows "cons_abs t = cons_abs s" "cons_inv t = cons_inv s" "panicked t = panicked s" "cons_list t = cons_list s"
    "cons_ready t = cons_ready s"
  using assms by (simp_all add: same_cons_def cons_abs_def cons_inv_def cons_list_def cons_ready_def)

text \<open>One byte less in the line being edited.\<close>

lemma cons_erase:
  assumes "cons_inv s" "snd (cons_abs s) \<noteq> []" "t = s\<lparr>cons_e := cons_e s - 1\<rparr>"
  shows "cons_inv t" "cons_abs t = (fst (cons_abs s), butlast (snd (cons_abs s)))"
proof -
  have "length (cons_list s) \<noteq> cons_ready s" "cons_ready s \<le> length (cons_list s)"
    using assms(1,2) by (auto simp: cons_abs_def cons_inv_def)
  then have less: "cons_ready s < length (cons_list s)" by simp
  then have ne: "cons_e s \<noteq> cons_r s" by (auto simp: cons_list_length)
  have r: "ring_ok INPUT_BUF_SIZE (cons_r s) (cons_e s)" using assms(1) by (simp add: cons_inv_def)
  have l: "cons_list t = butlast (cons_list s)" "ring_ok INPUT_BUF_SIZE (cons_r t) (cons_e t)" "cons_ready t = cons_ready s"
    using cons_ring.pop_back [OF r ne] by (simp_all add: assms(3) cons_list_def cons_ready_def)
  then show a: "cons_abs t = (fst (cons_abs s), butlast (snd (cons_abs s)))"
    using less by (auto simp: cons_abs_def butlast_conv_take drop_take min_def)
  have "10 \<notin> set (butlast (snd (cons_abs s)))" using assms(1) by (auto simp: cons_inv_def dest: in_set_butlastD)
  then show "cons_inv t" using l less a by (simp add: cons_inv_def)
qed

lemma cons_last:
  assumes "cons_inv s" "snd (cons_abs s) \<noteq> []"
  shows "cons_buf s (unat (cons_e s - 1) mod INPUT_BUF_SIZE) \<noteq> 10"
proof -
  have less: "cons_ready s < length (cons_list s)" using assms(2) by (simp add: cons_abs_def)
  let ?n = "unat (cons_e s - cons_r s)"
  have "0 < ?n" using less by (simp add: cons_list_length)
  then have "cons_r s + of_nat (?n - 1) = cons_e s - 1" by (simp add: of_nat_diff)
  moreover have "last (snd (cons_abs s)) = cons_list s ! (?n - 1)"
    using less by (simp add: cons_abs_def last_conv_nth cons_list_length)
  ultimately have "last (snd (cons_abs s)) = cons_buf s (unat (cons_e s - 1) mod INPUT_BUF_SIZE)"
    using cons_ring.elements [of "?n - 1" "cons_buf s" "cons_r s" "cons_e s"] less
    by (simp add: cons_list_def cons_ring.length_list)
  then show ?thesis using assms last_in_set [OF assms(2)] by (auto simp: cons_inv_def)
qed

lemma kill_line_spec:
  assumes "cons_inv s" "\<not> panicked s"
  shows "\<exists>s'. kill_line s = Ok () s' \<and> cons_inv s' \<and> cons_abs s' = (fst (cons_abs s), [])"
  using assms
proof (induction "length (snd (cons_abs s))" arbitrary: s)
  case 0
  then have "cons_e s = cons_w s" by (simp add: cons_at_edit)
  then have "kill_line s = Ok () s" by (subst kill_line.simps) simp
  then show ?case using 0 by (intro exI [of _ s]) (simp add: prod_eq_iff)
next
  case (Suc n)
  then have ne: "snd (cons_abs s) \<noteq> []" by auto
  define t where "t = s\<lparr>cons_e := cons_e s - 1\<rparr>"
  define u where "u = t\<lparr>con_out := con_out t @ echoed BACKSPACE, uart_room := uart_room t - length (echoed BACKSPACE)\<rparr>"
  note e = cons_erase [OF Suc.prems(1) ne t_def]
  have sc: "same_cons t u" by (simp add: same_cons_def u_def)
  have np: "\<not> panicked t" using Suc.prems(2) by (simp add: t_def)
  have step: "kill_line s = kill_line u"
    using cons_at_edit [OF Suc.prems(1)] ne cons_last [OF Suc.prems(1) ne] Suc.prems(2)
    by (subst kill_line.simps) (simp add: consputc_eq np t_def [symmetric] u_def)
  have "n = length (snd (cons_abs u))" "\<not> panicked u" "cons_inv u"
    using Suc.hyps(2) Suc.prems(2) e same_consD [OF sc] by (simp_all add: t_def)
  from Suc.hyps(1) [OF this(1,3,2)] show ?case using step e same_consD(1) [OF sc] by simp
qed

lemma cons_add:
  assumes "cons_inv s" "unat (cons_e s - cons_r s) < INPUT_BUF_SIZE" "x \<noteq> 10 \<or> done"
    and "t = s\<lparr>cons_buf := (cons_buf s)(unat (cons_e s) mod INPUT_BUF_SIZE := x), cons_e := cons_e s + 1\<rparr>"
    and "u = (if done then t\<lparr>cons_w := cons_e t\<rparr> else t)"
  shows "cons_inv u" and "unat (cons_e t - cons_r t) = unat (cons_e s - cons_r s) + 1"
    and "cons_abs u = (let cur = snd (cons_abs s) @ [x] in if done then (fst (cons_abs s) @ cur, []) else (fst (cons_abs s), cur))"
proof -
  have r: "ring_ok INPUT_BUF_SIZE (cons_r s) (cons_e s)" and le: "cons_ready s \<le> length (cons_list s)"
    using assms(1) by (simp_all add: cons_inv_def)
  have nf: "cons_e s \<noteq> cons_r s + of_nat INPUT_BUF_SIZE"
    using assms(2) cons_ring.full_iff [of "cons_e s" "cons_r s" "cons_buf s"] by (simp add: cons_ring.length_list)
  have l: "cons_list t = cons_list s @ [x]" "ring_ok INPUT_BUF_SIZE (cons_r t) (cons_e t)" "cons_ready t = cons_ready s"
    using cons_ring.push [OF r nf] by (simp_all add: assms(4) cons_list_def cons_ready_def)
  then show len: "unat (cons_e t - cons_r t) = unat (cons_e s - cons_r s) + 1"
    using cons_list_length [of t] cons_list_length [of s] by simp
  have u: "cons_list u = cons_list t" "ring_ok INPUT_BUF_SIZE (cons_r u) (cons_e u)"
    "cons_ready u = (if done then length (cons_list t) else cons_ready s)"
    using l len by (simp_all add: assms(5) cons_list_def cons_ready_def cons_ring.length_list)
  have a: "cons_list s = fst (cons_abs s) @ snd (cons_abs s)" "length (fst (cons_abs s)) = cons_ready s"
    using le by (simp_all add: cons_abs_def)
  show ab: "cons_abs u = (let cur = snd (cons_abs s) @ [x] in if done then (fst (cons_abs s) @ cur, []) else (fst (cons_abs s), cur))"
    using le by (simp add: cons_abs_def u l Let_def)
  show "cons_inv u" using assms(1,3) u le l ab by (auto simp: cons_inv_def Let_def)
qed

lemma wakeup_cons: "same_cons s (wakeup c s)"
  by (simp add: same_cons_def wakeup_eq)

text \<open>The process listing of control-P prints and does nothing else.\<close>

lemma kprintf_cons: "kprintf fmt ap s = Ok u t \<Longrightarrow> same_cons s t"
  by (auto simp: kprintf_def same_cons_def split: option.splits)

lemma same_cons_trans: "same_cons s t \<Longrightarrow> same_cons t u \<Longrightarrow> same_cons s u"
  by (simp add: same_cons_def)

lemma procdump_cons: "procdump s = Ok u t \<Longrightarrow> same_cons s t"
proof -
  assume "procdump s = Ok u t"
  then obtain s1 where s1: "same_cons s s1" and l: "for_each [0..<NPROC]
       (\<lambda>p s. if p_state (procs s p) = UNUSED then Ok () s
         else
           andthen (kprintf ''%d %s %s''
             [Num (word_of_int (p_pid (procs s p))), Str (Some (state_name (p_state (procs s p)))),
              Str (Some (name_string (p_name (procs s p))))] s) (\<lambda>_ s.
           kprintf [CHR 0x0A] [] s)) s1 = Ok u t"
    unfolding procdump_def andthen_Ok_iff by (blast dest: kprintf_cons)
  show ?thesis
    by (rule for_each_invariant [where P = "same_cons s", OF l s1])
      (auto simp: res_simps split: if_splits dest: kprintf_cons intro: same_cons_trans)
qed

text \<open>The branch of \<^verbatim>\<open>consoleintr\<close> that stores a byte.\<close>

definition consoleintr_char :: "int \<Rightarrow> 'a kcons_scheme \<Rightarrow> ('a kcons_scheme, unit) res" where
  "consoleintr_char c s =
     (let c = (if c = 13 then 10 else c)
      in andthen (consputc c s) (\<lambda>_ s.
         let s = s\<lparr>cons_buf := (cons_buf s)(unat (cons_e s) mod INPUT_BUF_SIZE := word_of_int c),
                   cons_e := cons_e s + 1\<rparr>
         in if c = 10 \<or> c = ctrl CHR ''D'' \<or> unat (cons_e s - cons_r s) = INPUT_BUF_SIZE
            then Ok () (wakeup Chan_cons_r (s\<lparr>cons_w := cons_e s\<rparr>))
            else Ok () s))"

lemma consoleintr_char_spec:
  assumes "cons_inv s" "consoleintr_char c s = Ok () s'" "0 \<le> c" "c < 256" "unat (cons_e s - cons_r s) < INPUT_BUF_SIZE"
    and "x = (if c = 13 then 10 else c)"
    and "cur = snd (cons_abs s) @ [word_of_int x]"
    and "ready = (x = 10 \<or> x = 4 \<or> length (fst (cons_abs s)) + length cur = 128)"
  shows "cons_inv s' \<and> cons_abs s' = (if ready then (fst (cons_abs s) @ cur, []) else (fst (cons_abs s), cur))"
proof -
  obtain s1 where s1: "consputc x s = Ok () s1" "same_cons s s1"
    using assms(2,6) by (auto simp: consoleintr_char_def Let_def res_simps consputc_eq same_cons_def split: if_splits)
  note e = same_consD [OF s1(2)]
  define t where "t = s1\<lparr>cons_buf := (cons_buf s1)(unat (cons_e s1) mod INPUT_BUF_SIZE := word_of_int x), cons_e := cons_e s1 + 1\<rparr>"
  define u where "u = (if ready then t\<lparr>cons_w := cons_e t\<rparr> else t)"
  have i: "cons_inv s1" "unat (cons_e s1 - cons_r s1) < INPUT_BUF_SIZE"
    using assms(1,5) e s1(2) by (simp_all add: same_cons_def)
  have ten: "word_of_int x \<noteq> (10 :: u8) \<or> ready"
  proof (cases "x = 10")
    case False
    have "0 \<le> x" "x < 256" using assms(3,4,6) by auto
    then have "uint (word_of_int x :: u8) = x" by (simp add: uint_word_of_int)
    then show ?thesis using False by auto
  qed (simp add: assms(8))
  note a = cons_add [OF i ten t_def u_def]
  have "unat (cons_e t - cons_r t) = length (fst (cons_abs s)) + length cur"
    using a(2) cons_abs_length [OF i(1)] by (simp add: e assms(7))
  moreover have "consoleintr_char c s = (if x = 10 \<or> x = 4 \<or> unat (cons_e t - cons_r t) = 128
      then Ok () (wakeup Chan_cons_r (t\<lparr>cons_w := cons_e t\<rparr>)) else Ok () t)"
    unfolding consoleintr_char_def assms(6) [symmetric] by (simp add: Let_def s1(1) t_def INPUT_BUF_SIZE_def)
  ultimately have "s' = (if ready then wakeup Chan_cons_r u else u)"
    using assms(2) by (auto simp: u_def assms(8) split: if_splits)
  then have "cons_abs s' = cons_abs u" "cons_inv s' = cons_inv u"
    using same_consD(1,2) [OF wakeup_cons, of Chan_cons_r u] by simp_all
  then show ?thesis using a(1,3) by (simp add: e assms(7) Let_def)
qed

text \<open>
  C16: The console refines its line discipline. Every key handled by \<^verbatim>\<open>consoleintr\<close> keeps the invariant of the
  three counters of the input buffer, and changes the ready lines and the line being edited exactly as
  \<open>cons_edit\<close> says: control-U and backspace never reach into lines that are ready, a full buffer drops
  input rather than overwriting, and the counters may wrap.
\<close>

theorem consoleintr_refines:
  assumes "cons_inv s" "consoleintr c s = Ok () s'" "0 \<le> c" "c < 256"
  shows "cons_inv s' \<and> cons_abs s' = cons_edit c (cons_abs s)"
proof -
  obtain lines cur where ab: "cons_abs s = (lines, cur)" by fastforce
  have len: "length lines + length cur = unat (cons_e s - cons_r s)" using cons_abs_length [OF assms(1)] ab by simp
  consider "c = 16" | "c = 21" | "c = 8 \<or> c = 127" | "c \<notin> {16, 21, 8, 127}" by blast
  then show ?thesis
  proof cases
    case 1
    then have "procdump s = Ok () s'" using assms(2) by (simp add: consoleintr_def)
    from same_consD [OF procdump_cons [OF this]] show ?thesis using assms(1) 1 ab by simp
  next
    case 2
    then have k: "kill_line s = Ok () s'" using assms(2) by (simp add: consoleintr_def)
    show ?thesis
    proof (cases "panicked s")
      case True
      then have "cons_e s = cons_w s" "s' = s"
        using k cons_last [OF assms(1)] cons_at_edit [OF assms(1)]
        by (subst (asm) kill_line.simps; auto simp: consputc_eq split: if_splits)+
      then show ?thesis using assms(1) 2 ab cons_at_edit [OF assms(1)] by simp
    next
      case False
      then show ?thesis using kill_line_spec [OF assms(1)] k 2 ab by auto
    qed
  next
    case 3
    then have e: "(if cons_e s \<noteq> cons_w s then consputc BACKSPACE (s\<lparr>cons_e := cons_e s - 1\<rparr>) else Ok () s) = Ok () s'"
      using assms(2) by (auto simp: consoleintr_def)
    show ?thesis
    proof (cases "cur = []")
      case True
      then have "s' = s" using e cons_at_edit [OF assms(1)] ab by simp
      then show ?thesis using assms(1) 3 ab True by auto
    next
      case False
      let ?t = "s\<lparr>cons_e := cons_e s - 1\<rparr>"
      have "consputc BACKSPACE ?t = Ok () s'" using e cons_at_edit [OF assms(1)] ab False by simp
      then have "same_cons ?t s'" by (auto simp: consputc_eq same_cons_def split: if_splits)
      from same_consD [OF this] show ?thesis using cons_erase [OF assms(1) _ refl] 3 ab False by auto
    qed
  next
    case 4
    show ?thesis
    proof (cases "c \<noteq> 0 \<and> length lines + length cur < 128")
      case True
      have "consoleintr c s = consoleintr_char c s" using 4 True len
        by (simp add: consoleintr_def consoleintr_char_def INPUT_BUF_SIZE_def Let_def)
      then show ?thesis using consoleintr_char_spec [OF assms(1) _ assms(3,4) _ refl refl refl, of s'] assms(2) 4 True len ab
        by (simp add: Let_def INPUT_BUF_SIZE_def)
    next
      case False
      then have "s' = s" using assms(2) 4 len by (auto simp: consoleintr_def INPUT_BUF_SIZE_def)
      then show ?thesis using 4 False assms(1) ab by auto
    qed
  qed
qed

text \<open>A console whose counters are about to wrap, with the line \<^verbatim>\<open>hi\<close> being edited.\<close>

definition typing :: ktrap where
  "typing = (boot_kernel \<lparr>mem = (\<lambda>_. 0), refcnt = (\<lambda>_. 0), freelist = 0, end_addr = 0\<rparr> 0)
     \<lparr>cons_r := - 1, cons_w := - 1, cons_e := 1, cons_buf := (\<lambda>_. 0)(127 := 104, 0 := 105)\<rparr>"

lemma typing_abs: "cons_inv typing \<and> cons_abs typing = ([], [104, 105])"
proof -
  have "cons_list typing = [104, 105]"
    by (simp add: cons_list_def ring_list_def typing_def INPUT_BUF_SIZE_def upt_rec unsigned_minus_1_eq_mask mask_eq_exp_minus_1)
  moreover have "cons_ready typing = 0" by (simp add: cons_ready_def typing_def)
  moreover have "ring_ok INPUT_BUF_SIZE (cons_r typing) (cons_e typing)"
    by (simp add: ring_ok_def typing_def INPUT_BUF_SIZE_def)
  ultimately show ?thesis by (simp add: cons_inv_def cons_abs_def)
qed

theorem consoleintr_refines_witness:
  "\<exists>s'. consoleintr 13 typing = Ok () s' \<and> cons_abs s' = ([104, 105, 10], [])"
proof -
  have "\<exists>s'. consoleintr 13 typing = Ok () s'"
    by (simp add: consoleintr_def typing_def INPUT_BUF_SIZE_def consputc_eq boot_kernel_def Let_def)
  then obtain s' where s': "consoleintr 13 typing = Ok () s'" by blast
  then show ?thesis using consoleintr_refines [OF _ s'] typing_abs by auto
qed

end
