(* ===== verification/Uart_Props.thy ===== *)
theory Uart_Props
  imports Ring Boot_State
begin

text \<open>
  The transmit side of the serial port as a first-in first-out stream: what the device has been given
  followed by what is queued in \<^verbatim>\<open>uart_tx_buf\<close>. \<^verbatim>\<open>uartstart\<close> moves bytes from the queue to the device and leaves
  the stream alone, \<^verbatim>\<open>uartputc\<close> adds a byte at its end, and so \<^verbatim>\<open>consolewrite\<close> adds the bytes of the caller.
\<close>

definition uart_queue :: "'a kcons_scheme \<Rightarrow> u8 list" where
  "uart_queue s = ring_list UART_TX_BUF_SIZE (uart_tx_buf s) (uart_tx_r s) (uart_tx_w s)"

definition uart_ok :: "'a kcons_scheme \<Rightarrow> bool" where
  "uart_ok s \<longleftrightarrow> ring_ok UART_TX_BUF_SIZE (uart_tx_r s) (uart_tx_w s)"

definition to_string :: "u8 list \<Rightarrow> string" where
  "to_string bs = map (\<lambda>c. char_of (unat c)) bs"

definition uart_stream :: "'a kcons_scheme \<Rightarrow> string" where
  "uart_stream s = con_out s @ to_string (uart_queue s)"

text \<open>What the transmit side leaves alone.\<close>

definition uart_frame :: "'a kcons_scheme \<Rightarrow> 'a kcons_scheme \<Rightarrow> bool" where
  "uart_frame s t \<longleftrightarrow> same_mem s t \<and> curproc t = curproc s \<and> panicked t = panicked s \<and>
     (\<forall>q. p_pagetable (procs t q) = p_pagetable (procs s q))"

lemma uart_frame_trans: "uart_frame s t \<Longrightarrow> uart_frame t u \<Longrightarrow> uart_frame s u"
  by (simp add: uart_frame_def same_mem_def)

lemma uart_frameD:
  assumes "uart_frame s t"
  shows "in_space t p r R ps = in_space s p r R ps" "user_readable t r va n = user_readable s r va n"
    "ubytes t r va n = ubytes s r va n" "panicked t = panicked s"
  using assms in_space_cong [of s t] user_cong [of s t] by (simp_all add: uart_frame_def)

lemma uart_sent:
  assumes "uart_ok s" "uart_tx_w s \<noteq> uart_tx_r s"
    and "t = write_THR (uart_tx_buf s (unat (uart_tx_r s) mod UART_TX_BUF_SIZE))
           (wakeup Chan_uart_tx_r (s\<lparr>uart_tx_r := uart_tx_r s + 1\<rparr>))"
  shows "uart_ok t" "uart_stream t = uart_stream s" "uart_frame s t" "uart_room t = uart_room s - 1"
  using assms(1,2) uart_ring.pop(1) [of "uart_tx_r s" "uart_tx_w s" "uart_tx_buf s"]
    uart_ring.pop(2) [of "uart_tx_r s" "uart_tx_w s"]
  by (simp_all add: assms(3) uart_ok_def uart_stream_def uart_queue_def write_THR_def wakeup_eq
      uart_frame_def same_mem_def to_string_def)

lemma uartstart_spec:
  assumes "uart_ok s"
  shows "uart_ok (uartstart s) \<and> uart_stream (uartstart s) = uart_stream s \<and> uart_frame s (uartstart s) \<and>
    (uart_queue (uartstart s) = [] \<or> uart_room (uartstart s) = 0)"
  using assms
proof (induction s rule: uartstart.induct)
  case (1 s)
  show ?case
  proof (cases "uart_tx_w s = uart_tx_r s \<or> uart_room s = 0")
    case True
    then have "uartstart s = s" by (subst uartstart.simps) auto
    then show ?thesis using True 1(2) uart_ring.empty_iff [of "uart_tx_buf s" "uart_tx_r s" "uart_tx_w s"]
      by (auto simp: uart_frame_def uart_queue_def)
  next
    case False
    define t where "t = write_THR (uart_tx_buf s (unat (uart_tx_r s) mod UART_TX_BUF_SIZE))
           (wakeup Chan_uart_tx_r (s\<lparr>uart_tx_r := uart_tx_r s + 1\<rparr>))"
    note t = uart_sent [OF 1(2) _ t_def]
    have eq: "uartstart s = uartstart t" using False by (subst uartstart.simps) (simp add: t_def Let_def)
    have "uart_ok (uartstart t) \<and> uart_stream (uartstart t) = uart_stream t \<and> uart_frame t (uartstart t) \<and>
      (uart_queue (uartstart t) = [] \<or> uart_room (uartstart t) = 0)"
      using 1(1) [OF _ _ refl refl] False t(1) by (simp add: t_def)
    then show ?thesis unfolding eq using t False uart_frame_trans by auto
  qed
qed

lemma uartputc_spec:
  assumes "uart_ok s" "\<not> panicked s" "length (uart_queue s) < UART_TX_BUF_SIZE"
  obtains s' where "uartputc (uint c) s = Ok () s'" "uart_ok s'" "uart_stream s' = uart_stream s @ to_string [c]"
    "uart_frame s s'" "uart_queue s' = [] \<or> uart_room s' = 0"
proof -
  let ?t = "s\<lparr>uart_tx_buf := (uart_tx_buf s)(unat (uart_tx_w s) mod UART_TX_BUF_SIZE := c), uart_tx_w := uart_tx_w s + 1\<rparr>"
  have n: "uart_tx_w s \<noteq> uart_tx_r s + of_nat UART_TX_BUF_SIZE"
    using assms(3) uart_ring.full_iff [of "uart_tx_w s" "uart_tx_r s" "uart_tx_buf s"]
    by (simp add: uart_queue_def)
  have t: "uart_ok ?t" "uart_stream ?t = uart_stream s @ to_string [c]" "uart_frame s ?t"
    using assms(1) n uart_ring.push(1) [of "uart_tx_r s" "uart_tx_w s" "uart_tx_buf s" c]
      uart_ring.push(2) [of "uart_tx_r s" "uart_tx_w s"]
    by (simp_all add: uart_ok_def uart_stream_def uart_queue_def uart_frame_def same_mem_def to_string_def)
  have "uartputc (uint c) s = Ok () (uartstart ?t)" using n assms(2) by (simp add: uartputc_def Let_def)
  then show ?thesis
    using that [of "uartstart ?t"] uartstart_spec [OF t(1)] t(2) uart_frame_trans [OF t(3)] by simp
qed

lemma uart_bound: "uart_ok s \<Longrightarrow> length (uart_queue s) \<le> UART_TX_BUF_SIZE"
  by (simp add: uart_ok_def ring_ok_def uart_queue_def uart_ring.length_list)

lemma uartputc_full:
  assumes "uart_ok s" "\<not> panicked s" "\<not> length (uart_queue s) < UART_TX_BUF_SIZE"
  shows "uartputc c s = sleep Chan_uart_tx_r s"
  using assms uart_bound [OF assms(1)] uart_ring.full_iff [of "uart_tx_w s" "uart_tx_r s" "uart_tx_buf s"]
  by (simp add: uartputc_def uart_queue_def)


text \<open>How far \<^verbatim>\<open>consolewrite\<close> gets: all the bytes are in the stream, or the queue is full at byte \<open>j\<close> and the
  device takes no more.\<close>

definition write_ends :: "u64 \<Rightarrow> nat \<Rightarrow> u8 list \<Rightarrow> 'a kcons_scheme \<Rightarrow> ('a kcons_scheme, int) res \<Rightarrow> bool" where
  "write_ends a i bs s res \<longleftrightarrow>
     (\<exists>j s'. i \<le> j \<and> j \<le> length bs \<and> uart_ok s' \<and> uart_stream s' = uart_stream s @ to_string (take (j - i) (drop i bs)) \<and>
       uart_frame s s' \<and>
       (j = length bs \<and> res = Ok (int j) s' \<or>
        j < length bs \<and> res = sleep Chan_uart_tx_r s' \<and> length (uart_queue s') = UART_TX_BUF_SIZE \<and>
          (uart_room s' = 0 \<or> s' = s)))"

lemma consolewrite_loop_spec:
  assumes "in_space s p r R ps" "user_readable s r a n" "uart_ok s" "\<not> panicked s" "i \<le> n"
  shows "write_ends a i (ubytes s r a n) s (consolewrite_loop (Usrc a) i n s)"
  using assms
proof (induction "n - i" arbitrary: i s)
  case 0
  then show ?case by (subst consolewrite_loop.simps) (auto simp: write_ends_def uart_frame_def to_string_def)
next
  case (Suc m)
  note P = Suc.prems
  let ?bs = "ubytes s r a n"
  have i: "i < n" "m = n - Suc i" "Suc i \<le> n" using Suc.hyps(2) by auto
  have ci: "either_copyin (ksrc_add (Usrc a) i) 1 s = Ok (0, [?bs ! i]) s"
    using copyin_user_one [OF P(1,2) i(1)] in_spaceD [OF P(1)] by simp
  show ?case
  proof (cases "length (uart_queue s) < UART_TX_BUF_SIZE")
    case False
    then have "consolewrite_loop (Usrc a) i n s = sleep Chan_uart_tx_r s"
      using ci i uartputc_full [OF P(3,4)] in_spaceD [OF P(1)] by (subst consolewrite_loop.simps) (simp add: sleep_def)
    then show ?thesis using False P(3) i uart_bound [OF P(3)] unfolding write_ends_def
      by (intro exI [of _ i] exI [of _ s]) (simp add: uart_frame_def to_string_def)
  next
    case True
    obtain t where t: "uartputc (uint (?bs ! i)) s = Ok () t" "uart_ok t" "uart_stream t = uart_stream s @ to_string [?bs ! i]"
      "uart_frame s t" "uart_queue t = [] \<or> uart_room t = 0"
      by (rule uartputc_spec [OF P(3,4) True])
    note f = uart_frameD [OF t(4)]
    have eq: "consolewrite_loop (Usrc a) i n s = consolewrite_loop (Usrc a) (Suc i) n t"
      using ci i t(1) by (subst consolewrite_loop.simps) simp
    have "write_ends a (Suc i) (ubytes t r a n) t (consolewrite_loop (Usrc a) (Suc i) n t)"
      using Suc.hyps(1) [OF i(2) _ _ t(2) _ i(3)] P by (simp add: f)
    then obtain j s' where j: "Suc i \<le> j" "j \<le> n" "uart_ok s'" "uart_frame t s'"
      "uart_stream s' = uart_stream t @ to_string (take (j - Suc i) (drop (Suc i) ?bs))"
      "j = n \<and> consolewrite_loop (Usrc a) (Suc i) n t = Ok (int j) s' \<or>
        j < n \<and> consolewrite_loop (Usrc a) (Suc i) n t = sleep Chan_uart_tx_r s' \<and>
          length (uart_queue s') = UART_TX_BUF_SIZE \<and> (uart_room s' = 0 \<or> s' = t)"
      unfolding write_ends_def f length_ubytes by blast
    have "j - i = Suc (j - Suc i)" "drop i ?bs = ?bs ! i # drop (Suc i) ?bs"
      using i j(1) by (simp_all add: Cons_nth_drop_Suc)
    then have st: "uart_stream s' = uart_stream s @ to_string (take (j - i) (drop i ?bs))"
      unfolding j(5) t(3) to_string_def by simp
    have "length (uart_queue s') = UART_TX_BUF_SIZE \<Longrightarrow> uart_room s' = 0 \<or> s' = t \<Longrightarrow> uart_room s' = 0"
      using t(5) by (auto simp: UART_TX_BUF_SIZE_def)
    with j(6) have res: "j = n \<and> consolewrite_loop (Usrc a) i n s = Ok (int j) s' \<or>
        j < n \<and> consolewrite_loop (Usrc a) i n s = sleep Chan_uart_tx_r s' \<and>
          length (uart_queue s') = UART_TX_BUF_SIZE \<and> (uart_room s' = 0 \<or> s' = s)"
      unfolding eq by (elim disjE conjE) simp_all
    have "i \<le> j" using j(1) by simp
    then show ?thesis unfolding write_ends_def length_ubytes
      using j(2,3) st uart_frame_trans [OF t(4) j(4)] res by blast
  qed
qed


text \<open>
  C17: What a process writes to the console reaches the device in order. The stream of the serial port
  is what the transmit register has been given followed by what is queued. A \<^verbatim>\<open>consolewrite\<close> of \<open>n\<close> bytes
  either returns \<open>n\<close> and has added exactly these bytes to the end of the stream, or it goes to sleep
  having added the first \<open>j\<close> of them; it only sleeps with the queue full, and (unless it slept
  before adding anything) with the device not taking any more bytes. It does not change user memory, and the queue
  stays within its 32 slots although its 64-bit counters wrap.
\<close>

theorem consolewrite_stream:
  assumes "in_space s p r R ps" "user_readable s r a n" "uart_ok s" "\<not> panicked s"
    and "bs = ubytes s r a n"
  shows "\<exists>j s'. j \<le> n \<and> uart_ok s' \<and> uart_stream s' = uart_stream s @ to_string (take j bs) \<and>
    mem s' = mem s \<and>
    (j = n \<and> consolewrite (Usrc a) (int n) s = Ok (int n) s' \<or>
     j < n \<and> consolewrite (Usrc a) (int n) s = sleep Chan_uart_tx_r s' \<and>
       length (uart_queue s') = UART_TX_BUF_SIZE \<and> (uart_room s' = 0 \<or> s' = s))"
proof -
  have "consolewrite (Usrc a) (int n) s = consolewrite_loop (Usrc a) 0 n s" by (simp add: consolewrite_def)
  moreover note consolewrite_loop_spec [OF assms(1-4) le0]
  ultimately show ?thesis
    unfolding write_ends_def assms(5) [symmetric] uart_frame_def same_mem_def
    by (simp only: assms(5) length_ubytes diff_zero drop_0) metis
qed

theorem consolewrite_stream_witness:
  "\<exists>(s :: ktrap) s' r. uart_stream s = [] \<and> consolewrite (Usrc 16) 2 s = Ok 2 s' \<and> uart_stream s' = to_string (ubytes s r 16 2)"
proof -
  obtain m r R ps where m: "in_space (boot_kernel m r) 0 r R ps" "user_readable (boot_kernel m r) r 0 4096"
    by (rule boot_user)
  let ?s = "boot_kernel m r"
  have q: "uart_ok ?s" "uart_stream ?s = []" "\<not> panicked ?s"
    by (simp_all add: uart_ok_def uart_stream_def uart_queue_def ring_list_def ring_ok_def boot_kernel_def to_string_def)
  have u: "user_readable ?s r 16 2" using user_sub(1) [OF m(2), of 16 2] by simp
  from consolewrite_stream [OF m(1) u q(1,3) refl]
  obtain j s' where j: "uart_stream s' = to_string (take j (ubytes ?s r 16 2))"
    "j = 2 \<and> consolewrite (Usrc 16) 2 ?s = Ok 2 s' \<or> j < 2 \<and> length (uart_queue s') = UART_TX_BUF_SIZE"
    using q(2) by auto
  have "length (uart_queue s') \<le> 2" using arg_cong [OF j(1), of length] by (simp add: uart_stream_def to_string_def)
  then have "j = 2 \<and> consolewrite (Usrc 16) 2 ?s = Ok 2 s'" using j(2) by (auto simp: UART_TX_BUF_SIZE_def)
  then show ?thesis using j(1) q(2) by (intro exI [of _ ?s] exI [of _ s'] exI [of _ r]) simp
qed

end
