(* ===== verification/Bcache.thy ===== *)
theory Bcache
  imports Bio
begin

text \<open>
  The contract of the buffer cache. The buffers form a doubly linked ring through the list head; the searches of
  \<^verbatim>\<open>bget\<close> are searches of the list of buffers in ring order, and \<^verbatim>\<open>brelse\<close> moves a buffer to its front.
  On top of it the invariant \<open>bc\<close> says which buffers are held, which are pinned by the log, and that the
  cache agrees with the disk elsewhere; under it the cache presents one value \<open>bval\<close> per disk block,
  which reading, evicting and releasing buffers never change.
\<close>

section \<open>Doubly linked rings\<close>

fun adj :: "'a list \<Rightarrow> ('a \<times> 'a) set" where
  "adj [] = {}"
| "adj [x] = {}"
| "adj (x # y # zs) = insert (x, y) (adj (y # zs))"

lemma adj_Cons: "adj (x # ys) = (if ys = [] then {} else insert (x, hd ys) (adj ys))"
  by (cases ys) simp_all

lemma adj_append: "adj (us @ b # vs) = adj (us @ [b]) \<union> adj (b # vs)"
  by (induction us) (auto simp: adj_Cons hd_append)

lemma adj_snoc: "adj (us @ [b]) = (if us = [] then {} else insert (last us, b) (adj us))"
  by (induction us) (auto simp: adj_Cons hd_append)

lemma adj_set: "(x, y) \<in> adj us \<Longrightarrow> x \<in> set (butlast us) \<and> y \<in> set (tl us)"
  by (induction us rule: adj.induct) (auto split: if_splits intro: list.set_sel(2))

definition linked :: "('a \<Rightarrow> 'a) \<Rightarrow> ('a \<Rightarrow> 'a) \<Rightarrow> 'a list \<Rightarrow> bool" where
  "linked nx pv ys \<longleftrightarrow> (\<forall>(x, y) \<in> adj ys. nx x = y \<and> pv y = x)"

lemma linkedD: "linked nx pv ys \<Longrightarrow> (x, y) \<in> adj ys \<Longrightarrow> nx x = y \<and> pv y = x"
  by (auto simp: linked_def)

lemma linkedI: "(\<And>x y. (x, y) \<in> adj ys \<Longrightarrow> nx x = y \<and> pv y = x) \<Longrightarrow> linked nx pv ys"
  unfolding linked_def by blast

lemma linked_append: "linked nx pv (us @ b # vs) \<longleftrightarrow> linked nx pv (us @ [b]) \<and> linked nx pv (b # vs)"
  unfolding linked_def adj_append [of us b vs] by (simp add: ball_Un)

lemma linked_Cons: "linked nx pv (x # ys) \<longleftrightarrow> ys = [] \<or> nx x = hd ys \<and> pv (hd ys) = x \<and> linked nx pv ys"
  by (simp add: linked_def adj_Cons)

lemma linked_snoc: "linked nx pv (us @ [b]) \<longleftrightarrow> us = [] \<or> nx (last us) = b \<and> pv b = last us \<and> linked nx pv us"
  by (simp add: linked_def adj_snoc)

lemma linked_unlink:
  assumes "linked nx pv (h # us @ b # vs @ [h])" "distinct (h # us @ b # vs)"
  shows "linked (nx(pv b := nx b)) (pv(nx b := pv b)) (h # us @ vs @ [h])"
proof -
  let ?w = "last (h # us)" and ?z = "hd (vs @ [h])"
  have l: "linked nx pv (h # us)" "linked nx pv (vs @ [h])" "nx b = ?z" "pv b = ?w"
    using assms(1) linked_append [of nx pv "h # us" b "vs @ [h]"] linked_snoc [of nx pv "h # us" b]
      linked_Cons [of nx pv b "vs @ [h]"] by simp_all
  have 1: "nx x = y \<and> pv y = x \<and> x \<noteq> ?w \<and> y \<noteq> ?z" if "(x, y) \<in> adj (h # us)" for x y
  proof -
    have "x \<in> set (butlast (h # us))" "y \<in> set us" using adj_set [OF that] by simp_all
    moreover have "?w \<notin> set (butlast (h # us))"
      using assms(2) distinct_append [of "butlast (h # us)" "[?w]"] by (metis append_butlast_last_id distinct.simps(2)
        distinct_append list.discI not_distinct_conv_prefix append.assoc append_Cons)
    moreover have "?z \<notin> set us" using assms(2) by (cases vs) auto
    ultimately show ?thesis using linkedD [OF l(1) that] by auto
  qed
  have 2: "nx x = y \<and> pv y = x \<and> x \<noteq> ?w \<and> y \<noteq> ?z" if "(x, y) \<in> adj (vs @ [h])" for x y
  proof -
    have "x \<in> set vs" "y \<in> set (tl (vs @ [h]))" using adj_set [OF that] by (simp_all add: butlast_append)
    moreover have "?w \<notin> set vs" using assms(2) last_in_set [of "h # us"] by (auto simp del: last_in_set)
    moreover have "?z \<notin> set (tl (vs @ [h]))" using assms(2) by (cases vs) auto
    ultimately show ?thesis using linkedD [OF l(2) that] by auto
  qed
  have a: "adj (h # us @ vs @ [h]) = insert (?w, ?z) (adj (h # us) \<union> adj (vs @ [h]))"
  proof (cases vs)
    case Nil
    then show ?thesis using adj_snoc [of "h # us" h] by simp
  next
    case (Cons v ws)
    then show ?thesis using adj_append [of "h # us" v "ws @ [h]"] adj_snoc [of "h # us" v] by auto
  qed
  have "(nx(pv b := nx b)) x = y \<and> (pv(nx b := pv b)) y = x" if "(x, y) \<in> adj (h # us @ vs @ [h])" for x y
    using that 1 [of x y] 2 [of x y] l(3,4) unfolding a by auto
  then show ?thesis by (rule linkedI)
qed

lemma linked_front:
  assumes "linked nx pv (h # zs @ [h])" "distinct (h # zs)" "b \<notin> set (h # zs)"
  shows "linked (nx(b := nx h, h := b)) (pv(b := h, nx h := b)) (h # b # zs @ [h])"
proof -
  let ?z = "hd (zs @ [h])"
  have l: "linked nx pv (zs @ [h])" "nx h = ?z" using assms(1) by (simp_all add: linked_Cons)
  have 1: "nx x = y \<and> pv y = x \<and> x \<noteq> h \<and> x \<noteq> b \<and> y \<noteq> b \<and> y \<noteq> ?z" if "(x, y) \<in> adj (zs @ [h])" for x y
  proof -
    have "x \<in> set zs" "y \<in> set (tl (zs @ [h]))" using adj_set [OF that] by (simp_all add: butlast_append)
    moreover have "?z \<notin> set (tl (zs @ [h]))" "set (tl (zs @ [h])) \<subseteq> set (h # zs)" using assms(2) by (cases zs; auto)+
    ultimately show ?thesis using linkedD [OF l(1) that] assms(2,3) by auto
  qed
  have "?z \<noteq> b" using assms(3) by (cases zs) auto
  then show ?thesis using 1 l(2) assms(3) by (auto simp: linked_def adj_Cons)
qed

section \<open>The list of buffers\<close>

definition links :: "(nat \<Rightarrow> buf) \<Rightarrow> nat list \<Rightarrow> bool" where
  "links bs xs \<longleftrightarrow> distinct xs \<and> set xs = {..<NBUF} \<and>
     linked (\<lambda>b. b_next (bs b)) (\<lambda>b. b_prev (bs b)) (BHEAD # xs @ [BHEAD])"

lemma links_length: "links bs xs \<Longrightarrow> length xs = NBUF"
  unfolding links_def using distinct_card [of xs] by simp

lemma links_head: "links bs xs \<Longrightarrow> BHEAD \<notin> set xs"
  by (simp add: links_def BHEAD_def)

lemma links_cong:
  assumes "\<And>b. b_next (bs' b) = b_next (bs b)" "\<And>b. b_prev (bs' b) = b_prev (bs b)"
  shows "links bs' xs = links bs xs"
  by (simp add: links_def assms)

lemma bget_cached_find:
  assumes "linked (\<lambda>b. b_next (bufs s b)) pv (a # xs @ [BHEAD])" "BHEAD \<notin> set xs" "length xs < k"
  shows "bget_cached k (b_next (bufs s a)) dev bn s =
    Ok (List.find (\<lambda>b. b_dev (bufs s b) = dev \<and> b_blockno (bufs s b) = bn) xs) s"
  using assms
proof (induction xs arbitrary: a k)
  case Nil
  then show ?case by (cases k) (simp_all add: linked_Cons)
next
  case (Cons x xs)
  then obtain k' where "k = Suc k'" "length xs < k'" by (cases k) auto
  then show ?case using Cons.prems Cons.IH [of x k'] by (simp add: linked_Cons)
qed

lemma bget_lru_find:
  assumes "linked nx (\<lambda>b. b_prev (bufs s b)) (BHEAD # xs @ [a])" "BHEAD \<notin> set xs" "length xs < k"
  shows "bget_lru k (b_prev (bufs s a)) s = Ok (List.find (\<lambda>b. b_refcnt (bufs s b) = 0) (rev xs)) s"
  using assms
proof (induction xs arbitrary: a k rule: rev_induct)
  case Nil
  then show ?case by (cases k) (simp_all add: linked_Cons)
next
  case (snoc x xs)
  then obtain k' where "k = Suc k'" "length xs < k'" by (cases k) auto
  moreover have "linked nx (\<lambda>b. b_prev (bufs s b)) (BHEAD # xs @ [x])" "b_prev (bufs s a) = x"
    using snoc.prems(1) linked_snoc [of nx "\<lambda>b. b_prev (bufs s b)" "BHEAD # xs @ [x]" a] by simp_all
  ultimately show ?case using snoc.prems snoc.IH [of x k'] by simp
qed

text \<open>What \<^verbatim>\<open>bget\<close> does in terms of the list.\<close>

lemma bget_list:
  assumes "links (bufs s) xs"
  shows "bget dev bn s =
    (case List.find (\<lambda>b. b_dev (bufs s b) = dev \<and> b_blockno (bufs s b) = bn) xs of
       Some b \<Rightarrow> andthen (acquiresleep (buf_lock b) (upd_buf b (\<lambda>x. x\<lparr>b_refcnt := b_refcnt x + 1\<rparr>) s)) (\<lambda>_ s. Ok b s)
     | None \<Rightarrow> (case List.find (\<lambda>b. b_refcnt (bufs s b) = 0) (rev xs) of
           Some b \<Rightarrow> andthen (acquiresleep (buf_lock b)
             (upd_buf b (\<lambda>x. x\<lparr>b_dev := dev, b_blockno := bn, b_valid := False, b_refcnt := 1\<rparr>) s)) (\<lambda>_ s. Ok b s)
         | None \<Rightarrow> Panic ''bget: no buffers''))"
proof -
  have l: "linked (\<lambda>b. b_next (bufs s b)) (\<lambda>b. b_prev (bufs s b)) (BHEAD # xs @ [BHEAD])" using assms by (simp add: links_def)
  have n: "length xs < Suc NBUF" using links_length [OF assms] by simp
  note e = bget_cached_find [OF l links_head [OF assms] n] bget_lru_find [OF l links_head [OF assms] n]
  show ?thesis unfolding bget_def e(1) by (simp add: e(2) del: bget_lru.simps split: option.split)
qed

text \<open>The list updates of \<^verbatim>\<open>brelse\<close>.\<close>

definition to_front :: "nat \<Rightarrow> 'a kbio_scheme \<Rightarrow> 'a kbio_scheme" where
  "to_front b s =
     (let s = upd_buf (b_next (bufs s b)) (\<lambda>x. x\<lparr>b_prev := b_prev (bufs s b)\<rparr>) s;
          s = upd_buf (b_prev (bufs s b)) (\<lambda>x. x\<lparr>b_next := b_next (bufs s b)\<rparr>) s
      in link_front b s)"

text \<open>A buffer without its links.\<close>

definition contents :: "buf \<Rightarrow> bool \<times> bool \<times> u32 \<times> u32 \<times> sleeplock \<times> u32 \<times> u8 list" where
  "contents x = (b_valid x, b_disk x, b_dev x, b_blockno x, b_lock x, b_refcnt x, b_data x)"

lemma upd_contents:
  "contents (bufs (upd_buf a (\<lambda>x. x\<lparr>b_prev := v\<rparr>) s) c) = contents (bufs s c)"
  "contents (bufs (upd_buf a (\<lambda>x. x\<lparr>b_next := v\<rparr>) s) c) = contents (bufs s c)"
  by (simp_all add: upd_buf_def contents_def)

lemma upd_links:
  "b_next (bufs (upd_buf a (\<lambda>x. x\<lparr>b_prev := v\<rparr>) s) c) = b_next (bufs s c)"
  "b_prev (bufs (upd_buf a (\<lambda>x. x\<lparr>b_next := v\<rparr>) s) c) = b_prev (bufs s c)"
  "b_next (bufs (upd_buf a (\<lambda>x. x\<lparr>b_next := v\<rparr>) s) c) = ((\<lambda>c. b_next (bufs s c))(a := v)) c"
  "b_prev (bufs (upd_buf a (\<lambda>x. x\<lparr>b_prev := v\<rparr>) s) c) = ((\<lambda>c. b_prev (bufs s c))(a := v)) c"
  by (simp_all add: upd_buf_def)

lemma to_front_next:
  assumes "b_next (bufs s b) \<noteq> b" "b_prev (bufs s b) \<noteq> b" "b \<noteq> BHEAD"
    and "nx = (\<lambda>c. b_next (bufs s c))(b_prev (bufs s b) := b_next (bufs s b))"
    and "pv = (\<lambda>c. b_prev (bufs s c))(b_next (bufs s b) := b_prev (bufs s b))"
  shows "b_next (bufs (to_front b s) c) = (nx(b := nx BHEAD, BHEAD := b)) c"
    "b_prev (bufs (to_front b s) c) = (pv(b := BHEAD, nx BHEAD := b)) c"
  using assms(1-3) unfolding to_front_def link_front_def Let_def upd_links
  by (simp_all add: assms(4,5))

lemma to_front_links:
  assumes "links (bufs s) xs" "b < NBUF"
  shows "links (bufs (to_front b s)) (b # remove1 b xs)"
proof -
  let ?nx = "\<lambda>b. b_next (bufs s b)" and ?pv = "\<lambda>b. b_prev (bufs s b)"
  obtain us vs where xs: "xs = us @ b # vs" using assms split_list [of b xs] by (auto simp: links_def)
  have d: "distinct (BHEAD # us @ b # vs)" "set (us @ b # vs) = {..<NBUF}"
    and l: "linked ?nx ?pv (BHEAD # us @ b # vs @ [BHEAD])"
    using assms(1) links_head [OF assms(1)] xs by (auto simp: links_def)
  define nx1 where "nx1 = ?nx(?pv b := ?nx b)"
  define pv1 where "pv1 = ?pv(?nx b := ?pv b)"
  have l1: "linked nx1 pv1 (BHEAD # (us @ vs) @ [BHEAD])" using linked_unlink [OF l d(1)] by (simp add: nx1_def pv1_def)
  have "b \<notin> set (BHEAD # us @ vs)" "distinct (BHEAD # us @ vs)" using d(1) by auto
  from linked_front [OF l1 this(2,1)]
  have l2: "linked (nx1(b := nx1 BHEAD, BHEAD := b)) (pv1(b := BHEAD, nx1 BHEAD := b)) (BHEAD # b # (us @ vs) @ [BHEAD])" .
  have ne: "?nx b \<noteq> b" "?pv b \<noteq> b" "BHEAD \<noteq> b"
    using linked_append [of ?nx ?pv "BHEAD # us" b "vs @ [BHEAD]"] linked_snoc [of ?nx ?pv "BHEAD # us" b]
      linked_Cons [of ?nx ?pv b "vs @ [BHEAD]"] l d(1) by (auto simp: hd_append split: if_splits)
  have "(\<lambda>c. b_next (bufs (to_front b s) c)) = nx1(b := nx1 BHEAD, BHEAD := b)"
    "(\<lambda>c. b_prev (bufs (to_front b s) c)) = pv1(b := BHEAD, nx1 BHEAD := b)"
    using to_front_next [OF ne(1,2) _ nx1_def pv1_def] ne(3) by auto
  moreover have "b # remove1 b xs = b # us @ vs" using d(1) xs by (simp add: remove1_append)
  ultimately show ?thesis using l2 d by (auto simp: links_def)
qed

lemma to_front_contents: "contents (bufs (to_front b s) c) = contents (bufs s c)"
  by (simp add: to_front_def link_front_def Let_def upd_contents)

lemma to_front_frame [simp]:
  "disk (to_front b s) = disk s" "disk_log (to_front b s) = disk_log s" "kbio.more (to_front b s) = kbio.more s"
  "procs (to_front b s) = procs s" "curproc (to_front b s) = curproc s"
  by (simp_all add: to_front_def link_front_def upd_buf_def Let_def)

section \<open>The invariant of the cache\<close>

text \<open>\<open>L\<close> are the blocks that the log has pinned, \<open>H\<close> the buffers that the current process has locked, \<open>D\<close> the device.\<close>

definition cur_pid :: "'a kproc_scheme \<Rightarrow> int" where
  "cur_pid s = p_pid (procs s (the (curproc s)))"

definition pinned :: "u32 list \<Rightarrow> buf \<Rightarrow> bool" where
  "pinned L x \<longleftrightarrow> b_valid x \<and> b_blockno x \<in> set L"

definition buf_ok :: "u32 \<Rightarrow> int \<Rightarrow> (u32 \<Rightarrow> u8 list) \<Rightarrow> bool \<Rightarrow> u32 list \<Rightarrow> buf \<Rightarrow> bool" where
  "buf_ok D pid dk h L x \<longleftrightarrow>
     (sl_locked (b_lock x) \<longleftrightarrow> h) \<and> (h \<longrightarrow> sl_pid (b_lock x) = pid \<and> b_valid x) \<and>
     (b_valid x \<longrightarrow> b_dev x = D) \<and> b_refcnt x = of_bool (pinned L x) + of_bool h \<and>
     (b_valid x \<and> \<not> pinned L x \<and> \<not> h \<longrightarrow> b_data x = dk (b_blockno x))"

definition bc :: "u32 \<Rightarrow> nat set \<Rightarrow> u32 list \<Rightarrow> 'a kbio_scheme \<Rightarrow> nat list \<Rightarrow> bool" where
  "bc D H L s xs \<longleftrightarrow> D \<noteq> 0 \<and> H \<subseteq> {..<NBUF} \<and> links (bufs s) xs \<and> curproc s \<noteq> None \<and>
     (\<forall>b < NBUF. buf_ok D (cur_pid s) (disk s) (b \<in> H) L (bufs s b)) \<and>
     (\<forall>b < NBUF. \<forall>c < NBUF. b_dev (bufs s b) = D \<and> b_dev (bufs s c) = D \<and>
        b_blockno (bufs s b) = b_blockno (bufs s c) \<longrightarrow> b = c) \<and>
     (\<forall>l \<in> set L. \<exists>b < NBUF. b_valid (bufs s b) \<and> b_blockno (bufs s b) = l)"

text \<open>The value of a block as the cache presents it.\<close>

definition bval :: "'a kbio_scheme \<Rightarrow> u32 \<Rightarrow> u8 list" where
  "bval s bn = (case List.find (\<lambda>b. b_valid (bufs s b) \<and> b_blockno (bufs s b) = bn) [0..<NBUF] of
     Some b \<Rightarrow> b_data (bufs s b) | None \<Rightarrow> disk s bn)"

lemma bcD:
  assumes "bc D H L s xs"
  shows "D \<noteq> 0" "H \<subseteq> {..<NBUF}" "links (bufs s) xs" "curproc s \<noteq> None"
    and "b < NBUF \<Longrightarrow> buf_ok D (cur_pid s) (disk s) (b \<in> H) L (bufs s b)"
    and "b < NBUF \<Longrightarrow> c < NBUF \<Longrightarrow> b_dev (bufs s b) = D \<Longrightarrow> b_dev (bufs s c) = D \<Longrightarrow>
      b_blockno (bufs s b) = b_blockno (bufs s c) \<Longrightarrow> b = c"
    and "l \<in> set L \<Longrightarrow> \<exists>b < NBUF. b_valid (bufs s b) \<and> b_blockno (bufs s b) = l"
  using assms unfolding bc_def by blast+

lemma bc_same:
  assumes "bc D H L s xs" "b < NBUF" "c < NBUF" "b_valid (bufs s b)" "b_valid (bufs s c)"
    "b_blockno (bufs s b) = b_blockno (bufs s c)"
  shows "b = c"
  using bcD(6) [OF assms(1-3)] bcD(5) [OF assms(1,2)] bcD(5) [OF assms(1,3)] assms(4-6) by (simp add: buf_ok_def)

lemma bval_cached:
  assumes "bc D H L s xs" "b < NBUF" "b_valid (bufs s b)" "b_blockno (bufs s b) = bn"
  shows "bval s bn = b_data (bufs s b)"
proof -
  have "List.find (\<lambda>b. b_valid (bufs s b) \<and> b_blockno (bufs s b) = bn) [0..<NBUF] \<noteq> None"
    using assms(2-4) by (auto simp: find_None_iff)
  then obtain c where c: "List.find (\<lambda>b. b_valid (bufs s b) \<and> b_blockno (bufs s b) = bn) [0..<NBUF] = Some c" by blast
  then have "c < NBUF" "b_valid (bufs s c)" "b_blockno (bufs s c) = bn" by (auto simp: find_Some_iff)
  then have "c = b" using bc_same [OF assms(1)] assms(2-4) by auto
  then show ?thesis using c by (simp add: bval_def)
qed

lemma bval_uncached:
  assumes "\<And>b. b < NBUF \<Longrightarrow> b_valid (bufs s b) \<Longrightarrow> b_blockno (bufs s b) \<noteq> bn"
  shows "bval s bn = disk s bn"
proof -
  have "List.find (\<lambda>b. b_valid (bufs s b) \<and> b_blockno (bufs s b) = bn) [0..<NBUF] = None"
    using assms by (auto simp: find_None_iff)
  then show ?thesis by (simp add: bval_def)
qed

lemma bval_cong:
  assumes "\<And>b. b < NBUF \<Longrightarrow> contents (bufs s' b) = contents (bufs s b)" "disk s' = disk s"
  shows "bval s' = bval s"
proof
  fix bn
  have "List.find (\<lambda>b. b_valid (bufs s' b) \<and> b_blockno (bufs s' b) = bn) [0..<NBUF] =
    List.find (\<lambda>b. b_valid (bufs s b) \<and> b_blockno (bufs s b) = bn) [0..<NBUF]"
    by (rule find_cong) (use assms(1) in \<open>auto simp: contents_def\<close>)
  moreover have "b_data (bufs s' c) = b_data (bufs s c)"
    if "List.find (\<lambda>b. b_valid (bufs s b) \<and> b_blockno (bufs s b) = bn) [0..<NBUF] = Some c" for c
    using that assms(1) [of c] by (auto simp: find_Some_iff contents_def)
  ultimately show "bval s' bn = bval s bn" using assms(2) by (simp add: bval_def split: option.split)
qed

lemma contentsD:
  assumes "contents x = contents y"
  shows "b_valid x = b_valid y" "b_dev x = b_dev y" "b_blockno x = b_blockno y" "b_lock x = b_lock y"
    "b_refcnt x = b_refcnt y" "b_data x = b_data y" "pinned L x = pinned L y"
  using assms by (simp_all add: contents_def pinned_def)

lemma buf_ok_contents: "contents x = contents y \<Longrightarrow> buf_ok D pid dk h L x = buf_ok D pid dk h L y"
  by (simp add: buf_ok_def pinned_def contents_def)

lemma buf_ok_env:
  assumes "b_valid x \<Longrightarrow> (b_blockno x \<in> set L' \<longleftrightarrow> b_blockno x \<in> set L) \<and> dk' (b_blockno x) = dk (b_blockno x)"
  shows "buf_ok D pid dk' h L' x = buf_ok D pid dk h L x"
  using assms by (cases "b_valid x") (simp_all add: buf_ok_def pinned_def)

text \<open>A step that changes at most one buffer.\<close>

lemma bc_step:
  assumes "bc D H L s xs" "links (bufs s') xs'" "H' \<subseteq> {..<NBUF}" "curproc s' = curproc s" "cur_pid s' = cur_pid s"
    and other: "\<And>c. c < NBUF \<Longrightarrow> c \<noteq> b \<Longrightarrow> contents (bufs s' c) = contents (bufs s c) \<and> (c \<in> H' \<longleftrightarrow> c \<in> H) \<and>
      (b_valid (bufs s c) \<longrightarrow> (b_blockno (bufs s c) \<in> set L' \<longleftrightarrow> b_blockno (bufs s c) \<in> set L) \<and>
        disk s' (b_blockno (bufs s c)) = disk s (b_blockno (bufs s c))) \<and>
      (b_dev (bufs s c) = D \<longrightarrow> b_dev (bufs s' b) = D \<longrightarrow> b_blockno (bufs s c) \<noteq> b_blockno (bufs s' b))"
    and this_one: "b < NBUF" "buf_ok D (cur_pid s) (disk s') (b \<in> H') L' (bufs s' b)"
    and logged: "\<And>l. l \<in> set L' \<Longrightarrow> (\<exists>c < NBUF. c \<noteq> b \<and> b_valid (bufs s c) \<and> b_blockno (bufs s c) = l) \<or>
      b_valid (bufs s' b) \<and> b_blockno (bufs s' b) = l"
  shows "bc D H' L' s' xs'"
proof -
  note same = contentsD [OF conjunct1 [OF other]]
  have "buf_ok D (cur_pid s') (disk s') (c \<in> H') L' (bufs s' c)" if c: "c < NBUF" for c
  proof (cases "c = b")
    case False
    then have "buf_ok D (cur_pid s) (disk s') (c \<in> H') L' (bufs s c)"
      using bcD(5) [OF assms(1) c] other [OF c False] buf_ok_env [of "bufs s c" L' L "disk s'" "disk s"] by simp
    then show ?thesis using buf_ok_contents [OF conjunct1 [OF other [OF c False]]] assms(5) by simp
  qed (simp add: this_one assms(5))
  moreover have "c = d" if cd: "c < NBUF" "d < NBUF" "b_dev (bufs s' c) = D" "b_dev (bufs s' d) = D"
    "b_blockno (bufs s' c) = b_blockno (bufs s' d)" for c d
  proof -
    have clash: "e = b" if "e < NBUF" "b_dev (bufs s' e) = D" "b_dev (bufs s' b) = D" "b_blockno (bufs s' e) = b_blockno (bufs s' b)" for e
    proof (rule ccontr)
      assume "e \<noteq> b"
      then show False using other [OF that(1)] same(2,3) [OF that(1)] that(2-4) by simp
    qed
    show ?thesis
    proof (cases "c = b \<or> d = b")
      case True
      then show ?thesis using clash [of c] clash [of d] cd by auto
    next
      case False
      then have ne: "c \<noteq> b" "d \<noteq> b" by simp_all
      show ?thesis using bcD(6) [OF assms(1) cd(1,2)] cd(3-5) unfolding same(2,3) [OF cd(1) ne(1)] same(2,3) [OF cd(2) ne(2)] by blast
    qed
  qed
  moreover have "\<exists>c < NBUF. b_valid (bufs s' c) \<and> b_blockno (bufs s' c) = l" if "l \<in> set L'" for l
    using logged [OF that]
  proof
    assume "\<exists>c < NBUF. c \<noteq> b \<and> b_valid (bufs s c) \<and> b_blockno (bufs s c) = l"
    then obtain c where "c < NBUF" "c \<noteq> b" "b_valid (bufs s c)" "b_blockno (bufs s c) = l" by blast
    then show ?thesis using same(1,3) [of c] by blast
  qed (use this_one(1) in blast)
  ultimately show ?thesis using assms(2-4) bcD(1,4) [OF assms(1)] by (simp add: bc_def)
qed


lemma bval_step:
  assumes "bc D H L s xs" "bc D H' L' s' xs'" "\<And>c. c < NBUF \<Longrightarrow> c \<noteq> b \<Longrightarrow> contents (bufs s' c) = contents (bufs s c)"
    and "b < NBUF" "disk s' bn = disk s bn"
    and new: "b_valid (bufs s' b) \<Longrightarrow> b_blockno (bufs s' b) = bn \<Longrightarrow> b_data (bufs s' b) = bval s bn"
    and old: "b_valid (bufs s b) \<Longrightarrow> b_blockno (bufs s b) = bn \<Longrightarrow>
      \<not> (b_valid (bufs s' b) \<and> b_blockno (bufs s' b) = bn) \<Longrightarrow> bval s bn = disk s bn"
  shows "bval s' bn = bval s bn"
proof (cases "b_valid (bufs s' b) \<and> b_blockno (bufs s' b) = bn")
  case True
  then show ?thesis using bval_cached [OF assms(2,4)] new by simp
next
  case nb: False
  show ?thesis
  proof (cases "\<exists>c < NBUF. c \<noteq> b \<and> b_valid (bufs s c) \<and> b_blockno (bufs s c) = bn")
    case True
    then obtain c where c: "c < NBUF" "c \<noteq> b" "b_valid (bufs s c)" "b_blockno (bufs s c) = bn" by blast
    note e = contentsD [OF assms(3) [OF c(1,2)]]
    show ?thesis using bval_cached [OF assms(1) c(1,3,4)] bval_cached [OF assms(2) c(1)] c(3,4) by (simp add: e)
  next
    case False
    have "bval s' bn = disk s' bn"
    proof (rule bval_uncached)
      fix c assume c: "c < NBUF" "b_valid (bufs s' c)"
      show "b_blockno (bufs s' c) \<noteq> bn"
      proof (cases "c = b")
        case True
        then show ?thesis using c nb by simp
      next
        case c2: False
        show ?thesis using contentsD(1,3) [OF assms(3) [OF c(1) c2]] c c2 False by auto
      qed
    qed
    moreover have "bval s bn = disk s bn"
    proof (cases "b_valid (bufs s b) \<and> b_blockno (bufs s b) = bn")
      case True
      then show ?thesis using old nb by simp
    next
      case c2: False
      then show ?thesis by (intro bval_uncached) (use False in auto)
    qed
    ultimately show ?thesis using assms(5) by simp
  qed
qed

lemma ref_zero [simp]: "of_bool p + of_bool h = (0 :: u32) \<longleftrightarrow> \<not> p \<and> \<not> h"
  by (cases p; cases h) simp_all

lemma free_buf:
  assumes "bc D H L s xs" "length L + card H < NBUF"
  shows "\<exists>b < NBUF. b_refcnt (bufs s b) = 0"
proof (rule ccontr)
  assume no: "\<not> ?thesis"
  let ?P = "{b. b < NBUF \<and> pinned L (bufs s b)}"
  have "{..<NBUF} \<subseteq> H \<union> ?P"
  proof
    fix b assume "b \<in> {..<NBUF}"
    then have b: "b < NBUF" by simp
    then have "b_refcnt (bufs s b) \<noteq> 0" using no by blast
    then have "pinned L (bufs s b) \<or> b \<in> H" using bcD(5) [OF assms(1) b] unfolding buf_ok_def by (metis ref_zero)
    then show "b \<in> H \<union> ?P" using b by blast
  qed
  moreover have f: "finite H" using bcD(2) [OF assms(1)] finite_subset by blast
  ultimately have "NBUF \<le> card (H \<union> ?P)" using card_mono [of "H \<union> ?P" "{..<NBUF}"] by simp
  moreover have "card ?P \<le> length L"
  proof -
    have "inj_on (\<lambda>b. b_blockno (bufs s b)) ?P"
    proof (rule inj_onI)
      fix b c assume "b \<in> ?P" "c \<in> ?P" "b_blockno (bufs s b) = b_blockno (bufs s c)"
      then show "b = c" using bc_same [OF assms(1), of b c] by (simp add: pinned_def)
    qed
    moreover have "(\<lambda>b. b_blockno (bufs s b)) ` ?P \<subseteq> set L" by (auto simp: pinned_def)
    ultimately have "card ?P \<le> card (set L)" by (rule card_inj_on_le) simp
    then show ?thesis using card_length [of L] by simp
  qed
  ultimately show False using assms(2) card_Un_le [of H ?P] by simp
qed

text \<open>The part of the state that the cache leaves alone.\<close>

definition bio_frame :: "'a kbio_scheme \<Rightarrow> 'a kbio_scheme \<Rightarrow> bool" where
  "bio_frame s s' \<longleftrightarrow> (\<exists>pr bs dk dl. s' = s\<lparr>procs := pr, bufs := bs, disk := dk, disk_log := dl\<rparr> \<and>
     (\<forall>q. (pr q)\<lparr>p_state := UNUSED\<rparr> = (procs s q)\<lparr>p_state := UNUSED\<rparr>))"

lemma bio_frame_refl [simp]: "bio_frame s s"
  unfolding bio_frame_def by (intro exI [of _ "procs s"] exI [of _ "bufs s"] exI [of _ "disk s"] exI [of _ "disk_log s"]) simp

lemma bio_frame_trans:
  assumes "bio_frame s t" "bio_frame t u"
  shows "bio_frame s u"
proof -
  obtain pr bs dk dl where t: "t = s\<lparr>procs := pr, bufs := bs, disk := dk, disk_log := dl\<rparr>"
    "\<forall>q. (pr q)\<lparr>p_state := UNUSED\<rparr> = (procs s q)\<lparr>p_state := UNUSED\<rparr>"
    using assms(1) unfolding bio_frame_def by blast
  obtain pr' bs' dk' dl' where u: "u = t\<lparr>procs := pr', bufs := bs', disk := dk', disk_log := dl'\<rparr>"
    "\<forall>q. (pr' q)\<lparr>p_state := UNUSED\<rparr> = (procs t q)\<lparr>p_state := UNUSED\<rparr>"
    using assms(2) unfolding bio_frame_def by blast
  have "u = s\<lparr>procs := pr', bufs := bs', disk := dk', disk_log := dl'\<rparr>" using t(1) u(1) by simp
  moreover have "\<forall>q. (pr' q)\<lparr>p_state := UNUSED\<rparr> = (procs s q)\<lparr>p_state := UNUSED\<rparr>" using t u(2) by simp
  ultimately show ?thesis unfolding bio_frame_def by blast
qed

lemma proc_eq_upd:
  assumes "(x :: proc)\<lparr>p_state := UNUSED\<rparr> = y\<lparr>p_state := UNUSED\<rparr>"
  shows "p_pid x = p_pid y" "p_pagetable x = p_pagetable y" "p_killed x = p_killed y"
  using arg_cong [OF assms, of p_pid] arg_cong [OF assms, of p_pagetable] arg_cong [OF assms, of p_killed] by simp_all

lemma bio_frameD:
  assumes "bio_frame s s'"
  shows "kbio.more s' = kbio.more s" "curproc s' = curproc s" "cur_pid s' = cur_pid s" "mem s' = mem s"
    "p_pid (procs s' q) = p_pid (procs s q)" "p_pagetable (procs s' q) = p_pagetable (procs s q)"
    "p_killed (procs s' q) = p_killed (procs s q)" "refcnt s' = refcnt s" "freelist s' = freelist s" "end_addr s' = end_addr s"
proof -
  obtain pr bs dk dl where t: "s' = s\<lparr>procs := pr, bufs := bs, disk := dk, disk_log := dl\<rparr>"
    "\<forall>q. (pr q)\<lparr>p_state := UNUSED\<rparr> = (procs s q)\<lparr>p_state := UNUSED\<rparr>"
    using assms unfolding bio_frame_def by blast
  note e = proc_eq_upd [OF spec [OF t(2)]]
  show "kbio.more s' = kbio.more s" "curproc s' = curproc s" "mem s' = mem s" "refcnt s' = refcnt s"
    "freelist s' = freelist s" "end_addr s' = end_addr s"
    by (simp_all add: t(1))
  show "p_pid (procs s' q) = p_pid (procs s q)" "p_pagetable (procs s' q) = p_pagetable (procs s q)"
    "p_killed (procs s' q) = p_killed (procs s q)" "cur_pid s' = cur_pid s"
    by (simp_all add: t(1) e cur_pid_def)
qed


section \<open>The operations\<close>

lemma acquire_buf:
  assumes "curproc s \<noteq> None" "\<not> sl_locked (b_lock (bufs s b))"
  shows "acquiresleep (buf_lock b) s = Ok () (upd_buf b (\<lambda>x. x\<lparr>b_lock := \<lparr>sl_locked = True, sl_pid = cur_pid s\<rparr>\<rparr>) s)"
  using assms by (auto simp: acquiresleep_def buf_lock_def myproc_def cur_pid_def)

lemma upd_buf_simps [simp]:
  "cur_pid (upd_buf b f s) = cur_pid s" "curproc (upd_buf b f s) = curproc s" "disk (upd_buf b f s) = disk s"
  "disk_log (upd_buf b f s) = disk_log s" "bufs (upd_buf b f s) c = (if c = b then f (bufs s b) else bufs s c)"
  "upd_buf b f (upd_buf b g s) = upd_buf b (\<lambda>x. f (g x)) s" "procs (upd_buf b f s) = procs s"
  by (simp_all add: cur_pid_def upd_buf_def)

lemma upd_buf_cong: "f (bufs s b) = g (bufs s b) \<Longrightarrow> upd_buf b f s = upd_buf b g s"
  by (simp add: upd_buf_def)

lemma disk_read: "disk_rw b False s = upd_buf b (\<lambda>x. x\<lparr>b_data := disk s (b_blockno (bufs s b))\<rparr>) s"
  by (simp add: disk_rw_def)

lemma bio_frame_upd [simp]: "bio_frame s (upd_buf b f s)"
  unfolding bio_frame_def upd_buf_def
  by (rule exI [of _ "procs s"], rule exI [of _ "(bufs s)(b := f (bufs s b))"], rule exI [of _ "disk s"],
      rule exI [of _ "disk_log s"]) simp

text \<open>The buffer that \<^verbatim>\<open>bread\<close> hands out.\<close>

definition read_buf :: "u32 \<Rightarrow> u32 \<Rightarrow> int \<Rightarrow> bool \<Rightarrow> u8 list \<Rightarrow> buf \<Rightarrow> buf" where
  "read_buf D bn pid cached d x =
     x\<lparr>b_dev := D, b_blockno := bn, b_valid := True, b_lock := \<lparr>sl_locked = True, sl_pid = pid\<rparr>,
       b_refcnt := (if cached then b_refcnt x + 1 else 1), b_data := d\<rparr>"

lemma bread_eq:
  assumes "bc D H L s xs" "\<forall>b \<in> H. b_blockno (bufs s b) \<noteq> bn" "length L + card H < NBUF \<or> bn \<in> set L"
  obtains b cached where "bread D bn s = Ok b (upd_buf b (read_buf D bn (cur_pid s) cached (bval s bn)) s)"
    "b < NBUF" "b \<notin> H" "cached \<longrightarrow> b_dev (bufs s b) = D \<and> b_blockno (bufs s b) = bn"
    "\<not> cached \<longrightarrow> b_refcnt (bufs s b) = 0 \<and> (\<forall>c < NBUF. b_dev (bufs s c) = D \<longrightarrow> b_blockno (bufs s c) \<noteq> bn)"
proof (cases "List.find (\<lambda>b. b_dev (bufs s b) = D \<and> b_blockno (bufs s b) = bn) xs")
  case (Some b)
  note l = bcD(3) [OF assms(1)]
  have "b \<in> set xs" "b_dev (bufs s b) = D" "b_blockno (bufs s b) = bn"
    using Some by (auto simp: find_Some_iff)
  then have b: "b < NBUF" "b_dev (bufs s b) = D" "b_blockno (bufs s b) = bn" "b \<notin> H"
    using l assms(2) by (auto simp: links_def)
  have unl: "\<not> sl_locked (b_lock (bufs s b))" using bcD(5) [OF assms(1) b(1)] b(4) by (simp add: buf_ok_def)
  have v: "bval s bn = (if b_valid (bufs s b) then b_data (bufs s b) else disk s bn)"
  proof (cases "b_valid (bufs s b)")
    case True
    then show ?thesis using bval_cached [OF assms(1) b(1) _ b(3)] by simp
  next
    case False
    have "bval s bn = disk s bn"
    proof (rule bval_uncached)
      fix c assume c: "c < NBUF" "b_valid (bufs s c)"
      then have "b_dev (bufs s c) = D" using bcD(5) [OF assms(1) c(1)] by (simp add: buf_ok_def)
      then show "b_blockno (bufs s c) \<noteq> bn" using bcD(6) [OF assms(1) b(1) c(1)] b(2,3) c(2) False by metis
    qed
    then show ?thesis using False by simp
  qed
  have "bread D bn s = Ok b (upd_buf b (read_buf D bn (cur_pid s) True (bval s bn)) s)"
    unfolding bread_def bget_list [OF l] Some v using unl b(2,3) bcD(4) [OF assms(1)]
    by (cases "b_valid (bufs s b)"; cases "bufs s b") (auto simp: acquire_buf disk_read read_buf_def intro!: upd_buf_cong)
  then show ?thesis using that [of b True] b by simp
next
  case None
  note l = bcD(3) [OF assms(1)]
  have no: "\<forall>c < NBUF. b_dev (bufs s c) = D \<longrightarrow> b_blockno (bufs s c) \<noteq> bn"
    using None l by (simp add: find_None_iff links_def)
  have nv: "b_blockno (bufs s c) \<noteq> bn" if "c < NBUF" "b_valid (bufs s c)" for c
    using no bcD(5) [OF assms(1) that(1)] that by (simp add: buf_ok_def)
  then have v: "bval s bn = disk s bn" by (rule bval_uncached)
  have "bn \<notin> set L" using bcD(7) [OF assms(1), of bn] nv by auto
  then obtain c where "c < NBUF" "b_refcnt (bufs s c) = 0" using free_buf [OF assms(1)] assms(3) by auto
  then have "List.find (\<lambda>b. b_refcnt (bufs s b) = 0) (rev xs) \<noteq> None"
    using l by (simp add: find_None_iff links_def) blast
  then obtain b where f: "List.find (\<lambda>b. b_refcnt (bufs s b) = 0) (rev xs) = Some b" by blast
  then have "b \<in> set (rev xs)" "b_refcnt (bufs s b) = 0" unfolding find_Some_iff using nth_mem by blast+
  then have b: "b < NBUF" "b_refcnt (bufs s b) = 0" using l by (simp_all add: links_def)
  then have h: "b \<notin> H" "\<not> sl_locked (b_lock (bufs s b))" using bcD(5) [OF assms(1) b(1)] by (simp_all add: buf_ok_def)
  have "bread D bn s = Ok b (upd_buf b (read_buf D bn (cur_pid s) False (bval s bn)) s)"
    unfolding bread_def bget_list [OF l] None f v using h bcD(4) [OF assms(1)]
    by (cases "bufs s b") (auto simp: acquire_buf disk_read read_buf_def intro!: upd_buf_cong)
  then show ?thesis using that [of b False] b h no by simp
qed

lemma bread_spec:
  assumes "bc D H L s xs" "\<forall>b \<in> H. b_blockno (bufs s b) \<noteq> bn" "length L + card H < NBUF \<or> bn \<in> set L"
  obtains b s' where "bread D bn s = Ok b s'" "b < NBUF" "b \<notin> H" "bc D (insert b H) L s' xs"
    "b_blockno (bufs s' b) = bn" "b_data (bufs s' b) = bval s bn" "bval s' = bval s" "disk s' = disk s"
    "disk_log s' = disk_log s" "\<forall>c. c \<noteq> b \<longrightarrow> bufs s' c = bufs s c" "bio_frame s s'"
proof -
  obtain b cached where r: "bread D bn s = Ok b (upd_buf b (read_buf D bn (cur_pid s) cached (bval s bn)) s)"
    and b: "b < NBUF" "b \<notin> H" and c: "cached \<longrightarrow> b_dev (bufs s b) = D \<and> b_blockno (bufs s b) = bn"
    "\<not> cached \<longrightarrow> b_refcnt (bufs s b) = 0 \<and> (\<forall>c < NBUF. b_dev (bufs s c) = D \<longrightarrow> b_blockno (bufs s c) \<noteq> bn)"
    by (rule bread_eq [OF assms])
  define s' where "s' = upd_buf b (read_buf D bn (cur_pid s) cached (bval s bn)) s"
  let ?y = "read_buf D bn (cur_pid s) cached (bval s bn) (bufs s b)"
  have s': "bufs s' b = ?y" "\<forall>c. c \<noteq> b \<longrightarrow> bufs s' c = bufs s c" "disk s' = disk s" "disk_log s' = disk_log s"
    by (simp_all add: s'_def)
  have key: "b_blockno (bufs s d) \<noteq> bn" if d: "d < NBUF" "d \<noteq> b" "b_dev (bufs s d) = D" for d
  proof
    assume bn: "b_blockno (bufs s d) = bn"
    show False
    proof (cases cached)
      case True
      then show False using c(1) bcD(6) [OF assms(1) d(1) b(1) d(3)] bn d(2) by simp
    next
      case False
      then show False using c(2) d bn by simp
    qed
  qed
  have old: "\<not> cached \<and> b_data (bufs s b) = disk s (b_blockno (bufs s b))"
    if "b_valid (bufs s b)" "b_blockno (bufs s b) \<noteq> bn"
  proof -
    have "\<not> cached" using that(2) c(1) by simp
    moreover have "b_refcnt (bufs s b) = 0" using c(2) \<open>\<not> cached\<close> by simp
    ultimately show ?thesis using that(1) bcD(5) [OF assms(1) b(1)] by (simp add: buf_ok_def)
  qed
  have logged: "cached \<and> b_valid (bufs s b)" if "bn \<in> set L"
  proof -
    obtain d where d: "d < NBUF" "b_valid (bufs s d)" "b_blockno (bufs s d) = bn" using bcD(7) [OF assms(1) \<open>bn \<in> set L\<close>] by blast
    then have "b_dev (bufs s d) = D" using bcD(5) [OF assms(1) d(1)] by (simp add: buf_ok_def)
    then show ?thesis using key [OF d(1)] c(2) d by (cases cached) auto
  qed
  have "bc D (insert b H) L s' xs"
  proof (rule bc_step [OF assms(1), of s' xs _ b])
    show "links (bufs s') xs"
      by (rule iffD2 [OF links_cong bcD(3) [OF assms(1)]]) (simp_all add: s'_def read_buf_def)
    show "buf_ok D (cur_pid s) (disk s') (b \<in> insert b H) L (bufs s' b)"
    proof (cases cached)
      case True
      then show ?thesis using c(1) bcD(5) [OF assms(1) b(1)] b(2) logged
        by (cases "b_valid (bufs s b)") (auto simp: buf_ok_def s'_def read_buf_def pinned_def)
    next
      case False
      then show ?thesis using logged by (auto simp: buf_ok_def s'_def read_buf_def pinned_def)
    qed
    show "(\<exists>d < NBUF. d \<noteq> b \<and> b_valid (bufs s d) \<and> b_blockno (bufs s d) = l) \<or> b_valid (bufs s' b) \<and> b_blockno (bufs s' b) = l"
      if l: "l \<in> set L" for l
    proof -
      obtain d where d: "d < NBUF" "b_valid (bufs s d)" "b_blockno (bufs s d) = l" using bcD(7) [OF assms(1) l] by blast
      show ?thesis
      proof (cases "d = b")
        case True
        then have "pinned L (bufs s b)" using d l by (simp add: pinned_def)
        then have "cached" using c(2) bcD(5) [OF assms(1) b(1)] b(2) by (cases cached) (simp_all add: buf_ok_def)
        then show ?thesis using c(1) d True by (simp add: s'_def read_buf_def)
      qed (use d in blast)
    qed
    show "contents (bufs s' d) = contents (bufs s d) \<and> (d \<in> insert b H \<longleftrightarrow> d \<in> H) \<and>
      (b_valid (bufs s d) \<longrightarrow> (b_blockno (bufs s d) \<in> set L \<longleftrightarrow> b_blockno (bufs s d) \<in> set L) \<and>
        disk s' (b_blockno (bufs s d)) = disk s (b_blockno (bufs s d))) \<and>
      (b_dev (bufs s d) = D \<longrightarrow> b_dev (bufs s' b) = D \<longrightarrow> b_blockno (bufs s d) \<noteq> b_blockno (bufs s' b))"
      if "d < NBUF" "d \<noteq> b" for d
      using key [OF that] that by (simp add: s'_def read_buf_def)
  qed (use b bcD(2) [OF assms(1)] in \<open>simp_all add: s'_def\<close>)
  moreover from this have "bval s' n = bval s n" for n
  proof (rule bval_step [OF assms(1)])
    show "b_data (bufs s' b) = bval s n" if "b_valid (bufs s' b)" "b_blockno (bufs s' b) = n"
      using that by (simp add: s'_def read_buf_def)
    show "bval s n = disk s n" if n: "b_valid (bufs s b)" "b_blockno (bufs s b) = n"
      "\<not> (b_valid (bufs s' b) \<and> b_blockno (bufs s' b) = n)"
    proof -
      have "b_blockno (bufs s b) \<noteq> bn" using n by (simp add: s'_def read_buf_def)
      then show ?thesis using old n bval_cached [OF assms(1) b(1) n(1,2)] by simp
    qed
  qed (use b(1) s' in simp_all)
  ultimately show ?thesis
    by (intro that [OF r [folded s'_def] b]) (use s' in \<open>auto simp: s'_def read_buf_def\<close>)
qed


lemma bc_cong:
  assumes "bufs s' = bufs s" "disk s' = disk s" "curproc s' = curproc s" "cur_pid s' = cur_pid s"
  shows "bc D H L s' xs = bc D H L s xs" "bval s' = bval s"
  by (simp add: bc_def assms) (rule bval_cong; simp add: assms)

lemma bc_set: "set L = set L' \<Longrightarrow> bc D H L s xs = bc D H L' s xs"
  by (simp add: bc_def buf_ok_def pinned_def)

text \<open>The other buffers when one buffer keeps its block.\<close>

lemma bc_held:
  assumes "bc D H L s xs" "b \<in> H"
  shows "b < NBUF" "b_valid (bufs s b)" "b_dev (bufs s b) = D" "sl_locked (b_lock (bufs s b))"
    "sl_pid (b_lock (bufs s b)) = cur_pid s" "b_refcnt (bufs s b) = of_bool (b_blockno (bufs s b) \<in> set L) + 1"
    "bval s (b_blockno (bufs s b)) = b_data (bufs s b)"
    "c < NBUF \<Longrightarrow> c \<noteq> b \<Longrightarrow> b_dev (bufs s c) = D \<Longrightarrow> b_blockno (bufs s c) \<noteq> b_blockno (bufs s b)"
    "c < NBUF \<Longrightarrow> c \<noteq> b \<Longrightarrow> b_valid (bufs s c) \<Longrightarrow> b_blockno (bufs s c) \<noteq> b_blockno (bufs s b)"
proof -
  show b: "b < NBUF" using bcD(2) [OF assms(1)] assms(2) by blast
  note k = bcD(5) [OF assms(1) b] 
  show v: "b_valid (bufs s b)" and d: "b_dev (bufs s b) = D" and "sl_locked (b_lock (bufs s b))"
    "sl_pid (b_lock (bufs s b)) = cur_pid s" "b_refcnt (bufs s b) = of_bool (b_blockno (bufs s b) \<in> set L) + 1"
    using k assms(2) by (simp_all add: buf_ok_def pinned_def)
  show "bval s (b_blockno (bufs s b)) = b_data (bufs s b)" by (rule bval_cached [OF assms(1) b v refl])
  show u: "c < NBUF \<Longrightarrow> c \<noteq> b \<Longrightarrow> b_dev (bufs s c) = D \<Longrightarrow> b_blockno (bufs s c) \<noteq> b_blockno (bufs s b)"
    using bcD(6) [OF assms(1) _ b, of c] d by blast
  show "c < NBUF \<Longrightarrow> c \<noteq> b \<Longrightarrow> b_valid (bufs s c) \<Longrightarrow> b_blockno (bufs s c) \<noteq> b_blockno (bufs s b)"
    using u bcD(5) [OF assms(1), of c] by (simp add: buf_ok_def)
qed

lemma bwrite_spec:
  assumes "bc D H L s xs" "b \<in> H" "bn = b_blockno (bufs s b)" "d = b_data (bufs s b)"
    and "s' = s\<lparr>disk := (disk s)(bn := d), disk_log := disk_log s @ [(bn, d)]\<rparr>"
  shows "bwrite b s = Ok () s'" "bc D H L s' xs" "bval s' = bval s" "bio_frame s s'"
proof -
  note h = bc_held [OF assms(1,2)]
  show "bwrite b s = Ok () s'" using h(4,5) bcD(4) [OF assms(1)]
    by (auto simp: bwrite_def holdingsleep_def buf_lock_def myproc_def cur_pid_def disk_rw_def Let_def assms(3-5))
  have f: "bufs s' = bufs s" "curproc s' = curproc s" "cur_pid s' = cur_pid s" by (simp_all add: assms(5) cur_pid_def)
  show bc': "bc D H L s' xs"
  proof (rule bc_step [OF assms(1), of s' xs H b])
    show "buf_ok D (cur_pid s) (disk s') (b \<in> H) L (bufs s' b)"
      using bcD(5) [OF assms(1) h(1)] assms(2) f by (simp add: buf_ok_def)
    show "contents (bufs s' c) = contents (bufs s c) \<and> (c \<in> H) = (c \<in> H) \<and>
      (b_valid (bufs s c) \<longrightarrow> (b_blockno (bufs s c) \<in> set L) = (b_blockno (bufs s c) \<in> set L) \<and>
         disk s' (b_blockno (bufs s c)) = disk s (b_blockno (bufs s c))) \<and>
      (b_dev (bufs s c) = D \<longrightarrow> b_dev (bufs s' b) = D \<longrightarrow> b_blockno (bufs s c) \<noteq> b_blockno (bufs s' b))"
      if "c < NBUF" "c \<noteq> b" for c
      using h(8,9) [OF that] f by (simp add: assms(3,5))
  qed (use h(1) bcD(2,3) [OF assms(1)] bcD(7) [OF assms(1)] f in auto)
  show "bval s' = bval s"
  proof
    fix n
    show "bval s' n = bval s n"
    proof (cases "n = bn")
      case True
      then show ?thesis using h(7) bval_cached [OF bc' h(1), of n] h(2) by (simp add: assms(3) f)
    next
      case False
      show ?thesis by (rule bval_step [OF assms(1) bc', of b]) (use h False in \<open>simp_all add: assms(3,5) f\<close>)
    qed
  qed
  show "bio_frame s s'" unfolding bio_frame_def
    by (rule exI [of _ "procs s"], rule exI [of _ "bufs s"], rule exI [of _ "disk s'"], rule exI [of _ "disk_log s'"])
      (simp add: assms(5))
qed


text \<open>Changing the data of a held buffer, and how often it is referenced together with the blocks of the log.\<close>

lemma held_update:
  assumes "bc D H L s xs" "b \<in> H"
    and "s' = upd_buf b (\<lambda>x. x\<lparr>b_data := d, b_refcnt := of_bool (b_blockno (bufs s b) \<in> set L') + 1\<rparr>) s"
    and "\<And>n. n \<noteq> b_blockno (bufs s b) \<Longrightarrow> n \<in> set L' \<longleftrightarrow> n \<in> set L"
  shows "bc D H L' s' xs" "bval s' = (bval s)(b_blockno (bufs s b) := d)"
proof -
  note h = bc_held [OF assms(1,2)]
  show bc': "bc D H L' s' xs"
  proof (rule bc_step [OF assms(1), of s' xs H b])
    show "links (bufs s') xs"
      by (rule iffD2 [OF links_cong bcD(3) [OF assms(1)]]) (simp_all add: assms(3))
    show "buf_ok D (cur_pid s) (disk s') (b \<in> H) L' (bufs s' b)"
      using bcD(5) [OF assms(1) h(1)] assms(2) h(2) by (simp add: buf_ok_def assms(3) pinned_def)
    show "contents (bufs s' c) = contents (bufs s c) \<and> (c \<in> H) = (c \<in> H) \<and>
      (b_valid (bufs s c) \<longrightarrow> (b_blockno (bufs s c) \<in> set L') = (b_blockno (bufs s c) \<in> set L) \<and>
         disk s' (b_blockno (bufs s c)) = disk s (b_blockno (bufs s c))) \<and>
      (b_dev (bufs s c) = D \<longrightarrow> b_dev (bufs s' b) = D \<longrightarrow> b_blockno (bufs s c) \<noteq> b_blockno (bufs s' b))"
      if "c < NBUF" "c \<noteq> b" for c
      using h(8,9) [OF that] that assms(4) [of "b_blockno (bufs s c)"] by (auto simp: assms(3))
    show "(\<exists>c < NBUF. c \<noteq> b \<and> b_valid (bufs s c) \<and> b_blockno (bufs s c) = l) \<or> b_valid (bufs s' b) \<and> b_blockno (bufs s' b) = l"
      if "l \<in> set L'" for l
      using bcD(7) [OF assms(1), of l] assms(4) [of l] that h(2) by (auto simp: assms(3))
  qed (use h(1) bcD(2) [OF assms(1)] in \<open>simp_all add: assms(3)\<close>)
  show "bval s' = (bval s)(b_blockno (bufs s b) := d)"
  proof
    fix n
    show "bval s' n = ((bval s)(b_blockno (bufs s b) := d)) n"
    proof (cases "n = b_blockno (bufs s b)")
      case True
      then show ?thesis using bval_cached [OF bc' h(1), of n] h(2) by (simp add: assms(3))
    next
      case False
      have "bval s' n = bval s n"
        by (rule bval_step [OF assms(1) bc', of b]) (use h(1) False in \<open>simp_all add: assms(3)\<close>)
      then show ?thesis using False by simp
    qed
  qed
qed

lemma write_buf:
  assumes "bc D H L s xs" "b \<in> H" "s' = upd_buf b (\<lambda>x. x\<lparr>b_data := d\<rparr>) s"
  shows "bc D H L s' xs" "bval s' = (bval s)(b_blockno (bufs s b) := d)"
proof -
  have "s' = upd_buf b (\<lambda>x. x\<lparr>b_data := d, b_refcnt := of_bool (b_blockno (bufs s b) \<in> set L) + 1\<rparr>) s"
    unfolding assms(3) using bc_held(6) [OF assms(1,2)] by (intro upd_buf_cong) (cases "bufs s b", simp)
  from held_update [OF assms(1,2) this] show "bc D H L s' xs" "bval s' = (bval s)(b_blockno (bufs s b) := d)" by simp_all
qed

lemma pin_buf:
  assumes "bc D H L s xs" "b \<in> H" "s' = upd_buf b (\<lambda>x. x\<lparr>b_refcnt := of_bool (b_blockno (bufs s b) \<in> set L') + 1\<rparr>) s"
    and "\<And>n. n \<noteq> b_blockno (bufs s b) \<Longrightarrow> n \<in> set L' \<longleftrightarrow> n \<in> set L"
  shows "bc D H L' s' xs" "bval s' = bval s"
proof -
  have "s' = upd_buf b (\<lambda>x. x\<lparr>b_data := b_data (bufs s b), b_refcnt := of_bool (b_blockno (bufs s b) \<in> set L') + 1\<rparr>) s"
    unfolding assms(3) by (intro upd_buf_cong) (cases "bufs s b", simp)
  from held_update [OF assms(1,2) this assms(4)] show "bc D H L' s' xs" "bval s' = bval s"
    using bc_held(7) [OF assms(1,2)] by (simp_all add: fun_upd_idem)
qed

text \<open>Releasing a buffer whose contents are on the disk or belong to the log.\<close>

lemma wakeup_upd_buf: "wakeup c (upd_buf b f s) = upd_buf b f (wakeup c s)"
proof -
  have "woken c (upd_buf b f s) = woken c s" by (rule ext) (simp add: woken_def)
  then show ?thesis by (simp add: wakeup_eq upd_buf_def)
qed

lemma bio_frame_to_front: "bio_frame s (to_front b s)"
  unfolding to_front_def link_front_def Let_def
  by (rule bio_frame_trans [OF bio_frame_trans [OF bio_frame_trans [OF bio_frame_trans [OF bio_frame_trans [OF bio_frame_upd bio_frame_upd] bio_frame_upd] bio_frame_upd] bio_frame_upd] bio_frame_upd])

lemma bio_frame_wakeup: "bio_frame s (wakeup c s)"
  unfolding bio_frame_def wakeup_eq
  by (rule exI [of _ "woken c s"], rule exI [of _ "bufs s"], rule exI [of _ "disk s"], rule exI [of _ "disk_log s"])
    (simp add: woken_def wakeup_proc_def)

lemma brelse_eq:
  assumes "bc D H L s xs" "b \<in> H"
    and "s1 = upd_buf b (\<lambda>x. x\<lparr>b_lock := \<lparr>sl_locked = False, sl_pid = 0\<rparr>, b_refcnt := b_refcnt x - 1\<rparr>) (wakeup (Chan_buf_lock b) s)"
  shows "brelse b s = Ok () (if b_refcnt (bufs s1 b) = 0 then to_front b s1 else s1)"
proof -
  note h = bc_held [OF assms(1,2)]
  have "upd_buf b (\<lambda>x. x\<lparr>b_refcnt := b_refcnt x - 1\<rparr>) (releasesleep (buf_lock b) s) = s1"
    by (simp add: releasesleep_def buf_lock_def wakeup_upd_buf assms(3))
  moreover have "holdingsleep (buf_lock b) s = Ok True s"
    using h(4,5) bcD(4) [OF assms(1)] by (auto simp: holdingsleep_def buf_lock_def myproc_def cur_pid_def)
  ultimately show ?thesis by (simp add: brelse_def to_front_def Let_def del: upd_buf_simps)
qed

lemma brelse_spec:
  assumes "bc D H L s xs" "b \<in> H" "b_blockno (bufs s b) \<in> set L \<or> b_data (bufs s b) = disk s (b_blockno (bufs s b))"
  obtains s' xs' where "brelse b s = Ok () s'" "bc D (H - {b}) L s' xs'" "bval s' = bval s" "disk s' = disk s"
    "disk_log s' = disk_log s" "\<forall>c. c \<noteq> b \<longrightarrow> contents (bufs s' c) = contents (bufs s c)" "bio_frame s s'"
proof -
  note h = bc_held [OF assms(1,2)]
  define s1 where "s1 = upd_buf b (\<lambda>x. x\<lparr>b_lock := \<lparr>sl_locked = False, sl_pid = 0\<rparr>, b_refcnt := b_refcnt x - 1\<rparr>)
    (wakeup (Chan_buf_lock b) s)"
  define s' where "s' = (if b_refcnt (bufs s1 b) = 0 then to_front b s1 else s1)"
  define xs' where "xs' = (if b_refcnt (bufs s1 b) = 0 then b # remove1 b xs else xs)"
  have f1: "disk s1 = disk s" "disk_log s1 = disk_log s" "bio_frame s s1" "\<forall>c. c \<noteq> b \<longrightarrow> bufs s1 c = bufs s c"
    by (simp_all add: s1_def wakeup_eq bio_frame_trans [OF bio_frame_wakeup bio_frame_upd, unfolded wakeup_eq])
  have l1: "links (bufs s1) xs"
    by (rule iffD2 [OF links_cong bcD(3) [OF assms(1)]]) (simp_all add: s1_def wakeup_eq)
  have b1: "bufs s1 b = (bufs s b)\<lparr>b_lock := \<lparr>sl_locked = False, sl_pid = 0\<rparr>, b_refcnt := of_bool (b_blockno (bufs s b) \<in> set L)\<rparr>"
    using h(6) by (simp add: s1_def wakeup_eq)
  have f: "disk s' = disk s" "disk_log s' = disk_log s" "\<And>c. contents (bufs s' c) = contents (bufs s1 c)"
    using f1 by (simp_all add: s'_def to_front_contents)
  have fr: "bio_frame s s'" using bio_frame_trans [OF f1(3) bio_frame_to_front] f1(3) by (simp add: s'_def)
  have l': "links (bufs s') xs'" using l1 to_front_links [OF l1 h(1)] by (simp add: s'_def xs'_def)
  have bb: "contents (bufs s' b) = contents (bufs s1 b)" by (rule f(3))
  note eb = contentsD [OF bb, unfolded b1, simplified]
  have oth: "contents (bufs s' c) = contents (bufs s c)" if "c \<noteq> b" for c using f(3) [of c] f1(4) that by simp
  have bc': "bc D (H - {b}) L s' xs'"
  proof (rule bc_step [OF assms(1) l', of _ b])
    show "buf_ok D (cur_pid s) (disk s') (b \<in> H - {b}) L (bufs s' b)"
      using bcD(5) [OF assms(1) h(1)] assms(2,3) h(2,3) eb by (auto simp: buf_ok_def pinned_def f(1))
    show "contents (bufs s' c) = contents (bufs s c) \<and> (c \<in> H - {b}) = (c \<in> H) \<and>
      (b_valid (bufs s c) \<longrightarrow> (b_blockno (bufs s c) \<in> set L) = (b_blockno (bufs s c) \<in> set L) \<and>
         disk s' (b_blockno (bufs s c)) = disk s (b_blockno (bufs s c))) \<and>
      (b_dev (bufs s c) = D \<longrightarrow> b_dev (bufs s' b) = D \<longrightarrow> b_blockno (bufs s c) \<noteq> b_blockno (bufs s' b))"
      if "c < NBUF" "c \<noteq> b" for c
      using h(8) [OF that] that oth [OF that(2)] f(1) eb by simp
    show "(\<exists>c < NBUF. c \<noteq> b \<and> b_valid (bufs s c) \<and> b_blockno (bufs s c) = l) \<or> b_valid (bufs s' b) \<and> b_blockno (bufs s' b) = l"
      if "l \<in> set L" for l
      using bcD(7) [OF assms(1) that] h(2) eb by auto
  qed (use h(1) bcD(2) [OF assms(1)] bio_frameD(2,3) [OF fr] in auto)
  have "bval s' = bval s"
  proof
    fix n
    show "bval s' n = bval s n"
      by (rule bval_step [OF assms(1) bc', of b]) (use h f(1) oth eb in auto)
  qed
  then show ?thesis
    using that [OF brelse_eq [OF assms(1,2) s1_def, folded s'_def] bc'] f(1,2) oth fr by simp
qed

section \<open>Initialisation\<close>

lemma link_front_next:
  assumes "b \<noteq> BHEAD"
  shows "b_next (bufs (link_front b s) c) =
      ((\<lambda>c. b_next (bufs s c))(b := b_next (bufs s BHEAD), BHEAD := b)) c"
    "b_prev (bufs (link_front b s) c) =
      ((\<lambda>c. b_prev (bufs s c))(b := BHEAD, b_next (bufs s BHEAD) := b)) c"
  using assms unfolding link_front_def Let_def upd_links by simp_all

lemma link_front_contents: "contents (bufs (link_front b s) c) = contents (bufs s c)"
  by (simp add: link_front_def Let_def upd_contents del: upd_buf_simps)

lemma binit_upto:
  assumes "k \<le> NBUF" "t = fold (\<lambda>b s. link_front b (initsleeplock (buf_lock b) s)) [0..<k]
       (upd_buf BHEAD (\<lambda>x. x\<lparr>b_prev := BHEAD, b_next := BHEAD\<rparr>) s)"
  shows "linked (\<lambda>b. b_next (bufs t b)) (\<lambda>b. b_prev (bufs t b)) (BHEAD # rev [0..<k] @ [BHEAD]) \<and>
    (\<forall>b < NBUF. contents (bufs t b) =
       (if b < k then contents ((bufs s b)\<lparr>b_lock := \<lparr>sl_locked = False, sl_pid = 0\<rparr>\<rparr>) else contents (bufs s b)))"
  using assms
proof (induction k arbitrary: t)
  case 0
  then show ?case by (simp add: linked_def BHEAD_def)
next
  case (Suc k)
  define u where "u = fold (\<lambda>b s. link_front b (initsleeplock (buf_lock b) s)) [0..<k]
       (upd_buf BHEAD (\<lambda>x. x\<lparr>b_prev := BHEAD, b_next := BHEAD\<rparr>) s)"
  define v where "v = initsleeplock (buf_lock k) u"
  have t: "t = link_front k v" using Suc.prems(2) by (simp add: u_def v_def)
  have k: "k < NBUF" "k \<noteq> BHEAD" using Suc.prems(1) by (simp_all add: BHEAD_def)
  have v: "v = upd_buf k (\<lambda>x. x\<lparr>b_lock := \<lparr>sl_locked = False, sl_pid = 0\<rparr>\<rparr>) u"
    by (simp add: v_def initsleeplock_def buf_lock_def)
  have ih: "linked (\<lambda>b. b_next (bufs u b)) (\<lambda>b. b_prev (bufs u b)) (BHEAD # rev [0..<k] @ [BHEAD])"
    "\<forall>b < NBUF. contents (bufs u b) =
       (if b < k then contents ((bufs s b)\<lparr>b_lock := \<lparr>sl_locked = False, sl_pid = 0\<rparr>\<rparr>) else contents (bufs s b))"
    using Suc.IH [OF _ u_def] Suc.prems(1) by simp_all
  have same: "b_next (bufs v b) = b_next (bufs u b)" "b_prev (bufs v b) = b_prev (bufs u b)" for b by (simp_all add: v)
  have "linked (\<lambda>b. b_next (bufs t b)) (\<lambda>b. b_prev (bufs t b)) (BHEAD # k # rev [0..<k] @ [BHEAD])"
    unfolding t link_front_next [OF k(2)] same
    by (rule linked_front [OF ih(1)]) (use k in \<open>auto simp: BHEAD_def\<close>)
  moreover have "contents (bufs t b) = (if b < Suc k then contents ((bufs s b)\<lparr>b_lock := \<lparr>sl_locked = False, sl_pid = 0\<rparr>\<rparr>)
      else contents (bufs s b))" if "b < NBUF" for b
    unfolding t link_front_contents v using ih(2) that by (auto simp: contents_def less_Suc_eq)
  ultimately show ?case by simp
qed

text \<open>A cache in which nothing has been read.\<close>

definition fresh :: "'a kbio_scheme \<Rightarrow> bool" where
  "fresh s \<longleftrightarrow> (\<forall>b < NBUF. \<not> b_valid (bufs s b) \<and> b_dev (bufs s b) = 0 \<and> b_refcnt (bufs s b) = 0)"

lemma binit_frame: "bio_frame s (binit s)"
proof -
  have 1: "bio_frame t (link_front b t)" for b t
    unfolding link_front_def Let_def
    by (rule bio_frame_trans [OF bio_frame_trans [OF bio_frame_trans [OF bio_frame_upd bio_frame_upd] bio_frame_upd] bio_frame_upd])
  have 2: "bio_frame t (initsleeplock (buf_lock b) t)" for b t by (simp add: initsleeplock_def buf_lock_def)
  have "bio_frame t (fold (\<lambda>b s. link_front b (initsleeplock (buf_lock b) s)) bs t)" for bs t
    by (induction bs arbitrary: t) (auto intro: bio_frame_trans bio_frame_trans [OF 2 1])
  then show ?thesis unfolding binit_def using bio_frame_trans [OF bio_frame_upd] by blast
qed


lemma binit_disk:
  fixes s :: "'a kbio_scheme"
  shows "disk (binit s) = disk s" "disk_log (binit s) = disk_log s"
proof -
  have "disk (fold (\<lambda>b s. link_front b (initsleeplock (buf_lock b) s)) bs t) = disk t \<and>
    disk_log (fold (\<lambda>b s. link_front b (initsleeplock (buf_lock b) s)) bs t) = disk_log t" for bs and t :: "'a kbio_scheme"
    by (induction bs arbitrary: t) (simp_all add: link_front_def initsleeplock_def buf_lock_def Let_def)
  then show "disk (binit s) = disk s" "disk_log (binit s) = disk_log s" by (simp_all add: binit_def)
qed

lemma binit_bc:
  assumes "fresh s" "curproc s \<noteq> None" "D \<noteq> 0"
  shows "bc D {} [] (binit s) (rev [0..<NBUF])" "bval (binit s) = disk s"
proof -
  note b = binit_upto [OF order_refl, of "binit s" s, folded binit_def, OF refl]
  have c: "contents (bufs (binit s) b) = contents ((bufs s b)\<lparr>b_lock := \<lparr>sl_locked = False, sl_pid = 0\<rparr>\<rparr>)" if "b < NBUF" for b
    using b that by simp
  have z: "\<not> b_valid (bufs (binit s) b)" "b_dev (bufs (binit s) b) = 0" "b_refcnt (bufs (binit s) b) = 0"
    "\<not> sl_locked (b_lock (bufs (binit s) b))" if "b < NBUF" for b
    using assms(1) that contentsD [OF c [OF that]] by (auto simp: fresh_def)
  have "links (bufs (binit s)) (rev [0..<NBUF])" using conjunct1 [OF b] by (auto simp: links_def)
  then show "bc D {} [] (binit s) (rev [0..<NBUF])"
    using z assms(2,3) bio_frameD(2) [OF binit_frame, of s] by (auto simp: bc_def buf_ok_def pinned_def)
  show "bval (binit s) = disk s"
    using bval_uncached [of "binit s"] z(1) by (auto simp: binit_disk)
qed

end
