(* ===== verification/Blocks.thy ===== *)
theory Blocks
  imports Log Bcache
begin

text \<open>
  Fields of a disk block: bytes written at an offset are read back, other bytes are not touched, and
  the same for the 32-bit elements that the log header and indirect blocks consist of.
\<close>

lemma length_blk_put [simp]: "off + length bs \<le> length d \<Longrightarrow> length (blk_put d off bs) = length d"
  by (simp add: blk_put_def)

lemma nth_blk_put:
  assumes "off + length bs \<le> length d" "i < length d"
  shows "blk_put d off bs ! i = (if off \<le> i \<and> i < off + length bs then bs ! (i - off) else d ! i)"
  using assms by (auto simp: blk_put_def nth_append min_def)

lemma length_blk_get: "off + n \<le> length d \<Longrightarrow> length (blk_get d off n) = n"
  by (simp add: blk_get_def)

lemma nth_blk_get: "i < n \<Longrightarrow> off + n \<le> length d \<Longrightarrow> blk_get d off n ! i = d ! (off + i)"
  by (simp add: blk_get_def)

lemma blk_get_put_same:
  assumes "off + length bs \<le> length d" "n = length bs"
  shows "blk_get (blk_put d off bs) off n = bs"
  by (rule nth_equalityI) (use assms in \<open>simp_all add: length_blk_get nth_blk_get nth_blk_put\<close>)

lemma blk_get_put_other:
  assumes "off + length bs \<le> length d" "off' + n \<le> length d" "off' + n \<le> off \<or> off + length bs \<le> off'"
  shows "blk_get (blk_put d off bs) off' n = blk_get d off' n"
  by (rule nth_equalityI) (use assms in \<open>auto simp: length_blk_get nth_blk_get nth_blk_put\<close>)

lemma blk_put_get:
  assumes "off + n \<le> length d"
  shows "blk_put d off (blk_get d off n) = d"
  using assms by (simp add: blk_put_def blk_get_def) (metis append_take_drop_id add.commute drop_drop)

lemma length_set_u32 [simp]: "4 * i + 4 \<le> length d \<Longrightarrow> length (blk_set_u32 d i v) = length d"
  by (simp add: blk_set_u32_def)

lemma blk_u32_set:
  assumes "4 * i + 4 \<le> length d" "4 * j + 4 \<le> length d"
  shows "blk_u32 (blk_set_u32 d i v) j = (if j = i then v else blk_u32 d j)"
proof (cases "j = i")
  case True
  then show ?thesis using assms by (simp add: blk_u32_def blk_set_u32_def blk_get_put_same le_word_le)
next
  case False
  then have "4 * j + 4 \<le> 4 * i \<or> 4 * i + 4 \<le> 4 * j" by arith
  then show ?thesis using assms False by (simp add: blk_u32_def blk_set_u32_def blk_get_put_other)
qed

section \<open>Counted loops\<close>

lemma for_each_upt:
  assumes "P 0 s" and "\<And>i t. i < n \<Longrightarrow> P i t \<Longrightarrow> \<exists>t'. f i t = Ok () t' \<and> P (Suc i) t'"
  shows "\<exists>s'. for_each [0..<n] f s = Ok () s' \<and> P n s'"
  using assms(2)
proof (induction n)
  case 0
  then show ?case using assms(1) by simp
next
  case (Suc n)
  then obtain t where t: "for_each [0..<n] f s = Ok () t" "P n t" by (meson less_Suc_eq)
  then obtain t' where "f n t = Ok () t'" "P (Suc n) t'" using Suc.prems [of n t] by auto
  then show ?case using t(1) by (simp add: for_each_append)
qed

end
