(* ===== verification/Log_Steps.thy ===== *)
theory Log_Steps
  imports Blocks
begin

text \<open>
  What the log writes to the disk. Every operation of the log is described by the block writes that it adds to
  \<open>disk_log\<close>, by the invariant of the buffer cache that it keeps, and by the values of the blocks afterwards:
  the copies of \<^verbatim>\<open>write_log\<close> and \<^verbatim>\<open>install_trans\<close>, the header, and from them \<^verbatim>\<open>commit\<close> and \<^verbatim>\<open>recover_from_log\<close>.
\<close>

type_synonym dsk = "u32 \<Rightarrow> u8 list"
type_synonym wrs = "(u32 \<times> u8 list) list"

definition apply_writes :: "wrs \<Rightarrow> dsk \<Rightarrow> dsk" where
  "apply_writes ws d = fold (\<lambda>(bn, x) d. d(bn := x)) ws d"

lemma apply_writes_simps [simp]:
  "apply_writes [] d = d" "apply_writes (w # ws) d = apply_writes ws (d(fst w := snd w))"
  "apply_writes (ws @ ws') d = apply_writes ws' (apply_writes ws d)"
  by (simp_all add: apply_writes_def split_def)

lemma apply_writes_other: "bn \<notin> fst ` set ws \<Longrightarrow> apply_writes ws d bn = d bn"
  by (induction ws arbitrary: d) auto

lemma apply_writes_in:
  assumes "\<And>w. w \<in> set ws \<Longrightarrow> snd w = f (fst w)" "bn \<in> fst ` set ws"
  shows "apply_writes ws d bn = f bn"
  using assms
proof (induction ws arbitrary: d)
  case (Cons w ws)
  show ?case
  proof (cases "bn \<in> fst ` set ws")
    case True
    then show ?thesis using Cons by simp
  next
    case False
    then show ?thesis using Cons.prems apply_writes_other [OF False] by auto
  qed
qed simp

text \<open>A step that writes these blocks.\<close>

definition wrote :: "'a kbio_scheme \<Rightarrow> wrs \<Rightarrow> 'a kbio_scheme \<Rightarrow> bool" where
  "wrote s ws s' \<longleftrightarrow> disk s' = apply_writes ws (disk s) \<and> disk_log s' = disk_log s @ ws \<and> bio_frame s s'"

lemma wrote_trans: "wrote s ws t \<Longrightarrow> wrote t ws' u \<Longrightarrow> wrote s (ws @ ws') u"
  using bio_frame_trans by (auto simp: wrote_def)

lemma wrote_nil: "wrote s [] s" by (simp add: wrote_def)

lemma wrote_none: "disk t = disk s \<Longrightarrow> disk_log t = disk_log s \<Longrightarrow> bio_frame s t \<Longrightarrow> wrote s [] t"
  by (simp add: wrote_def)

lemma log_fields:
  assumes "bio_frame s (s' :: 'a klog_scheme)"
  shows "log_dev s' = log_dev s" "log_start s' = log_start s" "lh_n s' = lh_n s" "lh_block s' = lh_block s"
    "log_size s' = log_size s" "log_outstanding s' = log_outstanding s" "log_committing s' = log_committing s"
  using bio_frameD(1) [OF assms] by (cases s; cases s'; simp)+

lemma bval_disk:
  assumes "bc D {} L s xs" "bn \<notin> set L"
  shows "bval s bn = disk s bn"
proof (cases "\<exists>b < NBUF. b_valid (bufs s b) \<and> b_blockno (bufs s b) = bn")
  case True
  then obtain b where b: "b < NBUF" "b_valid (bufs s b)" "b_blockno (bufs s b) = bn" by blast
  then show ?thesis using bval_cached [OF assms(1) b] bcD(5) [OF assms(1) b(1)] assms(2) by (simp add: buf_ok_def pinned_def)
next
  case False
  then show ?thesis by (intro bval_uncached) blast
qed

section \<open>Copying a block\<close>

lemma read_two:
  assumes "bc D {} L s xs" "n \<noteq> m" "length L < NBUF" "length L + 1 < NBUF \<or> m \<in> set L"
  obtains a s1 b s2 where "bread D n s = Ok a s1" "bread D m s1 = Ok b s2" "a \<noteq> b" "bc D {a, b} L s2 xs" "wrote s [] s1" "wrote s [] s2"
    "b_blockno (bufs s2 a) = n" "b_blockno (bufs s2 b) = m" "b_data (bufs s2 a) = bval s n" "b_data (bufs s2 b) = bval s m"
    "bval s2 = bval s"
proof -
  obtain a s1 where r1: "bread D n s = Ok a s1" "a < NBUF" "a \<notin> {}" "bc D {a} L s1 xs" "b_blockno (bufs s1 a) = n"
    "b_data (bufs s1 a) = bval s n" "bval s1 = bval s" "disk s1 = disk s" "disk_log s1 = disk_log s"
    "\<forall>c. c \<noteq> a \<longrightarrow> bufs s1 c = bufs s c" "bio_frame s s1"
    by (rule bread_spec [OF assms(1), of n]) (use assms(3) in auto)
  obtain b s2 where r2: "bread D m s1 = Ok b s2" "b < NBUF" "b \<notin> {a}" "bc D (insert b {a}) L s2 xs" "b_blockno (bufs s2 b) = m"
    "b_data (bufs s2 b) = bval s1 m" "bval s2 = bval s1" "disk s2 = disk s1" "disk_log s2 = disk_log s1"
    "\<forall>c. c \<noteq> b \<longrightarrow> bufs s2 c = bufs s1 c" "bio_frame s1 s2"
    by (rule bread_spec [OF r1(4), of m]) (use r1(5) assms(2,4) in auto)
  have "bufs s2 a = bufs s1 a" "a \<noteq> b" using r2(3,10) by auto
  then show ?thesis
    using that [OF r1(1) r2(1)] r1 r2 bio_frame_trans [OF r1(11) r2(11)] by (simp add: wrote_none insert_commute)
qed

lemma release_one:
  assumes "bc D H L s xs" "a \<in> H" "b_blockno (bufs s a) \<in> set L \<or> b_data (bufs s a) = disk s (b_blockno (bufs s a))"
  obtains s' xs' where "brelse a s = Ok () s'" "bc D (H - {a}) L s' xs'" "bval s' = bval s" "wrote s [] s'"
    "\<And>c. c \<noteq> a \<Longrightarrow> b_blockno (bufs s' c) = b_blockno (bufs s c) \<and> b_data (bufs s' c) = b_data (bufs s c)"
proof -
  obtain s' xs' where r: "brelse a s = Ok () s'" "bc D (H - {a}) L s' xs'" "bval s' = bval s" "disk s' = disk s"
    "disk_log s' = disk_log s" "\<forall>c. c \<noteq> a \<longrightarrow> contents (bufs s' c) = contents (bufs s c)" "bio_frame s s'"
    by (rule brelse_spec [OF assms])
  show ?thesis
  proof (rule that [OF r(1-3)])
    show "wrote s [] s'" using r(4,5,7) by (rule wrote_none)
    show "b_blockno (bufs s' c) = b_blockno (bufs s c) \<and> b_data (bufs s' c) = b_data (bufs s c)" if "c \<noteq> a" for c
      using contentsD(3,6) [OF r(6) [rule_format, OF that]] by simp
  qed
qed

lemma release_two:
  assumes "bc D {a, b} L s xs" "a \<noteq> b"
    and "b_blockno (bufs s a) \<in> set L \<or> b_data (bufs s a) = disk s (b_blockno (bufs s a))"
    and "b_blockno (bufs s b) \<in> set L \<or> b_data (bufs s b) = disk s (b_blockno (bufs s b))"
  obtains s1 s' xs' where "brelse a s = Ok () s1" "brelse b s1 = Ok () s'" "bc D {} L s' xs'" "bval s' = bval s" "wrote s [] s'"
proof -
  obtain s1 ys where r1: "brelse a s = Ok () s1" "bc D ({a, b} - {a}) L s1 ys" "bval s1 = bval s" "wrote s [] s1"
    "b_blockno (bufs s1 b) = b_blockno (bufs s b)" "b_data (bufs s1 b) = b_data (bufs s b)"
    by (rule release_one [OF assms(1)]) (use assms in auto)
  have "{a, b} - {a} = {b}" using assms(2) by auto
  then have bc1: "bc D {b} L s1 ys" using r1(2) by simp
  obtain s' zs where r2: "brelse b s1 = Ok () s'" "bc D ({b} - {b}) L s' zs" "bval s' = bval s1" "wrote s1 [] s'"
    by (rule release_one [OF bc1]) (use assms(4) r1(4-6) in \<open>auto simp: wrote_def\<close>)
  show ?thesis using that [OF r1(1) r2(1)] r2 r1(3) wrote_trans [OF r1(4) r2(4)] by simp
qed

lemma store_block:
  assumes "bc D H L s xs" "a \<in> H" "b_blockno (bufs s a) = n" "t = set_data a v s"
  obtains s' where "bwrite a t = Ok () s'" "bc D H L s' xs" "bval s' = (bval s)(n := v)" "wrote s [(n, v)] s'"
    "\<And>c. b_blockno (bufs s' c) = b_blockno (bufs s c) \<and> b_data (bufs s' c) = (if c = a then v else b_data (bufs s c))"
proof -
  have t: "t = upd_buf a (\<lambda>x. x\<lparr>b_data := v\<rparr>) s" by (simp add: assms(4) set_data_def)
  note w = write_buf [OF assms(1,2) t]
  define s' where "s' = t\<lparr>disk := (disk t)(n := v), disk_log := disk_log t @ [(n, v)]\<rparr>"
  have b: "n = b_blockno (bufs t a)" "v = b_data (bufs t a)" using assms(3) by (simp_all add: t)
  note w' = bwrite_spec [OF w(1) assms(2) b s'_def]
  have "wrote s [(n, v)] s'"
    using bio_frame_trans [OF bio_frame_upd w'(4) [unfolded t]] by (simp add: wrote_def s'_def t)
  then show ?thesis
    by (intro that [OF w'(1,2)]) (use w'(3) w(2) assms(3) in \<open>auto simp: s'_def t\<close>)
qed

lemma write_log_step_spec:
  assumes "bc D {} L s xs" "log_dev s = D" "lh_block s i \<in> set L" "ln = log_start s + of_nat i + 1" "ln \<notin> set L"
    "length L < NBUF" "v = bval s (lh_block s i)"
  obtains s' xs' where "write_log_step i s = Ok () s'" "bc D {} L s' xs'" "wrote s [(ln, v)] s'" "bval s' = (bval s)(ln := v)"
proof -
  let ?h = "lh_block s i"
  have ne: "ln \<noteq> ?h" using assms(3,5) by auto
  obtain t s1 f s2 where r: "bread D ln s = Ok t s1" "bread D ?h s1 = Ok f s2" "t \<noteq> f" "bc D {t, f} L s2 xs"
    "wrote s [] s1" "wrote s [] s2" "b_blockno (bufs s2 t) = ln" "b_blockno (bufs s2 f) = ?h" "b_data (bufs s2 t) = bval s ln"
    "b_data (bufs s2 f) = bval s ?h" "bval s2 = bval s"
    by (rule read_two [OF assms(1) ne assms(6)]) (use assms(3) in auto)
  obtain s3 where w: "bwrite t (set_data t v s2) = Ok () s3" "bc D {t, f} L s3 xs" "bval s3 = (bval s2)(ln := v)"
    "wrote s2 [(ln, v)] s3"
    "\<And>c. b_blockno (bufs s3 c) = b_blockno (bufs s2 c) \<and> b_data (bufs s3 c) = (if c = t then v else b_data (bufs s2 c))"
    by (rule store_block [OF r(4) _ r(7) refl]) auto
  obtain s4 s5 ys where q: "brelse f s3 = Ok () s4" "brelse t s4 = Ok () s5" "bc D {} L s5 ys" "bval s5 = bval s3" "wrote s3 [] s5"
    by (rule release_two [of D f t L s3 xs]) (use w(2,4,5) r(3,7,8) assms(3) in \<open>auto simp: insert_commute wrote_def\<close>)
  have "log_dev s1 = D" "lh_block s1 = lh_block s" using log_fields [of s s1] r(5) assms(2) by (auto simp: wrote_def)
  then have "write_log_step i s = Ok () s5"
    using r(1,2,10) w(1) q(1,2) assms(7) by (simp add: write_log_step_def assms(2,4) Let_def)
  then show ?thesis
    using that q(3,4) w(3) r(11) wrote_trans [OF wrote_trans [OF r(6) w(4)] q(5)] by simp
qed

text \<open>Unpinning the buffer of a block that leaves the log.\<close>

lemma unpin_spec:
  assumes "bc D H L s xs" "a \<in> H" "b_blockno (bufs s a) = n" "set L = insert n (set L')" "n \<notin> set L'"
  shows "bc D H L' (bunpin a s) xs" "bval (bunpin a s) = bval s" "wrote s [] (bunpin a s)"
    "b_blockno (bufs (bunpin a s) c) = b_blockno (bufs s c)" "b_data (bufs (bunpin a s) c) = b_data (bufs s c)"
proof -
  have "bunpin a s = upd_buf a (\<lambda>x. x\<lparr>b_refcnt := of_bool (b_blockno (bufs s a) \<in> set L') + 1\<rparr>) s"
    unfolding bunpin_def using bc_held(6) [OF assms(1,2)] assms(3-5) by (intro upd_buf_cong) simp
  from pin_buf [OF assms(1,2) this] show "bc D H L' (bunpin a s) xs" "bval (bunpin a s) = bval s"
    using assms(3,4) by auto
  show "wrote s [] (bunpin a s)" "b_blockno (bufs (bunpin a s) c) = b_blockno (bufs s c)"
    "b_data (bufs (bunpin a s) c) = b_data (bufs s c)"
    by (simp_all add: bunpin_def wrote_none)
qed

lemma install_step_spec:
  assumes "bc D {} L s xs" "log_dev s = D" "h = lh_block s i" "ln = log_start s + of_nat i + 1" "ln \<noteq> h" "ln \<notin> set L"
    "length L < NBUF" "v = disk s ln" "if rec then L = [] \<and> L' = [] else set L = insert h (set L') \<and> h \<notin> set L'"
  obtains s' xs' where "install_step rec i s = Ok () s'" "bc D {} L' s' xs'" "wrote s [(h, v)] s'" "bval s' = (bval s)(h := v)"
proof -
  obtain l s1 b s2 where r: "bread D ln s = Ok l s1" "bread D h s1 = Ok b s2" "l \<noteq> b" "bc D {l, b} L s2 xs"
    "wrote s [] s1" "wrote s [] s2" "b_blockno (bufs s2 l) = ln" "b_blockno (bufs s2 b) = h" "b_data (bufs s2 l) = bval s ln"
    "b_data (bufs s2 b) = bval s h" "bval s2 = bval s"
    by (rule read_two [OF assms(1,5,7)]) (use assms(9) in \<open>auto simp: NBUF_def MAXOPBLOCKS_def split: if_splits\<close>)
  have d: "b_data (bufs s2 l) = v" using r(9) bval_disk [OF assms(1,6)] assms(8) by simp
  obtain s3 where w: "bwrite b (set_data b v s2) = Ok () s3" "bc D {l, b} L s3 xs" "bval s3 = (bval s2)(h := v)"
    "wrote s2 [(h, v)] s3"
    "\<And>c. b_blockno (bufs s3 c) = b_blockno (bufs s2 c) \<and> b_data (bufs s3 c) = (if c = b then v else b_data (bufs s2 c))"
    by (rule store_block [OF r(4) _ r(8) refl]) auto
  define s4 where "s4 = (if \<not> rec then bunpin b s3 else s3)"
  have "b_blockno (bufs s3 b) = h" using w(5) r(8) by simp
  note u = unpin_spec [OF w(2) _ this, of L']
  have s4: "bc D {l, b} L' s4 xs" "bval s4 = bval s3" "wrote s3 [] s4"
    "\<And>c. b_blockno (bufs s4 c) = b_blockno (bufs s3 c) \<and> b_data (bufs s4 c) = b_data (bufs s3 c)"
    using assms(9) w(2) u wrote_nil by (auto simp: s4_def split: if_splits)
  have disk4: "disk s4 = (disk s)(h := v)" using r(6) w(4) s4(3) by (simp add: wrote_def)
  obtain s5 s6 ys where q: "brelse l s4 = Ok () s5" "brelse b s5 = Ok () s6" "bc D {} L' s6 ys" "bval s6 = bval s4" "wrote s4 [] s6"
    by (rule release_two [OF s4(1) r(3)]) (use w(5) s4(4) r(3,7,8) d assms(5,8) disk4 in auto)
  have "log_dev s1 = D" "lh_block s1 = lh_block s" using log_fields [of s s1] r(5) assms(2) by (auto simp: wrote_def)
  then have "install_step rec i s = Ok () s6"
    using r(1,2) w(1) q(1,2) d unfolding install_step_def assms(2-4) by (simp add: Let_def s4_def assms(2-4) split: if_splits)
  then show ?thesis
    using that q(3,4) w(3) r(11) s4(2) wrote_trans [OF wrote_trans [OF r(6) w(4)] wrote_trans [OF s4(3) q(5)]] by simp
qed


section \<open>The header\<close>

definition hdr :: "int \<Rightarrow> (nat \<Rightarrow> u32) \<Rightarrow> u8 list \<Rightarrow> u8 list" where
  "hdr n f d = fold (\<lambda>i d. blk_set_u32 d (Suc i) (f i)) [0..<nat n] (blk_set_u32 d 0 (word_of_int n))"

definition hdr_n :: "u8 list \<Rightarrow> int" where
  "hdr_n d = sint (blk_u32 d 0)"

lemma hdr_fold:
  assumes "8 + 4 * k \<le> length d" "t = fold (\<lambda>i d. blk_set_u32 d (Suc i) (f i)) [0..<k] d"
  shows "length t = length d \<and> (\<forall>j. 4 * j + 4 \<le> length d \<longrightarrow> blk_u32 t j = (if 0 < j \<and> j \<le> k then f (j - 1) else blk_u32 d j))"
  using assms
proof (induction k arbitrary: t)
  case (Suc k)
  define u where "u = fold (\<lambda>i d. blk_set_u32 d (Suc i) (f i)) [0..<k] d"
  have u: "length u = length d" "\<And>j. 4 * j + 4 \<le> length d \<Longrightarrow> blk_u32 u j = (if 0 < j \<and> j \<le> k then f (j - 1) else blk_u32 d j)"
    using Suc.IH [OF _ u_def] Suc.prems(1) by simp_all
  have t: "t = blk_set_u32 u (Suc k) (f k)" using Suc.prems(2) by (simp add: u_def)
  then show ?case using u Suc.prems(1) by (auto simp: blk_u32_set le_Suc_eq)
qed simp

lemma hdr_read:
  assumes "length d = BSIZE" "0 \<le> n" "n \<le> LOGSIZE"
  shows "length (hdr n f d) = BSIZE" "hdr_n (hdr n f d) = n" "i < nat n \<Longrightarrow> blk_u32 (hdr n f d) (Suc i) = f i"
proof -
  have n: "nat n \<le> 30" "n \<le> 30" using assms(3) by (simp_all add: LOGSIZE_def MAXOPBLOCKS_def)
  have l: "length (blk_set_u32 d 0 (word_of_int n)) = 1024" using assms(1) by (simp add: BSIZE_def)
  note h = hdr_fold [of "nat n" "blk_set_u32 d 0 (word_of_int n)" "hdr n f d" f, OF _ hdr_def]
  show "length (hdr n f d) = BSIZE" using h n l by (simp add: BSIZE_def)
  have "blk_u32 (hdr n f d) 0 = word_of_int n" using h n l assms(1) by (simp add: blk_u32_set BSIZE_def)
  then show "hdr_n (hdr n f d) = n" using assms(2) n by (simp add: hdr_n_def signed_of_int signed_take_bit_int_eq_self)
  show "i < nat n \<Longrightarrow> blk_u32 (hdr n f d) (Suc i) = f i" using h n l by simp
qed

lemma read_one:
  assumes "bc D {} L s xs" "length L < NBUF \<or> n \<in> set L"
  obtains a s1 where "bread D n s = Ok a s1" "bc D {a} L s1 xs" "wrote s [] s1" "b_blockno (bufs s1 a) = n"
    "b_data (bufs s1 a) = bval s n" "bval s1 = bval s"
  by (rule bread_spec [OF assms(1), of n]) (use assms(2) that in \<open>auto simp: wrote_none\<close>)

lemma write_head_spec:
  assumes "bc D {} L s xs" "log_dev s = D" "log_start s \<notin> set L" "length L < NBUF"
    and "v = hdr (lh_n s) (lh_block s) (disk s (log_start s))"
  obtains s' xs' where "write_head s = Ok () s'" "bc D {} L s' xs'" "wrote s [(log_start s, v)] s'"
    "bval s' = (bval s)(log_start s := v)"
proof -
  let ?st = "log_start s"
  obtain b s1 where r: "bread D ?st s = Ok b s1" "bc D {b} L s1 xs" "wrote s [] s1" "b_blockno (bufs s1 b) = ?st"
    "b_data (bufs s1 b) = bval s ?st" "bval s1 = bval s"
    by (rule read_one [OF assms(1)]) (use assms(4) in auto)
  have l: "lh_n s1 = lh_n s" "lh_block s1 = lh_block s" using log_fields [of s s1] r(3) by (auto simp: wrote_def)
  have d: "b_data (bufs s1 b) = disk s ?st" using r(5) bval_disk [OF assms(1,3)] by simp
  obtain s2 where w: "bwrite b (set_data b v s1) = Ok () s2" "bc D {b} L s2 xs" "bval s2 = (bval s1)(?st := v)"
    "wrote s1 [(?st, v)] s2"
    "\<And>c. b_blockno (bufs s2 c) = b_blockno (bufs s1 c) \<and> b_data (bufs s2 c) = (if c = b then v else b_data (bufs s1 c))"
    by (rule store_block [OF r(2) _ r(4) refl]) auto
  obtain s3 ys where q: "brelse b s2 = Ok () s3" "bc D ({b} - {b}) L s3 ys" "bval s3 = bval s2" "wrote s2 [] s3"
    by (rule release_one [OF w(2), of b]) (use w(4,5) r(4) in \<open>auto simp: wrote_def\<close>)
  have "write_head s = Ok () s3"
    using r(1) w(1) q(1) unfolding write_head_def assms(2) by (simp add: Let_def d l assms(5) hdr_def)
  then show ?thesis using that q(2,3) w(3) r(6) wrote_trans [OF wrote_trans [OF r(3) w(4)] q(4)] by simp
qed


lemma bio_frame_lh:
  assumes "bio_frame s t"
  shows "bio_frame (s\<lparr>lh_n := n, lh_block := f\<rparr>) (t\<lparr>lh_n := n, lh_block := f\<rparr>)" "bio_frame (s\<lparr>lh_n := n\<rparr>) (t\<lparr>lh_n := n\<rparr>)"
proof -
  obtain pr bs dk dl where t: "t = s\<lparr>procs := pr, bufs := bs, disk := dk, disk_log := dl\<rparr>"
    "\<forall>q. (pr q)\<lparr>p_state := UNUSED\<rparr> = (procs s q)\<lparr>p_state := UNUSED\<rparr>"
    using assms unfolding bio_frame_def by blast
  show "bio_frame (s\<lparr>lh_n := n, lh_block := f\<rparr>) (t\<lparr>lh_n := n, lh_block := f\<rparr>)" "bio_frame (s\<lparr>lh_n := n\<rparr>) (t\<lparr>lh_n := n\<rparr>)"
    unfolding bio_frame_def
    by (rule exI [of _ pr], rule exI [of _ bs], rule exI [of _ dk], rule exI [of _ dl]; simp add: t)+
qed

lemma wrote_lh: "wrote s ws t \<Longrightarrow> wrote (s\<lparr>lh_n := k\<rparr>) ws (t\<lparr>lh_n := k\<rparr>)"
  by (simp add: wrote_def bio_frame_lh(2))

lemma bc_lh:
  "bc D H L (s\<lparr>lh_n := n, lh_block := f\<rparr>) xs = bc D H L s xs" "bval (s\<lparr>lh_n := n, lh_block := f\<rparr>) = bval s"
  "bc D H L (s\<lparr>lh_n := n\<rparr>) xs = bc D H L s xs" "bval (s\<lparr>lh_n := n\<rparr>) = bval s"
  by (rule bc_cong; simp add: cur_pid_def)+

text \<open>The fields that \<^verbatim>\<open>read_head\<close> loads.\<close>

definition loaded :: "u8 list \<Rightarrow> 'a klog_scheme \<Rightarrow> 'a klog_scheme" where
  "loaded d s = s\<lparr>lh_n := hdr_n d, lh_block := (\<lambda>i. if i < nat (hdr_n d) then blk_u32 d (Suc i) else lh_block s i)\<rparr>"

lemma read_head_spec:
  assumes "bc D {} L s xs" "log_dev s = D" "log_start s \<notin> set L" "length L < NBUF"
    and "d = disk s (log_start s)" "hdr_n d \<le> LOGSIZE"
  obtains s' xs' where "read_head s = Ok () s'" "bc D {} L s' xs'" "wrote (loaded d s) [] s'" "bval s' = bval s"
proof -
  let ?st = "log_start s"
  obtain b s1 where r: "bread D ?st s = Ok b s1" "bc D {b} L s1 xs" "wrote s [] s1" "b_blockno (bufs s1 b) = ?st"
    "b_data (bufs s1 b) = bval s ?st" "bval s1 = bval s"
    by (rule read_one [OF assms(1)]) (use assms(4) in auto)
  have db: "b_data (bufs s1 b) = d" using r(5) bval_disk [OF assms(1,3)] assms(5) by simp
  have l: "lh_block s1 = lh_block s" using log_fields [of s s1] r(3) by (auto simp: wrote_def)
  define s2 where "s2 = loaded d s1"
  have bc2: "bc D {b} L s2 xs" "bval s2 = bval s1" using r(2) by (simp_all add: s2_def loaded_def bc_lh)
  have e2: "bufs s2 = bufs s1" "disk s2 = disk s1" by (simp_all add: s2_def loaded_def)
  obtain s3 ys where q: "brelse b s2 = Ok () s3" "bc D ({b} - {b}) L s3 ys" "bval s3 = bval s2" "wrote s2 [] s3"
    by (rule release_one [OF bc2(1), of b]) (use db r(3,4) assms(5) e2 in \<open>auto simp: wrote_def\<close>)
  have f: "wrote (loaded d s) [] s2"
    using r(3) bio_frame_lh(1) [of s s1, where n = "hdr_n d" and
        f = "\<lambda>i. if i < nat (hdr_n d) then blk_u32 d (Suc i) else lh_block s i"]
    unfolding wrote_def s2_def loaded_def l by simp
  have "read_head s = (if hdr_n (b_data (bufs s1 b)) > LOGSIZE then Fault ''read_head: index''
    else brelse b (loaded (b_data (bufs s1 b)) s1))"
    using r(1) unfolding read_head_def assms(2) by (simp add: Let_def hdr_n_def loaded_def)
  then have "read_head s = Ok () s3" using q(1) assms(6) unfolding db by (simp add: s2_def)
  then show ?thesis using that q(2,3) bc2(2) r(6) wrote_trans [OF f q(4)] by simp
qed

section \<open>The loops\<close>

text \<open>The writes of \<^verbatim>\<open>write_log\<close> and \<^verbatim>\<open>install_trans\<close> for \<open>n\<close> logged blocks \<open>f\<close>.\<close>

definition log_writes :: "u32 \<Rightarrow> (nat \<Rightarrow> u32) \<Rightarrow> dsk \<Rightarrow> nat \<Rightarrow> wrs" where
  "log_writes st f v n = map (\<lambda>j. (st + of_nat j + 1, v (f j))) [0..<n]"

definition home_writes :: "u32 \<Rightarrow> (nat \<Rightarrow> u32) \<Rightarrow> dsk \<Rightarrow> nat \<Rightarrow> wrs" where
  "home_writes st f d n = map (\<lambda>j. (f j, d (st + of_nat j + 1))) [0..<n]"

text \<open>The blocks of the log: the header and \<open>N - 1\<close> more.\<close>

definition log_region :: "u32 \<Rightarrow> nat \<Rightarrow> u32 set" where
  "log_region st N = (\<lambda>j. st + of_nat j) ` {..<N}"

lemma log_region_blk: "j < N \<Longrightarrow> st + of_nat j \<in> log_region st N" "Suc j < N \<Longrightarrow> st + of_nat j + 1 \<in> log_region st N"
proof -
  show "j < N \<Longrightarrow> st + of_nat j \<in> log_region st N" by (simp add: log_region_def)
  assume "Suc j < N"
  then have "st + of_nat (Suc j) \<in> log_region st N" unfolding log_region_def by blast
  then show "st + of_nat j + 1 \<in> log_region st N" by (simp add: algebra_simps)
qed

lemma log_blk_inj:
  assumes "i < N" "j < N" "N \<le> 31" "st + of_nat i = st + (of_nat j :: u32)"
  shows "i = j"
  using assms by (simp add: word_of_nat_eq_iff take_bit_nat_eq_self)


lemma write_log_spec:
  assumes "bc D {} L s xs" "log_dev s = D" "n = nat (lh_n s)" "set L = lh_block s ` {..<n}" "length L < NBUF"
    and "n < N" "N \<le> 31" "set L \<inter> log_region (log_start s) N = {}" "ws = log_writes (log_start s) (lh_block s) (bval s) n"
  obtains s' xs' where "write_log s = Ok () s'" "bc D {} L s' xs'" "wrote s ws s'"
    "\<forall>m. m \<notin> log_region (log_start s) N \<or> m = log_start s \<longrightarrow> bval s' m = bval s m"
proof -
  let ?R = "log_region (log_start s) N"
  define P where "P i t \<longleftrightarrow> (\<exists>xs. bc D {} L t xs) \<and> wrote s (log_writes (log_start s) (lh_block s) (bval s) i) t \<and>
    (\<forall>m. m \<notin> ?R \<or> m = log_start s \<longrightarrow> bval t m = bval s m)" for i t
  have step: "\<exists>t'. write_log_step i t = Ok () t' \<and> P (Suc i) t'" if i: "i < n" and p: "P i t" for i t
  proof -
    obtain ys where t: "bc D {} L t ys" "wrote s (log_writes (log_start s) (lh_block s) (bval s) i) t"
      "\<And>m. m \<notin> ?R \<or> m = log_start s \<Longrightarrow> bval t m = bval s m" using p unfolding P_def by blast
    have "bio_frame s t" using t(2) by (simp add: wrote_def)
    note l = log_fields [OF this]
    let ?ln = "log_start s + of_nat i + 1"
    have h: "lh_block s i \<in> set L" "?ln \<in> ?R" using i assms(4,6) log_region_blk(2) [of i N] by auto
    have ne: "?ln \<noteq> log_start s"
    proof
      assume "?ln = log_start s"
      then show False using log_blk_inj [of "Suc i" 31 0 "log_start s"] i assms(6,7) by (simp add: algebra_simps)
    qed
    obtain t' zs where w: "write_log_step i t = Ok () t'" "bc D {} L t' zs" "wrote t [(?ln, bval t (lh_block s i))] t'"
      "bval t' = (bval t)(?ln := bval t (lh_block s i))"
      by (rule write_log_step_spec [OF t(1), of i ?ln]) (use l assms(2,5,8) h in auto)
    have v: "bval t (lh_block s i) = bval s (lh_block s i)" using t(3) h(1) assms(8) by auto
    have "P (Suc i) t'" unfolding P_def
      using w(2) wrote_trans [OF t(2) w(3)] w(4) t(3) v h(2) ne by (auto simp: log_writes_def)
    then show ?thesis using w(1) by blast
  qed
  have "P 0 s" using assms(1) wrote_nil by (auto simp: P_def log_writes_def)
  from for_each_upt [of P s n write_log_step, OF this step] obtain s' where "write_log s = Ok () s'" "P n s'"
    unfolding write_log_def assms(3) [symmetric] by blast
  then show ?thesis using that unfolding P_def assms(9) by blast
qed

lemma install_trans_spec:
  assumes "bc D {} L s xs" "log_dev s = D" "n = nat (lh_n s)" "if rec then L = [] else L = map (lh_block s) [0..<n] \<and> distinct L"
    and "length L < NBUF" "n < N" "lh_block s ` {..<n} \<inter> log_region (log_start s) N = {}"
    and "ws = home_writes (log_start s) (lh_block s) (disk s) n"
  obtains s' xs' where "install_trans rec s = Ok () s'" "bc D {} [] s' xs'" "wrote s ws s'"
proof -
  let ?R = "log_region (log_start s) N"
  define P where "P i t \<longleftrightarrow> (\<exists>xs. bc D {} (if rec then [] else drop i L) t xs) \<and>
    wrote s (home_writes (log_start s) (lh_block s) (disk s) i) t" for i t
  have step: "\<exists>t'. install_step rec i t = Ok () t' \<and> P (Suc i) t'" if i: "i < n" and p: "P i t" for i t
  proof -
    let ?L = "if rec then [] else drop i L" and ?L' = "if rec then [] else drop (Suc i) L"
    obtain ys where t: "bc D {} ?L t ys" "wrote s (home_writes (log_start s) (lh_block s) (disk s) i) t"
      using p unfolding P_def by blast
    have "bio_frame s t" using t(2) by (simp add: wrote_def)
    note l = log_fields [OF this]
    let ?ln = "log_start s + of_nat i + 1" and ?h = "lh_block s i"
    have ln: "?ln \<in> ?R" "?h \<notin> ?R" using i assms(6,7) log_region_blk(2) [of i N] by auto
    have L: "if rec then ?L = [] \<and> ?L' = [] else set ?L = insert ?h (set ?L') \<and> ?h \<notin> set ?L'"
    proof (cases rec)
      case False
      then have d: "L = map (lh_block s) [0..<n]" "distinct L" using assms(4) by auto
      then have "drop i L = ?h # drop (Suc i) L" using i by (simp add: Cons_nth_drop_Suc [symmetric])
      moreover have "distinct (drop i L)" using d(2) by simp
      ultimately show ?thesis using False by simp
    qed simp
    have "set L \<subseteq> lh_block s ` {..<n}" using assms(4) by (auto split: if_splits)
    then have "set ?L \<subseteq> lh_block s ` {..<n}" using set_drop_subset [of i L] by auto
    then have out: "?ln \<notin> set ?L" using ln(1) assms(7) by blast
    have v: "disk t ?ln = disk s ?ln"
    proof -
      have "?ln \<notin> fst ` set (home_writes (log_start s) (lh_block s) (disk s) i)"
        using ln(1) assms(7) i by (force simp: home_writes_def)
      then show ?thesis using t(2) by (simp add: wrote_def apply_writes_other)
    qed
    obtain t' zs where w: "install_step rec i t = Ok () t'" "bc D {} ?L' t' zs" "wrote t [(?h, disk s ?ln)] t'"
      by (rule install_step_spec [OF t(1), of ?h i ?ln "disk s ?ln" rec ?L'])
        (use l assms(2,5) ln out L v in \<open>auto simp: NBUF_def MAXOPBLOCKS_def split: if_splits\<close>)
    have "P (Suc i) t'" unfolding P_def
      using w(2) wrote_trans [OF t(2) w(3)] by (auto simp: home_writes_def)
    then show ?thesis using w(1) by blast
  qed
  have "P 0 s" using assms(1,4) wrote_nil by (auto simp: P_def home_writes_def split: if_splits)
  from for_each_upt [of P s n "install_step rec", OF this step] obtain s' where s': "install_trans rec s = Ok () s'" "P n s'"
    unfolding install_trans_def assms(3) [symmetric] by blast
  have "(if rec then [] else drop n L) = []" using assms(4) by (auto split: if_splits)
  then show ?thesis using s' that unfolding P_def assms(8) by auto
qed


section \<open>Commit and recovery\<close>

text \<open>All the writes of a commit.\<close>

definition commit_writes :: "u32 \<Rightarrow> nat \<Rightarrow> (nat \<Rightarrow> u32) \<Rightarrow> dsk \<Rightarrow> u8 list \<Rightarrow> wrs" where
  "commit_writes st n f v h0 =
     (let h1 = hdr (int n) f h0
      in log_writes st f v n @ [(st, h1)] @ map (\<lambda>j. (f j, v (f j))) [0..<n] @ [(st, hdr 0 f h1)])"

text \<open>The state of the log while transactions run: \<open>L\<close> are the logged blocks, of which there are fewer than the
  log has room for, and the header on the disk is empty.\<close>

definition txn :: "u32 \<Rightarrow> nat \<Rightarrow> 'a klog_scheme \<Rightarrow> u32 list \<Rightarrow> bool" where
  "txn D N s L \<longleftrightarrow> log_dev s = D \<and> lh_n s = int (length L) \<and>
     L = map (lh_block s) [0..<length L] \<and> distinct L \<and> length L < N \<and> N \<le> 30 \<and>
     set L \<inter> log_region (log_start s) N = {} \<and> length (disk s (log_start s)) = BSIZE \<and>
     hdr_n (disk s (log_start s)) = 0 \<and> log_size s = int N"

definition log_ok :: "u32 \<Rightarrow> nat \<Rightarrow> 'a klog_scheme \<Rightarrow> u32 list \<Rightarrow> bool" where
  "log_ok D N s L \<longleftrightarrow> (\<exists>xs. bc D {} L s xs) \<and> txn D N s L"

lemma txn_cong:
  assumes "txn D N s L" "bio_frame s s'" "disk s' = disk s"
  shows "txn D N s' L"
  using assms(1,3) unfolding txn_def log_fields [OF assms(2)] by simp

lemma log_writes_in:
  assumes "n < N" "N \<le> 31" "ws = log_writes st f v n" "i < n"
  shows "apply_writes ws d (st + of_nat i + 1) = v (f i)"
proof -
  have inj: "j = i" if "j < n" "st + of_nat j + 1 = st + of_nat i + (1 :: u32)" for j
    using that assms log_blk_inj [of j 31 i st] by simp
  have "apply_writes (map (\<lambda>j. (st + of_nat j + 1, v (f j))) js) d (st + of_nat i + 1) = v (f i)"
    if "i \<in> set js" "set js \<subseteq> {..<n}" for js d
    using that
  proof (induction js arbitrary: d)
    case (Cons j js)
    show ?case
    proof (cases "i \<in> set js")
      case False
      then have "st + of_nat i + 1 \<notin> fst ` set (map (\<lambda>j. (st + of_nat j + 1, v (f j))) js)" using Cons.prems(2) inj by auto
      then show ?thesis using Cons.prems(1) False by (simp add: apply_writes_other)
    qed (use Cons in simp)
  qed simp
  then show ?thesis using assms(3,4) by (auto simp: log_writes_def lessThan_atLeast0)
qed

lemma commit_spec:
  assumes "log_ok D N s L" "L \<noteq> []" "ws = commit_writes (log_start s) (length L) (lh_block s) (bval s) (disk s (log_start s))"
  obtains s' where "commit s = Ok () s'" "log_ok D N s' []" "wrote (s\<lparr>lh_n := 0\<rparr>) ws s'"
proof -
  let ?st = "log_start s" and ?n = "length L" and ?f = "lh_block s"
  obtain xs where bc: "bc D {} L s xs" and k: "log_dev s = D" "lh_n s = int ?n" "L = map ?f [0..<?n]" "distinct L" "?n < N" "N \<le> 30"
    "set L \<inter> log_region ?st N = {}" "length (disk s ?st) = BSIZE" "hdr_n (disk s ?st) = 0" "log_size s = int N"
    using assms(1) unfolding log_ok_def txn_def by blast
  have n: "?n < NBUF" "?n = nat (lh_n s)" "N \<le> 31" "int ?n \<le> LOGSIZE"
    using k(2,5,6) by (simp_all add: NBUF_def LOGSIZE_def MAXOPBLOCKS_def)
  have "set L = set (map ?f [0..<?n])" using k(3) by simp
  then have set: "set L = ?f ` {..<?n}" by (simp add: lessThan_atLeast0)
  have stR: "?st \<in> log_region ?st N" "?st \<notin> set L" using log_region_blk(1) [of 0 N ?st] k(5,7) by auto
  obtain s1 ys where w1: "write_log s = Ok () s1" "bc D {} L s1 ys" "wrote s (log_writes ?st ?f (bval s) ?n) s1"
    "\<forall>m. m \<notin> log_region ?st N \<or> m = ?st \<longrightarrow> bval s1 m = bval s m"
    by (rule write_log_spec [OF bc k(1) n(2) set n(1) k(5) n(3) k(7) refl])
  have f1: "log_dev s1 = D" "log_start s1 = ?st" "lh_n s1 = int ?n" "lh_block s1 = ?f"
    using log_fields [of s s1] w1(3) k(1,2) by (simp_all add: wrote_def)
  have d1: "disk s1 ?st = disk s ?st" using w1(4) bval_disk [OF bc stR(2)] bval_disk [OF w1(2) stR(2)] by simp
  define h1 where "h1 = hdr (int ?n) ?f (disk s ?st)"
  obtain s2 zs where w2: "write_head s1 = Ok () s2" "bc D {} L s2 zs" "wrote s1 [(?st, h1)] s2"
    by (rule write_head_spec [OF w1(2) f1(1)]) (use f1 stR n d1 in \<open>auto simp: h1_def\<close>)
  have f2: "log_dev s2 = D" "log_start s2 = ?st" "lh_n s2 = int ?n" "lh_block s2 = ?f"
    using log_fields [of s1 s2] w2(3) f1 by (simp_all add: wrote_def)
  have "disk s2 (?st + of_nat j + 1) = bval s (?f j)" if "j < ?n" for j
  proof -
    have "?st + of_nat j + 1 \<noteq> ?st"
      using log_blk_inj [of "Suc j" 31 0 ?st] that k(5,6) by (auto simp: algebra_simps)
    then show ?thesis using w1(3) w2(3) log_writes_in [OF k(5) n(3) refl that, of ?st ?f "bval s"] by (simp add: wrote_def)
  qed
  then have hw: "home_writes ?st ?f (disk s2) ?n = map (\<lambda>j. (?f j, bval s (?f j))) [0..<?n]" by (simp add: home_writes_def)
  obtain s3 us where w3: "install_trans False s2 = Ok () s3" "bc D {} [] s3 us"
    "wrote s2 (map (\<lambda>j. (?f j, bval s (?f j))) [0..<?n]) s3"
    by (rule install_trans_spec [OF w2(2) f2(1), of ?n False N]) (use f2 n set k(3-7) hw in \<open>auto simp: lessThan_atLeast0\<close>)
  have f3: "log_dev s3 = D" "log_start s3 = ?st" "lh_block s3 = ?f"
    using log_fields [of s2 s3] w3(3) f2 by (simp_all add: wrote_def)
  have d3: "disk s3 ?st = h1"
  proof -
    have "?st \<notin> fst ` set (map (\<lambda>j. (?f j, bval s (?f j))) [0..<?n])" using stR(2) set by (auto simp: lessThan_atLeast0)
    then show ?thesis using w3(3) w2(3) by (simp add: wrote_def apply_writes_other)
  qed
  have bc3: "bc D {} [] (s3\<lparr>lh_n := 0\<rparr>) us" using w3(2) by (simp add: bc_lh)
  obtain s4 vs where w4: "write_head (s3\<lparr>lh_n := 0\<rparr>) = Ok () s4" "bc D {} [] s4 vs" "wrote (s3\<lparr>lh_n := 0\<rparr>) [(?st, hdr 0 ?f h1)] s4"
    by (rule write_head_spec [OF bc3]) (use f3 d3 n(1) in auto)
  have "wrote s (log_writes ?st ?f (bval s) ?n @ [(?st, h1)] @ map (\<lambda>j. (?f j, bval s (?f j))) [0..<?n]) s3"
    using wrote_trans [OF wrote_trans [OF w1(3) w2(3)] w3(3)] by simp
  from wrote_trans [OF wrote_lh [OF this, of 0] w4(3)] have w: "wrote (s\<lparr>lh_n := 0\<rparr>) ws s4"
    by (simp add: assms(3) commit_writes_def h1_def Let_def)
  have "commit s = Ok () s4" using w1(1) w2(1) w3(1) w4(1) k(2) assms(2) by (simp add: commit_def)
  moreover have "log_ok D N s4 []"
  proof -
    have "log_size s4 = int N" using log_fields(5) [of "s\<lparr>lh_n := 0\<rparr>" s4] w k(10) by (simp add: wrote_def)
    moreover have "disk s4 ?st = hdr 0 ?f h1" "log_dev s4 = D" "log_start s4 = ?st" "lh_n s4 = 0"
      using w4(3) f3 log_fields [of "s3\<lparr>lh_n := 0\<rparr>" s4] by (simp_all add: wrote_def)
    ultimately show ?thesis using w4(2) k(5,6) hdr_read(1) [OF k(8) _ n(4), of ?f, folded h1_def] hdr_read(1,2) [of h1 0 ?f]
      by (auto simp: log_ok_def txn_def LOGSIZE_def MAXOPBLOCKS_def)
  qed
  ultimately show ?thesis using that w by blast
qed

lemma recover_spec:
  assumes "bc D {} [] s xs" "log_dev s = D" "d = disk s (log_start s)" "0 \<le> hdr_n d" "n = nat (hdr_n d)" "n < N" "N \<le> 30"
    and "f = (\<lambda>i. blk_u32 d (Suc i))" "f ` {..<n} \<inter> log_region (log_start s) N = {}"
  obtains s' xs' where "recover_from_log s = Ok () s'" "bc D {} [] s' xs'" "lh_n s' = 0"
    "disk s' = apply_writes (home_writes (log_start s) f (disk s) n @ [(log_start s, hdr 0 f d)]) (disk s)"
    "disk_log s' = disk_log s @ home_writes (log_start s) f (disk s) n @ [(log_start s, hdr 0 f d)]"
    "log_dev s' = log_dev s" "log_start s' = log_start s"
proof -
  let ?st = "log_start s" and ?hw = "home_writes (log_start s) f (disk s) n"
  have N: "hdr_n d \<le> LOGSIZE" "?st \<in> log_region ?st N" "0 < NBUF"
    using assms(4-7) log_region_blk(1) [of 0 N ?st] by (simp_all add: LOGSIZE_def NBUF_def MAXOPBLOCKS_def)
  obtain s1 ys where r: "read_head s = Ok () s1" "bc D {} [] s1 ys" "wrote (loaded d s) [] s1" "bval s1 = bval s"
    by (rule read_head_spec [OF assms(1,2) _ _ assms(3)]) (use N in auto)
  have f1: "log_dev s1 = D" "log_start s1 = ?st" "lh_n s1 = hdr_n d" "\<forall>i < n. lh_block s1 i = f i" "disk s1 = disk s"
    "disk_log s1 = disk_log s"
    using log_fields [of "loaded d s" s1] r(3) assms(2,5,8) by (simp_all add: wrote_def loaded_def)
  then have im: "lh_block s1 ` {..<n} = f ` {..<n}" and hw: "home_writes (log_start s1) (lh_block s1) (disk s1) n = ?hw"
    by (auto simp: home_writes_def)
  obtain s2 zs where i: "install_trans True s1 = Ok () s2" "bc D {} [] s2 zs" "wrote s1 ?hw s2"
    by (rule install_trans_spec [OF r(2) f1(1), of n True N]) (use f1 N assms(5,6,9) im hw in auto)
  have f2: "log_dev s2 = D" "log_start s2 = ?st" "lh_block s2 = lh_block s1"
    using log_fields [of s1 s2] i(3) f1 by (simp_all add: wrote_def)
  have d2: "disk s2 ?st = d"
  proof -
    have "?st \<notin> fst ` set ?hw" using assms(9) N(2) by (force simp: home_writes_def)
    then show ?thesis using i(3) f1(5) assms(3) by (simp add: wrote_def apply_writes_other)
  qed
  have bc2: "bc D {} [] (s2\<lparr>lh_n := 0\<rparr>) zs" using i(2) by (simp add: bc_lh)
  have h0: "hdr 0 (lh_block s2) d = hdr 0 f d" by (simp add: hdr_def)
  obtain s3 us where w: "write_head (s2\<lparr>lh_n := 0\<rparr>) = Ok () s3" "bc D {} [] s3 us" "wrote (s2\<lparr>lh_n := 0\<rparr>) [(?st, hdr 0 f d)] s3"
    by (rule write_head_spec [OF bc2]) (use f2 d2 h0 N(3) in auto)
  have "recover_from_log s = Ok () s3" using r(1) i(1) w(1) by (simp add: recover_from_log_def)
  moreover have "lh_n s3 = 0" "log_dev s3 = D" "log_start s3 = ?st"
    using log_fields [of "s2\<lparr>lh_n := 0\<rparr>" s3] w(3) f2 by (simp_all add: wrote_def)
  ultimately show ?thesis using that w(2,3) i(3) f1(5,6) assms(2) by (simp add: wrote_def)
qed


section \<open>Writing through the log\<close>

text \<open>The blocks of the log after a block has been logged; a block that is already there is absorbed.\<close>

definition logged :: "u32 \<Rightarrow> u32 list \<Rightarrow> u32 list" where
  "logged n L = (if n \<in> set L then L else L @ [n])"

definition log_frame :: "'a klog_scheme \<Rightarrow> 'a klog_scheme \<Rightarrow> bool" where
  "log_frame s s' \<longleftrightarrow> (\<exists>t n f. bio_frame s t \<and> s' = t\<lparr>lh_n := n, lh_block := f\<rparr>)"

lemma log_frame_bio: "bio_frame s s' \<Longrightarrow> log_frame s s'"
  unfolding log_frame_def by (rule exI [of _ s'], rule exI [of _ "lh_n s'"], rule exI [of _ "lh_block s'"]) simp

lemma log_frame_upd: "log_frame s ((upd_buf b g s)\<lparr>lh_n := n, lh_block := f\<rparr>)"
  unfolding log_frame_def using bio_frame_upd by blast

lemma log_frame_trans:
  assumes "log_frame s t" "log_frame t u"
  shows "log_frame s u"
proof -
  obtain t' n f where t: "bio_frame s t'" "t = t'\<lparr>lh_n := n, lh_block := f\<rparr>" using assms(1) unfolding log_frame_def by blast
  obtain u' m g where u: "bio_frame t u'" "u = u'\<lparr>lh_n := m, lh_block := g\<rparr>" using assms(2) unfolding log_frame_def by blast
  let ?u = "u'\<lparr>lh_n := lh_n t', lh_block := lh_block t'\<rparr>"
  have "bio_frame t' ?u" using bio_frame_lh(1) [OF u(1), where n = "lh_n t'" and f = "lh_block t'"] t(2) by simp
  then show ?thesis using bio_frame_trans [OF t(1)] u(2) unfolding log_frame_def
    by (intro exI [of _ ?u] exI [of _ m] exI [of _ g]) simp
qed

lemma log_frameD:
  assumes "log_frame s s'"
  shows "log_dev s' = log_dev s" "log_start s' = log_start s" "log_size s' = log_size s" "log_outstanding s' = log_outstanding s"
    "log_committing s' = log_committing s" "klog.more s' = klog.more s" "mem s' = mem s" "curproc s' = curproc s"
    "p_pagetable (procs s' q) = p_pagetable (procs s q)" "p_killed (procs s' q) = p_killed (procs s q)"
    "refcnt s' = refcnt s" "freelist s' = freelist s" "end_addr s' = end_addr s"
proof -
  obtain t n f where t: "bio_frame s t" "s' = t\<lparr>lh_n := n, lh_block := f\<rparr>" using assms unfolding log_frame_def by blast
  note l = log_fields [OF t(1)] and b = bio_frameD [OF t(1)]
  show "log_dev s' = log_dev s" "log_start s' = log_start s" "log_size s' = log_size s" "log_outstanding s' = log_outstanding s"
    "log_committing s' = log_committing s" "mem s' = mem s" "curproc s' = curproc s"
    "p_pagetable (procs s' q) = p_pagetable (procs s q)" "p_killed (procs s' q) = p_killed (procs s q)"
    "refcnt s' = refcnt s" "freelist s' = freelist s" "end_addr s' = end_addr s"
    using l b by (simp_all add: t(2))
  show "klog.more s' = klog.more s" using b(1) by (cases s; cases t; simp add: t(2))
qed

lemma log_write_spec:
  assumes "bc D H L s xs" "txn D N s L" "b \<in> H" "n = b_blockno (bufs s b)" "n \<notin> log_region (log_start s) N"
    and "1 \<le> log_outstanding s" "length L + 1 < N"
  obtains s' where "log_write b s = Ok () s'" "bc D H (logged n L) s' xs" "txn D N s' (logged n L)" "bval s' = bval s"
    "disk s' = disk s" "log_frame s s'"
    "\<forall>c. b_blockno (bufs s' c) = b_blockno (bufs s c) \<and> b_data (bufs s' c) = b_data (bufs s c)"
proof -
  have t: "lh_n s = int (length L)" "L = map (lh_block s) [0..<length L]" "N \<le> 30" "log_size s = int N"
    using assms(2) by (simp_all add: txn_def)
  have ok: "\<not> (lh_n s \<ge> LOGSIZE \<or> lh_n s \<ge> log_size s - 1)" "\<not> log_outstanding s < 1"
    using t(1,3,4) assms(6,7) by (simp_all add: LOGSIZE_def MAXOPBLOCKS_def)
  have set: "set L = lh_block s ` {..<length L}" by (subst t(2)) (simp add: lessThan_atLeast0)
  show ?thesis
  proof (cases "n \<in> set L")
    case True
    then obtain i where i: "List.find (\<lambda>i. lh_block s i = n) [0..<nat (lh_n s)] = Some i"
      using t(1) set by (cases "List.find (\<lambda>i. lh_block s i = n) [0..<nat (lh_n s)]") (auto simp: find_None_iff)
    then have "lh_block s i = n" by (auto simp: find_Some_iff)
    then have "log_write b s = Ok () s" using ok i assms(4) by (simp add: log_write_def Let_def fun_upd_idem)
    then show ?thesis by (rule that) (use True assms(1,2) log_frame_bio [OF bio_frame_refl] in \<open>auto simp: logged_def\<close>)
  next
    case False
    then have i: "List.find (\<lambda>i. lh_block s i = n) [0..<nat (lh_n s)] = None"
      using t(1) set by (auto simp: find_None_iff)
    let ?s1 = "bpin b s"
    let ?s' = "?s1\<lparr>lh_n := lh_n s + 1, lh_block := (lh_block s)(length L := n)\<rparr>"
    have "log_write b s = Ok () ?s'"
      using ok i assms(4) t(1) by (simp add: log_write_def Let_def bpin_def upd_buf_def)
    moreover have "?s1 = upd_buf b (\<lambda>x. x\<lparr>b_refcnt := of_bool (b_blockno (bufs s b) \<in> set (L @ [n])) + 1\<rparr>) s"
      unfolding bpin_def using bc_held(6) [OF assms(1,3)] assms(4) False by (intro upd_buf_cong) simp
    note p = pin_buf [OF assms(1,3) this]
    have "bc D H (L @ [n]) ?s' xs" "bval ?s' = bval s" using p assms(4) by (simp_all add: bc_lh)
    moreover have "txn D N ?s' (L @ [n])"
      using assms(2,5,7) False by (auto simp: txn_def bpin_def upd_buf_def)
    moreover have "log_frame s ?s'" unfolding bpin_def by (rule log_frame_upd)
    ultimately show ?thesis using False
      by (intro that [of ?s']) (simp_all add: logged_def bpin_def)
  qed
qed

text \<open>The way the file system changes a block: read it, change it, log it and release it.\<close>

lemma txn_set_data: "txn D N s L \<Longrightarrow> txn D N (set_data b v s) L"
  by (rule txn_cong) (simp_all add: set_data_def)

lemma update_block:
  assumes "bc D {} L s xs" "txn D N s L" "n \<notin> log_region (log_start s) N" "1 \<le> log_outstanding s" "length L + 1 < N"
  obtains b s1 where "bread D n s = Ok b s1" "b_data (bufs s1 b) = bval s n" "log_frame s s1" "bc D {b} L s1 xs" "txn D N s1 L"
    "b_blockno (bufs s1 b) = n" "bval s1 = bval s" "disk s1 = disk s"
    "\<forall>v. \<exists>s2 s3 ys. log_write b (set_data b v s1) = Ok () s2 \<and> brelse b s2 = Ok () s3 \<and> bc D {} (logged n L) s3 ys \<and>
       txn D N s3 (logged n L) \<and> bval s3 = (bval s)(n := v) \<and> disk s3 = disk s \<and> log_frame s s2 \<and> log_frame s s3"
proof -
  have N: "N \<le> 30" "length L < NBUF" using assms(2,5) by (simp_all add: txn_def NBUF_def MAXOPBLOCKS_def)
  obtain b s1 where r: "bread D n s = Ok b s1" "bc D {b} L s1 xs" "wrote s [] s1" "b_blockno (bufs s1 b) = n"
    "b_data (bufs s1 b) = bval s n" "bval s1 = bval s"
    by (rule read_one [OF assms(1)]) (use N in auto)
  have fr: "bio_frame s s1" "disk s1 = disk s" using r(3) by (simp_all add: wrote_def)
  note t1 = txn_cong [OF assms(2) fr]
  have "\<exists>s2 s3 ys. log_write b (set_data b v s1) = Ok () s2 \<and> brelse b s2 = Ok () s3 \<and> bc D {} (logged n L) s3 ys \<and>
       txn D N s3 (logged n L) \<and> bval s3 = (bval s)(n := v) \<and> disk s3 = disk s \<and> log_frame s s2 \<and> log_frame s s3" for v
  proof -
    let ?t = "set_data b v s1"
    have t: "?t = upd_buf b (\<lambda>x. x\<lparr>b_data := v\<rparr>) s1" by (simp add: set_data_def)
    note w = write_buf [OF r(2) _ t]
    have f: "log_frame s ?t" using bio_frame_trans [OF fr(1) bio_frame_upd] by (simp add: t log_frame_bio)
    have p: "bc D {b} L ?t xs" "txn D N ?t L" "n = b_blockno (bufs ?t b)" "n \<notin> log_region (log_start ?t) N" "1 \<le> log_outstanding ?t"
      using w(1) txn_set_data [OF t1] r(4) assms(3,4) log_frameD(2,4) [OF f] by simp_all (simp add: set_data_def)
    obtain s2 where l: "log_write b ?t = Ok () s2" "bc D {b} (logged n L) s2 xs" "txn D N s2 (logged n L)" "bval s2 = bval ?t"
      "disk s2 = disk ?t" "log_frame ?t s2"
      "\<forall>c. b_blockno (bufs s2 c) = b_blockno (bufs ?t c) \<and> b_data (bufs s2 c) = b_data (bufs ?t c)"
      by (rule log_write_spec [OF p(1,2) _ p(3-5) assms(5)]) auto
    obtain s3 ys where q: "brelse b s2 = Ok () s3" "bc D ({b} - {b}) (logged n L) s3 ys" "bval s3 = bval s2" "wrote s2 [] s3"
      by (rule release_one [OF l(2), of b]) (use l(7) r(4) in \<open>auto simp: logged_def t\<close>)
    have d: "disk s3 = disk s2" "bio_frame s2 s3" using q(4) by (simp_all add: wrote_def)
    show ?thesis
      using l q d w(2) r(4,6) fr(2) txn_cong [OF l(3) d(2,1)] log_frame_trans [OF f l(6)]
        log_frame_trans [OF log_frame_trans [OF f l(6)] log_frame_bio [OF d(2)]]
      by (intro exI [of _ s2] exI [of _ s3] exI [of _ ys]) (simp add: t)
  qed
  then show ?thesis by (intro that [OF r(1,5) log_frame_bio [OF fr(1)] r(2) t1 r(4,6) fr(2)]) blast
qed

end
