(* ===== verification/Log_Props.thy ===== *)
theory Log_Props
  imports Log_Steps Boot_State
begin

text \<open>
  Crash safety of the log. A crash keeps a prefix of the block writes and loses all memory. A disk is \<open>stable\<close>
  with contents \<open>v\<close> when replaying the log that it holds gives \<open>v\<close> outside the log region. A boot that crashes keeps
  a disk stable with the same contents; a commit that crashes leaves it stable with the old contents or with the new
  ones, depending on whether the log header was written.
\<close>

definition replay :: "u32 \<Rightarrow> dsk \<Rightarrow> dsk" where
  "replay st d = apply_writes (home_writes st (\<lambda>i. blk_u32 (d st) (Suc i)) d (nat (hdr_n (d st)))) d"

definition boot_writes :: "u32 \<Rightarrow> dsk \<Rightarrow> wrs" where
  "boot_writes st d =
     home_writes st (\<lambda>i. blk_u32 (d st) (Suc i)) d (nat (hdr_n (d st))) @ [(st, hdr 0 (\<lambda>i. blk_u32 (d st) (Suc i)) (d st))]"

definition stable :: "u32 \<Rightarrow> nat \<Rightarrow> dsk \<Rightarrow> dsk \<Rightarrow> bool" where
  "stable st N d v \<longleftrightarrow> length (d st) = BSIZE \<and> 0 \<le> hdr_n (d st) \<and> nat (hdr_n (d st)) < N \<and> N \<le> 30 \<and>
     (\<lambda>i. blk_u32 (d st) (Suc i)) ` {..<nat (hdr_n (d st))} \<inter> log_region st N = {} \<and>
     (\<forall>bn. bn \<notin> log_region st N \<longrightarrow> replay st d bn = v bn)"

lemma apply_writes_indep: "bn \<in> fst ` set ws \<Longrightarrow> apply_writes ws d bn = apply_writes ws e bn"
proof (induction ws arbitrary: d e)
  case (Cons w ws)
  show ?case
  proof (cases "bn \<in> fst ` set ws")
    case True
    then show ?thesis using Cons.IH by simp
  next
    case False
    then show ?thesis using Cons.prems by (auto simp: apply_writes_other)
  qed
qed simp

lemma apply_writes_again:
  assumes "fst ` set vs \<subseteq> fst ` set ws"
  shows "apply_writes ws (apply_writes vs d) = apply_writes ws d"
proof
  fix bn
  show "apply_writes ws (apply_writes vs d) bn = apply_writes ws d bn"
  proof (cases "bn \<in> fst ` set ws")
    case False
    then have "bn \<notin> fst ` set vs" using assms by blast
    then show ?thesis using False by (simp add: apply_writes_other)
  qed (rule apply_writes_indep)
qed

lemma fst_home_writes [simp]: "fst ` set (home_writes st f d n) = f ` {..<n}"
  by (force simp: home_writes_def)

lemma header_in_region: "0 < N \<Longrightarrow> st \<in> log_region st N"
  using log_region_blk(1) [of 0 N st] by simp

lemma log_region_iff:
  assumes "N \<le> 2 ^ 32"
  shows "bn \<in> log_region st N \<longleftrightarrow> unat (bn - st) < N"
proof
  assume "unat (bn - st) < N"
  then have "st + of_nat (unat (bn - st)) \<in> log_region st N" by (rule log_region_blk(1))
  then show "bn \<in> log_region st N" by simp
qed (use assms in \<open>auto simp: log_region_def unat_of_nat take_bit_nat_eq_self\<close>)

lemma stable_boot:
  assumes "stable st N (disk r) v" "fresh r" "curproc r \<noteq> None" "D \<noteq> 0"
  obtains r' where "initlog D st nlog (binit r) = Ok () r'" "disk r' = apply_writes (boot_writes st (disk r)) (disk r)"
    "disk_log r' = disk_log r @ boot_writes st (disk r)" "\<exists>xs. bc D {} [] r' xs" "lh_n r' = 0" "log_start r' = st"
proof -
  let ?r = "(binit r)\<lparr>log_start := st, log_size := sint nlog, log_dev := D\<rparr>"
  let ?d = "disk r st"
  have bc: "bc D {} [] ?r (rev [0..<NBUF])"
    by (rule iffD2 [OF bc_cong(1) binit_bc(1) [OF assms(2-4)]]) (simp_all add: cur_pid_def)
  have st: "0 \<le> hdr_n ?d" "nat (hdr_n ?d) < N" "N \<le> 30"
    "(\<lambda>i. blk_u32 ?d (Suc i)) ` {..<nat (hdr_n ?d)} \<inter> log_region st N = {}"
    using assms(1) by (simp_all add: stable_def)
  obtain r' xs where "recover_from_log ?r = Ok () r'" "bc D {} [] r' xs" "lh_n r' = 0"
    "disk r' = apply_writes (boot_writes st (disk r)) (disk r)" "disk_log r' = disk_log r @ boot_writes st (disk r)"
    "log_start r' = st"
    by (rule recover_spec [OF bc, of ?d "nat (hdr_n ?d)" N "\<lambda>i. blk_u32 ?d (Suc i)"])
      (use st in \<open>simp_all add: binit_disk boot_writes_def\<close>)
  then show ?thesis using that by (auto simp: initlog_def LOGSIZE_def MAXOPBLOCKS_def BSIZE_def)
qed

lemma stable_done:
  assumes "stable st N d v"
  shows "\<forall>bn. bn \<notin> log_region st N \<longrightarrow> apply_writes (boot_writes st d) d bn = v bn"
    "hdr_n (apply_writes (boot_writes st d) d st) = 0" "length (apply_writes (boot_writes st d) d st) = BSIZE"
  using assms header_in_region [of N st] hdr_read(1,2) [of "d st" 0]
  by (auto simp: stable_def boot_writes_def replay_def LOGSIZE_def MAXOPBLOCKS_def)

lemma stable_clean:
  assumes "length (d st) = BSIZE" "hdr_n (d st) = 0" "0 < N" "N \<le> 30" "\<And>bn. bn \<notin> log_region st N \<Longrightarrow> d bn = v bn"
  shows "stable st N d v"
  using assms by (simp add: stable_def replay_def home_writes_def)

lemma stable_crash:
  assumes "stable st N d v"
  shows "stable st N (apply_writes (take k (boot_writes st d)) d) v"
proof -
  let ?n = "nat (hdr_n (d st))" and ?f = "\<lambda>i. blk_u32 (d st) (Suc i)"
  let ?hw = "home_writes st ?f d ?n"
  note s = assms [unfolded stable_def]
  show ?thesis
  proof (cases "k \<le> ?n")
    case True
    define e where "e = apply_writes (take k ?hw) d"
    have len: "length ?hw = ?n" by (simp add: home_writes_def)
    have sub: "fst ` set (take k ?hw) \<subseteq> ?f ` {..<?n}" using fst_home_writes set_take_subset by (metis image_mono)
    have reg: "e bn = d bn" if "bn \<in> log_region st N" for bn
      unfolding e_def by (rule apply_writes_other) (use that sub s in auto)
    have est: "e st = d st" using reg header_in_region s by simp
    have "home_writes st ?f e ?n = ?hw"
      using reg log_region_blk(2) s by (auto simp: home_writes_def)
    then have "replay st e = replay st d"
      unfolding replay_def est using apply_writes_again [of "take k ?hw" ?hw d] sub by (simp add: e_def)
    then have "stable st N e v" using s by (simp add: stable_def est)
    moreover have "take k (boot_writes st d) = take k ?hw" using True len by (simp add: boot_writes_def)
    ultimately show ?thesis by (simp add: e_def)
  next
    case False
    then have "take k (boot_writes st d) = boot_writes st d" by (simp add: boot_writes_def home_writes_def)
    then show ?thesis using stable_clean [of "apply_writes (boot_writes st d) d" st N v] stable_done [OF assms] s by auto
  qed
qed

lemma commit_stable:
  assumes "log_ok D N s L" "ws = commit_writes (log_start s) (length L) (lh_block s) (bval s) (disk s (log_start s))"
  shows "stable (log_start s) N (apply_writes (take k ws) (disk s)) (if k \<le> length L then disk s else bval s)"
proof -
  let ?st = "log_start s" and ?n = "length L" and ?f = "lh_block s" and ?v = "bval s"
  obtain xs where bc: "bc D {} L s xs" and t: "L = map ?f [0..<?n]" "?n < N" "N \<le> 30"
    "set L \<inter> log_region ?st N = {}" "length (disk s ?st) = BSIZE" "hdr_n (disk s ?st) = 0"
    using assms(1) unfolding log_ok_def txn_def by blast
  have set: "set L = ?f ` {..<?n}" by (subst t(1)) (simp add: lessThan_atLeast0)
  define h1 where "h1 = hdr (int ?n) ?f (disk s ?st)"
  define A where "A = log_writes ?st ?f ?v ?n"
  define B where "B = map (\<lambda>j. (?f j, ?v (?f j))) [0..<?n]"
  have ws: "ws = A @ [(?st, h1)] @ B @ [(?st, hdr 0 ?f h1)]"
    by (simp add: assms(2) commit_writes_def h1_def A_def B_def Let_def)
  have len: "length A = ?n" "length B = ?n" by (simp_all add: A_def B_def log_writes_def)
  have N: "0 < N" "N \<le> 31" "int ?n \<le> LOGSIZE" using t(2,3) by (simp_all add: LOGSIZE_def MAXOPBLOCKS_def)
  have stR: "?st \<in> log_region ?st N" by (rule header_in_region [OF N(1)])
  have A: "fst ` set A \<subseteq> log_region ?st N - {?st}"
  proof
    fix m assume "m \<in> fst ` set A"
    then obtain i where i: "i < ?n" "m = ?st + of_nat i + 1" by (auto simp: A_def log_writes_def)
    then show "m \<in> log_region ?st N - {?st}"
      using log_region_blk(2) [of i N ?st] log_blk_inj [of "Suc i" 31 0 ?st] t(2,3) by (auto simp: algebra_simps)
  qed
  have B: "fst ` set B = set L" "\<And>w. w \<in> set B \<Longrightarrow> snd w = ?v (fst w)" using set by (force simp: B_def)+
  have h: "length h1 = BSIZE" "hdr_n h1 = int ?n" "\<And>i. i < ?n \<Longrightarrow> blk_u32 h1 (Suc i) = ?f i"
    using hdr_read(1,2) [OF t(5) _ N(3), of ?f] hdr_read(3) [OF t(5) _ N(3)] by (simp_all add: h1_def)
  consider "k \<le> ?n" | j where "k = ?n + 1 + j" "j \<le> ?n" | "2 * ?n + 1 < k"
  proof -
    have "k \<le> ?n \<or> (k = ?n + 1 + (k - ?n - 1) \<and> k - ?n - 1 \<le> ?n) \<or> 2 * ?n + 1 < k" by arith
    then show thesis using that by blast
  qed
  then show ?thesis
  proof cases
    case 1
    then have "take k ws = take k A" using len by (simp add: ws)
    moreover have "apply_writes (take k A) (disk s) bn = disk s bn" if "bn \<notin> log_region ?st N \<or> bn = ?st" for bn
      using that A set_take_subset [of k A] by (intro apply_writes_other) auto
    ultimately show ?thesis using 1 t N by (intro stable_clean) simp_all
  next
    case (2 j)
    define d where "d = apply_writes (take j B) ((apply_writes A (disk s))(?st := h1))"
    have B': "fst ` set (take j B) \<subseteq> set L" using B(1) set_take_subset [of j B] by blast
    have reg: "d m = ((apply_writes A (disk s))(?st := h1)) m" if "m \<in> log_region ?st N" for m
      unfolding d_def by (rule apply_writes_other) (use that B' t(4) in auto)
    have st: "d ?st = h1" using reg [OF stR] by simp
    have "d (?st + of_nat i + 1) = ?v (?f i)" if "i < ?n" for i
      using reg [OF log_region_blk(2), of i] log_writes_in [OF t(2) N(2) A_def that, of "disk s"] that t(2,3)
        log_blk_inj [of "Suc i" 31 0 ?st] by (auto simp: algebra_simps)
    then have hw: "home_writes ?st (\<lambda>i. blk_u32 h1 (Suc i)) d ?n = B" using h(3) by (simp add: home_writes_def B_def)
    have "apply_writes B d m = ?v m" if m: "m \<notin> log_region ?st N" for m
    proof (cases "m \<in> set L")
      case True
      then show ?thesis using apply_writes_in [OF B(2)] B(1) by simp
    next
      case False
      have "apply_writes B d m = disk s m"
      proof -
        have "m \<notin> fst ` set (take j B)" "m \<notin> fst ` set A" "m \<noteq> ?st" using False m A B' stR by auto
        then show ?thesis using False B(1) by (simp add: apply_writes_other d_def)
      qed
      then show ?thesis using bval_disk [OF bc False] by simp
    qed
    moreover have "apply_writes (take k ws) (disk s) = d" using 2 len by (simp add: ws d_def)
    moreover have "(\<lambda>i. blk_u32 h1 (Suc i)) ` {..<?n} = set L" using h(3) set by auto
    ultimately show ?thesis using 2 t(2-4) h(1,2) hw by (simp add: stable_def replay_def st)
  next
    case 3
    have "apply_writes B ((apply_writes A (disk s))(?st := h1)) m = ?v m" if m: "m \<notin> log_region ?st N" for m
    proof (cases "m \<in> set L")
      case True
      then show ?thesis using apply_writes_in [OF B(2)] B(1) by simp
    next
      case False
      then have "apply_writes B ((apply_writes A (disk s))(?st := h1)) m = disk s m"
      proof -
        have "m \<notin> fst ` set A" "m \<noteq> ?st" using m A stR by auto
        then show ?thesis using False B(1) by (simp add: apply_writes_other)
      qed
      then show ?thesis using bval_disk [OF bc False] by simp
    qed
    moreover have "take k ws = ws" using 3 len by (simp add: ws)
    ultimately show ?thesis using 3 t(3) N(1) stR hdr_read(1,2) [OF h(1), of 0 ?f]
      by (intro stable_clean) (auto simp: ws LOGSIZE_def MAXOPBLOCKS_def)
  qed
qed

section \<open>Properties\<close>

text \<open>The disk after any number of boots that each crash at some point of recovery.\<close>

inductive crashes :: "u32 \<Rightarrow> u32 \<Rightarrow> u32 \<Rightarrow> dsk \<Rightarrow> dsk \<Rightarrow> bool" for D st nlog where
  crash_none: "crashes D st nlog d d"
| crash_boot: "crashes D st nlog d e \<Longrightarrow> fresh (r :: klog) \<Longrightarrow> disk r = e \<Longrightarrow> curproc r \<noteq> None \<Longrightarrow>
    initlog D st nlog (binit r) = Ok () r' \<Longrightarrow> disk_log r' = disk_log r @ ws \<Longrightarrow>
    crashes D st nlog d (apply_writes (take k ws) e)"

lemma stable_crashes:
  assumes "crashes D st nlog d e" "stable st N d v" "D \<noteq> 0"
  shows "stable st N e v"
  using assms
proof (induction rule: crashes.induct)
  case (crash_boot d e r r' ws k)
  then have st: "stable st N (disk r) v" by simp
  obtain r1 where "initlog D st nlog (binit r) = Ok () r1" "disk_log r1 = disk_log r @ boot_writes st (disk r)"
    by (rule stable_boot [OF st crash_boot.hyps(2,4) crash_boot.prems(2), of nlog])
  then have "ws = boot_writes st (disk r)" using crash_boot.hyps(5,6) by simp
  then show ?case using stable_crash [OF st, of k] crash_boot.hyps(3) by simp
qed

text \<open>
  C6: A commit is atomic in the face of crashes. \<open>L\<close> are the logged blocks. The commit makes \<open>2 |L| + 2\<close> block
  writes and returns with the logged values on the disk and an empty log. If the machine stops after
  any \<open>k\<close> of these writes, and then stops again during any number of recoveries at any point, the next
  boot that completes finds outside the log region exactly the old contents of the disk when \<open>k\<close> is at
  most \<open>|L|\<close>, that is, before the log header was written, and otherwise exactly the values that the transaction gave the
  blocks; and the log is empty again.
\<close>

theorem commit_crash_atomic:
  assumes "log_ok D N s L" "L \<noteq> []" "R = log_region (log_start s) N"
  shows "\<exists>s' ws. commit s = Ok () s' \<and> log_ok D N s' [] \<and> disk_log s' = disk_log s @ ws \<and> length ws = 2 * length L + 2 \<and>
    (\<forall>bn. bn \<notin> R \<longrightarrow> disk s' bn = bval s bn) \<and>
    (\<forall>k nlog r. crashes D (log_start s) nlog (apply_writes (take k ws) (disk s)) (disk r) \<longrightarrow>
       fresh (r :: klog) \<longrightarrow> curproc r \<noteq> None \<longrightarrow>
       (\<exists>r'. initlog D (log_start s) nlog (binit r) = Ok () r' \<and> hdr_n (disk r' (log_start s)) = 0 \<and>
         (\<forall>bn. bn \<notin> R \<longrightarrow> disk r' bn = (if k \<le> length L then disk s bn else bval s bn))))"
proof -
  let ?st = "log_start s"
  define ws where "ws = commit_writes ?st (length L) (lh_block s) (bval s) (disk s ?st)"
  obtain s' where c: "commit s = Ok () s'" "log_ok D N s' []" "wrote (s\<lparr>lh_n := 0\<rparr>) ws s'"
    by (rule commit_spec [OF assms(1,2) ws_def])
  obtain xs where bc: "bc D {} L s xs" using assms(1) unfolding log_ok_def by blast
  note D = bcD(1) [OF bc]
  have len: "length ws = 2 * length L + 2" by (simp add: ws_def commit_writes_def log_writes_def Let_def)
  have d': "disk s' = apply_writes ws (disk s)" "disk_log s' = disk_log s @ ws" using c(3) by (simp_all add: wrote_def)
  have hd: "hdr_n (disk s' ?st) = 0"
    using c(2,3) log_fields(2) [of "s\<lparr>lh_n := 0\<rparr>" s'] by (simp add: log_ok_def txn_def wrote_def)
  have fin: "disk s' bn = bval s bn" if "bn \<notin> R" for bn
    using commit_stable [OF assms(1) ws_def, of "length ws"] that d'(1) hd
    by (simp add: stable_def replay_def home_writes_def assms(3) len)
  have "\<exists>r'. initlog D ?st nlog (binit r) = Ok () r' \<and> hdr_n (disk r' ?st) = 0 \<and>
         (\<forall>bn. bn \<notin> R \<longrightarrow> disk r' bn = (if k \<le> length L then disk s bn else bval s bn))"
    if r: "crashes D ?st nlog (apply_writes (take k ws) (disk s)) (disk r)" "fresh r" "curproc r \<noteq> None" for k nlog and r :: klog
  proof -
    let ?v = "if k \<le> length L then disk s else bval s"
    have st: "stable ?st N (disk r) ?v" by (rule stable_crashes [OF r(1) commit_stable [OF assms(1) ws_def] D])
    obtain r' where b: "initlog D ?st nlog (binit r) = Ok () r'" "disk r' = apply_writes (boot_writes ?st (disk r)) (disk r)"
      by (rule stable_boot [OF st r(2,3) D])
    then show ?thesis using stable_done [OF st] assms(3) by auto
  qed
  then show ?thesis using c d'(2) len fin by blast
qed

text \<open>A transaction that has changed block 50.\<close>

definition zero_mem :: kmem where
  "zero_mem = \<lparr>mem = (\<lambda>_. 0), refcnt = (\<lambda>_. 0), freelist = 0, end_addr = 0\<rparr>"

definition in_txn :: ktrap where
  "in_txn = (binit (boot_kernel zero_mem 0))\<lparr>log_outstanding := 1\<rparr>"

lemma in_txn: "bc 1 {} [] in_txn (rev [0..<NBUF])" "txn 1 30 in_txn []" "bval in_txn = (\<lambda>_. replicate BSIZE 0)"
  "log_start in_txn = 2" "log_outstanding in_txn = 1"
proof -
  let ?b = "boot_kernel zero_mem 0"
  have b: "fresh ?b" "curproc ?b \<noteq> None" by (simp_all add: fresh_def boot_kernel_def zero_buf_def)
  have f: "disk ?b = (\<lambda>_. replicate BSIZE 0)" by (simp add: boot_kernel_def)
  note i = binit_bc [OF b, of 1] binit_disk [of ?b] log_fields [OF binit_frame, of ?b]
  show "bc 1 {} [] in_txn (rev [0..<NBUF])" "bval in_txn = (\<lambda>_. replicate BSIZE 0)"
    using i(1,2) bc_cong [of in_txn "binit ?b"] f by (simp_all add: in_txn_def cur_pid_def)
  show l: "log_start in_txn = 2" "log_outstanding in_txn = 1" using i(6) by (simp_all add: in_txn_def boot_kernel_def)
  have "hdr_n (replicate BSIZE 0) = 0" by (simp add: hdr_n_def blk_u32_def blk_get_def le_word_def BSIZE_def numeral_eq_Suc)
  then show "txn 1 30 in_txn []"
    using i(3-9) f by (simp add: txn_def l) (simp add: in_txn_def boot_kernel_def)
qed

lemma one_block_txn:
  obtains s :: ktrap where "log_ok 1 30 s [50]" "disk s 50 = replicate BSIZE 0" "bval s 50 = replicate BSIZE 7" "log_start s = 2"
proof -
  have reg: "50 \<notin> log_region (log_start in_txn) 30"
    by (simp add: in_txn(4) log_region_iff)
  obtain b s1 where u: "disk s1 = disk in_txn"
    "\<forall>v. \<exists>s2 s3 ys. log_write b (set_data b v s1) = Ok () s2 \<and> brelse b s2 = Ok () s3 \<and> bc 1 {} (logged 50 []) s3 ys \<and>
       txn 1 30 s3 (logged 50 []) \<and> bval s3 = (bval in_txn)(50 := v) \<and> disk s3 = disk in_txn \<and> log_frame in_txn s2 \<and> log_frame in_txn s3"
    by (rule update_block [OF in_txn(1,2) reg]) (simp_all add: in_txn(5))
  obtain s3 ys where s3: "bc 1 {} (logged 50 []) s3 ys" "txn 1 30 s3 (logged 50 [])" "bval s3 = (bval in_txn)(50 := replicate BSIZE 7)"
    "disk s3 = disk in_txn" "log_frame in_txn s3"
    using spec [OF u(2), of "replicate BSIZE 7"] by blast
  moreover have "disk in_txn 50 = replicate BSIZE 0" using bval_disk [OF in_txn(1), of 50] in_txn(3) by simp
  ultimately show ?thesis using that [of s3] log_frameD(2) [OF s3(5)] in_txn(4) by (auto simp: log_ok_def logged_def)
qed

theorem commit_crash_atomic_witness:
  "\<exists>(s :: ktrap) s' ws (r :: klog) r'. log_ok 1 30 s [50] \<and> commit s = Ok () s' \<and> disk_log s' = disk_log s @ ws \<and>
     disk r = apply_writes (take 2 ws) (disk s) \<and> initlog 1 2 30 (binit r) = Ok () r' \<and>
     disk s 50 = replicate BSIZE 0 \<and> disk r' 50 = replicate BSIZE 7"
proof -
  obtain s :: ktrap where s: "log_ok 1 30 s [50]" "disk s 50 = replicate BSIZE 0" "bval s 50 = replicate BSIZE 7" "log_start s = 2"
    by (rule one_block_txn)
  from commit_crash_atomic [OF s(1) _ refl] obtain s' ws where w: "commit s = Ok () s'" "disk_log s' = disk_log s @ ws"
    "\<And>k nlog r. crashes 1 2 nlog (apply_writes (take k ws) (disk s)) (disk r) \<Longrightarrow> fresh (r :: klog) \<Longrightarrow> curproc r \<noteq> None \<Longrightarrow>
       (\<exists>r'. initlog 1 2 nlog (binit r) = Ok () r' \<and>
         (\<forall>bn. bn \<notin> log_region 2 30 \<longrightarrow> disk r' bn = (if k \<le> length [50 :: u32] then disk s bn else bval s bn)))"
    unfolding s(4) by blast
  let ?r = "(klog.truncate (boot_kernel zero_mem 0))\<lparr>disk := apply_writes (take 2 ws) (disk s)\<rparr>"
  have r: "fresh ?r" "curproc ?r \<noteq> None" "disk ?r = apply_writes (take 2 ws) (disk s)"
    by (simp_all add: fresh_def klog.truncate_def boot_kernel_def zero_buf_def)
  have reg: "50 \<notin> log_region 2 30" by (simp add: log_region_iff)
  obtain r' where "initlog 1 2 30 (binit ?r) = Ok () r'" "disk r' 50 = bval s 50"
    using w(3) [OF _ r(1,2), of 30 2] crash_none [of 1 2 30] r(3) reg by auto
  then show ?thesis using s w(1,2) r(3) by (intro exI [of _ s] exI [of _ s'] exI [of _ ws] exI [of _ ?r] exI [of _ r']) simp
qed


end
