(* ===== verification/Log_Reserve.thy ===== *)
theory Log_Reserve
  imports Log_Steps Boot_State
begin

text \<open>
  The reservation of log space. \<^verbatim>\<open>begin_op\<close> admits a system call when \<^verbatim>\<open>MAXOPBLOCKS\<close> more blocks fit beside what has been
  logged and reserved; \<open>rem\<close> are the blocks that each admitted call may still log. Calls begin, log blocks
  within their reservation and end in any order, while other code runs in between.
\<close>

inductive treach :: "'a klog_scheme \<Rightarrow> int list \<Rightarrow> bool" where
  tr_start: "lh_n s = 0 \<Longrightarrow> log_outstanding s = 0 \<Longrightarrow> \<not> log_committing s \<Longrightarrow> log_size s = 30 \<Longrightarrow> treach s []"
| tr_begin: "treach s rem \<Longrightarrow> begin_op s = Ok () s' \<Longrightarrow> treach s' (MAXOPBLOCKS # rem)"
| tr_write: "treach s rem \<Longrightarrow> i < length rem \<Longrightarrow> 0 < rem ! i \<Longrightarrow> log_write b s = Ok () s' \<Longrightarrow>
    treach s' (rem[i := rem ! i - 1])"
| tr_end: "treach s rem \<Longrightarrow> i < length rem \<Longrightarrow> end_op s = Ok () s' \<Longrightarrow> treach s' (take i rem @ drop (Suc i) rem)"
| tr_other: "treach s rem \<Longrightarrow> lh_n s' = lh_n s \<Longrightarrow> lh_block s' = lh_block s \<Longrightarrow> log_outstanding s' = log_outstanding s \<Longrightarrow>
    log_committing s' = log_committing s \<Longrightarrow> log_size s' = log_size s \<Longrightarrow> treach s' rem"

section \<open>The cache leaves the log alone\<close>

lemma bget_cached_state: "bget_cached k b dev n s = Ok r t \<Longrightarrow> t = s"
  by (induction k arbitrary: b) (auto split: if_splits)

lemma bget_lru_state: "bget_lru k b s = Ok r t \<Longrightarrow> t = s"
  by (induction k arbitrary: b) (auto split: if_splits)

lemma acquiresleep_frame: "acquiresleep (buf_lock b) s = Ok u t \<Longrightarrow> bio_frame s t"
  by (auto simp: acquiresleep_def buf_lock_def sleep_def myproc_def res_simps split: if_splits option.splits)

lemma bget_frame:
  assumes "bget dev n s = Ok b t"
  shows "bio_frame s t"
proof -
  obtain r s1 where r: "bget_cached (Suc NBUF) (b_next (bufs s BHEAD)) dev n s = Ok r s1"
    using assms by (auto simp: bget_def res_simps)
  then have s1: "s1 = s" by (rule bget_cached_state)
  show ?thesis
  proof (cases r)
    case (Some c)
    then have "acquiresleep (buf_lock c) (upd_buf c (\<lambda>x. x\<lparr>b_refcnt := b_refcnt x + 1\<rparr>) s) = Ok () t"
      using assms r s1 by (auto simp: bget_def res_simps)
    from acquiresleep_frame [OF this] show ?thesis using bio_frame_trans [OF bio_frame_upd] by blast
  next
    case None
    then obtain q s2 where q: "bget_lru (Suc NBUF) (b_prev (bufs s BHEAD)) s = Ok q s2"
      using assms r s1 by (auto simp: bget_def res_simps simp del: bget_cached.simps bget_lru.simps)
    then have s2: "s2 = s" by (rule bget_lru_state)
    then obtain c where "acquiresleep (buf_lock c)
       (upd_buf c (\<lambda>x. x\<lparr>b_dev := dev, b_blockno := n, b_valid := False, b_refcnt := 1\<rparr>) s) = Ok () t"
      using assms r s1 q None
      by (auto simp: bget_def res_simps simp del: bget_cached.simps bget_lru.simps split: option.splits)
    from acquiresleep_frame [OF this] show ?thesis using bio_frame_trans [OF bio_frame_upd] by blast
  qed
qed

lemma bread_frame: "bread dev n s = Ok b t \<Longrightarrow> bio_frame s t"
proof -
  assume "bread dev n s = Ok b t"
  then obtain c s1 where "bget dev n s = Ok c s1" "t = s1 \<or> t = upd_buf c (\<lambda>x. x\<lparr>b_valid := True\<rparr>) (disk_rw c False s1)"
    by (auto simp: bread_def res_simps split: if_splits)
  then show ?thesis using bget_frame bio_frame_trans [OF bget_frame bio_frame_upd] by (auto simp: disk_read)
qed

lemma bwrite_frame: "bwrite b s = Ok u t \<Longrightarrow> bio_frame s t"
proof -
  assume "bwrite b s = Ok u t"
  then have "t = disk_rw b True s"
    by (auto simp: bwrite_def holdingsleep_def myproc_def res_simps split: if_splits option.splits)
  then show ?thesis unfolding bio_frame_def
    by (intro exI [of _ "procs s"] exI [of _ "bufs s"] exI [of _ "disk t"] exI [of _ "disk_log t"]) (simp add: disk_rw_def Let_def)
qed

lemma brelse_frame: "brelse b s = Ok u t \<Longrightarrow> bio_frame s t"
proof -
  assume r: "brelse b s = Ok u t"
  let ?s1 = "upd_buf b (\<lambda>x. x\<lparr>b_refcnt := b_refcnt x - 1\<rparr>) (releasesleep (buf_lock b) s)"
  have "t = ?s1 \<or> t = to_front b ?s1" using r
    by (auto simp: brelse_def holdingsleep_def myproc_def to_front_def Let_def res_simps simp del: upd_buf_simps
        split: if_splits option.splits)
  moreover have "bio_frame s ?s1"
    unfolding releasesleep_def by (rule bio_frame_trans [OF bio_frame_trans [OF _ bio_frame_wakeup] bio_frame_upd]) (simp add: buf_lock_def)
  ultimately show ?thesis using bio_frame_trans [OF _ bio_frame_to_front] by blast
qed

lemma set_data_frame [simp]: "bio_frame s (set_data b d s)" "bio_frame s (bunpin b s)"
  by (simp_all add: set_data_def bunpin_def)

lemma write_head_frame: "write_head s = Ok u t \<Longrightarrow> bio_frame s t"
proof -
  assume "write_head s = Ok u t"
  then obtain b s1 d s2 where r: "bread (log_dev s) (log_start s) s = Ok b s1" "bwrite b (set_data b d s1) = Ok () s2" "brelse b s2 = Ok u t"
    by (auto simp: write_head_def Let_def res_simps)
  show ?thesis
    by (rule bio_frame_trans [OF bread_frame [OF r(1)] bio_frame_trans [OF set_data_frame(1)
          bio_frame_trans [OF bwrite_frame [OF r(2)] brelse_frame [OF r(3)]]]])
qed

lemma write_log_frame: "write_log s = Ok u t \<Longrightarrow> bio_frame s t"
proof -
  assume w: "write_log s = Ok u t"
  have step: "bio_frame a c" if st: "write_log_step i a = Ok () c" for i and a c :: "'a klog_scheme"
  proof -
    obtain x s1 y s2 s3 s4 where r: "bread (log_dev a) (log_start a + of_nat i + 1) a = Ok x s1" "bread (log_dev s1) (lh_block s1 i) s1 = Ok y s2"
      "bwrite x (set_data x (b_data (bufs s2 y)) s2) = Ok () s3" "brelse y s3 = Ok () s4" "brelse x s4 = Ok () c"
      using st by (auto simp: write_log_step_def Let_def res_simps)
    show ?thesis
      by (rule bio_frame_trans [OF bread_frame [OF r(1)] bio_frame_trans [OF bread_frame [OF r(2)] bio_frame_trans [OF set_data_frame(1)
            bio_frame_trans [OF bwrite_frame [OF r(3)] bio_frame_trans [OF brelse_frame [OF r(4)] brelse_frame [OF r(5)]]]]]])
  qed
  show ?thesis
    by (rule for_each_invariant [where P = "bio_frame s", OF w [unfolded write_log_def]])
      (simp, rule bio_frame_trans, assumption, erule step)
qed

lemma install_trans_frame: "install_trans rec s = Ok u t \<Longrightarrow> bio_frame s t"
proof -
  assume w: "install_trans rec s = Ok u t"
  have step: "bio_frame a c" if st: "install_step rec i a = Ok () c" for i and a c :: "'a klog_scheme"
  proof -
    obtain x s1 y s2 s3 s4 where r: "bread (log_dev a) (log_start a + of_nat i + 1) a = Ok x s1" "bread (log_dev s1) (lh_block s1 i) s1 = Ok y s2"
      "bwrite y (set_data y (b_data (bufs s2 x)) s2) = Ok () s3" "brelse x (if \<not> rec then bunpin y s3 else s3) = Ok () s4"
      "brelse y s4 = Ok () c"
      using st by (auto simp: install_step_def Let_def res_simps)
    have u: "bio_frame s3 (if \<not> rec then bunpin y s3 else s3)" by simp
    show ?thesis
      by (rule bio_frame_trans [OF bread_frame [OF r(1)] bio_frame_trans [OF bread_frame [OF r(2)] bio_frame_trans [OF set_data_frame(1)
            bio_frame_trans [OF bwrite_frame [OF r(3)] bio_frame_trans [OF u bio_frame_trans [OF brelse_frame [OF r(4)] brelse_frame [OF r(5)]]]]]]])
  qed
  show ?thesis
    by (rule for_each_invariant [where P = "bio_frame s", OF w [unfolded install_trans_def]])
      (simp, rule bio_frame_trans, assumption, erule step)
qed

lemma commit_fields:
  assumes "commit s = Ok u t" "0 \<le> lh_n s"
  shows "lh_n t = 0" "log_outstanding t = log_outstanding s" "log_size t = log_size s"
proof -
  have "lh_n t = 0 \<and> log_outstanding t = log_outstanding s \<and> log_size t = log_size s"
  proof (cases "lh_n s > 0")
    case True
    then obtain s1 s2 s3 where r: "write_log s = Ok () s1" "write_head s1 = Ok () s2" "install_trans False s2 = Ok () s3"
      "write_head (s3\<lparr>lh_n := 0\<rparr>) = Ok u t"
      using assms(1) by (auto simp: commit_def res_simps)
    show ?thesis
      using log_fields [OF write_log_frame [OF r(1)]] log_fields [OF write_head_frame [OF r(2)]]
        log_fields [OF install_trans_frame [OF r(3)]] log_fields [OF write_head_frame [OF r(4)]] by simp
  qed (use assms in \<open>simp add: commit_def\<close>)
  then show "lh_n t = 0" "log_outstanding t = log_outstanding s" "log_size t = log_size s" by simp_all
qed

section \<open>The invariant of reservations\<close>

definition reserved :: "'a klog_scheme \<Rightarrow> int list \<Rightarrow> bool" where
  "reserved s rem \<longleftrightarrow> 0 \<le> lh_n s \<and> lh_n s + sum_list rem \<le> LOGSIZE \<and> int (length rem) = log_outstanding s \<and>
     (\<forall>x \<in> set rem. 0 \<le> x \<and> x \<le> MAXOPBLOCKS) \<and> \<not> log_committing s \<and> log_size s = 30"

lemma log_write_fields:
  assumes "log_write b s = Ok u t"
  shows "lh_n t = lh_n s \<or> lh_n t = lh_n s + 1" "log_outstanding t = log_outstanding s" "log_committing t = log_committing s"
    "log_size t = log_size s"
  using assms by (auto simp: log_write_def Let_def bpin_def upd_buf_def split: if_splits option.splits)

lemma sum_list_le: "(\<forall>x \<in> set xs. x \<le> (k :: int)) \<Longrightarrow> sum_list xs \<le> int (length xs) * k"
  by (induction xs) (auto simp: algebra_simps)

lemma sum_list_split:
  assumes "i < length (xs :: int list)"
  shows "sum_list xs = sum_list (take i xs) + xs ! i + sum_list (drop (Suc i) xs)"
  by (subst id_take_nth_drop [OF assms]) simp

lemma sum_list_nonneg_elem:
  assumes "i < length (xs :: int list)" "\<forall>x \<in> set xs. 0 \<le> x"
  shows "xs ! i \<le> sum_list xs"
proof -
  have "0 \<le> sum_list (take i xs)" "0 \<le> sum_list (drop (Suc i) xs)"
    using assms(2) by (auto intro!: sum_list_nonneg dest: in_set_takeD in_set_dropD)
  then show ?thesis using sum_list_split [OF assms(1)] by simp
qed

lemma end_op_fields:
  assumes "end_op s = Ok u t" "0 \<le> lh_n s" "\<not> log_committing s"
  shows "log_outstanding t = log_outstanding s - 1" "\<not> log_committing t" "log_size t = log_size s"
    "lh_n t = (if log_outstanding s = 1 then 0 else lh_n s)"
proof -
  have "log_outstanding t = log_outstanding s - 1 \<and> \<not> log_committing t \<and> log_size t = log_size s \<and>
    lh_n t = (if log_outstanding s = 1 then 0 else lh_n s)"
  proof (cases "log_outstanding s = 1")
    case True
    then obtain s1 where c: "commit (s\<lparr>log_outstanding := 0, log_committing := True\<rparr>) = Ok () s1"
      "t = wakeup Chan_log (s1\<lparr>log_committing := False\<rparr>)"
      using assms(1,3) by (auto simp: end_op_def Let_def res_simps)
    show ?thesis using commit_fields [OF c(1)] assms(2) True by (simp add: c(2) wakeup_eq)
  next
    case False
    then show ?thesis using assms(1,3) by (auto simp: end_op_def Let_def wakeup_eq)
  qed
  then show "log_outstanding t = log_outstanding s - 1" "\<not> log_committing t" "log_size t = log_size s"
    "lh_n t = (if log_outstanding s = 1 then 0 else lh_n s)" by simp_all
qed

lemma treach_reserved: "treach s rem \<Longrightarrow> reserved s rem"
proof (induction rule: treach.induct)
  case (tr_begin s rem s')
  then have b: "\<not> log_committing s" "lh_n s + (log_outstanding s + 1) * MAXOPBLOCKS \<le> LOGSIZE"
    "s' = s\<lparr>log_outstanding := log_outstanding s + 1\<rparr>"
    by (auto simp: begin_op_def sleep_def myproc_def split: if_splits option.splits)
  have "sum_list rem \<le> int (length rem) * MAXOPBLOCKS" using tr_begin(3) by (intro sum_list_le) (auto simp: reserved_def)
  then show ?case using tr_begin(3) b by (auto simp: reserved_def MAXOPBLOCKS_def)
next
  case (tr_write s rem i b s')
  have "sum_list (rem[i := rem ! i - 1]) = sum_list rem - 1" 
    using tr_write.hyps(2) sum_list_split [of i "rem[i := rem ! i - 1]"] sum_list_split [of i rem] by simp
  moreover have "\<forall>x \<in> set (rem[i := rem ! i - 1]). 0 \<le> x \<and> x \<le> MAXOPBLOCKS"
  proof
    fix x assume "x \<in> set (rem[i := rem ! i - 1])"
    then have "x = rem ! i - 1 \<or> x \<in> set rem" using set_update_subset_insert by fastforce
    moreover have "rem ! i \<in> set rem" using tr_write.hyps(2) by simp
    ultimately show "0 \<le> x \<and> x \<le> MAXOPBLOCKS" using tr_write.IH tr_write.hyps(3) by (auto simp: reserved_def)
  qed
  ultimately show ?case using tr_write.IH log_write_fields [OF tr_write.hyps(4)] by (auto simp: reserved_def)
next
  case (tr_end s rem i s')
  have "sum_list (take i rem @ drop (Suc i) rem) \<le> sum_list rem"
    using sum_list_split [OF tr_end.hyps(2)] tr_end.IH tr_end.hyps(2) by (simp add: reserved_def)
  moreover have "length rem = 1 \<Longrightarrow> take i rem @ drop (Suc i) rem = []" using tr_end.hyps(2) by simp
  moreover have "set (take i rem @ drop (Suc i) rem) \<subseteq> set rem" using set_take_subset [of i rem] set_drop_subset [of "Suc i" rem] by auto
  ultimately show ?case using tr_end.IH end_op_fields [OF tr_end.hyps(3)] tr_end.hyps(2) by (auto simp: reserved_def LOGSIZE_def MAXOPBLOCKS_def)
qed (auto simp: reserved_def LOGSIZE_def MAXOPBLOCKS_def)

text \<open>
  C18: The reservations keep the log within bounds up to the last block. However system calls begin, log
  blocks within their reservation of ten and end on a log of 30 blocks, a call that still may log a
  block finds at most 29 logged blocks, and \<^verbatim>\<open>log_write\<close> accepts the block, unless exactly 29 blocks have
  been logged, when it panics.
\<close>

theorem log_reservation:
  assumes "treach s rem" "i < length rem" "0 < rem ! i"
  shows "lh_n s \<le> 29 \<and> (lh_n s < 29 \<longrightarrow> (\<exists>s'. log_write b s = Ok () s')) \<and>
    (log_write b s = Panic ''too big a transaction'' \<longleftrightarrow> lh_n s = 29)"
proof -
  have r: "reserved s rem" by (rule treach_reserved [OF assms(1)])
  have "rem ! i \<le> sum_list rem" using r assms(2) by (intro sum_list_nonneg_elem) (auto simp: reserved_def)
  then have n: "lh_n s \<le> 29" using r assms(3) by (simp add: reserved_def LOGSIZE_def MAXOPBLOCKS_def)
  have "1 \<le> log_outstanding s" using r assms(2) by (auto simp: reserved_def)
  then show ?thesis using n r
    by (auto simp: log_write_def Let_def reserved_def LOGSIZE_def MAXOPBLOCKS_def split: option.split)
qed


text \<open>A kernel without transactions, and one with three of them that have logged the blocks below \<open>k\<close>.\<close>

definition no_txn :: klog where
  "no_txn = klog.truncate (boot_kernel \<lparr>mem = (\<lambda>_. 0), refcnt = (\<lambda>_. 0), freelist = 0, end_addr = 0\<rparr> 0)"

lemma no_txn: "treach no_txn []" "treach (no_txn\<lparr>log_outstanding := 1\<rparr>) [10]"
  "treach (no_txn\<lparr>log_outstanding := 3\<rparr>) [10, 10, 10]" "lh_n no_txn = 0" "log_size no_txn = 30"
proof -
  have f: "lh_n no_txn = 0" "log_outstanding no_txn = 0" "\<not> log_committing no_txn" "log_size no_txn = 30"
    by (simp_all add: no_txn_def klog.truncate_def boot_kernel_def)
  then show "lh_n no_txn = 0" "log_size no_txn = 30" by simp_all
  show 0: "treach no_txn []" by (rule tr_start) (use f in simp_all)
  note b = tr_begin [unfolded MAXOPBLOCKS_def]
  show 1: "treach (no_txn\<lparr>log_outstanding := 1\<rparr>) [10]"
    by (rule b [OF 0]) (simp add: begin_op_def f LOGSIZE_def MAXOPBLOCKS_def)
  have 2: "treach (no_txn\<lparr>log_outstanding := 2\<rparr>) [10, 10]"
    by (rule b [OF 1]) (simp add: begin_op_def f LOGSIZE_def MAXOPBLOCKS_def)
  show "treach (no_txn\<lparr>log_outstanding := 3\<rparr>) [10, 10, 10]"
    by (rule b [OF 2]) (simp add: begin_op_def f LOGSIZE_def MAXOPBLOCKS_def)
qed

theorem log_reservation_witness:
  "\<exists>s'. log_write 0 (no_txn\<lparr>log_outstanding := 1\<rparr>) = Ok () s'"
  using log_reservation [OF no_txn(2), of 0 0] no_txn(4) by simp

text \<open>What is left of three reservations when they are used up one after the other.\<close>

definition left :: "nat \<Rightarrow> int list" where
  "left k = (if k < 10 then [10 - int k, 10, 10] else if k < 20 then [0, 20 - int k, 10] else [0, 0, 30 - int k])"

lemma fill_log:
  "k \<le> 29 \<Longrightarrow> \<exists>s :: klog. treach s (left k) \<and>
     lh_n s = int k \<and> (\<forall>i < k. lh_block s i = of_nat i) \<and> log_outstanding s = 3 \<and> log_size s = 30"
proof (induction k)
  case 0
  then show ?case using no_txn(3-5) by (intro exI [of _ "no_txn\<lparr>log_outstanding := 3\<rparr>"]) (simp add: left_def)
next
  case (Suc k)
  then obtain s :: klog where s: "treach s (left k)" "lh_n s = int k"
    "\<forall>i < k. lh_block s i = of_nat i" "log_outstanding s = 3" "log_size s = 30" by auto
  let ?t = "upd_buf 0 (\<lambda>x. x\<lparr>b_blockno := of_nat k\<rparr>) s"
  have t: "lh_n ?t = int k" "lh_block ?t = lh_block s" "log_outstanding ?t = 3" "log_size ?t = 30"
    "b_blockno (bufs ?t 0) = of_nat k"
    using s by (simp_all add: upd_buf_def)
  have rt: "treach ?t (left k)"
    by (rule tr_other [OF s(1)]) (simp_all add: upd_buf_def)
  have "List.find (\<lambda>i. lh_block ?t i = of_nat k) [0..<k] = None"
    using s(3) Suc.prems by (auto simp: find_None_iff t(2) word_of_nat_eq_iff take_bit_nat_eq_self)
  then obtain s' where w: "log_write 0 ?t = Ok () s'" "lh_n s' = int (Suc k)" "lh_block s' = (lh_block s)(k := of_nat k)"
    "log_outstanding s' = 3" "log_size s' = 30"
    using t Suc.prems by (auto simp: log_write_def Let_def LOGSIZE_def MAXOPBLOCKS_def bpin_def upd_buf_def)
  let ?i = "if k < 10 then 0 else if k < 20 then 1 else 2 :: nat"
  have "left (Suc k) = (left k)[?i := left k ! ?i - 1]" "?i < length (left k)" "0 < left k ! ?i"
    using Suc.prems by (auto simp: left_def)
  then have "treach s' (left (Suc k))" using tr_write [OF rt _ _ w(1), of ?i] by simp
  then show ?case using w s(3) by (intro exI [of _ s']) (auto simp: less_Suc_eq)
qed

text \<open>
  C19: The reservation admits more than the log holds. Three system calls can all be admitted to a log of 30
  blocks and each stay within its reservation of ten blocks, and still the last one panics in
  \<^verbatim>\<open>log_write\<close>: the header takes one of the 30 blocks, which \<^verbatim>\<open>begin_op\<close> does not count.
\<close>

theorem log_reservation_overflow:
  "\<exists>(s :: klog) rem. treach s rem \<and> length rem = 3 \<and> 0 < rem ! 2 \<and> log_write b s = Panic ''too big a transaction''"
proof -
  obtain s :: klog where s: "treach s [0, 0, 1]" "lh_n s = 29" "log_size s = 30" using fill_log [of 29] by (auto simp: left_def)
  then show ?thesis by (intro exI [of _ s] exI [of _ "[0, 0, 1]"]) (simp add: log_write_def)
qed

end
