(* ===== verification/String_Props.thy ===== *)
theory String_Props
  imports CString
begin

text \<open>
  What the routines of \<^verbatim>\<open>kernel/string.c\<close> promise their callers: copies between overlapping ranges, bounded copies that
  stay inside their buffer, and names in fixed-size directory entries.
\<close>

text \<open>
  C20: \<^verbatim>\<open>memmove\<close> copies as if through a snapshot of the source, also when source and destination overlap in
  either direction: afterwards each byte of the destination is the byte that the source held before
  the call, and no other byte has changed. The ranges may end at the top of the address space.
\<close>

theorem memmove_snapshot:
  assumes "unat src + unat n \<le> 2 ^ 64" "unat dst + unat n \<le> 2 ^ 64"
  shows "memmove m dst src n = put_bytes m dst (mem_bytes m src (unat n))"
proof -
  have "memmove m dst src n x = put_bytes m dst (mem_bytes m src (unat n)) x" for x
    unfolding memmove_eq [OF assms] put_bytes_def by (simp add: word_less_nat_alt)
  then show ?thesis by blast
qed

theorem memmove_snapshot_witness:
  "memmove (\<lambda>a. ucast a) 0x102 0x100 4 0x105 = 0x03 \<and> memmove (\<lambda>a. ucast a) 0x100 0x102 4 0x100 = 0x02"
proof -
  have "memmove (\<lambda>a. ucast a) 0x102 0x100 4 = put_bytes (\<lambda>a. ucast a) 0x102 (mem_bytes (\<lambda>a. ucast a) 0x100 (unat (4 :: u32)))"
    "memmove (\<lambda>a. ucast a) 0x100 0x102 4 = put_bytes (\<lambda>a. ucast a) 0x100 (mem_bytes (\<lambda>a. ucast a) 0x102 (unat (4 :: u32)))"
    by (rule memmove_snapshot; simp)+
  then show ?thesis by (simp add: put_bytes_def mem_bytes_def upt_rec)
qed

text \<open>
  C21: \<^verbatim>\<open>safestrcpy\<close> into a buffer of at least \<open>n > 0\<close> bytes stores the source string, cut off after \<open>n - 1\<close>
  bytes, always ends it with a NUL byte within the first \<open>n\<close> bytes, and never writes past them.
\<close>

theorem safestrcpy_bounded:
  assumes "0 < n" "nat n \<le> length s"
  shows "takeWhile (\<lambda>c. c \<noteq> 0) (safestrcpy s t n) = cname t (nat n - 1) \<and>
    (\<exists>i < nat n. safestrcpy s t n ! i = 0) \<and> drop (nat n) (safestrcpy s t n) = drop (nat n) s"
proof -
  let ?r = "safestrcpy s t n" and ?k = "nat n - 1"
  have name: "takeWhile (\<lambda>c. c \<noteq> 0) ?r = cname t ?k"
    using safestrcpy_loop_eq [of 0 ?k s t] assms by (simp add: safestrcpy_def cname_def)
  have "length (cname t ?k) \<le> ?k" using length_takeWhile_le [of _ "map t [0..<?k]"] by (simp add: cname_def)
  then have short: "length (takeWhile (\<lambda>c. c \<noteq> 0) ?r) < nat n" using assms(1) name by simp
  then have "length (takeWhile (\<lambda>c. c \<noteq> 0) ?r) < length ?r" using assms(2) by simp
  then have "?r ! length (takeWhile (\<lambda>c. c \<noteq> 0) ?r) = 0" using nth_length_takeWhile by fastforce
  moreover have "drop (nat n) (safestrcpy_loop u t i k) = drop (nat n) u" if "i + k < nat n" for u i k
    using that by (induction k arbitrary: u i) (auto simp: drop_update_cancel)
  then have "drop (nat n) ?r = drop (nat n) s" using assms(1) by (simp add: safestrcpy_def)
  ultimately show ?thesis using name short by blast
qed

theorem safestrcpy_bounded_witness:
  "takeWhile (\<lambda>c. c \<noteq> 0) (safestrcpy [9, 9, 9, 9, 9] (of_buf [104, 101, 108, 108, 111]) 4) = [104, 101, 108]"
  using safestrcpy_bounded [of 4 "[9, 9, 9, 9, 9]" "of_buf [104, 101, 108, 108, 111]"]
  by (simp add: cname_def of_buf_def upt_rec)

text \<open>
  C22: A name written with \<^verbatim>\<open>strncpy\<close> into a fixed-size field and compared with \<^verbatim>\<open>strncmp\<close>, as directory entries are,
  compares equal to exactly the strings that agree with it up to the first NUL byte or the size of the
  field; a name that fills the field has no NUL byte and still compares correctly.
\<close>

theorem strncpy_strncmp:
  assumes "0 \<le> n" "nat n \<le> length s" "n < 2 ^ 31"
  shows "strncmp (\<lambda>i. strncpy s t n ! i) q (word_of_int n) = 0 \<longleftrightarrow> cname t (nat n) = cname q (nat n)"
proof -
  let ?c = "cname t (nat n)"
  have r: "strncpy s t n = ?c @ replicate (nat n - length ?c) 0 @ drop (nat n) s" by (rule strncpy_eq [OF assms(1,2)])
  have len: "length ?c \<le> nat n" using length_takeWhile_le [of _ "map t [0..<nat n]"] by (simp add: cname_def)
  have "map (\<lambda>i. strncpy s t n ! i) [0..<nat n] = take (nat n) (strncpy s t n)"
  proof (rule nth_equalityI)
    have "nat n \<le> length (strncpy s t n)" using len r by simp
    then show "length (map (\<lambda>i. strncpy s t n ! i) [0..<nat n]) = length (take (nat n) (strncpy s t n))" by simp
  qed simp
  also have "\<dots> = ?c @ replicate (nat n - length ?c) 0" using len r by simp
  also have "takeWhile (\<lambda>c. c \<noteq> 0) \<dots> = ?c"
  proof -
    have "c \<noteq> 0" if "c \<in> set ?c" for c using that set_takeWhileD by (fastforce simp: cname_def)
    then show ?thesis by (simp add: takeWhile_append2 takeWhile_replicate)
  qed
  finally have "cname (\<lambda>i. strncpy s t n ! i) (nat n) = ?c" by (simp add: cname_def)
  moreover have "unat (word_of_int n :: u32) = nat n"
    using assms(1,3) by (simp add: unat_eq_nat_uint uint_word_of_int)
  ultimately show ?thesis using strncmp_loop_0_iff [of "\<lambda>i. strncpy s t n ! i" q 0 "nat n"] by (simp add: strncmp_def cname_def)
qed

theorem strncpy_strncmp_witness:
  "strncmp (\<lambda>i. strncpy (replicate 3 9) (of_buf [97, 98, 99, 100]) 3 ! i) (of_buf [97, 98, 99]) 3 = 0"
  using strncpy_strncmp [of 3 "replicate 3 9" "of_buf [97, 98, 99, 100]" "of_buf [97, 98, 99]"]
  by (simp add: cname_def of_buf_def upt_rec)

end
