(* ===== verification/Freewalk.thy ===== *)
theory Freewalk
  imports Vm_Props
begin

text \<open>
  Tearing an address space down. \<^verbatim>\<open>freewalk\<close> walks the whole tree of tables, gives every table page back to
  the allocator and insists that no page is mapped any more. \<open>tables_under\<close> is the set of tables below a
  position of the tree, \<open>hits\<close> says that an entry below it maps a page.
\<close>

section \<open>Positions of the tree\<close>

lemma for_each_panics:
  assumes "P 0 s" and "\<And>i t. i < n \<Longrightarrow> P i t \<Longrightarrow> f i t = Panic e \<and> Q \<or> (\<exists>t'. f i t = Ok () t' \<and> P (Suc i) t')"
  shows "for_each [0..<n] f s = Panic e \<and> Q \<or> (\<exists>s'. for_each [0..<n] f s = Ok () s' \<and> P n s')"
  using assms(2)
proof (induction n)
  case 0
  then show ?case using assms(1) by simp
next
  case (Suc n)
  then consider "for_each [0..<n] f s = Panic e" Q | t where "for_each [0..<n] f s = Ok () t" "P n t"
    by (meson less_Suc_eq)
  then show ?case
  proof cases
    case 2
    then show ?thesis using Suc.prems [of n t] by (auto simp: for_each_append)
  qed (simp add: for_each_append)
qed

definition ix :: "u64 \<Rightarrow> nat \<Rightarrow> nat \<Rightarrow> u64" where
  "ix va d j = (va AND NOT (push_bit (30 - 9 * d) (mask 9))) OR push_bit (30 - 9 * d) (word_of_nat j)"

definition tree_width :: "nat \<Rightarrow> nat" where
  "tree_width d = (if d = 0 then 256 else 512)"

lemma bit_small: "j < 512 \<Longrightarrow> bit (word_of_nat j :: u64) n \<Longrightarrow> n < 9"
  using less_exp_not_bit [of "word_of_nat j :: u64" 9 n] by (force simp: word_less_nat_alt unat_of_nat not_le)

lemma upto2: "d \<le> 2 \<Longrightarrow> d = 0 \<or> d = 1 \<or> d = 2" for d :: nat
  by arith

lemma bit_ix:
  assumes "d \<le> 2" "j < 512"
  shows "bit (ix va d j) n \<longleftrightarrow>
    (if 30 - 9 * d \<le> n \<and> n < 39 - 9 * d then bit (word_of_nat j :: u64) (n - (30 - 9 * d)) else bit va n)"
  using upto2 [OF assms(1)] bit_small [OF assms(2), of "n - (30 - 9 * d)"] bit_imp_le_length [of va n]
    bit_imp_le_length [of "word_of_nat j :: u64" "n - (30 - 9 * d)"]
  by (elim disjE) (auto simp: ix_def bit_or_iff bit_and_iff bit_not_iff bit_push_bit_iff bit_mask_iff)

lemma tkey_ix: "d \<le> 2 \<Longrightarrow> j < 512 \<Longrightarrow> tkey d (ix va d j) = tkey d va"
  by (simp add: tkey_eq_iff bit_ix)

lemma PX_ix:
  assumes "d \<le> 2" "j < 512"
  shows "PX (2 - d) (ix va d j) = word_of_nat j"
  using upto2 [OF assms(1)] bit_small [OF assms(2)] assms(2) by (elim disjE) (auto simp: u64_bits bit_PX bit_ix)

lemma tkey_ix_Suc:
  assumes "d \<le> 2" "tkey d va' = tkey d va"
  shows "tkey (Suc d) va' = tkey (Suc d) (ix va d (unat (PX (2 - d) va')))"
proof -
  have lt: "unat (PX (2 - d) va') < 512" using PX_le [of "2 - d" va'] by (simp add: word_le_nat_alt)
  have "bit va' n = bit (ix va d (unat (PX (2 - d) va'))) n" if "39 - 9 * Suc d \<le> n" for n
    using upto2 [OF assms(1)] that assms(2) unfolding tkey_eq_iff bit_ix [OF assms(1) lt]
    by (elim disjE) (auto simp: bit_PX)
  then show ?thesis by (simp add: tkey_eq_iff)
qed

lemma tkey_mono: "d \<le> d' \<Longrightarrow> tkey d' va = tkey d' va' \<Longrightarrow> tkey d va = tkey d va'"
  unfolding tkey_eq_iff by auto

lemma tkey_Suc_PX: "d \<le> 2 \<Longrightarrow> tkey (Suc d) va = tkey (Suc d) va' \<Longrightarrow> PX (2 - d) va = PX (2 - d) va'"
  unfolding tkey_eq_iff PX_eq_iff by auto

lemma MAXVA_bits: "va < MAXVA \<longleftrightarrow> (\<forall>n \<ge> 38. \<not> bit va n)" for va :: u64
proof
  assume "va < MAXVA"
  then show "\<forall>n \<ge> 38. \<not> bit va n" using less_exp_not_bit [of va 38] by (simp add: MAXVA_def)
next
  assume "\<forall>n \<ge> 38. \<not> bit va n"
  then have "take_bit 38 va = va" 
    unfolding u64_bits bit_take_bit_iff by (metis not_less)
  then have "unat va < 2 ^ 38" by (metis take_bit_nat_less_exp unsigned_take_bit_eq)
  then show "va < MAXVA" by (simp add: MAXVA_def word_less_nat_alt)
qed

lemma ix_MAXVA:
  assumes "d \<le> 2" "j < tree_width d" "va < MAXVA"
  shows "ix va d j < MAXVA"
proof -
  have j: "j < 512" using assms(2) by (auto simp: tree_width_def split: if_splits)
  have "\<not> bit (word_of_nat j :: u64) k" if "d = 0" "8 \<le> k" for k
    using less_exp_not_bit [of "word_of_nat j :: u64" 8 k] assms(2) that
    by (auto simp: word_less_nat_alt unat_of_nat tree_width_def)
  then show ?thesis using upto2 [OF assms(1)] assms(3) unfolding MAXVA_bits bit_ix [OF assms(1) j] by auto
qed

definition RWX :: u64 where
  "RWX = (PTE_R OR PTE_W) OR PTE_X"

text \<open>The tables at or below the position that \<open>va\<close> selects at depth \<open>d\<close>.\<close>

definition tables_under :: "memory \<Rightarrow> u64 \<Rightarrow> u64 \<Rightarrow> nat \<Rightarrow> u64 set" where
  "tables_under m r va d = {t. \<exists>va' < MAXVA. \<exists>d' \<le> 2. d \<le> d' \<and> tkey d va' = tkey d va \<and> tab m r va' d' = Some t}"

definition hits :: "memory \<Rightarrow> u64 \<Rightarrow> u64 \<Rightarrow> nat \<Rightarrow> bool" where
  "hits m r va d \<longleftrightarrow> (\<exists>va' < MAXVA. \<exists>d' \<le> 2. \<exists>t. d \<le> d' \<and> tkey d va' = tkey d va \<and> tab m r va' d' = Some t \<and>
     pte_valid (ld64 m (pte_slot t (PX (2 - d') va'))) \<and> ld64 m (pte_slot t (PX (2 - d') va')) AND RWX \<noteq> 0)"

lemma hitsI:
  assumes "va' < MAXVA" "d' \<le> 2" "d \<le> d'" "tkey d va' = tkey d va" "tab m r va' d' = Some t"
    and "pte_valid (ld64 m (pte_slot t (PX (2 - d') va')))" "ld64 m (pte_slot t (PX (2 - d') va')) AND RWX \<noteq> 0"
  shows "hits m r va d"
  using assms unfolding hits_def by blast

lemma tables_under_0: "va < MAXVA \<Longrightarrow> tables_under m r va 0 = tables m {r}"
  unfolding tables_under_def tables_def using tkey_0 by auto

lemma tables_under_self: "va < MAXVA \<Longrightarrow> d \<le> 2 \<Longrightarrow> tab m r va d = Some t \<Longrightarrow> t \<in> tables_under m r va d"
  by (auto simp: tables_under_def)

lemma child_index:
  assumes "va < MAXVA" "d \<le> 2"
  shows "unat (PX (2 - d) va) < tree_width d"
proof -
  have "unat (PX (2 - d) va) < 512" using PX_le [of "2 - d" va] by (simp add: word_le_nat_alt)
  moreover have "unat (PX 2 va) < 256"
  proof -
    have "\<forall>n \<ge> 38. \<not> bit va n" using assms(1) by (simp add: MAXVA_bits)
    then have "\<not> bit (PX 2 va) n" if "8 \<le> n" for n using that by (simp add: bit_PX)
    then have "take_bit 8 (PX 2 va) = PX 2 va" unfolding u64_bits bit_take_bit_iff by (metis not_less)
    then have "unat (PX 2 va) < 2 ^ 8" by (metis take_bit_nat_less_exp unsigned_take_bit_eq)
    then show ?thesis by simp
  qed
  ultimately show ?thesis by (auto simp: tree_width_def)
qed

lemma child_pos:
  assumes "d \<le> 2" "j < 512" "Suc d \<le> d'" "tkey (Suc d) va' = tkey (Suc d) (ix va d j)"
  shows "d \<le> d' \<and> tkey d va' = tkey d va"
  using assms(3) tkey_mono [of d "Suc d", OF _ assms(4)] tkey_ix [OF assms(1,2)] by simp

lemma tables_under_child:
  assumes "d \<le> 2" "j < 512"
  shows "tables_under m r (ix va d j) (Suc d) \<subseteq> tables_under m r va d"
  unfolding tables_under_def using child_pos [OF assms] by blast

lemma tables_under_split:
  assumes "va < MAXVA" "d \<le> 2" "tab m r va d = Some t"
  shows "tables_under m r va d = insert t (\<Union>j < tree_width d. tables_under m r (ix va d j) (Suc d))"
proof
  have "p = t \<or> (\<exists>j < tree_width d. p \<in> tables_under m r (ix va d j) (Suc d))" if p: "p \<in> tables_under m r va d" for p
  proof -
    obtain va' d' where v: "va' < MAXVA" "d' \<le> 2" "d \<le> d'" "tkey d va' = tkey d va" "tab m r va' d' = Some p"
      using p unfolding tables_under_def by blast
    show ?thesis
    proof (cases "d' = d")
      case True
      then show ?thesis using tab_key [OF assms(2) v(4), of m r] v(5) assms(3) by simp
    next
      case False
      have "p \<in> tables_under m r (ix va d (unat (PX (2 - d) va'))) (Suc d)"
        using tkey_ix_Suc [OF assms(2) v(4)] v False unfolding tables_under_def by (intro CollectI exI [of _ va'] exI [of _ d'] conjI) auto
      then show ?thesis using child_index [OF v(1) assms(2)] by blast
    qed
  qed
  then show "tables_under m r va d \<subseteq> insert t (\<Union>j < tree_width d. tables_under m r (ix va d j) (Suc d))" by blast
  have "j < tree_width d \<Longrightarrow> j < 512" for j by (simp add: tree_width_def split: if_splits)
  then show "insert t (\<Union>j < tree_width d. tables_under m r (ix va d j) (Suc d)) \<subseteq> tables_under m r va d"
    using tables_under_self [OF assms] tables_under_child [OF assms(2)] by blast
qed

lemma hits_child:
  assumes "d \<le> 2" "j < 512" "hits m r (ix va d j) (Suc d)"
  shows "hits m r va d"
  using assms(3) child_pos [OF assms(1,2)] unfolding hits_def by blast

lemma hits_split:
  assumes "d \<le> 2" "tab m r va d = Some t" "hits m r va d"
  shows "\<exists>j < tree_width d. hits m r (ix va d j) (Suc d) \<or>
    pte_valid (ld64 m (pte_slot t (word_of_nat j))) \<and> ld64 m (pte_slot t (word_of_nat j)) AND RWX \<noteq> 0"
proof -
  obtain va' d' p where v: "va' < MAXVA" "d' \<le> 2" "d \<le> d'" "tkey d va' = tkey d va" "tab m r va' d' = Some p"
    "pte_valid (ld64 m (pte_slot p (PX (2 - d') va')))" "ld64 m (pte_slot p (PX (2 - d') va')) AND RWX \<noteq> 0"
    using assms(3) unfolding hits_def by blast
  have "hits m r (ix va d (unat (PX (2 - d) va'))) (Suc d)" if "d' \<noteq> d"
    using hitsI [OF v(1,2) _ tkey_ix_Suc [OF assms(1) v(4)] v(5-7)] v(3) that by simp
  moreover have "p = t" if "d' = d" using that tab_key [OF assms(1) v(4), of m r] v(5) assms(2) by simp
  ultimately show ?thesis using child_index [OF v(1) assms(1)] v(6,7) by (cases "d' = d") auto
qed

lemma child_none:
  assumes "d \<le> 2" "tab m r va (Suc d) = None"
  shows "tables_under m r va (Suc d) = {}" "\<not> hits m r va (Suc d)"
proof -
  have "tab m r va' d' = None" if "Suc d \<le> d'" "d' \<le> 2" "tkey (Suc d) va' = tkey (Suc d) va" for va' d'
    using tab_key [OF _ that(3), of m r] tab_None_mono [OF _ that(1), of m r va'] that(1,2) assms(2) by simp
  then show "tables_under m r va (Suc d) = {}" "\<not> hits m r va (Suc d)" unfolding tables_under_def hits_def by fastforce+
qed

lemma child_disjoint:
  assumes "pt_shape m R" "r \<in> R" "d \<le> 2" "i < 512" "j < 512" "i \<noteq> j"
  shows "tables_under m r (ix va d i) (Suc d) \<inter> tables_under m r (ix va d j) (Suc d) = {}"
proof -
  have False if p: "p \<in> tables_under m r (ix va d i) (Suc d)" "p \<in> tables_under m r (ix va d j) (Suc d)" for p
  proof -
    obtain v1 d1 where a: "v1 < MAXVA" "d1 \<le> 2" "Suc d \<le> d1" "tkey (Suc d) v1 = tkey (Suc d) (ix va d i)" "tab m r v1 d1 = Some p"
      using p(1) unfolding tables_under_def by blast
    obtain v2 d2 where b: "v2 < MAXVA" "d2 \<le> 2" "tkey (Suc d) v2 = tkey (Suc d) (ix va d j)" "tab m r v2 d2 = Some p"
      using p(2) unfolding tables_under_def by blast
    have "tkey d1 v1 = tkey d1 v2"
      using pt_shape_inj [OF assms(1,2,2) a(1) b(1) a(2) b(2) a(5) b(4)] by blast
    then have "tkey (Suc d) v1 = tkey (Suc d) v2" by (rule tkey_mono [OF a(3)])
    then have "tkey (Suc d) (ix va d i) = tkey (Suc d) (ix va d j)" using a(4) b(3) by simp
    then have "word_of_nat i = (word_of_nat j :: u64)"
      using tkey_Suc_PX [OF assms(3)] PX_ix [OF assms(3,4)] PX_ix [OF assms(3,5)] by metis
    then have "unat (word_of_nat i :: u64) = unat (word_of_nat j :: u64)" by simp
    then show False using assms(4-6) by (simp add: unat_of_nat)
  qed
  then show ?thesis by blast
qed

lemma child_not_self:
  assumes "pt_shape m R" "r \<in> R" "va < MAXVA" "d \<le> 2" "tab m r va d = Some t"
  shows "t \<notin> tables_under m r va' (Suc d)"
proof
  assume "t \<in> tables_under m r va' (Suc d)"
  then obtain v1 d1 where a: "v1 < MAXVA" "d1 \<le> 2" "Suc d \<le> d1" "tab m r v1 d1 = Some t"
    unfolding tables_under_def by blast
  show False using pt_shape_inj [OF assms(1,2,2) a(1) assms(3) a(2) assms(4) a(4) assms(5)] a(3) by simp
qed

section \<open>Giving pages back\<close>

definition freeable :: "memory \<Rightarrow> 'a kmem_scheme \<Rightarrow> u64 list \<Rightarrow> u64 set \<Rightarrow> bool" where
  "freeable m s ps U \<longleftrightarrow> kinv s ps \<and>
     (\<forall>p \<in> U. page_ok s p \<and> p \<notin> set ps \<and> refcnt s (page_index p) = 1) \<and>
     (\<forall>x. PGROUNDDOWN x \<in> U \<longrightarrow> mem s x = m x)"

text \<open>The pages of \<open>U\<close> have gone to the free list; memory changed only in them and in \<open>T\<close>.\<close>

definition freed ::
  "'a kmem_scheme \<Rightarrow> u64 list \<Rightarrow> u64 set \<Rightarrow> u64 set \<Rightarrow> 'a kmem_scheme \<Rightarrow> u64 list \<Rightarrow> bool" where
  "freed s ps U T s' ps' \<longleftrightarrow> kinv s' ps' \<and> set ps' = set ps \<union> U \<and>
     end_addr s' = end_addr s \<and> kmem.more s' = kmem.more s \<and>
     (\<forall>x. PGROUNDDOWN x \<notin> U \<union> T \<longrightarrow> mem s' x = mem s x) \<and>
     (\<forall>p. page_aligned p \<longrightarrow> p \<notin> U \<longrightarrow> refcnt s' (page_index p) = refcnt s (page_index p))"

lemma freed_refl: "kinv s ps \<Longrightarrow> freed s ps {} T s ps"
  by (simp add: freed_def)

lemma freed_trans: "freed s ps U T s1 ps1 \<Longrightarrow> freed s1 ps1 V T' s2 ps2 \<Longrightarrow> freed s ps (U \<union> V) (T \<union> T') s2 ps2"
  by (simp add: freed_def Un_assoc)

lemma freed_mono: "freed s ps U T s1 ps1 \<Longrightarrow> T \<subseteq> T' \<union> U \<Longrightarrow> freed s ps U T' s1 ps1"
  unfolding freed_def by blast

lemma freeable_freed:
  assumes "freeable m s ps U" "freed s ps V T s' ps'" "U \<inter> V = {}" "U \<inter> T = {}"
  shows "freeable m s' ps' U"
proof -
  have "page_ok s' p \<and> p \<notin> set ps' \<and> refcnt s' (page_index p) = 1" if "p \<in> U" for p
  proof -
    have p: "page_ok s p" "p \<notin> set ps" "refcnt s (page_index p) = 1" "p \<notin> V" "page_aligned p"
      using assms(1,3) that by (auto simp: freeable_def page_ok_def)
    then show ?thesis using assms(2) by (simp add: freed_def page_ok_def)
  qed
  moreover have "mem s' x = m x" if "PGROUNDDOWN x \<in> U" for x
  proof -
    have "PGROUNDDOWN x \<notin> V \<union> T" "mem s x = m x" using assms(1,3,4) that by (auto simp: freeable_def)
    then show ?thesis using assms(2) by (simp add: freed_def)
  qed
  ultimately show ?thesis using assms(2) by (simp add: freeable_def freed_def)
qed

lemma freeable_subset: "freeable m s ps U \<Longrightarrow> V \<subseteq> U \<Longrightarrow> freeable m s ps V"
  unfolding freeable_def by blast

lemma freed_slot:
  assumes "freed s ps U {t} s' ps'" "page_aligned t" "t \<notin> set ps'"
  shows "freed s ps U {t} (s'\<lparr>mem := st64 (mem s') (pte_slot t (PX l va)) v\<rparr>) ps'"
proof -
  let ?s = "s'\<lparr>mem := st64 (mem s') (pte_slot t (PX l va)) v\<rparr>"
  have "st64 (mem s') (pte_slot t (PX l va)) v x = mem s' x" if "PGROUNDDOWN x \<in> set ps'" for x
    using that assms(3) by (intro st64_slot_frame [OF assms(2)]) auto
  moreover have k: "kinv s' ps'" using assms(1) by (simp add: freed_def)
  ultimately have "kinv ?s ps'" by (intro kinv_frame [OF k]) simp_all
  then show ?thesis using assms(1,2) by (simp add: freed_def st64_slot_frame)
qed

lemma kfree_freed:
  assumes "freeable m s ps {t}"
  shows "\<exists>s'. kfree t s = Ok () s' \<and> freed s ps {t} {} s' (t # ps)"
proof -
  have t: "kinv s ps" "page_ok s t" "t \<notin> set ps" "refcnt s (page_index t) \<le> 1" "page_aligned t"
    using assms by (auto simp: freeable_def page_ok_def)
  obtain s' where s': "kfree t s = Ok () s'" "kinv s' (t # ps)" "end_addr s' = end_addr s" "kmem.more s' = kmem.more s"
    "refcnt s' = (refcnt s)(page_index t := refcnt s (page_index t) - 1)" "\<forall>x. PGROUNDDOWN x \<noteq> t \<longrightarrow> mem s' x = mem s x"
    using kfree_push [OF t(1-4)] by blast
  have "page_index p \<noteq> page_index t" if "page_aligned p" "p \<noteq> t" for p using page_index_inj [OF that(1) t(5)] that(2) by blast
  then show ?thesis using s' by (simp add: freed_def)
qed

section \<open>The walk\<close>

definition freewalk_entry :: "nat \<Rightarrow> u64 \<Rightarrow> nat \<Rightarrow> 'a kmem_scheme \<Rightarrow> ('a kmem_scheme, unit) res" where
  "freewalk_entry k t i s =
     (let slot = pte_slot t (word_of_nat i); v = ld64 (mem s) slot
      in if v AND PTE_V \<noteq> 0 \<and> v AND RWX = 0 then
           andthen (freewalk_rec k (PTE2PA v) s) (\<lambda>_ s. Ok () (s\<lparr>mem := st64 (mem s) slot 0\<rparr>))
         else if v AND PTE_V \<noteq> 0 then Panic ''freewalk: leaf'' else Ok () s)"

lemma freewalk_rec_Suc:
  "freewalk_rec (Suc k) t s = andthen (for_each [0..<512] (freewalk_entry k t) s) (\<lambda>_ s. kfree t s)"
  by (simp only: freewalk_rec.simps freewalk_entry_def [abs_def] RWX_def Let_def)

definition walked :: "memory \<Rightarrow> u64 \<Rightarrow> u64 \<Rightarrow> nat \<Rightarrow> u64 set \<Rightarrow> u64 set \<Rightarrow>
    'a kmem_scheme \<Rightarrow> u64 list \<Rightarrow> ('a kmem_scheme, unit) res \<Rightarrow> bool" where
  "walked m r va d U T s ps res \<longleftrightarrow>
     res = Panic ''freewalk: leaf'' \<and> hits m r va d \<or>
     (\<exists>s' ps'. res = Ok () s' \<and> freed s ps U T s' ps' \<and> \<not> hits m r va d)"

definition leaves_flagged :: "memory \<Rightarrow> u64 \<Rightarrow> bool" where
  "leaves_flagged m r \<longleftrightarrow> (\<forall>va < MAXVA. pte_valid (leaf m r va) \<longrightarrow> leaf m r va AND RWX \<noteq> 0)"

lemma freewalk_entry_step:
  assumes shape: "pt_shape m R" "r \<in> R" and pos: "va < MAXVA" "d + Suc k = 3" "tab m r va d = Some t"
    and flags: "leaves_flagged m r" and i: "i < tree_width d"
    and s: "freeable m s ps (tables_under m r (ix va d i) (Suc d))" "t \<notin> set ps" "page_ok s t"
      "ld64 (mem s) (pte_slot t (word_of_nat i)) = ld64 m (pte_slot t (word_of_nat i))"
    and child: "\<And>va' t'. d < 2 \<Longrightarrow> va' < MAXVA \<Longrightarrow> tab m r va' (Suc d) = Some t' \<Longrightarrow>
      freeable m s ps (tables_under m r va' (Suc d)) \<Longrightarrow>
      walked m r va' (Suc d) (tables_under m r va' (Suc d)) {} s ps (freewalk_rec k t' s)"
  shows "freewalk_entry k t i s = Panic ''freewalk: leaf'' \<and> hits m r va d \<or>
    (\<exists>s' ps'. freewalk_entry k t i s = Ok () s' \<and> freed s ps (tables_under m r (ix va d i) (Suc d)) {t} s' ps' \<and>
       (\<forall>j. i < j \<longrightarrow> j < 512 \<longrightarrow> ld64 (mem s') (pte_slot t (word_of_nat j)) = ld64 (mem s) (pte_slot t (word_of_nat j))) \<and>
       \<not> hits m r (ix va d i) (Suc d) \<and>
       \<not> (pte_valid (ld64 m (pte_slot t (word_of_nat i))) \<and> ld64 m (pte_slot t (word_of_nat i)) AND RWX \<noteq> 0))"
proof -
  let ?v = "ld64 m (pte_slot t (word_of_nat i))" and ?x = "ix va d i"
  have d: "d \<le> 2" and i5: "i < 512" using pos(2) i by (auto simp: tree_width_def split: if_splits)
  have x: "?x < MAXVA" "tab m r ?x d = Some t" "PX (2 - d) ?x = word_of_nat i"
    using ix_MAXVA [OF d i pos(1)] tab_key [OF d tkey_ix [OF d i5], of m r] pos(3) PX_ix [OF d i5] by simp_all
  consider (none) "\<not> pte_valid ?v" | (leaf) "pte_valid ?v" "?v AND RWX \<noteq> 0" | (table) "pte_valid ?v" "?v AND RWX = 0" by blast
  then show ?thesis
  proof cases
    case none
    then have "tab m r ?x (Suc d) = None" using x by simp
    then have "tables_under m r ?x (Suc d) = {}" "\<not> hits m r ?x (Suc d)" by (rule child_none [OF d])+
    moreover have "freewalk_entry k t i s = Ok () s" using none s by (simp add: freewalk_entry_def Let_def)
    moreover have "freed s ps {} {t} s ps" using s(1) by (simp add: freed_refl freeable_def)
    ultimately show ?thesis using none by auto
  next
    case leaf
    then have "hits m r va d" using hitsI [OF x(1) d _ tkey_ix [OF d i5] x(2)] x(3) by simp
    then show ?thesis using leaf s by (simp add: freewalk_entry_def Let_def)
  next
    case table
    have "d \<noteq> 2" using table x flags by (auto simp: leaves_flagged_def leaf_def)
    then have "walked m r ?x (Suc d) (tables_under m r ?x (Suc d)) {} s ps (freewalk_rec k (PTE2PA ?v) s)"
      using d table x by (intro child s(1)) simp_all
    then consider "freewalk_rec k (PTE2PA ?v) s = Panic ''freewalk: leaf''" "hits m r ?x (Suc d)"
      | s1 ps1 where "freewalk_rec k (PTE2PA ?v) s = Ok () s1" "freed s ps (tables_under m r ?x (Suc d)) {} s1 ps1" "\<not> hits m r ?x (Suc d)"
      unfolding walked_def by blast
    then show ?thesis
    proof cases
      case 1
      then show ?thesis using table s hits_child [OF d i5 1(2)] by (simp add: freewalk_entry_def Let_def)
    next
      case 2
      let ?s = "s1\<lparr>mem := st64 (mem s1) (pte_slot t (word_of_nat i)) 0\<rparr>"
      have al: "page_aligned t" using s(3) by (simp add: page_ok_def)
      have nt: "t \<notin> tables_under m r ?x (Suc d)" by (rule child_not_self [OF shape pos(1) d pos(3)])
      have "freed s ps (tables_under m r ?x (Suc d)) {t} ?s ps1"
        using freed_slot [OF freed_mono [OF 2(2)] al, of "2 - d" ?x 0] 2(2) s(2) nt x(3) by (auto simp: freed_def)
      moreover have "ld64 (mem ?s) (pte_slot t (word_of_nat j)) = ld64 (mem s) (pte_slot t (word_of_nat j))"
        if "i < j" "j < 512" for j
      proof -
        have "word_of_nat i \<noteq> (word_of_nat j :: u64)" using that by (simp add: word_unat_eq_iff unat_of_nat)
        then have "ld64 (mem ?s) (pte_slot t (word_of_nat j)) = ld64 (mem s1) (pte_slot t (word_of_nat j))"
          using ld64_st64_slot [OF al al, of "mem s1" "2 - d" ?x 0 "2 - d" "ix va d j"] x(3) PX_ix [OF d that(2)] by simp
        also have "\<dots> = ld64 (mem s) (pte_slot t (word_of_nat j))"
          using ld64_slot_cong [OF al, of "mem s1" "mem s" "2 - d" "ix va d j"] PX_ix [OF d that(2)] 2(2) nt by (simp add: freed_def)
        finally show ?thesis .
      qed
      moreover have "freewalk_entry k t i s = Ok () ?s" using table s 2 by (simp add: freewalk_entry_def Let_def)
      ultimately show ?thesis using table(2) 2(3) by blast
    qed
  qed
qed

lemma freewalk_entries:
  fixes s :: "'a kmem_scheme"
  assumes shape: "pt_shape m R" "r \<in> R" and pos: "va < MAXVA" "d + Suc k = 3" "tab m r va d = Some t"
    and flags: "leaves_flagged m r" and s: "freeable m s ps (tables_under m r va d)"
    and child: "\<And>va' t' (s :: 'a kmem_scheme) ps. d < 2 \<Longrightarrow> va' < MAXVA \<Longrightarrow> tab m r va' (Suc d) = Some t' \<Longrightarrow>
      freeable m s ps (tables_under m r va' (Suc d)) \<Longrightarrow>
      walked m r va' (Suc d) (tables_under m r va' (Suc d)) {} s ps (freewalk_rec k t' s)"
  shows "walked m r va d (\<Union>j < tree_width d. tables_under m r (ix va d j) (Suc d)) {t} s ps
    (for_each [0..<tree_width d] (freewalk_entry k t) s)"
    and "for_each [0..<tree_width d] (freewalk_entry k t) s = Ok () s' \<Longrightarrow> tree_width d \<le> j \<Longrightarrow> j < 512 \<Longrightarrow>
      ld64 (mem s') (pte_slot t (word_of_nat j)) = ld64 m (pte_slot t (word_of_nat j))"
proof -
  let ?U = "\<lambda>j. tables_under m r (ix va d j) (Suc d)" and ?e = "\<lambda>j. pte_slot t (word_of_nat j)"
  let ?leaf = "\<lambda>j. pte_valid (ld64 m (?e j)) \<and> ld64 m (?e j) AND RWX \<noteq> 0"
  define P where "P i s1 \<longleftrightarrow> (\<exists>ps1. freed s ps (\<Union>j < i. ?U j) {t} s1 ps1 \<and>
    (\<forall>j. i \<le> j \<longrightarrow> j < 512 \<longrightarrow> ld64 (mem s1) (?e j) = ld64 m (?e j)) \<and> (\<forall>j < i. \<not> hits m r (ix va d j) (Suc d) \<and> \<not> ?leaf j))"
    for i s1
  have d: "d \<le> 2" and w: "tree_width d \<le> 512" using pos(2) by (auto simp: tree_width_def)
  have t: "freeable m s ps {t}" "t \<notin> ?U j" for j
    using freeable_subset [OF s] tables_under_self [OF pos(1) d pos(3)] child_not_self [OF shape pos(1) d pos(3)] by auto
  have sub: "?U j \<subseteq> tables_under m r va d" if "j < 512" for j by (rule tables_under_child [OF d that])
  have al: "page_aligned t" "kinv s ps" using t(1) by (auto simp: freeable_def page_ok_def)
  have "ld64 (mem s) (?e j) = ld64 m (?e j)" if "j < 512" for j
    using ld64_slot_cong [OF al(1), of "mem s" m "2 - d" "ix va d j"] PX_ix [OF d that] t(1) by (simp add: freeable_def)
  then have "P 0 s" using freed_refl [OF al(2), of "{t}"] unfolding P_def by (intro exI [of _ ps]) simp
  moreover have "freewalk_entry k t i s1 = Panic ''freewalk: leaf'' \<and> hits m r va d \<or>
      (\<exists>s2. freewalk_entry k t i s1 = Ok () s2 \<and> P (Suc i) s2)" if i: "i < tree_width d" and "P i s1" for i s1
  proof -
    obtain ps1 where p: "freed s ps (\<Union>j < i. ?U j) {t} s1 ps1" "\<forall>j. i \<le> j \<longrightarrow> j < 512 \<longrightarrow> ld64 (mem s1) (?e j) = ld64 m (?e j)"
      "\<forall>j < i. \<not> hits m r (ix va d j) (Suc d) \<and> \<not> ?leaf j"
      using \<open>P i s1\<close> unfolding P_def by blast
    have i5: "i < 512" using i w by simp
    have "?U i \<inter> ?U j = {}" if "j < i" for j using child_disjoint [OF shape d i5] i5 that by simp
    then have dis: "?U i \<inter> (\<Union>j < i. ?U j) = {}" by blast
    have f: "freeable m s1 ps1 (?U i)"
      by (rule freeable_freed [OF freeable_subset [OF s sub [OF i5]] p(1) dis]) (use t(2) in auto)
    have tt: "t \<notin> set ps1" "page_ok s1 t" using t p(1) by (auto simp: freeable_def freed_def page_ok_def)
    have step: "freewalk_entry k t i s1 = Panic ''freewalk: leaf'' \<and> hits m r va d \<or>
      (\<exists>s2 ps2. freewalk_entry k t i s1 = Ok () s2 \<and> freed s1 ps1 (?U i) {t} s2 ps2 \<and>
         (\<forall>j. i < j \<longrightarrow> j < 512 \<longrightarrow> ld64 (mem s2) (?e j) = ld64 (mem s1) (?e j)) \<and> \<not> hits m r (ix va d i) (Suc d) \<and> \<not> ?leaf i)"
      by (rule freewalk_entry_step [OF shape pos flags i f tt _ child]) (use p(2) i5 in simp_all)
    have "P (Suc i) s2" if "freed s1 ps1 (?U i) {t} s2 ps2"
      "\<forall>j. i < j \<longrightarrow> j < 512 \<longrightarrow> ld64 (mem s2) (?e j) = ld64 (mem s1) (?e j)" "\<not> hits m r (ix va d i) (Suc d)" "\<not> ?leaf i" for s2 ps2
      unfolding P_def using freed_trans [OF p(1) that(1)] that(2-4) p(2,3)
      by (intro exI [of _ ps2]) (simp add: lessThan_Suc Un_commute less_Suc_eq_le le_less)
    then show ?thesis using step by blast
  qed
  ultimately have *: "for_each [0..<tree_width d] (freewalk_entry k t) s = Panic ''freewalk: leaf'' \<and> hits m r va d \<or>
      (\<exists>s'. for_each [0..<tree_width d] (freewalk_entry k t) s = Ok () s' \<and> P (tree_width d) s')"
    by (rule for_each_panics [where P = P])
  have "\<not> hits m r va d" if "P (tree_width d) s'" for s'
    using that hits_split [OF d pos(3)] unfolding P_def by blast
  with * show "walked m r va d (\<Union>j < tree_width d. ?U j) {t} s ps (for_each [0..<tree_width d] (freewalk_entry k t) s)"
    unfolding walked_def P_def by blast
  show "ld64 (mem s') (?e j) = ld64 m (?e j)"
    if "for_each [0..<tree_width d] (freewalk_entry k t) s = Ok () s'" "tree_width d \<le> j" "j < 512"
    using * that unfolding P_def by auto
qed

lemma walked_kfree:
  assumes "pt_shape m R" "r \<in> R" "va < MAXVA" "d \<le> 2" "tab m r va d = Some t" "freeable m s ps (tables_under m r va d)"
    and "walked m r va d (\<Union>j < tree_width d. tables_under m r (ix va d j) (Suc d)) {t} s ps res"
  shows "walked m r va d (tables_under m r va d) {} s ps (andthen res (\<lambda>_. kfree t))"
  using assms(7) [unfolded walked_def]
proof (elim disjE exE conjE)
  let ?U = "\<Union>j < tree_width d. tables_under m r (ix va d j) (Suc d)"
  fix s1 ps1 assume a: "res = Ok () s1" "freed s ps ?U {t} s1 ps1" "\<not> hits m r va d"
  have t: "freeable m s ps {t}" "t \<notin> ?U"
    using freeable_subset [OF assms(6)] tables_under_self [OF assms(3-5)] child_not_self [OF assms(1-5)] by auto
  then have "freeable (mem s1) s1 ps1 {t}" using a(2) by (auto simp: freeable_def freed_def page_ok_def)
  then obtain s2 where "kfree t s1 = Ok () s2" "freed s1 ps1 {t} {} s2 (t # ps1)" using kfree_freed by blast
  moreover from this have "freed s ps (tables_under m r va d) {} s2 (t # ps1)"
    using freed_mono [OF freed_trans [OF a(2)], of "{t}" "{}" s2 "t # ps1" "{}"] tables_under_split [OF assms(3-5)] by simp
  ultimately show ?thesis using a unfolding walked_def by auto
qed (simp add: walked_def)

lemma freewalk_subtree:
  assumes "pt_shape m R" "r \<in> R" "leaves_flagged m r"
    and "va < MAXVA" "0 < d" "d + k = 3" "0 < k" "tab m r va d = Some t" "freeable m s ps (tables_under m r va d)"
  shows "walked m r va d (tables_under m r va d) {} s ps (freewalk_rec k t s)"
  using assms(4-)
proof (induction k arbitrary: va d t s ps)
  case (Suc k)
  have w: "tree_width d = 512" using Suc.prems(2) by (simp add: tree_width_def)
  have "walked m r va d (\<Union>j < tree_width d. tables_under m r (ix va d j) (Suc d)) {t} s ps
      (for_each [0..<tree_width d] (freewalk_entry k t) s)"
    by (rule freewalk_entries(1) [OF assms(1,2) Suc.prems(1,3,5) assms(3) Suc.prems(6)])
      (rule Suc.IH; use Suc.prems(3) in simp)
  then show ?case
    using walked_kfree [OF assms(1,2) Suc.prems(1) _ Suc.prems(5,6)] Suc.prems(3)
    unfolding freewalk_rec_Suc w by simp
qed simp

lemma ptinv_freeable:
  assumes "ptinv s R ps" "r \<in> R"
  shows "freeable (mem s) s ps (tables_under (mem s) r 0 0)"
proof -
  have "tables (mem s) {r} \<subseteq> tables (mem s) R" using assms(2) by (auto simp: tables_def)
  then show ?thesis using ptinvD(1,3-5) [OF assms(1)] tables_under_0 [of 0 "mem s" r] by (auto simp: freeable_def MAXVA_def)
qed

lemma freewalk_low:
  assumes "ptinv s R ps" "r \<in> R" "leaves_flagged (mem s) r"
  shows "walked (mem s) r 0 0 (\<Union>j < 256. tables_under (mem s) r (ix 0 0 j) 1) {r} s ps
    (for_each [0..<256] (freewalk_entry 2 r) s)"
    and "for_each [0..<256] (freewalk_entry 2 r) s = Ok () s' \<Longrightarrow> 256 \<le> j \<Longrightarrow> j < 512 \<Longrightarrow>
      ld64 (mem s') (pte_slot r (word_of_nat j)) = ld64 (mem s) (pte_slot r (word_of_nat j))"
proof -
  note shape = ptinvD(2) [OF assms(1)]
  have z: "(0 :: u64) < MAXVA" "0 + Suc 2 = (3 :: nat)" "tab (mem s) r 0 0 = Some r" by (simp_all add: MAXVA_def)
  have child: "walked (mem s) r va' (Suc 0) (tables_under (mem s) r va' (Suc 0)) {} s1 ps1 (freewalk_rec 2 t' s1)"
    if "va' < MAXVA" "tab (mem s) r va' (Suc 0) = Some t'" "freeable (mem s) s1 ps1 (tables_under (mem s) r va' (Suc 0))"
    for va' t' s1 ps1
    by (rule freewalk_subtree [OF shape assms(2,3) that(1) _ _ _ that(2,3)]) simp_all
  note e = freewalk_entries [OF shape assms(2) z assms(3) ptinv_freeable [OF assms(1,2)] child]
  show "walked (mem s) r 0 0 (\<Union>j < 256. tables_under (mem s) r (ix 0 0 j) 1) {r} s ps
      (for_each [0..<256] (freewalk_entry 2 r) s)"
    using e(1) by (simp add: tree_width_def)
  show "ld64 (mem s') (pte_slot r (word_of_nat j)) = ld64 (mem s) (pte_slot r (word_of_nat j))"
    if "for_each [0..<256] (freewalk_entry 2 r) s = Ok () s'" "256 \<le> j" "j < 512"
    using e(2) [of s' j] that by (simp add: tree_width_def)
qed

section \<open>Tearing down an address space\<close>

declare upt_rec_numeral [simp del]

lemma freewalk_split:
  "freewalk r s = andthen (for_each [0..<256] (freewalk_entry 2 r) s)
     (\<lambda>_ s. andthen (for_each [256..<512] (freewalk_entry 2 r) s) (\<lambda>_ s. kfree r s))"
proof -
  have "[0..<512] = [0..<256] @ [256..<512]" using upt_add_eq_append [of 0 256 256] by simp
  then have "freewalk r s = andthen (for_each ([0..<256] @ [256..<512]) (freewalk_entry 2 r) s) (\<lambda>_ s. kfree r s)"
    unfolding freewalk_def FREEWALK_DEPTH_def numeral_3_eq_3 freewalk_rec_Suc by (simp add: numeral_2_eq_2)
  then show ?thesis by (simp add: for_each_append andthen_assoc)
qed

text \<open>
  C23: \<^verbatim>\<open>uvmfree\<close> with size 0 panics in \<^verbatim>\<open>freewalk\<close> whenever the address space still maps a page. This is what
  \<^verbatim>\<open>fork\<close> runs into when \<^verbatim>\<open>uvmcopy\<close> fails half way: \<^verbatim>\<open>uvmcopy\<close> leaves the pages it has already shared mapped in
  the child, whose size is still 0, and \<^verbatim>\<open>freeproc\<close> frees the table of the child with that size.
\<close>

theorem uvmfree_mapped_panics:
  assumes "ptinv s R ps" "r \<in> R" "leaves_flagged (mem s) r" "va < MAXVA" "pte_valid (leaf (mem s) r va)"
  shows "uvmfree r 0 s = Panic ''freewalk: leaf''"
proof -
  obtain t where t: "tab (mem s) r va 2 = Some t" using assms(5) by (auto simp: leaf_def split: option.splits)
  have "leaf (mem s) r va AND RWX \<noteq> 0" using assms(3-5) by (simp add: leaves_flagged_def)
  then have "hits (mem s) r 0 0"
    using hitsI [of va 2 0 0 "mem s" r t] t assms(4,5) tkey_0 [OF assms(4)] tkey_0 [of 0] by (simp add: leaf_def MAXVA_def)
  then show ?thesis using freewalk_low(1) [OF assms(1-3)] by (simp add: walked_def uvmfree_def freewalk_split)
qed

theorem uvmfree_mapped_panics_witness:
  "\<exists>(s :: kmem) r va. pte_valid (leaf (mem s) r va) \<and> uvmfree r 0 s = Panic ''freewalk: leaf''"
proof -
  obtain s :: kmem and r1 r2 ps where s: "vminv s {r2, r1} ps"
    "\<forall>va. unat va < 4096 \<longrightarrow> (\<exists>q. leaf (mem s) r1 va = alloc_entry q PTE_W)"
    "\<forall>va < MAXVA. 4096 \<le> unat va \<longrightarrow> leaf (mem s) r1 va = 0"
    using boot_spaces by blast
  have a: "pte_valid (alloc_entry q PTE_W)" "alloc_entry q PTE_W AND RWX \<noteq> 0" for q
  proof -
    have "bit (alloc_entry q PTE_W AND RWX) 1" by (simp add: bit_alloc_entry bit_and_iff RWX_def bit_or_iff bit_PTE)
    then show "alloc_entry q PTE_W AND RWX \<noteq> 0" by auto
  qed (simp add: pte_valid_def bit_alloc_entry)
  have "leaf (mem s) r1 va AND RWX \<noteq> 0" if "va < MAXVA" "pte_valid (leaf (mem s) r1 va)" for va
    using s(2,3) that a(2) by (cases "unat va < 4096") (auto simp: not_less)
  then have "leaves_flagged (mem s) r1" by (simp add: leaves_flagged_def)
  moreover obtain q where "leaf (mem s) r1 0 = alloc_entry q PTE_W" using s(2) [rule_format, of 0] by auto
  then have "pte_valid (leaf (mem s) r1 0)" using a(1) by simp
  ultimately show ?thesis
    using uvmfree_mapped_panics [OF vminvD(1) [OF s(1)], of r1 0] by (auto simp: MAXVA_def)
qed

text \<open>
  What is left of an address space when everything in it has been unmapped: the entries of the upper
  levels only point to tables, and no entry of the root lies beyond \<open>MAXVA\<close>.
\<close>

definition tables_only :: "memory \<Rightarrow> u64 \<Rightarrow> bool" where
  "tables_only m r \<longleftrightarrow> (\<forall>va < MAXVA. \<not> pte_valid (leaf m r va)) \<and>
     (\<forall>i < 512. 256 \<le> i \<longrightarrow> \<not> pte_valid (ld64 m (pte_slot r (word_of_nat i)))) \<and>
     (\<forall>va < MAXVA. \<forall>d < 2. \<forall>t. tab m r va d = Some t \<longrightarrow> ld64 m (pte_slot t (PX (2 - d) va)) AND RWX = 0)"

lemma tables_only_hits:
  assumes "tables_only m r"
  shows "\<not> hits m r va d"
proof
  assume "hits m r va d"
  then obtain va' d' t where h: "va' < MAXVA" "d' \<le> 2" "tab m r va' d' = Some t"
    "pte_valid (ld64 m (pte_slot t (PX (2 - d') va')))" "ld64 m (pte_slot t (PX (2 - d') va')) AND RWX \<noteq> 0"
    unfolding hits_def by blast
  show False
  proof (cases "d' = 2")
    case True
    then show False using h assms by (auto simp: leaf_def tables_only_def)
  next
    case False
    then have "d' < 2" using h(2) by simp
    then show False using h(1,3,5) assms unfolding tables_only_def by blast
  qed
qed

lemma for_each_skip: "(\<And>i. i \<in> set is \<Longrightarrow> f i s = Ok () s) \<Longrightarrow> for_each is f s = Ok () s"
  by (induction "is") auto

lemma tables_other_space:
  assumes "pt_shape m R" "r \<in> R"
  shows "tables m (R - {r}) \<inter> tables m {r} = {}" "tables m R = tables m (R - {r}) \<union> tables m {r}"
proof -
  have "r' = r" if p: "r' \<in> R" "p \<in> tables m {r'}" "p \<in> tables m {r}" for p r'
  proof -
    obtain v d where "v < MAXVA" "d \<le> 2" "tab m r' v d = Some p" using p(2) by (auto simp: tables_def)
    moreover obtain v' d' where "v' < MAXVA" "d' \<le> 2" "tab m r v' d' = Some p" using p(3) by (auto simp: tables_def)
    ultimately show ?thesis using pt_shape_inj [OF assms(1) p(1) assms(2)] by blast
  qed
  moreover have each: "tables m S = (\<Union>r' \<in> S. tables m {r'})" for S by (auto simp: tables_def)
  ultimately show "tables m (R - {r}) \<inter> tables m {r} = {}" unfolding each [of "R - {r}"] by blast
  show "tables m R = tables m (R - {r}) \<union> tables m {r}"
    using insert_Diff [OF assms(2)] unfolding each [of R] each [of "R - {r}"] by blast
qed

lemma pt_shape_subset:
  assumes "pt_shape m R" "R' \<subseteq> R"
  shows "pt_shape m R'"
  unfolding pt_shape_def
proof (intro conjI ballI allI impI)
  fix r r' va va' d d' t
  assume a: "r \<in> R'" "r' \<in> R'" "va < MAXVA" "va' < MAXVA" "d \<le> 2" "d' \<le> 2" "tab m r va d = Some t" "tab m r' va' d' = Some t"
  show "r = r'" "d = d'" "tkey d va = tkey d va'"
    using pt_shape_inj [OF assms(1) subsetD [OF assms(2) a(1)] subsetD [OF assms(2) a(2)] a(3-8)] by blast+
qed (use assms in \<open>auto simp: pt_shape_def\<close>)

lemma freewalk_frees:
  assumes "ptinv s R ps" "r \<in> R" "tables_only (mem s) r"
  shows "\<exists>s' ps'. freewalk r s = Ok () s' \<and> freed s ps (tables (mem s) {r}) {} s' ps'"
proof -
  let ?m = "mem s" and ?U = "\<Union>j < 256. tables_under (mem s) r (ix 0 0 j) 1"
  note shape = ptinvD(2) [OF assms(1)]
  have z: "(0 :: u64) < MAXVA" "tab ?m r 0 0 = Some r" by (simp_all add: MAXVA_def)
  have fl: "leaves_flagged ?m r" using assms(3) by (simp add: leaves_flagged_def tables_only_def)
  then obtain s1 ps1 where l: "for_each [0..<256] (freewalk_entry 2 r) s = Ok () s1" "freed s ps ?U {r} s1 ps1"
    using freewalk_low(1) [OF assms(1,2)] tables_only_hits [OF assms(3)] unfolding walked_def by blast
  have "freewalk_entry 2 r i s1 = Ok () s1" if "256 \<le> i" "i < 512" for i
    using freewalk_low(2) [OF assms(1,2) fl l(1) that] assms(3) that by (simp add: freewalk_entry_def tables_only_def)
  then have "for_each [256..<512] (freewalk_entry 2 r) s1 = Ok () s1" 
    by (intro for_each_skip) (metis atLeastLessThan_iff set_upt)
  then have "freewalk r s = andthen (for_each [0..<256] (freewalk_entry 2 r) s) (\<lambda>_. kfree r)"
    using l(1) by (simp add: freewalk_split)
  moreover have "walked ?m r 0 0 (tables_under ?m r 0 0) {} s ps (andthen (for_each [0..<256] (freewalk_entry 2 r) s) (\<lambda>_. kfree r))"
    by (rule walked_kfree [OF shape assms(2) z(1) _ z(2) ptinv_freeable [OF assms(1,2)]])
      (use l tables_only_hits [OF assms(3)] in \<open>auto simp: walked_def tree_width_def\<close>)
  ultimately show ?thesis using tables_only_hits [OF assms(3)] tables_under_0 [OF z(1), of ?m r] by (auto simp: walked_def)
qed

text \<open>
  C24: \<^verbatim>\<open>freewalk\<close> on an address space with nothing mapped returns exactly its table pages to the free list,
  each of them once; the other address spaces keep every entry, and the page-table invariant holds for
  them with the longer free list.
\<close>

theorem freewalk_returns_tables:
  assumes "ptinv s R ps" "r \<in> R" "tables_only (mem s) r"
  shows "\<exists>s' ps'. freewalk r s = Ok () s' \<and> ptinv s' (R - {r}) ps' \<and> distinct ps' \<and>
    set ps' = set ps \<union> tables (mem s) {r} \<and>
    (\<forall>r' \<in> R - {r}. \<forall>va < MAXVA. leaf (mem s') r' va = leaf (mem s) r' va)"
proof -
  note inv = ptinvD [OF assms(1)] and other = tables_other_space [OF inv(2) assms(2)]
  obtain s' ps' where f: "freewalk r s = Ok () s'" "freed s ps (tables (mem s) {r}) {} s' ps'"
    using freewalk_frees [OF assms] by blast
  have sh: "pt_shape (mem s) (R - {r})" by (rule pt_shape_subset [OF inv(2)]) blast
  have same: "mem s' x = mem s x" if "PGROUNDDOWN x \<in> tables (mem s) (R - {r})" for x
    using that other(1) f(2) by (auto simp: freed_def)
  have tab: "tab (mem s') r' va d = tab (mem s) r' va d" if "r' \<in> R - {r}" "va < MAXVA" "d \<le> 2" for r' va d
    by (rule tab_frame [OF sh same that])
  have lf: "leaf (mem s') r' va = leaf (mem s) r' va" if "r' \<in> R - {r}" "va < MAXVA" for r' va
    by (rule leaf_frame [OF sh same that])
  have t: "pt_shape (mem s') (R - {r})" "tables (mem s') (R - {r}) = tables (mem s) (R - {r})"
    using pt_shape_tab_eq [OF sh tab] by blast+
  have tb: "page_ok s' p \<and> p \<notin> set ps' \<and> refcnt s' (page_index p) = 1" if p: "p \<in> tables (mem s) (R - {r})" for p
  proof -
    have "p \<in> tables (mem s) R" "p \<notin> tables (mem s) {r}" using p other by auto
    then show ?thesis using inv(3-5) [of p] f(2) by (simp add: freed_def page_ok_def)
  qed
  have le: "PTE2PA (leaf (mem s) r' va) \<notin> set ps' \<and> PTE2PA (leaf (mem s) r' va) \<notin> tables (mem s) (R - {r})"
    if "r' \<in> R - {r}" "va < MAXVA" "pte_valid (leaf (mem s) r' va)" for r' va
    using inv(6,7) [of r' va] that other(2) f(2) by (simp add: freed_def)
  have k: "kinv s' ps'" using f(2) by (simp add: freed_def)
  have "ptinv s' (R - {r}) ps'"
    unfolding ptinv_def t(2)
  proof (intro conjI ballI allI impI k t(1))
    fix r' va assume r': "r' \<in> R - {r}" "va < MAXVA" "pte_valid (leaf (mem s') r' va)"
    show "PTE2PA (leaf (mem s') r' va) \<notin> set ps'" "PTE2PA (leaf (mem s') r' va) \<notin> tables (mem s) (R - {r})"
      using le [OF r'(1,2)] r'(3) unfolding lf [OF r'(1,2)] by blast+
  qed (use tb in blast)+
  moreover have "distinct ps'" "set ps' = set ps \<union> tables (mem s) {r}" using f(2) by (simp_all add: freed_def kinv_def)
  ultimately show ?thesis using f(1) lf by blast
qed

theorem freewalk_returns_tables_witness:
  "\<exists>(s :: kmem) r s' ps ps'. ptinv s {r} ps \<and> freewalk r s = Ok () s' \<and> ptinv s' {} ps' \<and> set ps' = insert r (set ps)"
proof -
  have k: "0 < end_addr boot_kmem" "end_addr boot_kmem \<le> PHYSTOP" "freelist boot_kmem = 0"
    by (simp_all add: boot_kmem_def layout_defs)
  obtain s0 n where "kinit boot_kmem = Ok () s0" "unat (PGROUNDUP (end_addr boot_kmem)) + n * 4096 = unat PHYSTOP"
    "vminv s0 {} (rev (pages_from (PGROUNDUP (end_addr boot_kmem)) n))"
    by (rule kinit_vminv [OF k])
  moreover from this have "n \<noteq> 0" by (auto simp: boot_kmem_def layout_defs PGROUNDUP_def)
  ultimately obtain r ps where v: "vminv s0 {} (r # ps)"
    by (cases "rev (pages_from (PGROUNDUP (end_addr boot_kmem)) n)") (auto simp: pages_from_def)
  obtain s :: kmem where s: "uvmcreate s0 = (r, s)" "vminv s {r} ps"
    using uvmcreate_vminv [OF v] by auto
  have al: "page_aligned r" using ptinvD(2) [OF vminvD(1) [OF s(2)]] by (simp add: pt_shape_def)
  have "r \<noteq> 0" using ptinv_table_nonzero [OF vminvD(1) [OF s(2)]] in_tables [of r "{r}" 0 0 "mem s" r] by (simp add: MAXVA_def)
  then obtain m0 where m: "mem s = memset m0 r 0 4096" using s(1) by (auto simp: uvmcreate_def Let_def PGSIZE_def split: prod.splits if_splits)
  have z: "ld64 (mem s) (pte_slot r (PX l va)) = 0" for l va using ld64_slot_zeroed [OF al] m by simp
  have one: "tab (mem s) r va 1 = None" for va using z by simp
  then have none: "tab (mem s) r va d = None" if "0 < d" for va d using tab_None_mono [OF one, of d] that by simp
  have "tables_only (mem s) r"
    unfolding tables_only_def
  proof (intro conjI allI impI)
    fix va d t assume "d < 2" "tab (mem s) r va d = Some t"
    then have "d = 0" "t = r" using none [of d va] by (cases "d = 0"; auto)+
    then show "ld64 (mem s) (pte_slot t (PX (2 - d) va)) AND RWX = 0" by (simp add: z)
  next
    fix i :: nat assume "i < 512"
    then show "\<not> pte_valid (ld64 (mem s) (pte_slot r (word_of_nat i)))" using z [of 2 "ix 0 0 i"] PX_ix [of 0 i 0] by simp
  qed (simp add: leaf_def none)
  then obtain s' ps' where "freewalk r s = Ok () s'" "ptinv s' ({r} - {r}) ps'" "set ps' = set ps \<union> tables (mem s) {r}"
    using freewalk_returns_tables [OF vminvD(1) [OF s(2)], of r] by blast
  moreover have "t = r" if "tab (mem s) r va d = Some t" for va d t using none [of d va] that by (cases "d = 0") auto
  then have "tables (mem s) {r} \<subseteq> {r}" unfolding tables_def by blast
  then have "tables (mem s) {r} = {r}" using in_tables [of r "{r}" 0 0 "mem s" r] by (auto simp: MAXVA_def)
  ultimately have "ptinv s {r} ps \<and> freewalk r s = Ok () s' \<and> ptinv s' {} ps' \<and> set ps' = insert r (set ps)"
    using vminvD(1) [OF s(2)] by simp
  then show ?thesis by blast
qed

end
