(* ===== verification/Fs_Props.thy ===== *)
theory Fs_Props
  imports Log_Props
begin

text \<open>
  The block allocator of the file system (\<^verbatim>\<open>kernel/fs.c\<close>) inside a transaction. \<open>open_txn\<close> is the state between
  \<^verbatim>\<open>begin_op\<close> and \<^verbatim>\<open>end_op\<close>: a buffer cache in order whose logged blocks are \<open>L\<close>. What an operation does to the disk is
  what it does to \<open>bval\<close>, the contents of the blocks as the cache presents them, which the
  commit later makes permanent as a whole.
\<close>

section \<open>Operations inside a transaction\<close>

definition open_txn :: "u32 \<Rightarrow> nat \<Rightarrow> 'a kfs_scheme \<Rightarrow> u32 list \<Rightarrow> bool" where
  "open_txn D N s L \<longleftrightarrow> (\<exists>xs. bc D {} L s xs) \<and> txn D N s L \<and> 1 \<le> log_outstanding s"

lemma more_fs: "klog.more s' = klog.more s \<Longrightarrow> sb s' = sb s \<and> itable s' = itable s" for s s' :: "'a kfs_scheme"
  by (cases s; cases s') simp

lemma log_frame_fs: "log_frame s s' \<Longrightarrow> sb s' = sb s \<and> itable s' = itable s \<and> log_start s' = log_start s" for s s' :: "'a kfs_scheme"
  using log_frameD(2,6) [of s s'] more_fs [of s' s] by simp

text \<open>Reading a block, then either writing it through the log or releasing it untouched.\<close>

lemma fs_block:
  fixes s :: "'a kfs_scheme"
  assumes "open_txn D N s L" "n \<notin> log_region (log_start s) N" "length L + 1 < N"
  obtains b s1 where "bread D n s = Ok b s1" "b_data (bufs s1 b) = bval s n" "sb s1 = sb s" "itable s1 = itable s"
    "\<forall>v. \<exists>s2 s3. log_write b (set_data b v s1) = Ok () s2 \<and> brelse b s2 = Ok () s3 \<and> open_txn D N s3 (logged n L) \<and>
       bval s3 = (bval s)(n := v) \<and> log_frame s s2 \<and> log_frame s s3"
    "\<exists>s2. brelse b s1 = Ok () s2 \<and> open_txn D N s2 L \<and> bval s2 = bval s \<and> log_frame s s2"
proof -
  obtain xs where x: "bc D {} L s xs" "txn D N s L" "1 \<le> log_outstanding s" using assms(1) by (auto simp: open_txn_def)
  obtain b s1 where u: "bread D n s = Ok b s1" "b_data (bufs s1 b) = bval s n" "log_frame s s1" "bc D {b} L s1 xs" "txn D N s1 L"
    "b_blockno (bufs s1 b) = n" "bval s1 = bval s" "disk s1 = disk s"
    "\<forall>v. \<exists>s2 s3 ys. log_write b (set_data b v s1) = Ok () s2 \<and> brelse b s2 = Ok () s3 \<and> bc D {} (logged n L) s3 ys \<and>
       txn D N s3 (logged n L) \<and> bval s3 = (bval s)(n := v) \<and> disk s3 = disk s \<and> log_frame s s2 \<and> log_frame s s3"
    by (rule update_block [OF x(1,2) assms(2) x(3) assms(3)])
  have out: "1 \<le> log_outstanding t" if "log_frame s t" for t using log_frameD(4) [OF that] x(3) by simp
  have n: "n \<in> set L \<or> b_data (bufs s1 b) = disk s1 n" using u(2,8) bval_disk [OF x(1), of n] by auto
  obtain s2 ys where r: "brelse b s1 = Ok () s2" "bc D ({b} - {b}) L s2 ys" "bval s2 = bval s1" "wrote s1 [] s2"
    by (rule release_one [OF u(4), of b]) (use u(6) n in auto)
  have w: "bio_frame s1 s2" "disk s2 = disk s1" using r(4) by (simp_all add: wrote_def)
  have f: "log_frame s s2" by (rule log_frame_trans [OF u(3) log_frame_bio [OF w(1)]])
  have "open_txn D N s2 L" using r(2) txn_cong [OF u(5) w] out [OF f] by (auto simp: open_txn_def)
  moreover have "\<exists>s2 s3. log_write b (set_data b v s1) = Ok () s2 \<and> brelse b s2 = Ok () s3 \<and> open_txn D N s3 (logged n L) \<and>
       bval s3 = (bval s)(n := v) \<and> log_frame s s2 \<and> log_frame s s3" for v
  proof -
    obtain s2 s3 ys where "log_write b (set_data b v s1) = Ok () s2" "brelse b s2 = Ok () s3" "bc D {} (logged n L) s3 ys"
      "txn D N s3 (logged n L)" "bval s3 = (bval s)(n := v)" "log_frame s s2" "log_frame s s3"
      using spec [OF u(9), of v] by blast
    then show ?thesis using out by (auto simp: open_txn_def)
  qed
  ultimately show ?thesis
    using that [of b s1] u(1,2) log_frame_fs [OF u(3)] r(1,3) u(7) f by simp
qed

lemma bzero_spec:
  fixes s :: "'a kfs_scheme"
  assumes "open_txn D N s L" "n \<notin> log_region (log_start s) N" "length L + 1 < N"
  shows "\<exists>s'. bzero D n s = Ok () s' \<and> open_txn D N s' (logged n L) \<and> bval s' = (bval s)(n := replicate BSIZE 0) \<and> log_frame s s'"
proof -
  obtain b s1 where u: "bread D n s = Ok b s1" "\<forall>v. \<exists>s2 s3. log_write b (set_data b v s1) = Ok () s2 \<and> brelse b s2 = Ok () s3 \<and> open_txn D N s3 (logged n L) \<and>
       bval s3 = (bval s)(n := v) \<and> log_frame s s2 \<and> log_frame s s3"
    by (rule fs_block [OF assms])
  obtain s2 s3 where "log_write b (set_data b (replicate BSIZE 0) s1) = Ok () s2" "brelse b s2 = Ok () s3" "open_txn D N s3 (logged n L)"
       "bval s3 = (bval s)(n := replicate BSIZE 0)" "log_frame s s3"
    using spec [OF u(2), of "replicate BSIZE 0"] by blast
  then show ?thesis using u(1) by (simp add: bzero_def)
qed

section \<open>The bitmap\<close>

lemma bm_used_bit: "bm_used d bi \<longleftrightarrow> bit (d ! (bi div 8)) (bi mod 8)"
  by (simp add: bm_used_def bit_iff_and_push_bit_not_eq_0)

lemma bm_used_update:
  assumes "bi div 8 < length d"
  shows "bm_used (bm_set d bi) bj \<longleftrightarrow> bj = bi \<or> bm_used d bj" "bm_used (bm_clear d bi) bj \<longleftrightarrow> bj \<noteq> bi \<and> bm_used d bj"
proof -
  have "bj = bi \<longleftrightarrow> bj div 8 = bi div 8 \<and> bj mod 8 = bi mod 8" by (metis div_mult_mod_eq)
  moreover have "bi mod 8 < 8" "bj mod 8 < 8" by simp_all
  ultimately show "bm_used (bm_set d bi) bj \<longleftrightarrow> bj = bi \<or> bm_used d bj" "bm_used (bm_clear d bi) bj \<longleftrightarrow> bj \<noteq> bi \<and> bm_used d bj"
    using assms by (auto simp: bm_used_bit bm_set_def bm_clear_def nth_list_update bit_or_iff bit_and_iff bit_not_iff
        bit_push_bit_iff bit_1_iff bit_exp_iff)
qed

lemma length_bm [simp]: "length (bm_set d bi) = length d" "length (bm_clear d bi) = length d"
  by (simp_all add: bm_set_def bm_clear_def)

text \<open>Block \<open>b\<close> is marked in the bitmap.\<close>

definition blk_used :: "'a kfs_scheme \<Rightarrow> u32 \<Rightarrow> bool" where
  "blk_used s b \<longleftrightarrow> bm_used (bval s (BBLOCK b (sb s))) (unat b mod BPB)"

definition blk_no :: "'a kfs_scheme \<Rightarrow> u32 \<Rightarrow> bool" where
  "blk_no s b \<longleftrightarrow> unat b < unat (sb_size (sb s))"

text \<open>
  The bitmap lies outside the log, and the blocks it calls free belong neither to the log nor to the
  bitmap: \<^verbatim>\<open>mkfs\<close> marks them all.
\<close>

definition bitmap_ok :: "nat \<Rightarrow> 'a kfs_scheme \<Rightarrow> bool" where
  "bitmap_ok N s \<longleftrightarrow> (\<forall>b. blk_no s b \<longrightarrow>
     length (bval s (BBLOCK b (sb s))) = BSIZE \<and> BBLOCK b (sb s) \<notin> log_region (log_start s) N \<and>
     (\<not> blk_used s b \<longrightarrow> b \<notin> log_region (log_start s) N \<and> (\<forall>c. blk_no s c \<longrightarrow> b \<noteq> BBLOCK c (sb s))))"

lemma bitmap_okD:
  assumes "bitmap_ok N s" "blk_no s b"
  shows "length (bval s (BBLOCK b (sb s))) = BSIZE" "BBLOCK b (sb s) \<notin> log_region (log_start s) N"
    "\<not> blk_used s b \<Longrightarrow> b \<notin> log_region (log_start s) N" "\<not> blk_used s b \<Longrightarrow> blk_no s c \<Longrightarrow> b \<noteq> BBLOCK c (sb s)"
  using assms unfolding bitmap_ok_def by blast+

lemma BBLOCK_word: "unat (b div of_nat BPB) = unat b div BPB" for b :: u32
  by (simp add: BPB_def BSIZE_def unat_div)

lemma BBLOCK_eq: "unat b div BPB = unat c div BPB \<longleftrightarrow> BBLOCK b S = BBLOCK c S" for b c :: u32
proof -
  have "unat b div BPB = unat c div BPB \<longleftrightarrow> b div of_nat BPB = c div of_nat BPB" by (metis BBLOCK_word word_unat_eq_iff)
  then show ?thesis by (simp add: BBLOCK_def)
qed

lemma BBLOCK_base:
  assumes "b mod BPB = 0" "bi < BPB" "b + bi < 2 ^ 32"
  shows "BBLOCK (of_nat (b + bi)) S = BBLOCK (of_nat b) S" "unat (of_nat (b + bi) :: u32) mod BPB = bi"
proof -
  have u: "unat (of_nat (b + bi) :: u32) = b + bi" "unat (of_nat b :: u32) = b" using assms(3) by (simp_all add: unat_of_nat del: of_nat_add)
  obtain q where q: "b = q * BPB" using assms(1) by (metis mod_eq_0_iff_dvd dvdE mult.commute)
  have "(b + bi) div BPB = b div BPB" "(b + bi) mod BPB = bi" using assms(2) by (simp_all add: q)
  then show "BBLOCK (of_nat (b + bi)) S = BBLOCK (of_nat b) S" "unat (of_nat (b + bi) :: u32) mod BPB = bi"
    using BBLOCK_eq [of "of_nat (b + bi)" "of_nat b" S] u by simp_all
qed

lemma same_blk: "bval s' = bval s \<Longrightarrow> sb s' = sb s \<Longrightarrow> blk_used s' = blk_used s" "sb s' = sb s \<Longrightarrow> blk_no s' = blk_no s"
  for s s' :: "'a kfs_scheme"
  by (auto simp: blk_used_def blk_no_def fun_eq_iff)

section \<open>Allocating a block\<close>

definition allocated :: "u32 \<Rightarrow> nat \<Rightarrow> 'a kfs_scheme \<Rightarrow> u32 list \<Rightarrow> u32 \<Rightarrow> 'a kfs_scheme \<Rightarrow> bool" where
  "allocated D N s L b s' \<longleftrightarrow> open_txn D N s' (logged b (logged (BBLOCK b (sb s)) L)) \<and> sb s' = sb s \<and>
     bval s' = (bval s)(BBLOCK b (sb s) := bm_set (bval s (BBLOCK b (sb s))) (unat b mod BPB), b := replicate BSIZE 0)"

lemma open_txn_con: "open_txn D N s L \<Longrightarrow> open_txn D N (s\<lparr>con_out := c\<rparr>) L \<and> bval (s\<lparr>con_out := c\<rparr>) = bval s" for s :: "'a kfs_scheme"
  unfolding open_txn_def txn_def using bc_cong [of "s\<lparr>con_out := c\<rparr>" s] by (auto simp: cur_pid_def bval_def)

lemma length_logged: "length (logged n L) \<le> length L + 1"
  by (simp add: logged_def)

lemma balloc_found:
  fixes s :: "'a kfs_scheme"
  assumes o: "open_txn D N s L" and bm: "bitmap_ok N s" and len: "length L + 2 < N"
    and b: "b mod BPB = 0" "bi < BPB" "b + bi < unat (sb_size (sb s))" "\<not> blk_used s (of_nat (b + bi))"
    and r: "bread D (BBLOCK (of_nat b) (sb s)) s = Ok bp s1"
      "\<forall>v. \<exists>s2 s3. log_write bp (set_data bp v s1) = Ok () s2 \<and> brelse bp s2 = Ok () s3 \<and> open_txn D N s3 (logged (BBLOCK (of_nat b) (sb s)) L) \<and>
       bval s3 = (bval s)(BBLOCK (of_nat b) (sb s) := v) \<and> log_frame s s2 \<and> log_frame s s3"
  shows "\<exists>s'. andthen (log_write bp (set_data bp (bm_set (bval s (BBLOCK (of_nat b) (sb s))) bi) s1)) (\<lambda>_ s.
      andthen (brelse bp s) (\<lambda>_ s. andthen (bzero D (of_nat (b + bi)) s) (\<lambda>_ s. Ok (of_nat (b + bi)) s))) = Ok (of_nat (b + bi)) s' \<and>
      allocated D N s L (of_nat (b + bi)) s'"
proof -
  let ?x = "of_nat (b + bi) :: u32"
  have "unat (sb_size (sb s)) < 2 ^ 32" using unsigned_less [of "sb_size (sb s)", where 'a = nat] by simp
  then have lt: "b + bi < 2 ^ 32" using b(3) by simp
  then have x: "unat ?x = b + bi" by (simp add: unat_of_nat del: of_nat_add)
  note base = BBLOCK_base [OF b(1,2) lt]
  have no: "blk_no s ?x" using b(3) x by (simp add: blk_no_def)
  obtain s2 s3 where w: "log_write bp (set_data bp (bm_set (bval s (BBLOCK (of_nat b) (sb s))) bi) s1) = Ok () s2" "brelse bp s2 = Ok () s3"
    "open_txn D N s3 (logged (BBLOCK (of_nat b) (sb s)) L)"
    "bval s3 = (bval s)(BBLOCK (of_nat b) (sb s) := bm_set (bval s (BBLOCK (of_nat b) (sb s))) bi)" "log_frame s s3"
    using spec [OF r(2)] by blast
  have reg: "?x \<notin> log_region (log_start s3) N" using bitmap_okD(3) [OF bm no b(4)] log_frame_fs [OF w(5)] by simp
  have "length (logged (BBLOCK (of_nat b) (sb s)) L) + 1 < N" using length_logged [of "BBLOCK (of_nat b) (sb s)" L] len by simp
  then obtain s4 where z: "bzero D ?x s3 = Ok () s4" "open_txn D N s4 (logged ?x (logged (BBLOCK (of_nat b) (sb s)) L))"
    "bval s4 = (bval s3)(?x := replicate BSIZE 0)" "log_frame s3 s4"
    using bzero_spec [OF w(3) reg] by blast
  have "sb s4 = sb s" using log_frame_fs [OF z(4)] log_frame_fs [OF w(5)] by simp
  then have "allocated D N s L ?x s4" using z(2,3) w(4) base unfolding allocated_def by simp
  then show ?thesis using w(1,2) z(1) by simp
qed

text \<open>One round of the outer loop: the scan of one bitmap block.\<close>

lemma balloc_scan:
  fixes s :: "'a kfs_scheme"
  assumes o: "open_txn D N s L" and bm: "bitmap_ok N s" and len: "length L + 2 < N" and b: "b mod BPB = 0" "b < nblk"
    and nblk: "nblk = unat (sb_size (sb s))"
  shows "(\<exists>x s'. b \<le> unat x \<and> blk_no s x \<and> \<not> blk_used s x \<and> (\<forall>c < x. b \<le> unat c \<longrightarrow> blk_used s c) \<and>
      balloc_loop D nblk b s = Ok x s' \<and> allocated D N s L x s') \<or>
    (\<forall>c. b \<le> unat c \<longrightarrow> unat c < b + BPB \<longrightarrow> blk_no s c \<longrightarrow> blk_used s c) \<and>
      (\<exists>s2. balloc_loop D nblk b s = balloc_loop D nblk (b + BPB) s2 \<and> open_txn D N s2 L \<and> bval s2 = bval s \<and> log_frame s s2)"
proof -
  let ?n = "BBLOCK (of_nat b) (sb s)"
  have lt: "nblk < 2 ^ 32" using unsigned_less [of "sb_size (sb s)", where 'a = nat] nblk by simp
  then have no: "blk_no s (of_nat b)" using b(2) nblk by (simp add: blk_no_def unat_of_nat)
  have len': "length L + 1 < N" using len by simp
  obtain bp s1 where r: "bread D ?n s = Ok bp s1" "b_data (bufs s1 bp) = bval s ?n" "sb s1 = sb s"
    "\<forall>v. \<exists>s2 s3. log_write bp (set_data bp v s1) = Ok () s2 \<and> brelse bp s2 = Ok () s3 \<and> open_txn D N s3 (logged ?n L) \<and>
       bval s3 = (bval s)(?n := v) \<and> log_frame s s2 \<and> log_frame s s3"
    "\<exists>s2. brelse bp s1 = Ok () s2 \<and> open_txn D N s2 L \<and> bval s2 = bval s \<and> log_frame s s2"
    by (rule fs_block [OF o bitmap_okD(2) [OF bm no] len'])
  note loop = balloc_loop.simps [of D nblk b s, simplified b(2) r(1) if_True andthen.simps r(2)]
  have used: "bm_used (bval s ?n) bi = blk_used s (of_nat (b + bi))" if "bi < BPB" "b + bi < nblk" for bi
    using BBLOCK_base [OF b(1) that(1)] that(2) lt by (simp add: blk_used_def del: of_nat_add)
  have all: "blk_used s c" if "b \<le> unat c" "unat c < b + m" "m \<le> BPB" "blk_no s c"
      "\<And>j. j < m \<Longrightarrow> b + j < nblk \<Longrightarrow> bm_used (bval s ?n) j" for c m
    using used [of "unat c - b"] that(5) [of "unat c - b"] that(1-4) nblk by (simp add: blk_no_def)
  show ?thesis
  proof (cases "List.find (\<lambda>bi. b + bi < nblk \<and> \<not> bm_used (bval s ?n) bi) [0..<BPB]")
    case (Some bi)
    then have bi: "bi < BPB" "b + bi < nblk" "\<not> bm_used (bval s ?n) bi" "\<And>j. j < bi \<Longrightarrow> b + j < nblk \<Longrightarrow> bm_used (bval s ?n) j"
      by (auto simp: find_Some_iff)
    let ?x = "of_nat (b + bi) :: u32"
    have x: "unat ?x = b + bi" using bi(2) lt by (simp add: unat_of_nat del: of_nat_add)
    have nu: "\<not> blk_used s ?x" using used [OF bi(1,2)] bi(3) by simp
    obtain s' where "balloc_loop D nblk b s = Ok ?x s'" "allocated D N s L ?x s'"
      using balloc_found [OF o bm len b(1) bi(1) bi(2) [unfolded nblk] nu r(1,4)] loop unfolding Some option.case by metis
    moreover have "blk_used s c" if "c < ?x" "b \<le> unat c" for c
      using all [OF that(2), of bi] that(1) x bi(1,2,4) nblk by (simp add: word_less_nat_alt blk_no_def)
    moreover have "blk_no s ?x" "b \<le> unat ?x" using x bi(2) nblk by (simp_all add: blk_no_def)
    ultimately show ?thesis using nu by blast
  next
    case None
    then have "bm_used (bval s ?n) j" if "j < BPB" "b + j < nblk" for j using that by (auto simp: find_None_iff)
    then have "blk_used s c" if "b \<le> unat c" "unat c < b + BPB" "blk_no s c" for c using all [OF that(1,2) _ that(3)] by blast
    moreover have "\<exists>s2. balloc_loop D nblk b s = balloc_loop D nblk (b + BPB) s2 \<and> open_txn D N s2 L \<and> bval s2 = bval s \<and> log_frame s s2"
      using r(5) loop by (auto simp: None)
    ultimately show ?thesis by blast
  qed
qed

lemma balloc_loop_spec:
  fixes s :: "'a kfs_scheme"
  assumes "open_txn D N s L" "bitmap_ok N s" "length L + 2 < N" "b mod BPB = 0" "nblk = unat (sb_size (sb s))"
  shows "(\<exists>x s'. b \<le> unat x \<and> blk_no s x \<and> \<not> blk_used s x \<and> (\<forall>c < x. b \<le> unat c \<longrightarrow> blk_used s c) \<and>
      balloc_loop D nblk b s = Ok x s' \<and> allocated D N s L x s') \<or>
    (\<forall>x. b \<le> unat x \<longrightarrow> blk_no s x \<longrightarrow> blk_used s x) \<and>
      (\<exists>s'. balloc_loop D nblk b s = Ok 0 s' \<and> open_txn D N s' L \<and> bval s' = bval s \<and> sb s' = sb s)"
  using assms
proof (induction "nblk - b" arbitrary: b s rule: less_induct)
  case less
  show ?case
  proof (cases "b < nblk")
    case False
    have "kprintf (''balloc: out of blocks'' @ [CHR 0x0A]) [] s = Ok () (s\<lparr>con_out := con_out s @ ''balloc: out of blocks'' @ [CHR 0x0A]\<rparr>)"
      by (simp add: kprintf_def printf_def printf_loop.simps)
    then have "balloc_loop D nblk b s = Ok 0 (s\<lparr>con_out := con_out s @ ''balloc: out of blocks'' @ [CHR 0x0A]\<rparr>)"
      using False by (subst balloc_loop.simps) simp
    then show ?thesis using open_txn_con [OF less.prems(1)] False less.prems(5) by (simp add: blk_no_def)
  next
    case True
    from balloc_scan [OF less.prems(1-4) True less.prems(5)] show ?thesis
    proof (elim disjE exE conjE)
      fix s2 assume low: "\<forall>c. b \<le> unat c \<longrightarrow> unat c < b + BPB \<longrightarrow> blk_no s c \<longrightarrow> blk_used s c"
        and loop: "balloc_loop D nblk b s = balloc_loop D nblk (b + BPB) s2"
        and s2: "open_txn D N s2 L" "bval s2 = bval s" "log_frame s s2"
      have sb: "sb s2 = sb s" "log_start s2 = log_start s" using log_frame_fs [OF s2(3)] by simp_all
      note same = same_blk(1) [OF s2(2) sb(1)] same_blk(2) [OF sb(1)]
      have bm: "bitmap_ok N s2" using less.prems(2) by (simp add: bitmap_ok_def same s2(2) sb)
      have al: "allocated D N s2 L x s' = allocated D N s L x s'" for x s' by (simp add: allocated_def s2(2) sb)
      have m: "nblk - (b + BPB) < nblk - b" "(b + BPB) mod BPB = 0" "nblk = unat (sb_size (sb s2))"
        using True less.prems(4,5) sb by (simp_all add: BPB_def BSIZE_def)
      have low': "blk_used s c" if "b \<le> unat c" "c < x" "blk_no s x" "b + BPB \<le> unat c \<Longrightarrow> blk_used s c" for c x
        using low that by (cases "unat c < b + BPB") (auto simp: blk_no_def word_less_nat_alt)
      show ?thesis using less.hyps [OF m(1) s2(1) bm less.prems(3) m(2,3), unfolded same al s2(2) sb]
      proof (elim disjE exE conjE)
        fix x s' assume "b + BPB \<le> unat x" "blk_no s x" "\<not> blk_used s x" "\<forall>c < x. b + BPB \<le> unat c \<longrightarrow> blk_used s c"
          "balloc_loop D nblk (b + BPB) s2 = Ok x s'" "allocated D N s L x s'"
        then show ?thesis using low' loop by (intro disjI1 exI [of _ x] exI [of _ s']) auto
      next
        fix s' assume "\<forall>x. b + BPB \<le> unat x \<longrightarrow> blk_no s x \<longrightarrow> blk_used s x"
          "balloc_loop D nblk (b + BPB) s2 = Ok 0 s'" "open_txn D N s' L" "bval s' = bval s" "sb s' = sb s"
        then show ?thesis using low loop by (intro disjI2) (metis not_le_imp_less)
      qed
    qed blast
  qed
qed

text \<open>What setting or clearing one bit of the bitmap means for the other blocks.\<close>

lemma blk_used_update:
  fixes s s' :: "'a kfs_scheme"
  assumes "length (bval s (BBLOCK b (sb s))) = BSIZE" "sb s' = sb s"
  shows "bval s' (BBLOCK c (sb s)) = ((bval s)(BBLOCK b (sb s) := bm_set (bval s (BBLOCK b (sb s))) (unat b mod BPB))) (BBLOCK c (sb s)) \<Longrightarrow>
      blk_used s' c \<longleftrightarrow> c = b \<or> blk_used s c"
    "bval s' (BBLOCK c (sb s)) = ((bval s)(BBLOCK b (sb s) := bm_clear (bval s (BBLOCK b (sb s))) (unat b mod BPB))) (BBLOCK c (sb s)) \<Longrightarrow>
      blk_used s' c \<longleftrightarrow> c \<noteq> b \<and> blk_used s c"
proof -
  have lt: "unat b mod BPB div 8 < length (bval s (BBLOCK b (sb s)))" using assms(1) by (simp add: BPB_def BSIZE_def less_mult_imp_div_less)
  have "c = b \<longleftrightarrow> BBLOCK c (sb s) = BBLOCK b (sb s) \<and> unat c mod BPB = unat b mod BPB"
    using BBLOCK_eq [of c b "sb s"] by (metis div_mult_mod_eq word_unat_eq_iff)
  then show "bval s' (BBLOCK c (sb s)) = ((bval s)(BBLOCK b (sb s) := bm_set (bval s (BBLOCK b (sb s))) (unat b mod BPB))) (BBLOCK c (sb s)) \<Longrightarrow>
      blk_used s' c \<longleftrightarrow> c = b \<or> blk_used s c"
    "bval s' (BBLOCK c (sb s)) = ((bval s)(BBLOCK b (sb s) := bm_clear (bval s (BBLOCK b (sb s))) (unat b mod BPB))) (BBLOCK c (sb s)) \<Longrightarrow>
      blk_used s' c \<longleftrightarrow> c \<noteq> b \<and> blk_used s c"
    using bm_used_update [OF lt, of "unat c mod BPB"] assms(2) by (auto simp: blk_used_def)
qed

text \<open>
  C33. Inside a transaction with room for two more blocks, \<^verbatim>\<open>balloc\<close> returns the lowest-numbered free
  block of the disk: it marks that block and no other in the bitmap, fills it with zeros, changes no
  other block, and leaves both blocks in the log. When no block is free it returns 0 and changes nothing.
\<close>

theorem balloc_first_free:
  fixes s :: "'a kfs_scheme"
  assumes o: "open_txn D N s L" and bm: "bitmap_ok N s" and len: "length L + 2 < N"
  shows "(\<exists>b s'. blk_no s b \<and> \<not> blk_used s b \<and> (\<forall>c < b. blk_used s c) \<and> balloc D s = Ok b s' \<and>
      open_txn D N s' (logged b (logged (BBLOCK b (sb s)) L)) \<and> bval s' b = replicate BSIZE 0 \<and>
      (\<forall>c. blk_no s c \<longrightarrow> blk_used s' c = (c = b \<or> blk_used s c)) \<and>
      (\<forall>n. n \<noteq> b \<longrightarrow> n \<noteq> BBLOCK b (sb s) \<longrightarrow> bval s' n = bval s n)) \<or>
    (\<forall>c. blk_no s c \<longrightarrow> blk_used s c) \<and> (\<exists>s'. balloc D s = Ok 0 s' \<and> open_txn D N s' L \<and> bval s' = bval s)"
proof -
  have used: "blk_used s' c = (c = b \<or> blk_used s c)"
    if "allocated D N s L b s'" "blk_no s b" "\<not> blk_used s b" "blk_no s c" for b s' c
    using blk_used_update(1) [OF bitmap_okD(1) [OF bm that(2)]] bitmap_okD(4) [OF bm that(2,3,4)] that(1)
    by (simp add: allocated_def)
  from balloc_loop_spec [OF o bm len mod_0 refl] show ?thesis unfolding balloc_def [symmetric]
  proof (elim disjE exE conjE)
    fix b s' assume a: "blk_no s b" "\<not> blk_used s b" "\<forall>c < b. 0 \<le> unat c \<longrightarrow> blk_used s c" "balloc D s = Ok b s'" "allocated D N s L b s'"
    then show ?thesis using used [OF a(5,1,2)] a(5) unfolding allocated_def by (intro disjI1 exI [of _ b] exI [of _ s']) simp
  qed simp_all
qed

text \<open>A transaction that has just begun on a given disk, with an empty log.\<close>

definition txn_on :: "(u32 \<Rightarrow> u8 list) \<Rightarrow> ktrap" where
  "txn_on d = (binit ((boot_kernel zero_mem 0)\<lparr>disk := d\<rparr>))\<lparr>log_outstanding := 1\<rparr>"

lemma txn_on:
  assumes "d 2 = replicate BSIZE 0"
  shows "open_txn 1 30 (txn_on d) []" "bval (txn_on d) = d" "log_start (txn_on d) = 2"
    "sb (txn_on d) = sb (boot_kernel zero_mem 0)" "itable (txn_on d) = itable (boot_kernel zero_mem 0)"
proof -
  let ?b = "(boot_kernel zero_mem 0)\<lparr>disk := d\<rparr>"
  have b: "fresh ?b" "curproc ?b \<noteq> None" by (simp_all add: fresh_def boot_kernel_def zero_buf_def)
  note i = binit_bc [OF b, of 1] binit_disk [of ?b] log_fields [OF binit_frame, of ?b]
  have c: "bc 1 {} [] (txn_on d) (rev [0..<NBUF])" and v: "bval (txn_on d) = disk ?b"
    using i(1,2) bc_cong [of "txn_on d" "binit ?b"] by (simp_all add: txn_on_def cur_pid_def)
  then show "bval (txn_on d) = d" by simp
  show l: "log_start (txn_on d) = 2" using i(6) by (simp add: txn_on_def boot_kernel_def)
  have o: "log_outstanding (txn_on d) = 1" by (simp add: txn_on_def)
  have "hdr_n (replicate BSIZE 0) = 0" by (simp add: hdr_n_def blk_u32_def blk_get_def le_word_def BSIZE_def numeral_eq_Suc)
  then have "txn 1 30 (txn_on d) []"
    using i(3-9) assms by (simp add: txn_def l) (simp add: txn_on_def boot_kernel_def)
  then show "open_txn 1 30 (txn_on d) []" using c o by (auto simp: open_txn_def)
  show "sb (txn_on d) = sb (boot_kernel zero_mem 0)" "itable (txn_on d) = itable (boot_kernel zero_mem 0)"
    using log_frame_fs [OF log_frame_bio [OF binit_frame], of ?b] by (simp_all add: txn_on_def)
qed

text \<open>A disk whose bitmap has the blocks up to 47 in use.\<close>

definition fs_txn :: ktrap where
  "fs_txn = txn_on ((\<lambda>_. replicate BSIZE 0)(45 := replicate 6 255 @ replicate 1018 0))"

lemma fs_txn: "open_txn 1 30 fs_txn []" "bval fs_txn = (\<lambda>_. replicate BSIZE 0)(45 := replicate 6 255 @ replicate 1018 0)"
  "log_start fs_txn = 2" "sb fs_txn = sb (boot_kernel zero_mem 0)"
  unfolding fs_txn_def by (subst txn_on; simp)+

lemma fs_txn_used: "blk_no fs_txn b \<longleftrightarrow> unat b < 2000" "blk_no fs_txn b \<Longrightarrow> BBLOCK b (sb fs_txn) = 45"
  "blk_no fs_txn b \<Longrightarrow> blk_used fs_txn b \<longleftrightarrow> unat b < 48"
proof -
  show n: "blk_no fs_txn b \<longleftrightarrow> unat b < 2000" by (simp add: blk_no_def fs_txn(4) boot_kernel_def)
  show B: "BBLOCK b (sb fs_txn) = 45" if "blk_no fs_txn b"
  proof -
    have "unat (b div of_nat BPB) = 0" using that n by (simp only: BBLOCK_word) (simp add: BPB_def BSIZE_def)
    then have "b div of_nat BPB = 0" by (simp add: unat_eq_0)
    then show ?thesis by (simp add: BBLOCK_def fs_txn(4) boot_kernel_def)
  qed
  have bit: "bm_used (replicate 6 255 @ replicate 1018 0) i \<longleftrightarrow> i < 48" if "i < 8192" for i
  proof -
    have "(255 :: u8) = - 1" by simp
    then have "bit (255 :: u8) (i mod 8)" by (simp only: bit_minus_1_iff) simp
    moreover have "i div 8 < 6 \<longleftrightarrow> i < 48" "i div 8 < 1024" using that by auto
    ultimately show ?thesis by (simp add: bm_used_bit nth_append)
  qed
  show "blk_used fs_txn b \<longleftrightarrow> unat b < 48" if "blk_no fs_txn b"
    using B [OF that] bit [of "unat b"] that n by (simp add: blk_used_def fs_txn(2) BPB_def BSIZE_def)
qed

lemma fs_txn_bitmap: "bitmap_ok 30 fs_txn"
  unfolding bitmap_ok_def
proof (intro allI impI conjI)
  fix b assume b: "blk_no fs_txn b"
  show "length (bval fs_txn (BBLOCK b (sb fs_txn))) = BSIZE" by (simp add: fs_txn_used(2) [OF b] fs_txn(2) BSIZE_def)
  show "BBLOCK b (sb fs_txn) \<notin> log_region (log_start fs_txn) 30"
    by (simp add: fs_txn_used(2) [OF b] fs_txn(3) log_region_iff)
  assume u: "\<not> blk_used fs_txn b"
  have ge: "48 \<le> unat b" using u fs_txn_used(3) [OF b] by simp
  then have "unat (b - 2) = unat b - 2" by (simp add: unat_sub word_le_nat_alt)
  then show "b \<notin> log_region (log_start fs_txn) 30" using ge by (simp add: fs_txn(3) log_region_iff)
  show "b \<noteq> BBLOCK c (sb fs_txn)" if "blk_no fs_txn c" for c using ge fs_txn_used(2) [OF that] by auto
qed

theorem balloc_first_free_witness: "\<exists>s'. balloc 1 fs_txn = Ok 48 s' \<and> blk_used s' 48 \<and> \<not> blk_used s' 49"
proof -
  have n: "blk_no fs_txn 48" "blk_no fs_txn 49" "blk_no fs_txn 47" by (simp_all add: fs_txn_used(1))
  note u = n [THEN fs_txn_used(3)]
  have "\<not> (\<forall>c. blk_no fs_txn c \<longrightarrow> blk_used fs_txn c)" using n(1) u(1) by auto
  then obtain b s' where b: "blk_no fs_txn b" "\<not> blk_used fs_txn b" "\<forall>c < b. blk_used fs_txn c" "balloc 1 fs_txn = Ok b s'"
    "\<forall>c. blk_no fs_txn c \<longrightarrow> blk_used s' c = (c = b \<or> blk_used fs_txn c)"
    using balloc_first_free [OF fs_txn(1) fs_txn_bitmap] by auto
  have "\<not> unat b < 48" using b(2) fs_txn_used(3) [OF b(1)] by simp
  moreover have "\<not> 48 < b" using b(3) u(1) by auto
  ultimately have "b = 48" by (simp add: word_less_nat_alt word_unat_eq_iff)
  then show ?thesis using b(4,5) n u by auto
qed

text \<open>
  C34. \<^verbatim>\<open>bfree\<close> of a block that is marked in the bitmap clears the mark of that block and of no other and
  changes nothing but its bitmap block, which it logs; of a block that is not marked it panics, so a
  block is never freed twice.
\<close>

theorem bfree_clears_mark:
  fixes s :: "'a kfs_scheme"
  assumes o: "open_txn D N s L" and bm: "bitmap_ok N s" and b: "blk_no s b" and len: "length L + 1 < N"
  shows "if blk_used s b
    then \<exists>s'. bfree D b s = Ok () s' \<and> open_txn D N s' (logged (BBLOCK b (sb s)) L) \<and>
      (\<forall>c. blk_used s' c = (c \<noteq> b \<and> blk_used s c)) \<and> (\<forall>n. n \<noteq> BBLOCK b (sb s) \<longrightarrow> bval s' n = bval s n)
    else bfree D b s = Panic ''freeing free block''"
proof -
  let ?n = "BBLOCK b (sb s)"
  obtain bp s1 where r: "bread D ?n s = Ok bp s1" "b_data (bufs s1 bp) = bval s ?n"
    "\<forall>v. \<exists>s2 s3. log_write bp (set_data bp v s1) = Ok () s2 \<and> brelse bp s2 = Ok () s3 \<and> open_txn D N s3 (logged ?n L) \<and>
       bval s3 = (bval s)(?n := v) \<and> log_frame s s2 \<and> log_frame s s3"
    by (rule fs_block [OF o bitmap_okD(2) [OF bm b] len])
  obtain s2 s3 where w: "log_write bp (set_data bp (bm_clear (bval s ?n) (unat b mod BPB)) s1) = Ok () s2" "brelse bp s2 = Ok () s3"
    "open_txn D N s3 (logged ?n L)" "bval s3 = (bval s)(?n := bm_clear (bval s ?n) (unat b mod BPB))" "log_frame s s3"
    using spec [OF r(3)] by blast
  have "blk_used s3 c = (c \<noteq> b \<and> blk_used s c)" for c
    using blk_used_update(2) [OF bitmap_okD(1) [OF bm b]] log_frame_fs [OF w(5)] w(4) by simp
  then show ?thesis using r(1,2) w by (simp add: bfree_def blk_used_def [symmetric] Let_def)
qed

theorem bfree_clears_mark_witness:
  "(\<exists>s'. bfree 1 47 fs_txn = Ok () s' \<and> \<not> blk_used s' 47 \<and> blk_used s' 46) \<and> bfree 1 48 fs_txn = Panic ''freeing free block''"
proof -
  have n: "blk_no fs_txn 46" "blk_no fs_txn 47" "blk_no fs_txn 48" by (simp_all add: fs_txn_used(1))
  note u = n [THEN fs_txn_used(3)]
  show ?thesis using bfree_clears_mark [OF fs_txn(1) fs_txn_bitmap n(2)] bfree_clears_mark [OF fs_txn(1) fs_txn_bitmap n(3)] u by auto
qed

end
