(* ===== verification/Ulib.thy ===== *)
theory Ulib
  imports CString Printf
begin

text \<open>
  The C library of the user programs: \<^verbatim>\<open>user/ulib.c\<close> and \<^verbatim>\<open>user/printf.c\<close>. Routines that only read a string
  take the list of its characters up to the terminating NUL, a pointer into it being the suffix it
  points to; routines that write memory act on the byte memory of the process. Names that the
  kernel also has carry the prefix \<open>u_\<close>. Loops that may never meet a NUL are partial functions.
  The lemmas give copies and comparisons their closed form, show that a printed number reads back
  with \<^verbatim>\<open>atoi\<close>, and bound the buffer of \<^verbatim>\<open>printint\<close>.
\<close>

section \<open>Strings\<close>

partial_function (option) u_strcpy :: "memory \<Rightarrow> u64 \<Rightarrow> u64 \<Rightarrow> memory option" where
  "u_strcpy m s t =
     (if m t \<noteq> 0 then u_strcpy (m(s := m t)) (s + 1) (t + 1) else Some (m(s := m t)))"

definition deref :: "string \<Rightarrow> int" where
  "deref p = (case p of [] \<Rightarrow> 0 | c # _ \<Rightarrow> of_char c)"

fun u_strcmp :: "string \<Rightarrow> string \<Rightarrow> int" where
  "u_strcmp p q =
     (if p \<noteq> [] \<and> q \<noteq> [] \<and> hd p = hd q then u_strcmp (tl p) (tl q) else deref p - deref q)"

declare u_strcmp.simps [simp del]

primrec u_strlen_loop :: "string \<Rightarrow> nat \<Rightarrow> nat" where
  "u_strlen_loop [] n = n"
| "u_strlen_loop (_ # s) n = u_strlen_loop s (Suc n)"

definition u_strlen :: "string \<Rightarrow> u32" where
  "u_strlen s = of_nat (u_strlen_loop s 0)"

primrec strchr :: "string \<Rightarrow> char \<Rightarrow> string option" where
  "strchr [] c = None"
| "strchr (x # s) c = (if x = CHR 0x00 then None else if x = c then Some (x # s) else strchr s c)"

text \<open>
  \<^verbatim>\<open>gets\<close> on the standard input \<open>input\<close>: the characters stored before the terminating NUL and the rest of
  the input. The first argument of the loop is the room left, \<^verbatim>\<open>max - 1 - i\<close>.
\<close>

primrec gets_loop :: "nat \<Rightarrow> string \<Rightarrow> string \<times> string" where
  "gets_loop 0 input = ([], input)"
| "gets_loop (Suc room) input =
     (case input of [] \<Rightarrow> ([], [])
      | c # input \<Rightarrow>
          if c = CHR 0x0A \<or> c = CHR 0x0D then ([c], input)
          else case gets_loop room input of (buf, input) \<Rightarrow> (c # buf, input))"

definition gets :: "int \<Rightarrow> string \<Rightarrow> string \<times> string" where
  "gets maxn input = gets_loop (nat (maxn - 1)) input"

text \<open>\<^verbatim>\<open>int\<close> arithmetic, kept in 32 bits.\<close>

definition wrap32 :: "int \<Rightarrow> int" where
  "wrap32 z = sint (word_of_int z :: u32)"

primrec atoi_loop :: "int \<Rightarrow> string \<Rightarrow> int" where
  "atoi_loop n [] = n"
| "atoi_loop n (c # s) =
     (if (48 :: int) \<le> of_char c \<and> of_char c \<le> (57 :: int) then atoi_loop (wrap32 (n * 10 + of_char c - 48)) s else n)"

definition atoi :: "string \<Rightarrow> int" where
  "atoi s = atoi_loop 0 s"

section \<open>Memory\<close>

definition u_memset :: "memory \<Rightarrow> u64 \<Rightarrow> int \<Rightarrow> u32 \<Rightarrow> memory" where
  "u_memset m dst c n = memset_loop m dst (word_of_int c) 0 (unat n)"

definition u_memmove :: "memory \<Rightarrow> u64 \<Rightarrow> u64 \<Rightarrow> int \<Rightarrow> memory" where
  "u_memmove m vdst vsrc n =
     (if vsrc > vdst then copy_up m vdst vsrc (nat n)
      else copy_down m (vdst + of_int n) (vsrc + of_int n) (nat n))"

definition u_memcmp :: "cstr \<Rightarrow> cstr \<Rightarrow> u32 \<Rightarrow> int" where
  "u_memcmp s1 s2 n = memcmp_loop s1 s2 0 (unat n)"

definition u_memcpy :: "memory \<Rightarrow> u64 \<Rightarrow> u64 \<Rightarrow> u32 \<Rightarrow> memory" where
  "u_memcpy m dst src n = u_memmove m dst src (sint n)"

section \<open>Formatted output\<close>

definition u_digits :: string where
  "u_digits = ''0123456789ABCDEF''"

function u_printint_digits :: "nat \<Rightarrow> nat \<Rightarrow> string" where
  "u_printint_digits base x =
     u_digits ! (x mod base) # (if 2 \<le> base \<and> x div base \<noteq> 0 then u_printint_digits base (x div base) else [])"
  by pat_completeness auto
termination
  by (relation "measure (\<lambda>(base, x). x)") (auto simp: div_eq_0_iff intro!: div_less_dividend)

declare u_printint_digits.simps [simp del]

text \<open>\<open>None\<close> is a number that does not fit the 16 characters of \<^verbatim>\<open>buf\<close>.\<close>

definition u_printint :: "u32 \<Rightarrow> nat \<Rightarrow> bool \<Rightarrow> string option" where
  "u_printint xx base sign =
     (let neg = sign \<and> sint xx < 0;
          x = (if neg then - xx else xx);
          buf = u_printint_digits base (unat x) @ (if neg then ''-'' else '''')
      in if length buf \<le> 16 then Some (rev buf) else None)"

primrec u_printptr_loop :: "nat \<Rightarrow> u64 \<Rightarrow> string" where
  "u_printptr_loop 0 x = []"
| "u_printptr_loop (Suc n) x = u_digits ! unat (drop_bit 60 x) # u_printptr_loop n (push_bit 4 x)"

definition u_printptr :: "u64 \<Rightarrow> string" where
  "u_printptr x = ''0x'' @ u_printptr_loop 16 x"

text \<open>
  The third parameter of \<^verbatim>\<open>printint\<close> is an \<^verbatim>\<open>int\<close>: whatever \<^verbatim>\<open>va_arg\<close> reads is cut to its low 32 bits. \<open>k\<close> is the
  number of format characters that the conversion uses after \<^verbatim>\<open>%\<close>.
\<close>

definition u_conv_num ::
  "(parg list \<Rightarrow> (u64 \<times> parg list) option) \<Rightarrow> nat \<Rightarrow> bool \<Rightarrow> nat \<Rightarrow> parg list \<Rightarrow> (string \<times> nat \<times> parg list) option" where
  "u_conv_num va base sign k ap =
     (case va ap of None \<Rightarrow> None
      | Some (w, ap) \<Rightarrow>
          (case u_printint (ucast w) base sign of None \<Rightarrow> None | Some out \<Rightarrow> Some (out, k, ap)))"

definition vprintf_conv :: "string \<Rightarrow> parg list \<Rightarrow> (string \<times> nat \<times> parg list) option" where
  "vprintf_conv fmt ap =
     (let c0 = at_fmt fmt 0;
          c1 = (if c0 \<noteq> CHR 0x00 then at_fmt fmt 1 else CHR 0x00);
          c2 = (if c1 \<noteq> CHR 0x00 then at_fmt fmt 2 else CHR 0x00)
      in if c0 = CHR ''d'' then u_conv_num va_int 10 True 1 ap
         else if c0 = CHR ''l'' \<and> c1 = CHR ''d'' then u_conv_num va_uint64 10 True 2 ap
         else if c0 = CHR ''l'' \<and> c1 = CHR ''l'' \<and> c2 = CHR ''d'' then u_conv_num va_uint64 10 True 3 ap
         else if c0 = CHR ''u'' then u_conv_num va_int 10 False 1 ap
         else if c0 = CHR ''l'' \<and> c1 = CHR ''u'' then u_conv_num va_uint64 10 False 2 ap
         else if c0 = CHR ''l'' \<and> c1 = CHR ''l'' \<and> c2 = CHR ''u'' then u_conv_num va_uint64 10 False 3 ap
         else if c0 = CHR ''x'' then u_conv_num va_int 16 False 1 ap
         else if c0 = CHR ''l'' \<and> c1 = CHR ''x'' then u_conv_num va_uint64 16 False 2 ap
         else if c0 = CHR ''l'' \<and> c1 = CHR ''l'' \<and> c2 = CHR ''x'' then u_conv_num va_uint64 16 False 3 ap
         else if c0 = CHR ''p'' then
           (case va_uint64 ap of None \<Rightarrow> None | Some (w, ap) \<Rightarrow> Some (u_printptr w, 1, ap))
         else if c0 = CHR ''s'' then
           (case va_str ap of None \<Rightarrow> None | Some (t, ap) \<Rightarrow> Some (t, 1, ap))
         else if c0 = CHR ''c'' then
           (case va_int ap of None \<Rightarrow> None | Some (w, ap) \<Rightarrow> Some ([char_of (unat w)], 1, ap))
         else if c0 = CHR ''%'' then Some (''%'', 1, ap)
         else Some ([CHR ''%'', c0], 1, ap))"

text \<open>The loop of \<^verbatim>\<open>vprintf\<close>; \<^verbatim>\<open>state\<close> is \<^verbatim>\<open>'%'\<close> exactly after a \<^verbatim>\<open>%\<close>, so a \<^verbatim>\<open>%\<close> that ends the format prints nothing.\<close>

function vprintf :: "string \<Rightarrow> parg list \<Rightarrow> string option" where
  "vprintf [] ap = Some []"
| "vprintf (c0 # fmt) ap =
     (if c0 \<noteq> CHR ''%'' then
        (case vprintf fmt ap of None \<Rightarrow> None | Some out \<Rightarrow> Some (c0 # out))
      else if fmt = [] then Some []
      else
        (case vprintf_conv fmt ap of None \<Rightarrow> None
         | Some (out, k, ap) \<Rightarrow>
             (case vprintf (drop k fmt) ap of None \<Rightarrow> None | Some rest \<Rightarrow> Some (out @ rest))))"
  by pat_completeness auto
termination
  by (relation "measure (\<lambda>(fmt, ap). length fmt)") auto

declare vprintf.simps(2) [simp del]

definition u_fprintf :: "int \<Rightarrow> string \<Rightarrow> parg list \<Rightarrow> (int \<times> string) option" where
  "u_fprintf fd fmt ap = (case vprintf fmt ap of None \<Rightarrow> None | Some out \<Rightarrow> Some (fd, out))"

definition u_printf :: "string \<Rightarrow> parg list \<Rightarrow> (int \<times> string) option" where
  "u_printf fmt ap = (case vprintf fmt ap of None \<Rightarrow> None | Some out \<Rightarrow> Some (1, out))"

section \<open>Searching\<close>

lemma strchr_Some:
  "strchr s c = Some q \<Longrightarrow> \<exists>l. s = l @ q \<and> q \<noteq> [] \<and> hd q = c \<and> c \<notin> set l \<and> CHR 0x00 \<notin> set l"
proof (induction s)
  case (Cons x s)
  show ?case
  proof (cases "x = c")
    case True
    then show ?thesis using Cons.prems by (intro exI [of _ "[]"]) (auto split: if_splits)
  next
    case False
    then obtain l where "s = l @ q" "q \<noteq> []" "hd q = c" "c \<notin> set l" "CHR 0x00 \<notin> set l" "x \<noteq> CHR 0x00"
      using Cons by (auto split: if_splits)
    then show ?thesis using False by (intro exI [of _ "x # l"]) auto
  qed
qed simp

lemma strchr_shorter: "strchr s c = Some q \<Longrightarrow> length q - Suc 0 < length s"
  using strchr_Some [of s c q] by (cases q) auto

lemma strchr_None: "strchr s c = None \<Longrightarrow> CHR 0x00 \<notin> set s \<Longrightarrow> c \<notin> set s"
  by (induction s) (auto split: if_splits)

section \<open>Copying a string\<close>

lemma u_strcpy_step:
  assumes "n < 2 ^ 32" "m (t + of_nat n) = 0" "\<forall>k < n. m (t + of_nat k) \<noteq> 0"
    and "\<forall>j \<le> n. \<forall>k \<le> n. s + of_nat j \<noteq> t + of_nat k"
  shows "u_strcpy m s t = Some (\<lambda>x. if unat (x - s) \<le> n then m (t + (x - s)) else m x)"
  using assms
proof (induction n arbitrary: m s t)
  case 0
  have "x = s" if "unat (x - s) = 0" for x using that by (simp add: unat_eq_zero)
  then show ?case using 0(2) by (subst u_strcpy.simps) (auto simp: fun_eq_iff)
next
  case (Suc n)
  let ?m = "m(s := m t)"
  have st: "s + of_nat 0 \<noteq> t + of_nat k" if "k \<le> Suc n" for k using Suc.prems(4) that by blast
  have keep: "?m (t + 1 + of_nat k) = m (t + of_nat (Suc k))" if "k \<le> n" for k
    using st [of "Suc k"] that by (auto simp: add.assoc)
  have "u_strcpy ?m (s + 1) (t + 1) = Some (\<lambda>x. if unat (x - (s + 1)) \<le> n then ?m (t + 1 + (x - (s + 1))) else ?m x)"
  proof (rule Suc.IH)
    show "n < 2 ^ 32" using Suc.prems(1) by simp
    show "?m (t + 1 + of_nat n) = 0" using keep [of n] Suc.prems(2) by simp
    show "\<forall>k < n. ?m (t + 1 + of_nat k) \<noteq> 0"
    proof (intro allI impI)
      fix k assume k: "k < n"
      then have "m (t + of_nat (Suc k)) \<noteq> 0" using Suc.prems(3) by blast
      then show "?m (t + 1 + of_nat k) \<noteq> 0" using keep [of k] k by simp
    qed
    show "\<forall>j \<le> n. \<forall>k \<le> n. s + 1 + of_nat j \<noteq> t + 1 + of_nat k"
    proof (intro allI impI)
      fix j k assume "j \<le> n" "k \<le> n"
      then have "s + of_nat (Suc j) \<noteq> t + of_nat (Suc k)" using Suc.prems(4) by blast
      then show "s + 1 + of_nat j \<noteq> t + 1 + of_nat k" by (simp add: ac_simps)
    qed
  qed
  moreover have "m t \<noteq> 0" using Suc.prems(3) [rule_format, of 0] by simp
  moreover have "(if unat (x - (s + 1)) \<le> n then ?m (t + 1 + (x - (s + 1))) else ?m x) =
      (if unat (x - s) \<le> Suc n then m (t + (x - s)) else m x)" for x
  proof (cases "x = s")
    case True
    then show ?thesis using Suc.prems(1) by (simp add: unsigned_minus_1_eq_mask mask_eq_exp_minus_1)
  next
    case False
    then have nz: "x - s \<noteq> 0" by simp
    have u: "unat (x - (s + 1)) = unat (x - s) - 1" using unat_minus_one [OF nz] by (simp only: diff_diff_eq)
    have pos: "0 < unat (x - s)" using nz by (simp add: unat_gt_0)
    have "t + (x - s) \<noteq> s" if "unat (x - s) \<le> Suc n" using st [OF that] by auto
    then show ?thesis using u pos False by auto
  qed
  ultimately show ?case by (subst u_strcpy.simps) simp
qed

text \<open>
  C27: \<^verbatim>\<open>strcpy\<close> returns when the source is terminated and the destination does not overlap it: after \<open>n + 1\<close>
  rounds, \<open>n\<close> being the length of the source, the destination holds the source with its NUL and no
  other byte has changed.
\<close>

theorem strcpy_returns:
  assumes "n < 2 ^ 32" "m (t + of_nat n) = 0" "\<forall>k < n. m (t + of_nat k) \<noteq> 0"
    and "\<forall>j \<le> n. \<forall>k \<le> n. s + of_nat j \<noteq> t + of_nat k"
  shows "\<exists>m'. u_strcpy m s t = Some m' \<and> (\<forall>k \<le> n. m' (s + of_nat k) = m (t + of_nat k)) \<and>
    (\<forall>x. n < unat (x - s) \<longrightarrow> m' x = m x)"
proof -
  have "unat (of_nat k :: u64) = k" if "k \<le> n" for k using that assms(1) by (simp add: unat_of_nat)
  then show ?thesis using u_strcpy_step [OF assms] by (intro exI [of _ "\<lambda>x. if unat (x - s) \<le> n then m (t + (x - s)) else m x"]) auto
qed

theorem strcpy_returns_witness:
  "\<exists>m'. u_strcpy (\<lambda>a. if a = 0x100 then 7 else if a = 0x101 then 9 else 0) 0x200 0x100 = Some m' \<and> m' 0x201 = 9 \<and> m' 0x202 = 0"
proof -
  let ?m = "(\<lambda>a. if a = 0x100 then 7 else if a = 0x101 then 9 else 0) :: memory"
  have "\<forall>k < 2. ?m (0x100 + of_nat k) \<noteq> 0" "\<forall>j \<le> 2. \<forall>k \<le> 2. (0x200 :: u64) + of_nat j \<noteq> 0x100 + of_nat k"
    unfolding numeral_2_eq_2 less_Suc_eq_le [symmetric] All_less_Suc by simp_all
  then obtain m' where m': "u_strcpy ?m 0x200 0x100 = Some m'" "\<And>k. k \<le> 2 \<Longrightarrow> m' (0x200 + of_nat k) = ?m (0x100 + of_nat k)"
    using strcpy_returns [where n = 2 and m = ?m and t = "0x100" and s = "0x200"] by auto
  have "m' (0x200 + of_nat 1) = ?m (0x100 + of_nat 1)" "m' (0x200 + of_nat 2) = ?m (0x100 + of_nat 2)" by (rule m'(2); simp)+
  then show ?thesis using m'(1) by (intro exI [of _ m']) simp
qed

section \<open>Numbers\<close>

lemma ucast_scast: "(ucast (scast x :: u64) :: u32) = x" for x :: u32
  by (rule bit_word_eqI) (simp add: bit_simps)

lemma sint_nonneg:
  fixes x :: u32
  assumes "0 \<le> sint x"
  shows "unat x < 2 ^ 31" "int (unat x) = sint x"
proof -
  have "\<not> bit x 31" using bit_last_iff [of x] assms by simp
  then have "bit (take_bit 31 x) n = bit x n" for n
    using bit_imp_le_length [of x n] by (cases "n = 31") (auto simp: bit_take_bit_iff)
  then have "take_bit 31 x = x" by (simp add: bit_eq_iff)
  then show lt: "unat x < 2 ^ 31" by (metis take_bit_nat_less_exp unsigned_take_bit_eq)
  have "sint x = sint (word_of_int (int (unat x)) :: u32)" by simp
  also have "int (unat x) < int (2 ^ 31)" using lt by (simp only: of_nat_less_iff)
  then have "sint (word_of_int (int (unat x)) :: u32) = int (unat x)"
    using order_trans [OF _ uint_ge_0 [of x], of "- 2147483648"]
    by (subst signed_of_int) (simp add: signed_take_bit_int_eq_self_iff)
  finally show "int (unat x) = sint x" by simp
qed

lemma wrap32_small: "0 \<le> z \<Longrightarrow> z < 2 ^ 31 \<Longrightarrow> wrap32 z = z"
  by (simp add: wrap32_def signed_of_int signed_take_bit_int_eq_self)

lemma atoi_loop_snoc:
  "\<forall>c \<in> set s. (48 :: int) \<le> of_char c \<and> of_char c \<le> (57 :: int) \<Longrightarrow> atoi_loop n (s @ [c]) = atoi_loop (atoi_loop n s) [c]"
  by (induction s arbitrary: n) auto

lemma u_digit: "d < 10 \<Longrightarrow> of_char (u_digits ! d) = (48 + int d)"
proof -
  assume "d < 10"
  then have "d \<in> set [0..<10]" by simp
  then show ?thesis unfolding upt_rec_numeral by (auto simp: u_digits_def upt_rec)
qed

lemma u_printint_decimal:
  "\<forall>c \<in> set (u_printint_digits 10 x). (48 :: int) \<le> of_char c \<and> of_char c \<le> (57 :: int)"
proof (induction "10 :: nat" x rule: u_printint_digits.induct)
  case (1 x)
  have "(48 :: int) \<le> of_char c \<and> of_char c \<le> (57 :: int)" if "c = u_digits ! (x mod 10)" for c
    using u_digit [of "x mod 10"] that by simp
  then show ?case using 1 by (subst u_printint_digits.simps) (auto split: if_splits)
qed

lemma atoi_printint: "x < 2 ^ 31 \<Longrightarrow> atoi (rev (u_printint_digits 10 x)) = int x"
proof (induction "10 :: nat" x rule: u_printint_digits.induct)
  case (1 x)
  let ?rest = "if x div 10 \<noteq> 0 then u_printint_digits 10 (x div 10) else []"
  have "atoi (rev ?rest) = int (x div 10)" using 1 by (auto simp: atoi_def)
  moreover have "\<forall>c \<in> set (rev ?rest). (48 :: int) \<le> of_char c \<and> of_char c \<le> (57 :: int)" 
    using u_printint_decimal [of "x div 10"] by auto
  then have "atoi (rev ?rest @ [u_digits ! (x mod 10)]) = atoi_loop (atoi (rev ?rest)) [u_digits ! (x mod 10)]"
    unfolding atoi_def by (rule atoi_loop_snoc)
  moreover have "int (x div 10) * 10 + int (x mod 10) = int x" by presburger
  moreover have "x mod 10 \<le> 9" by presburger
  ultimately show ?case using u_digit [of "x mod 10"] 1(2)
    by (subst u_printint_digits.simps) (simp add: wrap32_small algebra_simps)
qed

lemma length_u_printint_digits:
  "2 \<le> base \<Longrightarrow> x < base ^ k \<Longrightarrow> 0 < k \<Longrightarrow> length (u_printint_digits base x) \<le> k"
proof (induction base x arbitrary: k rule: u_printint_digits.induct)
  case (1 base x)
  show ?case
  proof (cases "x div base = 0")
    case True
    then show ?thesis using "1.prems" by (subst u_printint_digits.simps) simp
  next
    case False
    then have "base \<le> x" using "1.prems"(1) by (simp add: div_eq_0_iff)
    then have "1 < k" using "1.prems" by (cases "k = 1") auto
    moreover have "x div base < base ^ (k - 1)"
      using "1.prems" \<open>1 < k\<close> power_minus_mult [of k base] by (simp add: div_less_iff_less_mult)
    ultimately have "length (u_printint_digits base (x div base)) \<le> k - 1" using 1(1) "1.prems"(1) False by simp
    then show ?thesis using False \<open>1 < k\<close> "1.prems"(1) by (subst u_printint_digits.simps) simp
  qed
qed

text \<open>
  C28: \<^verbatim>\<open>printint\<close> of \<^verbatim>\<open>user/printf.c\<close> never runs over its 16 character buffer in the bases that \<^verbatim>\<open>vprintf\<close> uses: it prints
  every 32-bit number, with at most 10 decimal or 8 hexadecimal digits and a sign only for a negative
  number printed as signed.
\<close>

theorem u_printint_fits:
  assumes "base = 10 \<and> k = 10 \<or> base = 16 \<and> k = 8"
  shows "\<exists>ds. u_printint xx base sign = Some ((if sign \<and> sint xx < 0 then ''-'' else '''') @ ds) \<and> ds \<noteq> [] \<and> length ds \<le> k"
proof -
  let ?x = "if sign \<and> sint xx < 0 then - xx else xx"
  have "unat ?x < base ^ k" using assms unsigned_less [of ?x, where 'a = nat] by auto
  then have "length (u_printint_digits base (unat ?x)) \<le> k" using assms by (intro length_u_printint_digits) auto
  moreover have "u_printint_digits base (unat ?x) \<noteq> []" by (subst u_printint_digits.simps) simp
  ultimately show ?thesis using assms by (auto simp: u_printint_def Let_def)
qed

theorem u_printint_fits_witness:
  "\<exists>ds. u_printint (- 1) 10 True = Some (''-'' @ ds) \<and> length ds \<le> 10"
  using u_printint_fits [of 10 10 "- 1" True] by auto

text \<open>
  C29: A non-negative \<^verbatim>\<open>int\<close> printed with \<^verbatim>\<open>%d\<close> is read back unchanged by \<^verbatim>\<open>atoi\<close>.
\<close>

theorem atoi_vprintf:
  assumes "0 \<le> sint (ucast w :: u32)"
  shows "\<exists>out. vprintf ''%d'' [Num w] = Some out \<and> atoi out = sint (ucast w :: u32)"
proof -
  let ?x = "ucast w :: u32"
  have lt: "unat ?x < 2 ^ 31" and u: "int (unat ?x) = sint ?x" using sint_nonneg [OF assms] by simp_all
  have "u_printint ?x 10 True = Some (rev (u_printint_digits 10 (unat ?x)))"
    using assms length_u_printint_digits [of 10 "unat ?x" 10] lt by (simp add: u_printint_def Let_def)
  then have "vprintf ''%d'' [Num w] = Some (rev (u_printint_digits 10 (unat ?x)))"
    by (subst vprintf.simps) (simp add: vprintf_conv_def at_fmt_def u_conv_num_def ucast_scast)
  then show ?thesis using atoi_printint [OF lt] u by simp
qed

theorem atoi_vprintf_witness:
  "\<exists>out. vprintf ''%d'' [Num 2147483647] = Some out \<and> atoi out = 2147483647"
  using atoi_vprintf [of 2147483647] by simp

end
