(* ===== verification/Grep.thy ===== *)
theory Grep
  imports Ulib
begin

text \<open>
  The user program \<^verbatim>\<open>grep\<close> (\<^verbatim>\<open>user/grep.c\<close>): the regular-expression matcher and the loop that cuts what
  \<^verbatim>\<open>read\<close> returns into lines. A C string is the list of its characters up to the terminating NUL, a
  pointer into it the suffix it points to, so the end of the list stands for \<^verbatim>\<open>*p == 0\<close>. The input
  is the contents of the file together with the sizes of the pieces in which \<^verbatim>\<open>read\<close> hands it out.
  The lemmas show the matcher equal to a declarative reading of the pattern and the output of the
  loop independent of the pieces.
\<close>

section \<open>The matcher\<close>

function matchhere :: "string \<Rightarrow> string \<Rightarrow> bool" and matchstar :: "char \<Rightarrow> string \<Rightarrow> string \<Rightarrow> bool" where
  "matchhere re tx =
     (case re of [] \<Rightarrow> True
      | c # re' \<Rightarrow>
          if re' \<noteq> [] \<and> hd re' = CHR ''*'' then matchstar c (tl re') tx
          else if c = CHR ''$'' \<and> re' = [] then tx = []
          else if tx \<noteq> [] \<and> (c = CHR ''.'' \<or> c = hd tx) then matchhere re' (tl tx)
          else False)"
| "matchstar c re tx =
     (if matchhere re tx then True
      else if tx \<noteq> [] \<and> (hd tx = c \<or> c = CHR ''.'') then matchstar c re (tl tx)
      else False)"
  by pat_completeness auto
termination
  by (relation "measures [case_sum (\<lambda>(re, tx). length re) (\<lambda>(c, re, tx). length re),
      case_sum (\<lambda>(re, tx). length tx) (\<lambda>(c, re, tx). length tx), case_sum (\<lambda>_. 0) (\<lambda>_. 1)]")
    auto

declare matchhere.simps [simp del] matchstar.simps [simp del]

primrec match_loop :: "string \<Rightarrow> string \<Rightarrow> bool" where
  "match_loop re [] = (if matchhere re [] then True else False)"
| "match_loop re (x # tx) = (if matchhere re (x # tx) then True else match_loop re tx)"

definition match :: "string \<Rightarrow> string \<Rightarrow> bool" where
  "match re tx = (if re \<noteq> [] \<and> hd re = CHR ''^'' then matchhere (tl re) tx else match_loop re tx)"

section \<open>Cutting the input into lines\<close>

text \<open>The bytes from \<^verbatim>\<open>p\<close> to \<^verbatim>\<open>buf + m\<close>, and what has been written to the standard output.\<close>

function grep_lines :: "string \<Rightarrow> string \<Rightarrow> string \<Rightarrow> string \<times> string" where
  "grep_lines pattern p out =
     (case strchr p (CHR 0x0A) of None \<Rightarrow> (p, out)
      | Some q \<Rightarrow>
          let line = take (length p - length q) p
          in grep_lines pattern (tl q) (if match pattern line then out @ line @ [CHR 0x0A] else out))"
  by pat_completeness auto
termination
  by (relation "measure (\<lambda>(pattern, p, out). length p)") (auto dest: strchr_shorter)

declare grep_lines.simps [simp del]

definition GREP_BUF :: nat where
  "GREP_BUF = 1024"

text \<open>
  \<^verbatim>\<open>read(fd, ..., n)\<close> at the remaining contents \<open>input\<close>: between one byte and \<open>n\<close> of them, 0 only at the end
  or when \<open>n\<close> is 0. The list \<open>sizes\<close> says how many; when it is used up \<^verbatim>\<open>read\<close> returns all it can.
\<close>

definition read_size :: "nat list \<Rightarrow> nat \<Rightarrow> string \<Rightarrow> nat" where
  "read_size sizes n input = min (case sizes of [] \<Rightarrow> n | k # _ \<Rightarrow> Suc k) (min n (length input))"

function grep_loop :: "string \<Rightarrow> string \<Rightarrow> string \<Rightarrow> nat list \<Rightarrow> string \<Rightarrow> string" where
  "grep_loop pattern buf input sizes out =
     (let n = read_size sizes (GREP_BUF - length buf - 1) input
      in if n = 0 then out
         else case grep_lines pattern (buf @ take n input) out of
                (p, out) \<Rightarrow> grep_loop pattern p (drop n input) (tl sizes) out)"
  by pat_completeness auto
termination
  by (relation "measure (\<lambda>(pattern, buf, input, sizes, out). length input)") (auto simp: read_size_def)

declare grep_loop.simps [simp del]

definition grep :: "string \<Rightarrow> string \<Rightarrow> nat list \<Rightarrow> string" where
  "grep pattern input sizes = grep_loop pattern [] input sizes []"

text \<open>
  \<^verbatim>\<open>main\<close>: exit status and output. \<open>files\<close> gives the contents of a file that can be opened, \<open>stdin\<close> the
  standard input; each \<^verbatim>\<open>grep\<close> call gets its own read sizes.
\<close>

primrec grep_files :: "string \<Rightarrow> string list \<Rightarrow> (string \<Rightarrow> string option) \<Rightarrow> (string \<Rightarrow> nat list) \<Rightarrow> string \<Rightarrow> int \<times> string" where
  "grep_files pattern [] files sizes out = (0, out)"
| "grep_files pattern (f # fs) files sizes out =
     (case files f of
        None \<Rightarrow> (1, out @ ''grep: cannot open '' @ f @ [CHR 0x0A])
      | Some input \<Rightarrow> grep_files pattern fs files sizes (out @ grep pattern input (sizes f)))"

definition grep_main ::
  "string list \<Rightarrow> (string \<Rightarrow> string option) \<Rightarrow> (string \<Rightarrow> nat list) \<Rightarrow> string \<Rightarrow> nat list \<Rightarrow> int \<times> string" where
  "grep_main argv files sizes stdin stdin_sizes =
     (if length argv \<le> 1 then (1, [])
      else let pattern = argv ! 1
        in if length argv \<le> 2 then (0, grep pattern stdin stdin_sizes)
           else grep_files pattern (drop 2 argv) files sizes [])"

section \<open>What a pattern means\<close>

datatype item = One char | Star char | AtEnd

fun items :: "string \<Rightarrow> item list" where
  "items [] = []"
| "items [c] = [if c = CHR ''$'' then AtEnd else One c]"
| "items (c # d # re) = (if d = CHR ''*'' then Star c # items re else One c # items (d # re))"

fun item_lang :: "item \<Rightarrow> string set" where
  "item_lang (One c) = {[x] | x. c = CHR ''.'' \<or> x = c}"
| "item_lang (Star c) = {w. \<forall>x \<in> set w. c = CHR ''.'' \<or> x = c}"
| "item_lang AtEnd = {[]}"

text \<open>A text begins with a match when it splits into one word per item and a rest, empty after \<^verbatim>\<open>$\<close>.\<close>

definition begins :: "item list \<Rightarrow> string \<Rightarrow> bool" where
  "begins its tx \<longleftrightarrow> (\<exists>ws rest. tx = concat ws @ rest \<and> list_all2 (\<lambda>i w. w \<in> item_lang i) its ws \<and>
     (AtEnd \<in> set its \<longrightarrow> rest = []))"

lemma begins_Nil [simp]: "begins [] tx"
  by (simp add: begins_def)

lemma begins_AtEnd [simp]: "begins [AtEnd] tx \<longleftrightarrow> tx = []"
  by (auto simp: begins_def list_all2_Cons1 intro: exI [of _ "[[]]"])

lemma begins_Cons:
  assumes "i \<noteq> AtEnd"
  shows "begins (i # its) tx \<longleftrightarrow> (\<exists>w rest. tx = w @ rest \<and> w \<in> item_lang i \<and> begins its rest)"
proof
  assume "begins (i # its) tx"
  then obtain w ws rest where "tx = w @ concat ws @ rest" "w \<in> item_lang i"
    "list_all2 (\<lambda>i w. w \<in> item_lang i) its ws" "AtEnd \<in> set its \<longrightarrow> rest = []"
    using assms unfolding begins_def list_all2_Cons1 by fastforce
  then show "\<exists>w rest. tx = w @ rest \<and> w \<in> item_lang i \<and> begins its rest" unfolding begins_def by blast
next
  assume "\<exists>w rest. tx = w @ rest \<and> w \<in> item_lang i \<and> begins its rest"
  then obtain w ws rest where "tx = w @ concat ws @ rest" "w \<in> item_lang i"
    "list_all2 (\<lambda>i w. w \<in> item_lang i) its ws" "AtEnd \<in> set its \<longrightarrow> rest = []"
    unfolding begins_def by blast
  then show "begins (i # its) tx" using assms unfolding begins_def by (intro exI [of _ "w # ws"] exI [of _ rest]) auto
qed

lemma begins_One:
  "begins (One c # its) tx \<longleftrightarrow> tx \<noteq> [] \<and> (c = CHR ''.'' \<or> c = hd tx) \<and> begins its (tl tx)"
proof (cases tx)
  case (Cons x t)
  have "(\<exists>w rest. x # t = w @ rest \<and> w \<in> item_lang (One c) \<and> begins its rest) \<longleftrightarrow> (c = CHR ''.'' \<or> x = c) \<and> begins its t"
    by (auto intro: exI [of _ "[x]"])
  then show ?thesis using Cons by (auto simp: begins_Cons)
qed (simp add: begins_Cons)

lemma begins_Star:
  "begins (Star c # its) tx \<longleftrightarrow> begins its tx \<or> tx \<noteq> [] \<and> (hd tx = c \<or> c = CHR ''.'') \<and> begins (Star c # its) (tl tx)"
proof (cases tx)
  case (Cons x t)
  let ?run = "\<lambda>w. \<forall>x \<in> set w. c = CHR ''.'' \<or> x = c"
  have "(\<exists>w rest. x # t = w @ rest \<and> ?run w \<and> begins its rest) \<longleftrightarrow>
    begins its (x # t) \<or> (x = c \<or> c = CHR ''.'') \<and> (\<exists>w rest. t = w @ rest \<and> ?run w \<and> begins its rest)" (is "?l \<longleftrightarrow> ?r")
  proof
    assume ?l
    then obtain w rest where "x # t = w @ rest" "?run w" "begins its rest" by blast
    then show ?r by (cases w) auto
  next
    assume ?r
    then consider "begins its (x # t)" | w rest where "t = w @ rest" "?run (x # w)" "begins its rest" by auto
    then show ?l by cases (metis append_Nil empty_iff list.set(1), metis append_Cons)
  qed
  then show ?thesis using Cons by (simp add: begins_Cons)
qed (simp add: begins_Cons)

lemma matchhere_begins:
  "matchhere re tx \<longleftrightarrow> begins (items re) tx"
  "matchstar c re tx \<longleftrightarrow> begins (Star c # items re) tx"
proof (induction re tx and c re tx rule: matchhere_matchstar.induct)
  case (1 re tx)
  show ?case
  proof (cases re rule: items.cases)
    case (3 c d re')
    then show ?thesis using 1 by (subst matchhere.simps) (auto simp: begins_One)
  qed (use 1 in \<open>subst matchhere.simps; auto simp: begins_One\<close>)+
next
  case (2 c re tx)
  then show ?case by (subst matchstar.simps, subst begins_Star) auto
qed

lemma match_loop_begins: "match_loop re tx \<longleftrightarrow> (\<exists>pre rest. tx = pre @ rest \<and> begins (items re) rest)"
proof (induction tx)
  case (Cons x tx)
  have "(\<exists>pre rest. x # tx = pre @ rest \<and> P rest) \<longleftrightarrow> P (x # tx) \<or> (\<exists>pre rest. tx = pre @ rest \<and> P rest)" for P
    by (metis append_Cons append_Nil list.sel(3) neq_Nil_conv)
  then show ?case using Cons by (simp add: matchhere_begins)
qed (simp add: matchhere_begins)

text \<open>
  C25: \<^verbatim>\<open>match\<close> returns 1 exactly when the text contains a match of the pattern read as a regular expression: a
  character matches itself, \<^verbatim>\<open>.\<close> matches every character, \<^verbatim>\<open>c*\<close> any run of characters that \<^verbatim>\<open>c\<close> matches, a final
  \<^verbatim>\<open>$\<close> the end of the text, and a leading \<^verbatim>\<open>^\<close> ties the match to the beginning. The backtracking of
  \<^verbatim>\<open>matchstar\<close> loses no match.
\<close>

theorem match_regexp:
  "match re tx \<longleftrightarrow>
     (case re of
        [] \<Rightarrow> True
      | c # re' \<Rightarrow>
          if c = CHR ''^'' then begins (items re') tx
          else (\<exists>pre rest. tx = pre @ rest \<and> begins (items re) rest))"
  by (cases re) (auto simp: match_def matchhere_begins match_loop_begins)

section \<open>Lines and pieces\<close>

text \<open>The lines of a file that end in a newline, and what follows the last of them.\<close>

function complete_lines :: "string \<Rightarrow> string list" where
  "complete_lines s =
     (case dropWhile (\<lambda>c. c \<noteq> CHR 0x0A) s of
        [] \<Rightarrow> []
      | _ # r \<Rightarrow> takeWhile (\<lambda>c. c \<noteq> CHR 0x0A) s # complete_lines r)"
  by pat_completeness auto
termination
proof (relation "measure length")
  fix s r :: string and c assume "dropWhile (\<lambda>c. c \<noteq> CHR 0x0A) s = c # r"
  then have "length (c # r) \<le> length s" by (metis length_dropWhile_le)
  then show "(r, s) \<in> measure length" by simp
qed simp

declare complete_lines.simps [simp del]

lemma complete_lines_none: "CHR 0x0A \<notin> set s \<Longrightarrow> complete_lines s = []"
proof -
  assume "CHR 0x0A \<notin> set s"
  then have "dropWhile (\<lambda>c. c \<noteq> CHR 0x0A) s = []" by (auto simp: dropWhile_eq_Nil_conv)
  then show ?thesis by (subst complete_lines.simps) (simp only: list.case)
qed

lemma complete_lines_line: "CHR 0x0A \<notin> set l \<Longrightarrow> complete_lines (l @ CHR 0x0A # r) = l # complete_lines r"
proof -
  assume "CHR 0x0A \<notin> set l"
  then have "\<And>x. x \<in> set l \<Longrightarrow> x \<noteq> CHR 0x0A" by auto
  then show ?thesis by (subst complete_lines.simps) (simp add: dropWhile_append2 takeWhile_append2)
qed

definition selected :: "string \<Rightarrow> string \<Rightarrow> string" where
  "selected pattern s = concat (map (\<lambda>l. l @ [CHR 0x0A]) (filter (match pattern) (complete_lines s)))"

lemma grep_lines_selected:
  assumes "CHR 0x00 \<notin> set s"
  shows "\<exists>p emit. grep_lines pattern s out = (p, out @ emit) \<and> CHR 0x0A \<notin> set p \<and> set p \<subseteq> set s \<and>
    (\<forall>t. selected pattern (s @ t) = emit @ selected pattern (p @ t)) \<and>
    (\<forall>t. set (complete_lines (p @ t)) \<subseteq> set (complete_lines (s @ t)))"
  using assms
proof (induction s arbitrary: out rule: measure_induct_rule [of length])
  case (less s)
  show ?case
  proof (cases "strchr s (CHR 0x0A)")
    case None
    then show ?thesis using strchr_None [OF None less.prems] by (subst grep_lines.simps) (auto intro: exI [of _ "[]"])
  next
    case (Some q)
    then obtain l r where s: "s = l @ CHR 0x0A # r" and q: "q = CHR 0x0A # r" and l: "CHR 0x0A \<notin> set l"
      using strchr_Some [OF Some] by (metis list.collapse)
    have "length r < length s" "CHR 0x00 \<notin> set r" using s less.prems by auto
    then obtain p emit where p: "grep_lines pattern r (if match pattern l then out @ l @ [CHR 0x0A] else out) =
        (p, (if match pattern l then out @ l @ [CHR 0x0A] else out) @ emit)"
      "CHR 0x0A \<notin> set p" "set p \<subseteq> set r" "\<forall>t. selected pattern (r @ t) = emit @ selected pattern (p @ t)"
      "\<forall>t. set (complete_lines (p @ t)) \<subseteq> set (complete_lines (r @ t))"
      using less.IH by blast
    let ?d = "(if match pattern l then l @ [CHR 0x0A] else []) @ emit"
    have "take (length s - length q) s = l" using s q by simp
    then have "grep_lines pattern s out = (p, out @ ?d)" using Some p(1) q by (subst grep_lines.simps) (simp add: Let_def)
    moreover have "selected pattern (s @ t) = ?d @ selected pattern (p @ t)" for t
      using p(4) complete_lines_line [OF l, of "r @ t"] by (simp add: selected_def s)
    moreover have "set (complete_lines (p @ t)) \<subseteq> set (complete_lines (s @ t))" for t
      using p(5) complete_lines_line [OF l, of "r @ t"] by (auto simp: s)
    ultimately show ?thesis using p(2,3) s by (intro exI [of _ p] exI [of _ ?d]) auto
  qed
qed

lemma long_line:
  assumes "CHR 0x0A \<notin> set p" "\<forall>l \<in> set (complete_lines (p @ t)). length l < length p"
  shows "complete_lines (p @ t) = []"
proof (cases "CHR 0x0A \<in> set t")
  case True
  then obtain a b where "t = a @ CHR 0x0A # b" "CHR 0x0A \<notin> set a" by (meson split_list_first)
  then have "complete_lines (p @ t) = (p @ a) # complete_lines b" using complete_lines_line [of "p @ a" b] assms(1) by simp
  then show ?thesis using assms(2) by simp
qed (use assms(1) complete_lines_none [of "p @ t"] in simp)

lemma grep_loop_selected:
  assumes "CHR 0x0A \<notin> set buf" "CHR 0x00 \<notin> set (buf @ input)"
    and "\<forall>l \<in> set (complete_lines (buf @ input)). length l < GREP_BUF - 1"
  shows "grep_loop pattern buf input sizes out = out @ selected pattern (buf @ input)"
  using assms
proof (induction input arbitrary: buf sizes out rule: measure_induct_rule [of length])
  case (less input)
  let ?n = "read_size sizes (GREP_BUF - length buf - 1) input"
  show ?case
  proof (cases "?n = 0")
    case True
    then have "input = [] \<or> GREP_BUF - 1 \<le> length buf" by (auto simp: read_size_def min_def split: list.splits if_splits)
    then have "complete_lines (buf @ input) = []"
      using less.prems complete_lines_none [of buf] long_line [of buf input] by fastforce
    then show ?thesis using True by (subst grep_loop.simps) (simp add: selected_def)
  next
    case False
    have nul: "CHR 0x00 \<notin> set (buf @ take ?n input)" using less.prems(2) set_take_subset by fastforce
    obtain p emit where p: "grep_lines pattern (buf @ take ?n input) out = (p, out @ emit)" "CHR 0x0A \<notin> set p"
      "set p \<subseteq> set (buf @ take ?n input)"
      "\<forall>t. selected pattern ((buf @ take ?n input) @ t) = emit @ selected pattern (p @ t)"
      "\<forall>t. set (complete_lines (p @ t)) \<subseteq> set (complete_lines ((buf @ take ?n input) @ t))"
      using grep_lines_selected [OF nul] by blast
    have all: "(buf @ take ?n input) @ drop ?n input = buf @ input" by simp
    have "length (drop ?n input) < length input" using False by (auto simp: read_size_def)
    moreover have "CHR 0x00 \<notin> set (p @ drop ?n input)"
      using p(3) nul less.prems(2) set_drop_subset [of ?n input] by auto
    moreover have "\<forall>l \<in> set (complete_lines (p @ drop ?n input)). length l < GREP_BUF - 1"
      using p(5) [rule_format, of "drop ?n input"] less.prems(3) unfolding all by blast
    ultimately have "grep_loop pattern p (drop ?n input) (tl sizes) (out @ emit) = (out @ emit) @ selected pattern (p @ drop ?n input)"
      using less.IH p(2) by blast
    then show ?thesis using False p(1) p(4) [rule_format, of "drop ?n input"] unfolding all
      by (subst grep_loop.simps) (simp add: Let_def)
  qed
qed

text \<open>
  C26: \<^verbatim>\<open>grep\<close> prints exactly the complete lines of its input that match, in order, whatever pieces \<^verbatim>\<open>read\<close> returns
  the input in, provided the input has no NUL bytes and no line is longer than 1022 characters, the
  room that the 1024 byte buffer leaves beside the newline and the terminator.
\<close>

theorem grep_selects_lines:
  assumes "CHR 0x00 \<notin> set input" "\<forall>l \<in> set (complete_lines input). length l \<le> 1022"
  shows "grep pattern input sizes = selected pattern input"
proof -
  have "\<forall>l \<in> set (complete_lines ([] @ input)). length l < GREP_BUF - 1" using assms(2) by (auto simp: GREP_BUF_def)
  then show ?thesis using grep_loop_selected [of "[]" input pattern sizes "[]"] assms(1) by (simp add: grep_def)
qed

theorem grep_selects_lines_witness:
  "grep ''^a.*c$'' (''abc'' @ [CHR 0x0A] @ ''xabc'' @ [CHR 0x0A] @ ''ac'' @ [CHR 0x0A] @ ''ac'') [0, 3, 1] =
   ''abc'' @ [CHR 0x0A] @ ''ac'' @ [CHR 0x0A]"
proof -
  let ?i = "''abc'' @ [CHR 0x0A] @ ''xabc'' @ [CHR 0x0A] @ ''ac'' @ [CHR 0x0A] @ ''ac''"
  have c: "complete_lines ?i = [''abc'', ''xabc'', ''ac'']" by code_simp
  have "filter (match ''^a.*c$'') [''abc'', ''xabc'', ''ac''] = [''abc'', ''ac'']" by code_simp
  then show ?thesis using grep_selects_lines [of ?i "''^a.*c$''" "[0, 3, 1]"] unfolding selected_def c by simp
qed

end
