(* ===== verification/Vprintf_Props.thy ===== *)
theory Vprintf_Props
  imports Ulib
begin

text \<open>
  What \<^verbatim>\<open>vprintf\<close> of \<^verbatim>\<open>user/printf.c\<close> prints. A format is described by its pieces, literal text and
  conversions, each with the text it stands for given declaratively: numbers as numerals of the
  value that the low 32 bits of the argument denote. \<^verbatim>\<open>vprintf\<close> prints the texts of the pieces one after
  the other, taking its arguments in order.
\<close>

section \<open>Specification\<close>

definition hex_digit :: "nat \<Rightarrow> char" where
  "hex_digit d = (if d < 10 then char_of (48 + d) else char_of (55 + d))"

text \<open>The numeral of \<open>n\<close> in base \<open>b\<close>.\<close>

function num_text :: "nat \<Rightarrow> nat \<Rightarrow> string" where
  "num_text b n = (if b < 2 \<or> n < b then [hex_digit n] else num_text b (n div b) @ [hex_digit (n mod b)])"
  by pat_completeness auto
termination
  by (relation "measure snd") auto

declare num_text.simps [simp del]

definition int_text :: "int \<Rightarrow> string" where
  "int_text z = (if z < 0 then ''-'' else '''') @ num_text 10 (nat \<bar>z\<bar>)"

definition ptr_text :: "u64 \<Rightarrow> string" where
  "ptr_text w = ''0x'' @ map (\<lambda>i. hex_digit (unat w div 16 ^ (15 - i) mod 16)) [0..<16]"

text \<open>The number of a numeric conversion is the number of its \<^verbatim>\<open>l\<close> modifiers.\<close>

datatype fpiece = Text string | Dec nat | Uns nat | Hex nat | Ptr | Chars | Chr | Percent | Unknown char

fun piece_fmt :: "fpiece \<Rightarrow> string" where
  "piece_fmt (Text t) = t"
| "piece_fmt (Dec k) = ''%'' @ replicate k (CHR ''l'') @ ''d''"
| "piece_fmt (Uns k) = ''%'' @ replicate k (CHR ''l'') @ ''u''"
| "piece_fmt (Hex k) = ''%'' @ replicate k (CHR ''l'') @ ''x''"
| "piece_fmt Ptr = ''%p''"
| "piece_fmt Chars = ''%s''"
| "piece_fmt Chr = ''%c''"
| "piece_fmt Percent = ''%%''"
| "piece_fmt (Unknown c) = [CHR ''%'', c]"

fun piece_ok :: "fpiece \<Rightarrow> bool" where
  "piece_ok (Text t) = (CHR ''%'' \<notin> set t \<and> CHR 0x00 \<notin> set t)"
| "piece_ok (Dec k) = (k \<le> 2)"
| "piece_ok (Uns k) = (k \<le> 2)"
| "piece_ok (Hex k) = (k \<le> 2)"
| "piece_ok (Unknown c) = (c \<notin> set ''duxlpsc%'' \<and> c \<noteq> CHR 0x00)"
| "piece_ok _ = True"

fun piece_text :: "fpiece \<Rightarrow> parg list \<Rightarrow> (string \<times> parg list) option" where
  "piece_text (Text t) ap = Some (t, ap)"
| "piece_text (Dec k) (Num w # ap) = Some (int_text (sint (ucast w :: u32)), ap)"
| "piece_text (Uns k) (Num w # ap) = Some (num_text 10 (unat (ucast w :: u32)), ap)"
| "piece_text (Hex k) (Num w # ap) = Some (num_text 16 (unat (ucast w :: u32)), ap)"
| "piece_text Ptr (Num w # ap) = Some (ptr_text w, ap)"
| "piece_text Chars (Str t # ap) = Some (case t of None \<Rightarrow> ''(null)'' | Some t \<Rightarrow> t, ap)"
| "piece_text Chr (Num w # ap) = Some ([char_of (unat w)], ap)"
| "piece_text Percent ap = Some (''%'', ap)"
| "piece_text (Unknown c) ap = Some ([CHR ''%'', c], ap)"
| "piece_text _ ap = None"

fun render :: "fpiece list \<Rightarrow> parg list \<Rightarrow> string option" where
  "render [] ap = Some []"
| "render (p # ps) ap =
     (case piece_text p ap of None \<Rightarrow> None
      | Some (out, ap) \<Rightarrow> (case render ps ap of None \<Rightarrow> None | Some rest \<Rightarrow> Some (out @ rest)))"

section \<open>Numbers\<close>

lemma u_digits_hex: "d < 16 \<Longrightarrow> u_digits ! d = hex_digit d"
proof -
  assume "d < 16"
  then have "d \<in> set [0..<16]" by simp
  then show ?thesis unfolding upt_rec_numeral by (auto simp: u_digits_def hex_digit_def upt_rec char_of_def bit_0)
qed

lemma rev_printint_digits: "2 \<le> b \<Longrightarrow> b \<le> 16 \<Longrightarrow> rev (u_printint_digits b x) = num_text b x"
proof (induction b x rule: u_printint_digits.induct)
  case (1 b x)
  have "x mod b < b" using "1.prems"(1) by simp
  then have "x mod b < 16" using "1.prems"(2) by simp
  note d = u_digits_hex [OF this]
  show ?case
  proof (cases "x < b")
    case True
    then show ?thesis using d "1.prems" by (subst u_printint_digits.simps, subst num_text.simps) simp
  next
    case False
    then have "x div b \<noteq> 0" using "1.prems"(1) by (simp add: div_eq_0_iff)
    then show ?thesis using 1 d False by (subst u_printint_digits.simps, subst num_text.simps) simp
  qed
qed

lemma u_printint_text:
  assumes "base = 10 \<or> base = 16"
  shows "u_printint x base False = Some (num_text base (unat x))" "u_printint x 10 True = Some (int_text (sint x))"
proof -
  have len: "length (u_printint_digits b (unat y)) \<le> 10" if "b = 10 \<or> b = 16" for b and y :: u32
  proof -
    have "unat y < b ^ 10" using that unsigned_less [of y, where 'a = nat] by auto
    then show ?thesis using that by (intro length_u_printint_digits) auto
  qed
  show "u_printint x base False = Some (num_text base (unat x))"
    using len [OF assms, of x] rev_printint_digits [of base "unat x"] assms by (auto simp: u_printint_def)
  have "unat (if sint x < 0 then - x else x) = nat \<bar>sint x\<bar>"
    using sint_nonneg(2) [of x] by (cases "sint x < 0") (simp add: unat_minus_neg, metis abs_of_nonneg nat_int not_le)
  then show "u_printint x 10 True = Some (int_text (sint x))"
    using len [of 10 "if sint x < 0 then - x else x"] rev_printint_digits [of 10 "nat \<bar>sint x\<bar>"]
    by (auto simp: u_printint_def int_text_def Let_def)
qed

lemma u_printptr_text: "u_printptr w = ptr_text w"
proof -
  have "u_printptr_loop n x = map (\<lambda>i. u_digits ! unat (take_bit 4 (drop_bit (60 - 4 * i) x))) [0..<n]" if "n \<le> 16" for n x
    using that
  proof (induction n arbitrary: x)
    case (Suc n)
    have "take_bit 4 (drop_bit (60 - 4 * i) (push_bit 4 x)) = take_bit 4 (drop_bit (60 - 4 * Suc i) x)" if "i < n" for i
      by (rule bit_word_eqI) (use that Suc.prems in \<open>auto simp: bit_simps\<close>)
    moreover have "take_bit 4 (drop_bit 60 x) = drop_bit 60 x"
      by (rule bit_word_eqI) (auto simp: bit_simps dest: bit_imp_le_length)
    ultimately show ?case using Suc by (simp add: map_Suc_upt [symmetric] upt_conv_Cons del: upt_Suc)
  qed simp
  moreover have "unat (take_bit 4 (drop_bit (60 - 4 * i) w)) = unat w div 16 ^ (15 - i) mod 16" if "i < 16" for i
  proof -
    have "(2 :: nat) ^ (60 - 4 * i) = 16 ^ (15 - i)" using power_mult [of "2 :: nat" 4 "15 - i"] by (simp add: diff_mult_distrib2)
    moreover have "unat (take_bit 4 (drop_bit (60 - 4 * i) w)) = unat w div 2 ^ (60 - 4 * i) mod 16"
      by (simp only: unsigned_take_bit_eq unat_drop_bit_eq) (simp add: take_bit_eq_mod drop_bit_eq_div)
    ultimately show ?thesis by simp
  qed
  ultimately show ?thesis
    using u_digits_hex by (simp add: u_printptr_def ptr_text_def del: upt_rec_numeral)
qed

section \<open>Formats\<close>

lemma vprintf_text:
  "CHR ''%'' \<notin> set t \<Longrightarrow> vprintf (t @ fmt) ap = (case vprintf fmt ap of None \<Rightarrow> None | Some out \<Rightarrow> Some (t @ out))"
  by (induction t) (auto simp: vprintf.simps(2) split: option.splits)

lemma u_conv_num_text:
  assumes "base = 10 \<or> base = 16"
  shows "u_conv_num va_int base False k (Num w # ap) = Some (num_text base (unat (ucast w :: u32)), k, ap)"
    "u_conv_num va_uint64 base False k (Num w # ap) = Some (num_text base (unat (ucast w :: u32)), k, ap)"
    "u_conv_num va_int 10 True k (Num w # ap) = Some (int_text (sint (ucast w :: u32)), k, ap)"
    "u_conv_num va_uint64 10 True k (Num w # ap) = Some (int_text (sint (ucast w :: u32)), k, ap)"
  using assms by (auto simp: u_conv_num_def ucast_scast u_printint_text)

lemma u_conv_num_none: "ap = [] \<or> (\<exists>t ap'. ap = Str t # ap') \<Longrightarrow> u_conv_num va_int b g k ap = None \<and> u_conv_num va_uint64 b g k ap = None"
  by (auto simp: u_conv_num_def)

lemma low_byte: "unat (scast (ucast w :: u32) :: u64) mod 256 = unat w mod 256" for w :: u64
proof -
  have "take_bit 8 (scast (ucast w :: u32) :: u64) = take_bit 8 w" by (rule bit_word_eqI) (auto simp: bit_simps)
  then have "unat (take_bit 8 (scast (ucast w :: u32) :: u64)) = unat (take_bit 8 w)" by (rule arg_cong)
  then show ?thesis by (simp only: unsigned_take_bit_eq) (simp add: take_bit_eq_mod)
qed

text \<open>A conversion uses up exactly its own characters of the format, whatever follows it.\<close>

lemma vprintf_conv_piece:
  assumes "piece_ok p" "\<forall>t. p \<noteq> Text t"
  shows "\<exists>f. piece_fmt p = CHR ''%'' # f \<and> f \<noteq> [] \<and>
    vprintf_conv (f @ fmt) ap = (case piece_text p ap of None \<Rightarrow> None | Some (out, ap) \<Rightarrow> Some (out, length f, ap))"
proof -
  have k: "k \<le> 2 \<Longrightarrow> k = 0 \<or> k = 1 \<or> k = 2" for k :: nat by auto
  have ap: "ap = [] \<or> (\<exists>w ap'. ap = Num w # ap') \<or> (\<exists>t ap'. ap = Str t # ap')" by (cases ap; cases "hd ap") auto
  have num: ?thesis if f: "piece_fmt p = CHR ''%'' # replicate n (CHR ''l'') @ [c]"
    and t: "\<And>ap. vprintf_conv (replicate n (CHR ''l'') @ c # fmt) ap = u_conv_num (if n = 0 then va_int else va_uint64) b g (Suc n) ap"
    and o: "\<And>w ap. piece_text p (Num w # ap) = Some (h w, ap)" "\<And>t ap. piece_text p (Str t # ap) = None" "piece_text p [] = None"
      "\<And>w k ap. u_conv_num va_int b g k (Num w # ap) = Some (h w, k, ap)" "\<And>w k ap. u_conv_num va_uint64 b g k (Num w # ap) = Some (h w, k, ap)"
    for n c b g h
  proof -
    have "u_conv_num (if n = 0 then va_int else va_uint64) b g (Suc n) ap =
      (case piece_text p ap of None \<Rightarrow> None | Some (out, ap) \<Rightarrow> Some (out, Suc n, ap))"
      using ap u_conv_num_none [of ap b g] by (elim disjE exE) (simp_all add: o)
    then show ?thesis using f by (intro exI [of _ "replicate n (CHR ''l'') @ [c]"]) (auto simp: t split: option.splits)
  qed
  show ?thesis
  proof (cases p)
    case (Dec n)
    then show ?thesis using assms(1) k [of n]
      by (intro num [of n "CHR ''d''" 10 True "\<lambda>w. int_text (sint (ucast w :: u32))"])
        (auto simp: vprintf_conv_def at_fmt_def u_conv_num_text [of 10, simplified] u_conv_num_text [of 16, simplified] numeral_2_eq_2 numeral_3_eq_3)
  next
    case (Uns n)
    then show ?thesis using assms(1) k [of n]
      by (intro num [of n "CHR ''u''" 10 False "\<lambda>w. num_text 10 (unat (ucast w :: u32))"])
        (auto simp: vprintf_conv_def at_fmt_def u_conv_num_text [of 10, simplified] u_conv_num_text [of 16, simplified] numeral_2_eq_2 numeral_3_eq_3)
  next
    case (Hex n)
    then show ?thesis using assms(1) k [of n]
      by (intro num [of n "CHR ''x''" 16 False "\<lambda>w. num_text 16 (unat (ucast w :: u32))"])
        (auto simp: vprintf_conv_def at_fmt_def u_conv_num_text [of 10, simplified] u_conv_num_text [of 16, simplified] numeral_2_eq_2 numeral_3_eq_3)
  next
    case Ptr
    then show ?thesis using ap by (auto simp: vprintf_conv_def at_fmt_def u_printptr_text)
  next
    case Chars
    then show ?thesis using ap by (auto simp: vprintf_conv_def at_fmt_def)
  next
    case Chr
    then show ?thesis using ap by (auto simp: vprintf_conv_def at_fmt_def low_byte)
  next
    case (Unknown c)
    then show ?thesis using assms(1) by (auto simp: vprintf_conv_def at_fmt_def)
  qed (use assms(2) in \<open>auto simp: vprintf_conv_def at_fmt_def\<close>)
qed

text \<open>
  C30: For every format made of literal text, conversions and unknown conversions in any order, \<^verbatim>\<open>vprintf\<close>
  prints the text of each piece in turn, taking one argument for each conversion: \<^verbatim>\<open>%d\<close> the signed
  decimal, \<^verbatim>\<open>%u\<close> the unsigned decimal and \<^verbatim>\<open>%x\<close> the hexadecimal numeral of the low 32 bits of its argument,
  with one or two \<^verbatim>\<open>l\<close> as without (so the upper half of a 64-bit argument is never printed), \<^verbatim>\<open>%p\<close> all 16
  hexadecimal digits, \<^verbatim>\<open>%s\<close> the string or \<^verbatim>\<open>(null)\<close>, \<^verbatim>\<open>%c\<close> the character, and an unknown conversion itself.
  No number runs over the buffer; a call with a missing or ill-typed argument is the only undefined one.
\<close>

theorem vprintf_renders:
  assumes "\<forall>p \<in> set ps. piece_ok p"
  shows "vprintf (concat (map piece_fmt ps)) ap = render ps ap"
  using assms
proof (induction ps arbitrary: ap)
  case (Cons p ps)
  let ?rest = "concat (map piece_fmt ps)"
  show ?case
  proof (cases "\<exists>t. p = Text t")
    case True
    then show ?thesis using Cons by (auto simp: vprintf_text)
  next
    case False
    then obtain f where "piece_fmt p = CHR ''%'' # f" "f \<noteq> []"
      "vprintf_conv (f @ ?rest) ap = (case piece_text p ap of None \<Rightarrow> None | Some (out, ap) \<Rightarrow> Some (out, length f, ap))"
      using vprintf_conv_piece [of p ?rest ap] Cons.prems by auto
    then show ?thesis using Cons by (auto simp: vprintf.simps(2) split: option.splits)
  qed
qed simp

theorem vprintf_renders_witness:
  "vprintf ''n=%d, %lx %s!'' [Num (- 5), Num 0x1200000034, Str (Some ''ok'')] = Some ''n=-5, 34 ok!''"
proof -
  let ?ps = "[Text ''n='', Dec 0, Text '', '', Hex 1, Text '' '', Chars, Text ''!'']"
  have "vprintf (concat (map piece_fmt ?ps)) [Num (- 5), Num 0x1200000034, Str (Some ''ok'')] =
      render ?ps [Num (- 5), Num 0x1200000034, Str (Some ''ok'')]"
    by (rule vprintf_renders) simp
  moreover have "num_text 10 5 = ''5''" "num_text 16 52 = ''34''"
    by (simp_all add: num_text.simps hex_digit_def char_of_def bit_0)
  ultimately show ?thesis by (simp add: int_text_def)
qed

end
