(* ===== verification/Sh.thy ===== *)
theory Sh
  imports Ulib "HOL-Library.Sublist"
begin

text \<open>
  The parser of the shell (\<^verbatim>\<open>user/sh.c\<close>). The command line is the list of its characters; a pointer into it
  is the suffix it points to, so \<^verbatim>\<open>s < es\<close> says that the suffix is not empty. A command is a tree
  whose words are pairs of pointers, as in \<^verbatim>\<open>struct execcmd\<close> and \<^verbatim>\<open>struct redircmd\<close>, until \<^verbatim>\<open>nulterminate\<close> writes
  a NUL at the end of each. \<^verbatim>\<open>panic\<close> is the left alternative of the result; the recursive functions
  take fuel, and \<open>None\<close> is a run that uses it up. The lemmas show that the fuel of \<open>parsecmd\<close> always
  suffices and that \<^verbatim>\<open>nulterminate\<close> cuts out exactly the words that the parser found.
\<close>

section \<open>Tokens\<close>

definition whitespace :: string where
  "whitespace = [CHR 0x20, CHR 0x09, CHR 0x0D, CHR 0x0A, CHR 0x0B]"

definition symbols :: string where
  "symbols = ''<|>&;()''"

primrec skip_space :: "string \<Rightarrow> string" where
  "skip_space [] = []"
| "skip_space (c # s) = (if strchr whitespace c \<noteq> None then skip_space s else c # s)"

primrec skip_word :: "string \<Rightarrow> string" where
  "skip_word [] = []"
| "skip_word (c # s) = (if strchr whitespace c = None \<and> strchr symbols c = None then skip_word s else c # s)"

text \<open>The token, its first character, the one after its last, and the position after it.\<close>

definition gettoken :: "string \<Rightarrow> char \<times> string \<times> string \<times> string" where
  "gettoken s =
     (let s = skip_space s; q = s
      in case s of
           [] \<Rightarrow> (CHR 0x00, q, s, skip_space s)
         | c # r \<Rightarrow>
             (let (ret, s) =
                 (if c \<in> {CHR ''|'', CHR ''('', CHR '')'', CHR '';'', CHR ''&'', CHR ''<''} then (c, r)
                  else if c = CHR ''>'' then (if r \<noteq> [] \<and> hd r = CHR ''>'' then (CHR ''+'', tl r) else (c, r))
                  else (CHR ''a'', skip_word s))
              in (ret, q, s, skip_space s)))"

definition peek :: "string \<Rightarrow> string \<Rightarrow> string \<times> bool" where
  "peek s toks = (let s = skip_space s in (s, s \<noteq> [] \<and> strchr toks (hd s) \<noteq> None))"

definition after_token :: "string \<Rightarrow> string" where
  "after_token s = snd (snd (snd (gettoken s)))"

section \<open>Commands\<close>

definition MAXARGS :: nat where
  "MAXARGS = 10"

datatype cmd =
    EXEC "(string \<times> string) list"
  | REDIR cmd string string int int
  | PIPE cmd cmd
  | LIST cmd cmd
  | BACK cmd

type_synonym 'a parse = "(string + 'a) option"

definition pbind :: "'a parse \<Rightarrow> ('a \<Rightarrow> 'b parse) \<Rightarrow> 'b parse" where
  "pbind r f = (case r of None \<Rightarrow> None | Some (Inl e) \<Rightarrow> Some (Inl e) | Some (Inr x) \<Rightarrow> f x)"

text \<open>The redirections read so far, applied to a command innermost first.\<close>

type_synonym redir = "string \<times> string \<times> int \<times> int"

definition wrap :: "redir list \<Rightarrow> cmd \<Rightarrow> cmd" where
  "wrap rs c = fold (\<lambda>(q, eq, mode, fd) c. REDIR c q eq mode fd) rs c"

definition redir_of :: "char \<Rightarrow> string \<Rightarrow> string \<Rightarrow> redir list" where
  "redir_of tok q eq =
     (if tok = CHR ''<'' then [(q, eq, 0, 0)]
      else if tok = CHR ''>'' then [(q, eq, 0x601, 1)]
      else if tok = CHR ''+'' then [(q, eq, 0x201, 1)]
      else [])"

section \<open>Pointers only move forward\<close>

lemma skip_suffix: "suffix (skip_space s) s" "suffix (skip_word s) s"
  by (induction s) (auto simp: suffix_Cons)

lemma strchr_iff: "CHR 0x00 \<notin> set toks \<Longrightarrow> strchr toks c \<noteq> None \<longleftrightarrow> c \<in> set toks"
  by (induction toks) auto

lemma toks_iff [simp]:
  "(\<exists>p. strchr whitespace c = Some p) \<longleftrightarrow> c \<in> set whitespace" "(\<exists>p. strchr symbols c = Some p) \<longleftrightarrow> c \<in> set symbols"
  "strchr whitespace c = None \<longleftrightarrow> c \<notin> set whitespace" "strchr symbols c = None \<longleftrightarrow> c \<notin> set symbols"
  using strchr_iff [of whitespace c] strchr_iff [of symbols c] by (auto simp: whitespace_def symbols_def)

definition ordinary :: "char \<Rightarrow> bool" where
  "ordinary c \<longleftrightarrow> c \<notin> set whitespace \<and> c \<notin> set symbols"

lemma skip_space_hd: "skip_space s = c # r \<Longrightarrow> c \<notin> set whitespace"
  by (induction s) (auto split: if_splits)

lemma skip_word_split: "\<exists>w. s = w @ skip_word s \<and> list_all ordinary w"
proof (induction s)
  case (Cons c s)
  then obtain w where "s = w @ skip_word s" "list_all ordinary w" by blast
  then have "ordinary c \<Longrightarrow> c # s = (c # w) @ skip_word s \<and> list_all ordinary (c # w)" by simp
  moreover have "\<not> ordinary c \<Longrightarrow> c # s = [] @ skip_word (c # s) \<and> list_all ordinary []" by (auto simp: ordinary_def)
  moreover have "ordinary c \<Longrightarrow> skip_word (c # s) = skip_word s" by (simp add: ordinary_def)
  ultimately show ?case by (cases "ordinary c") (auto simp del: skip_word.simps intro: exI [of _ "c # w"] exI [of _ "[]"])
qed simp

lemma skip_word_stop: "skip_word s = [] \<or> \<not> ordinary (hd (skip_word s))"
  by (induction s) (auto simp: ordinary_def)

text \<open>A word: its characters are ordinary, and it ends at the end of the line or at another character.\<close>

definition word_ok :: "string \<Rightarrow> string \<times> string \<Rightarrow> bool" where
  "word_ok s = (\<lambda>(q, eq). suffix q s \<and> (\<exists>w. q = w @ eq \<and> list_all ordinary w) \<and> (eq = [] \<or> \<not> ordinary (hd eq)))"

lemma gettoken_cases:
  assumes "gettoken s = (tok, q, eq, s')"
  obtains (eol) "skip_space s = []" "tok = CHR 0x00" "s' = []"
  | (sym) c r where "skip_space s = c # r" "c \<in> set symbols" "tok \<in> set (CHR ''+'' # symbols)" "suffix s' r"
      "c \<in> set ''<>'' \<longleftrightarrow> tok \<in> set ''<>+''"
  | (word) "skip_space s \<noteq> []" "ordinary (hd (skip_space s))" "tok = CHR ''a''" "q = skip_space s"
      "eq = skip_word q" "s' = skip_space eq"
proof (cases "skip_space s")
  case Nil
  then show ?thesis using assms eol by (simp add: gettoken_def)
next
  case (Cons c r)
  note ws = skip_space_hd [OF Cons]
  show ?thesis
  proof (cases "c \<in> set symbols")
    case True
    then show ?thesis using assms Cons skip_suffix(1) suffix_order.trans [OF skip_suffix(1) suffix_tl]
      by (intro sym [OF Cons]) (auto simp: gettoken_def symbols_def split: if_splits)
  next
    case False
    then have "gettoken s = (CHR ''a'', skip_space s, skip_word (skip_space s), skip_space (skip_word (skip_space s)))"
      using Cons by (simp add: gettoken_def symbols_def Let_def del: skip_word.simps)
    then show ?thesis using assms Cons ws False by (intro word) (auto simp: ordinary_def)
  qed
qed

lemma gettoken_suffix:
  assumes "gettoken s = (tok, q, eq, s')"
  shows "suffix s' s \<and> (tok \<noteq> CHR 0x00 \<longrightarrow> length s' < length s) \<and> (tok = CHR ''a'' \<longrightarrow> word_ok s (q, eq))"
  using assms
proof (cases rule: gettoken_cases)
  case eol
  then show ?thesis by auto
next
  case (sym c r)
  have cr: "suffix (c # r) s" using skip_suffix(1) [of s] sym(1) by simp
  moreover have "suffix s' (c # r)" using sym(4) by (simp add: suffix_Cons)
  ultimately have "suffix s' s" by (rule suffix_order.trans [rotated])
  moreover have "length s' < length s" using suffix_length_le [OF sym(4)] suffix_length_le [OF cr] by simp
  moreover have "tok \<noteq> CHR ''a''" using sym(3) by (auto simp: symbols_def)
  ultimately show ?thesis by blast
next
  case word
  have q: "suffix q s" using skip_suffix(1) word(4) by simp
  have e: "suffix eq q" using skip_suffix(2) word(5) by simp
  have s: "suffix s' eq" using skip_suffix(1) word(6) by simp
  have "suffix s' s" using q e s by (meson suffix_order.trans)
  obtain c r where c: "q = c # r" "ordinary c" using word(1,2,4) by (metis list.collapse)
  then have "eq = skip_word r" using word(5) by (simp add: ordinary_def)
  then have "length eq < length q" using suffix_length_le [OF skip_suffix(2), of r] c(1) by simp
  then have "length s' < length s" using suffix_length_le [OF q] suffix_length_le [OF s] by simp
  moreover have "word_ok s (q, eq)" using q skip_word_split [of q] skip_word_stop [of q] word(5) by (simp add: word_ok_def)
  ultimately show ?thesis using \<open>suffix s' s\<close> by blast
qed

lemma peek_suffix: "peek s toks = (s', b) \<Longrightarrow> suffix s' s" "peek s toks = (s', b) \<Longrightarrow> b \<Longrightarrow> s' \<noteq> []"
  using skip_suffix(1) [of s] by (auto simp: peek_def Let_def)

lemma skip_space_idem [simp]: "skip_space (skip_space s) = skip_space s"
  by (induction s) auto

lemma after_token_shorter: "skip_space s \<noteq> [] \<Longrightarrow> length (after_token s) < length s"
proof -
  assume h: "skip_space s \<noteq> []"
  obtain tok q eq s' where g: "gettoken s = (tok, q, eq, s')" by (metis prod_cases4)
  then have "tok \<noteq> CHR 0x00" using h by (cases rule: gettoken_cases) (auto simp: symbols_def)
  then show ?thesis using gettoken_suffix [OF g] g by (simp add: after_token_def)
qed

lemma parse_le:
  "peek s toks = (s', b) \<Longrightarrow> length s' \<le> length s"
  "gettoken s = (tok, q, eq, s') \<Longrightarrow> length s' \<le> length s \<and> (tok = CHR ''a'' \<longrightarrow> length s' < length s)"
  using peek_suffix(1) [of s toks s' b] gettoken_suffix [of s tok q eq s'] by (auto dest: suffix_length_le)

section \<open>The parser\<close>

text \<open>
  The loop of \<^verbatim>\<open>parseredirs\<close>. The command it wraps is not inspected, so the loop returns the redirections, which
  \<open>wrap\<close> applies.
\<close>

function parseredirs :: "string \<Rightarrow> (redir list \<times> string) parse" where
  "parseredirs s =
     (case peek s ''<>'' of (s, b) \<Rightarrow>
        if \<not> b then Some (Inr ([], s))
        else case gettoken s of (tok, _, _, s) \<Rightarrow>
          (case gettoken s of (t, q, eq, s) \<Rightarrow>
             if t \<noteq> CHR ''a'' then Some (Inl ''missing file for redirection'')
             else pbind (parseredirs s) (\<lambda>(rs, s). Some (Inr (redir_of tok q eq @ rs, s)))))"
  by pat_completeness auto
termination
  by (relation "measure length")
    (auto dest!: parse_le(1) [OF sym] parse_le(2) [OF sym])

declare parseredirs.simps [simp del]

text \<open>A parse that does not run out of fuel and, unless it panics, satisfies \<open>P\<close>.\<close>

definition parses :: "('a \<Rightarrow> bool) \<Rightarrow> 'a parse \<Rightarrow> bool" where
  "parses P r \<longleftrightarrow> (case r of None \<Rightarrow> False | Some (Inl e) \<Rightarrow> True | Some (Inr x) \<Rightarrow> P x)"

lemma parses_simps [simp]: "parses P (Some (Inl e))" "parses P (Some (Inr x)) \<longleftrightarrow> P x" "\<not> parses P None"
  by (simp_all add: parses_def)

lemma parses_pbind: "parses P r \<Longrightarrow> (\<And>x. P x \<Longrightarrow> parses Q (f x)) \<Longrightarrow> parses Q (pbind r f)"
  by (cases r) (auto simp: pbind_def split: sum.splits)

lemma word_ok_suffix: "word_ok s' w \<Longrightarrow> suffix s' s \<Longrightarrow> word_ok s w"
  by (auto simp: word_ok_def intro: suffix_order.trans)

definition redirs_ok :: "string \<Rightarrow> redir list \<Rightarrow> bool" where
  "redirs_ok s rs \<longleftrightarrow> (\<forall>(q, eq, m, f) \<in> set rs. word_ok s (q, eq))"

lemma redirs_ok_suffix: "redirs_ok s' rs \<Longrightarrow> suffix s' s \<Longrightarrow> redirs_ok s rs"
  unfolding redirs_ok_def using word_ok_suffix by blast

lemma parseredirs_parses: "parses (\<lambda>(rs, s'). suffix s' s \<and> redirs_ok s rs) (parseredirs s)"
proof (induction s rule: parseredirs.induct)
  case (1 s)
  obtain s1 b where p: "peek s ''<>'' = (s1, b)" by fastforce
  obtain tok q0 e0 s2 where g: "gettoken s1 = (tok, q0, e0, s2)" by (metis prod_cases4)
  obtain t q eq s3 where h: "gettoken s2 = (t, q, eq, s3)" by (metis prod_cases4)
  have s1: "suffix s1 s" using peek_suffix(1) [OF p] .
  then have s2: "suffix s2 s" using gettoken_suffix [OF g] suffix_order.trans by blast
  show ?case
  proof (cases "b \<and> t = CHR ''a''")
    case True
    have s3: "suffix s3 s" using gettoken_suffix [OF h] s2 suffix_order.trans by blast
    have w: "word_ok s (q, eq)" using gettoken_suffix [OF h] True word_ok_suffix s2 by blast
    have "parses (\<lambda>(rs, s'). suffix s' s3 \<and> redirs_ok s3 rs) (parseredirs s3)"
      using 1 p g h True by simp
    moreover have "suffix s' s \<and> redirs_ok s (redir_of tok q eq @ rs)" if "suffix s' s3" "redirs_ok s3 rs" for rs s'
      using w suffix_order.trans [OF that(1) s3] redirs_ok_suffix [OF that(2) s3] by (auto simp: redirs_ok_def redir_of_def)
    ultimately have "parses (\<lambda>(rs, s'). suffix s' s \<and> redirs_ok s rs)
        (pbind (parseredirs s3) (\<lambda>(rs, s). Some (Inr (redir_of tok q eq @ rs, s))))"
      by (elim parses_pbind) auto
    then show ?thesis using p g h True by (subst parseredirs.simps) simp
  next
    case False
    then show ?thesis using p g h s1 by (subst parseredirs.simps) (auto simp: redirs_ok_def)
  qed
qed

lemma parseredirs_le: "parseredirs s = Some (Inr (rs, s')) \<Longrightarrow> length s' \<le> length s"
  using parseredirs_parses [of s] by (auto dest: suffix_length_le)

text \<open>The loop of \<^verbatim>\<open>parseexec\<close> over the arguments read so far and the redirections around them.\<close>

function parseexec_loop ::
  "(string \<times> string) list \<Rightarrow> redir list \<Rightarrow> string \<Rightarrow> ((string \<times> string) list \<times> redir list \<times> string) parse" where
  "parseexec_loop argv rs s =
     (case peek s ''|)&;'' of (s, b) \<Rightarrow>
        if b then Some (Inr (argv, rs, s))
        else case gettoken s of (tok, q, eq, s) \<Rightarrow>
          if tok = CHR 0x00 then Some (Inr (argv, rs, s))
          else if tok \<noteq> CHR ''a'' then Some (Inl ''syntax'')
          else let argv = argv @ [(q, eq)]
            in if length argv \<ge> MAXARGS then Some (Inl ''too many args'')
               else (case parseredirs s of
                       None \<Rightarrow> None
                     | Some (Inl e) \<Rightarrow> Some (Inl e)
                     | Some (Inr (rs', s)) \<Rightarrow> parseexec_loop argv (rs @ rs') s))"
  by pat_completeness auto
termination
  by (relation "measure (\<lambda>(argv, rs, s). length s)")
    (auto dest!: parse_le(1) [OF sym] parse_le(2) [OF sym] parseredirs_le)

declare parseexec_loop.simps [simp del]

function back_loop :: "cmd \<Rightarrow> string \<Rightarrow> cmd \<times> string" where
  "back_loop c s =
     (case peek s ''&'' of (s, b) \<Rightarrow> if b then back_loop (BACK c) (after_token s) else (c, s))"
  by pat_completeness auto
termination
proof (relation "measure (\<lambda>(c, s). length s)")
  fix c s s1 b assume "(s1, b) = peek s ''&''" b
  then have p: "peek s ''&'' = (s1, b)" b by simp_all
  then have "skip_space s1 \<noteq> []" by (auto simp: peek_def Let_def)
  then show "((BACK c, after_token s1), c, s) \<in> measure (\<lambda>(c, s). length s)"
    using after_token_shorter [of s1] parse_le(1) [OF p(1)] by simp
qed simp

declare back_loop.simps [simp del]

fun parseline :: "nat \<Rightarrow> string \<Rightarrow> (cmd \<times> string) parse"
  and parsepipe :: "nat \<Rightarrow> string \<Rightarrow> (cmd \<times> string) parse"
  and parseblock :: "nat \<Rightarrow> string \<Rightarrow> (cmd \<times> string) parse"
  and parseexec :: "nat \<Rightarrow> string \<Rightarrow> (cmd \<times> string) parse" where
  "parseline 0 s = None"
| "parseline (Suc n) s =
     pbind (parsepipe n s) (\<lambda>(c, s).
       case back_loop c s of (c, s) \<Rightarrow>
         (case peek s '';'' of (s, b) \<Rightarrow>
            if b then pbind (parseline n (after_token s)) (\<lambda>(r, s). Some (Inr (LIST c r, s)))
            else Some (Inr (c, s))))"
| "parsepipe 0 s = None"
| "parsepipe (Suc n) s =
     pbind (parseexec n s) (\<lambda>(c, s).
       case peek s ''|'' of (s, b) \<Rightarrow>
         if b then pbind (parsepipe n (after_token s)) (\<lambda>(r, s). Some (Inr (PIPE c r, s)))
         else Some (Inr (c, s)))"
| "parseblock 0 s = None"
| "parseblock (Suc n) s =
     (case peek s ''('' of (s, b) \<Rightarrow>
        if \<not> b then Some (Inl ''parseblock'')
        else pbind (parseline n (after_token s)) (\<lambda>(c, s).
          case peek s '')'' of (s, b) \<Rightarrow>
            if \<not> b then Some (Inl ''syntax - missing )'')
            else pbind (parseredirs (after_token s)) (\<lambda>(rs, s). Some (Inr (wrap rs c, s)))))"
| "parseexec 0 s = None"
| "parseexec (Suc n) s =
     (case peek s ''('' of (s, b) \<Rightarrow>
        if b then parseblock n s
        else pbind (parseredirs s) (\<lambda>(rs, s).
          pbind (parseexec_loop [] rs s) (\<lambda>(argv, rs, s). Some (Inr (wrap rs (EXEC argv), s)))))"

definition parse_fuel :: "string \<Rightarrow> nat" where
  "parse_fuel s = 4 * length s + 4"

text \<open>\<^verbatim>\<open>parsecmd\<close> before \<^verbatim>\<open>nulterminate\<close>; what it prints about leftovers is not part of the result.\<close>

definition parsecmd :: "string \<Rightarrow> cmd parse" where
  "parsecmd s =
     pbind (parseline (parse_fuel s) s) (\<lambda>(c, s).
       case peek s '''' of (s, _) \<Rightarrow> if s \<noteq> [] then Some (Inl ''syntax'') else Some (Inr c))"

text \<open>
  \<^verbatim>\<open>nulterminate\<close> on the buffer of the line, which ends in a NUL: a pointer \<open>p\<close> is the place \<open>length p\<close> before
  that NUL.
\<close>

definition put_nul :: "string \<Rightarrow> string \<Rightarrow> string" where
  "put_nul p buf = buf[length buf - 1 - length p := CHR 0x00]"

primrec nulterminate :: "cmd \<Rightarrow> string \<Rightarrow> string" where
  "nulterminate (EXEC argv) buf = fold (\<lambda>(q, eq). put_nul eq) argv buf"
| "nulterminate (REDIR c file efile mode fd) buf = put_nul efile (nulterminate c buf)"
| "nulterminate (PIPE l r) buf = nulterminate r (nulterminate l buf)"
| "nulterminate (LIST l r) buf = nulterminate r (nulterminate l buf)"
| "nulterminate (BACK c) buf = nulterminate c buf"

section \<open>The parser terminates\<close>

primrec words :: "cmd \<Rightarrow> (string \<times> string) set" where
  "words (EXEC argv) = set argv"
| "words (REDIR c file efile mode fd) = insert (file, efile) (words c)"
| "words (PIPE l r) = words l \<union> words r"
| "words (LIST l r) = words l \<union> words r"
| "words (BACK c) = words c"

definition cmd_ok :: "string \<Rightarrow> cmd \<Rightarrow> bool" where
  "cmd_ok s c \<longleftrightarrow> (\<forall>w \<in> words c. word_ok s w)"

lemma cmd_ok_suffix: "cmd_ok s' c \<Longrightarrow> suffix s' s \<Longrightarrow> cmd_ok s c"
  by (auto simp: cmd_ok_def intro: word_ok_suffix)

lemma cmd_ok_simps [simp]:
  "cmd_ok s (EXEC argv) \<longleftrightarrow> (\<forall>w \<in> set argv. word_ok s w)"
  "cmd_ok s (REDIR c q eq m f) \<longleftrightarrow> word_ok s (q, eq) \<and> cmd_ok s c"
  "cmd_ok s (PIPE c d) \<longleftrightarrow> cmd_ok s c \<and> cmd_ok s d"
  "cmd_ok s (LIST c d) \<longleftrightarrow> cmd_ok s c \<and> cmd_ok s d"
  "cmd_ok s (BACK c) \<longleftrightarrow> cmd_ok s c"
  by (auto simp: cmd_ok_def)

lemma cmd_ok_wrap: "redirs_ok s rs \<Longrightarrow> cmd_ok s c \<Longrightarrow> cmd_ok s (wrap rs c)"
  by (induction rs arbitrary: c) (auto simp: wrap_def redirs_ok_def)

lemma parseexec_loop_parses:
  assumes "\<forall>w \<in> set argv. word_ok t w" "redirs_ok t rs" "suffix s t"
  shows "parses (\<lambda>(argv, rs, s'). suffix s' s \<and> (\<forall>w \<in> set argv. word_ok t w) \<and> redirs_ok t rs) (parseexec_loop argv rs s)"
  using assms
proof (induction argv rs s rule: parseexec_loop.induct)
  case (1 argv rs s)
  obtain s1 b where p: "peek s ''|)&;'' = (s1, b)" by fastforce
  obtain tok q eq s2 where g: "gettoken s1 = (tok, q, eq, s2)" by (metis prod_cases4)
  have s1: "suffix s1 s" using peek_suffix(1) [OF p] .
  then have s2: "suffix s2 s" using gettoken_suffix [OF g] suffix_order.trans by blast
  show ?case
  proof (cases "\<not> b \<and> tok = CHR ''a'' \<and> length argv < MAXARGS - 1")
    case True
    have w: "word_ok t (q, eq)" using gettoken_suffix [OF g] True word_ok_suffix s1 1(4) suffix_order.trans by metis
    have st: "suffix s2 t" using s2 1(4) suffix_order.trans by blast
    consider e where "parseredirs s2 = Some (Inl e)" | rs' s3 where "parseredirs s2 = Some (Inr (rs', s3))" "suffix s3 s2" "redirs_ok s2 rs'"
      using parseredirs_parses [of s2] by (auto simp: parses_def split: option.splits sum.splits)
    then show ?thesis
    proof cases
      case 1
      then show ?thesis using p g True by (subst parseexec_loop.simps) (auto simp: Let_def)
    next
      case 2
      have r: "redirs_ok t (rs @ rs')" using 1(3) redirs_ok_suffix [OF 2(3) st] by (auto simp: redirs_ok_def)
      have l: "\<not> MAXARGS \<le> length (argv @ [(q, eq)])" using True by (simp add: MAXARGS_def)
      have "parses (\<lambda>(argv, rs, s'). suffix s' s3 \<and> (\<forall>w \<in> set argv. word_ok t w) \<and> redirs_ok t rs)
          (parseexec_loop (argv @ [(q, eq)]) (rs @ rs') s3)"
        by (rule 1(1) [OF p [symmetric] _ g [symmetric] refl refl _ _ refl l 2(1) refl refl])
          (use True 1(2) w r st 2(2) in \<open>auto intro: suffix_order.trans\<close>)
      then have "parses (\<lambda>(argv, rs, s'). suffix s' s \<and> (\<forall>w \<in> set argv. word_ok t w) \<and> redirs_ok t rs)
          (parseexec_loop (argv @ [(q, eq)]) (rs @ rs') s3)"
        using 2(2) s2 by (auto simp: parses_def split: option.splits sum.splits intro: suffix_order.trans)
      then show ?thesis using p g True 2(1) l by (subst parseexec_loop.simps) (simp add: Let_def)
    qed
  next
    case False
    then show ?thesis using p g s1 s2 1(2-) by (subst parseexec_loop.simps) (auto simp: Let_def MAXARGS_def)
  qed
qed

lemma back_loop_parses:
  "cmd_ok t c \<Longrightarrow> suffix s t \<Longrightarrow> back_loop c s = (c', s') \<Longrightarrow> suffix s' s \<and> cmd_ok t c'"
proof (induction c s rule: back_loop.induct)
  case (1 c s)
  obtain s1 b where p: "peek s ''&'' = (s1, b)" by fastforce
  have s1: "suffix s1 s" using peek_suffix(1) [OF p] .
  moreover have a: "suffix (after_token s1) s1"
    using gettoken_suffix [of s1] by (cases "gettoken s1") (auto simp: after_token_def)
  ultimately have as: "suffix (after_token s1) s" by (rule suffix_order.trans [rotated])
  show ?case
  proof (cases b)
    case True
    have "suffix s' (after_token s1) \<and> cmd_ok t c'"
      by (rule 1(1) [OF p [symmetric] True]) (use 1(2-) True p suffix_order.trans [OF as] in \<open>auto simp: back_loop.simps [of c s]\<close>)
    then show ?thesis using suffix_order.trans [OF _ as] by blast
  next
    case False
    then show ?thesis using 1(2-) p s1 by (simp add: back_loop.simps [of c s])
  qed
qed

definition parsed :: "string \<Rightarrow> (cmd \<times> string) parse \<Rightarrow> bool" where
  "parsed s r \<longleftrightarrow> parses (\<lambda>(c, s'). suffix s' s \<and> cmd_ok s c) r"

lemma after_peek:
  assumes "peek s toks = (s1, b)" b
  shows "suffix (after_token s1) s" "length (after_token s1) < length s"
proof -
  have "skip_space s1 \<noteq> []" using assms by (auto simp: peek_def Let_def)
  then show "length (after_token s1) < length s" using after_token_shorter [of s1] parse_le(1) [OF assms(1)] by simp
  have "suffix (after_token s1) s1" using gettoken_suffix [of s1] by (cases "gettoken s1") (auto simp: after_token_def)
  then show "suffix (after_token s1) s" using peek_suffix(1) [OF assms(1)] by (rule suffix_order.trans)
qed

lemma parsed_pbind:
  assumes "suffix s t" "parsed s r" "\<And>d s'. cmd_ok t d \<Longrightarrow> suffix s' t \<Longrightarrow> parsed t (f (d, s'))"
  shows "parsed t (pbind r f)"
  unfolding parsed_def
proof (rule parses_pbind [OF assms(2) [unfolded parsed_def]])
  fix x :: "cmd \<times> string" assume x: "case x of (c, s') \<Rightarrow> suffix s' s \<and> cmd_ok s c"
  then show "parses (\<lambda>(c, s'). suffix s' t \<and> cmd_ok t c) (f x)"
    using assms(3) [of "fst x" "snd x"] suffix_order.trans [OF _ assms(1)] cmd_ok_suffix [OF _ assms(1)]
    by (cases x) (simp add: parsed_def)
qed

text \<open>The induction hypothesis over the fuel: each call has as much as the text before it needs.\<close>

definition enough :: "nat \<Rightarrow> bool" where
  "enough n \<longleftrightarrow> (\<forall>s. (4 * length s + 4 \<le> n \<longrightarrow> parsed s (parseline n s)) \<and> (4 * length s + 3 \<le> n \<longrightarrow> parsed s (parsepipe n s)) \<and>
     (4 * length s + 1 \<le> n \<longrightarrow> parsed s (parseblock n s)) \<and> (4 * length s + 2 \<le> n \<longrightarrow> parsed s (parseexec n s)))"

lemma enoughD:
  assumes "enough n"
  shows "4 * length s + 4 \<le> n \<Longrightarrow> parsed s (parseline n s)" "4 * length s + 3 \<le> n \<Longrightarrow> parsed s (parsepipe n s)"
    "4 * length s + 1 \<le> n \<Longrightarrow> parsed s (parseblock n s)" "4 * length s + 2 \<le> n \<Longrightarrow> parsed s (parseexec n s)"
  using assms by (simp_all add: enough_def)

lemma parsed_Inr: "cmd_ok s c \<Longrightarrow> suffix s' s \<Longrightarrow> parsed s (Some (Inr (c, s')))"
  by (simp add: parsed_def)

lemma parseline_step:
  assumes e: "enough n" and n: "4 * length s + 4 \<le> Suc n"
  shows "parsed s (parseline (Suc n) s)"
  unfolding parseline.simps
proof (rule parsed_pbind [OF _ enoughD(2) [OF e]], simp_all only: prod.case)
  fix c s1 assume c: "cmd_ok s c" "suffix s1 s"
  obtain c2 s2 where k: "back_loop c s1 = (c2, s2)" by fastforce
  obtain s3 b where p: "peek s2 '';'' = (s3, b)" by fastforce
  have k2: "cmd_ok s c2" "suffix s2 s" using back_loop_parses [OF c k] suffix_order.trans [OF _ c(2)] by auto
  have s3: "suffix s3 s" using peek_suffix(1) [OF p] k2(2) by (rule suffix_order.trans)
  have "parsed s (pbind (parseline n (after_token s3)) (\<lambda>(r, s). Some (Inr (LIST c2 r, s))))" if b
  proof (rule parsed_pbind)
    show "suffix (after_token s3) s" using after_peek(1) [OF p that] k2(2) by (rule suffix_order.trans)
    show "parsed (after_token s3) (parseline n (after_token s3))"
      using after_peek(2) [OF p that] suffix_length_le [OF k2(2)] n by (intro enoughD(1) [OF e]) simp
  qed (use parsed_Inr k2 in simp)
  then show "parsed s (case back_loop c s1 of (c, s) \<Rightarrow> case peek s '';'' of (s, b) \<Rightarrow>
      if b then pbind (parseline n (after_token s)) (\<lambda>(r, s). Some (Inr (LIST c r, s))) else Some (Inr (c, s)))"
    using k p parsed_Inr [OF k2(1) s3] by simp
qed (use n in simp_all)

lemma parsepipe_step:
  assumes e: "enough n" and n: "4 * length s + 3 \<le> Suc n"
  shows "parsed s (parsepipe (Suc n) s)"
  unfolding parsepipe.simps
proof (rule parsed_pbind [OF _ enoughD(4) [OF e]], simp_all only: prod.case)
  fix c s1 assume c: "cmd_ok s c" "suffix s1 s"
  obtain s3 b where p: "peek s1 ''|'' = (s3, b)" by fastforce
  have s3: "suffix s3 s" using peek_suffix(1) [OF p] c(2) by (rule suffix_order.trans)
  have "parsed s (pbind (parsepipe n (after_token s3)) (\<lambda>(r, s). Some (Inr (PIPE c r, s))))" if b
  proof (rule parsed_pbind)
    show "suffix (after_token s3) s" using after_peek(1) [OF p that] c(2) by (rule suffix_order.trans)
    show "parsed (after_token s3) (parsepipe n (after_token s3))"
      using after_peek(2) [OF p that] suffix_length_le [OF c(2)] n by (intro enoughD(2) [OF e]) simp
  qed (use parsed_Inr c in simp)
  then show "parsed s (case peek s1 ''|'' of (s, b) \<Rightarrow>
      if b then pbind (parsepipe n (after_token s)) (\<lambda>(r, s). Some (Inr (PIPE c r, s))) else Some (Inr (c, s)))"
    using p parsed_Inr [OF c(1) s3] by simp
qed (use n in simp_all)

lemma parseblock_step:
  assumes e: "enough n" and n: "4 * length s + 1 \<le> Suc n"
  shows "parsed s (parseblock (Suc n) s)"
proof -
  obtain s1 b where p: "peek s ''('' = (s1, b)" by fastforce
  have "parsed s (pbind (parseline n (after_token s1)) (\<lambda>(c, s). case peek s '')'' of (s, b) \<Rightarrow>
      if \<not> b then Some (Inl ''syntax - missing )'')
      else pbind (parseredirs (after_token s)) (\<lambda>(rs, s). Some (Inr (wrap rs c, s)))))" if b
  proof (rule parsed_pbind [OF after_peek(1) [OF p that]], simp_all only: prod.case)
    show "parsed (after_token s1) (parseline n (after_token s1))"
      using after_peek(2) [OF p that] n by (intro enoughD(1) [OF e]) simp
    fix c s2 assume c: "cmd_ok s c" "suffix s2 s"
    obtain s3 e where q: "peek s2 '')'' = (s3, e)" by fastforce
    have "parsed s (pbind (parseredirs (after_token s3)) (\<lambda>(rs, s). Some (Inr (wrap rs c, s))))" if e
    proof -
      have a: "suffix (after_token s3) s" using after_peek(1) [OF q that] c(2) by (rule suffix_order.trans)
      show ?thesis unfolding parsed_def
        by (rule parses_pbind [OF parseredirs_parses])
          (use suffix_order.trans [OF _ a] redirs_ok_suffix [OF _ a] cmd_ok_wrap c(1) in auto)
    qed
    then show "parsed s (case peek s2 '')'' of (s, b) \<Rightarrow> if \<not> b then Some (Inl ''syntax - missing )'')
        else pbind (parseredirs (after_token s)) (\<lambda>(rs, s). Some (Inr (wrap rs c, s))))"
      using q by (simp add: parsed_def)
  qed
  then show ?thesis using p by (simp add: parsed_def)
qed

lemma parseexec_step:
  assumes e: "enough n" and n: "4 * length s + 2 \<le> Suc n"
  shows "parsed s (parseexec (Suc n) s)"
proof -
  obtain s1 b where p: "peek s ''('' = (s1, b)" by fastforce
  have s1: "suffix s1 s" by (rule peek_suffix(1) [OF p])
  have "parsed s (pbind (parseredirs s1) (\<lambda>(rs, s). pbind (parseexec_loop [] rs s) (\<lambda>(argv, rs, s). Some (Inr (wrap rs (EXEC argv), s)))))"
    unfolding parsed_def
  proof (rule parses_pbind [OF parseredirs_parses], clarify)
    fix rs s2 assume r: "suffix s2 s1" "redirs_ok s1 rs"
    have s2: "suffix s2 s" using r(1) s1 by (rule suffix_order.trans)
    show "parses (\<lambda>(c, s'). suffix s' s \<and> cmd_ok s c) (pbind (parseexec_loop [] rs s2) (\<lambda>(argv, rs, s). Some (Inr (wrap rs (EXEC argv), s))))"
      by (rule parses_pbind [OF parseexec_loop_parses [OF _ redirs_ok_suffix [OF r(2) s1] s2]])
        (use suffix_order.trans [OF _ s2] cmd_ok_wrap in auto)
  qed
  moreover have "parsed s (parseblock n s1)"
    using enoughD(3) [OF e, of s1] suffix_length_le [OF s1] n suffix_order.trans [OF _ s1] cmd_ok_suffix [OF _ s1]
    by (auto simp: parsed_def parses_def split: option.splits sum.splits)
  ultimately show ?thesis using p by simp
qed

lemma enough_fuel: "enough n"
proof (induction n)
  case (Suc n)
  then show ?case unfolding enough_def [of "Suc n"]
    using parseline_step parsepipe_step parseblock_step parseexec_step by blast
qed (simp add: enough_def)

lemma parsecmd_parses: "parses (cmd_ok s) (parsecmd s)"
  unfolding parsecmd_def
  by (rule parses_pbind [OF enoughD(1) [OF enough_fuel, of s "parse_fuel s", unfolded parsed_def]])
    (auto simp: parse_fuel_def split: prod.splits)

text \<open>
  C31: The parser of the shell terminates on every command line, with a command tree or a syntax error: the
  recursion never needs more than four calls per character.
\<close>

theorem parsecmd_terminates: "\<exists>r. parsecmd s = Some r"
  using parsecmd_parses [of s] by (cases "parsecmd s") auto

section \<open>Cutting out the words\<close>

definition c_string :: "string \<Rightarrow> string \<Rightarrow> string" where
  "c_string buf p = takeWhile (\<lambda>c. c \<noteq> CHR 0x00) (drop (length buf - 1 - length p) buf)"

lemma length_nulterminate [simp]: "length (nulterminate c buf) = length buf"
proof (induction c arbitrary: buf)
  case (EXEC argv)
  show ?case by (induction argv arbitrary: buf) (auto simp: put_nul_def split: prod.splits)
qed (auto simp: put_nul_def)

lemma nth_nulterminate:
  "i < length buf \<Longrightarrow> nulterminate c buf ! i =
     (if \<exists>(q, eq) \<in> words c. i = length buf - 1 - length eq then CHR 0x00 else buf ! i)"
proof (induction c arbitrary: buf)
  case (EXEC argv)
  then show ?case
  proof (induction argv arbitrary: buf)
    case (Cons w argv)
    obtain q eq where w: "w = (q, eq)" by fastforce
    show ?case using Cons.IH [of "put_nul eq buf"] Cons.prems unfolding w by (auto simp: put_nul_def nth_list_update)
  qed simp
qed (auto simp: put_nul_def nth_list_update)

text \<open>
  C32: After \<^verbatim>\<open>nulterminate\<close> each word pointer of the command that \<^verbatim>\<open>parsecmd\<close> returns points to a C string that is exactly
  the text between the two pointers of the word: the NULs written at the ends of words never fall
  inside another word.
\<close>

theorem nulterminate_words:
  assumes "parsecmd s = Some (Inr c)" "CHR 0x00 \<notin> set s" "(q, eq) \<in> words c"
  shows "c_string (nulterminate c (s @ [CHR 0x00])) q = take (length q - length eq) q"
proof -
  let ?b = "nulterminate c (s @ [CHR 0x00])"
  have ok: "word_ok s w" if "w \<in> words c" for w
    using parsecmd_parses [of s] assms(1) that by (simp add: cmd_ok_def)
  obtain pre w where p: "s = pre @ q" "q = w @ eq" "list_all ordinary w"
    using ok [OF assms(3)] by (auto simp: word_ok_def suffix_def)
  have nth: "?b ! i = (if \<exists>(q, eq) \<in> words c. i = length s - length eq then CHR 0x00 else (s @ [CHR 0x00]) ! i)"
    if "i \<le> length s" for i using nth_nulterminate [of i "s @ [CHR 0x00]" c] that by simp
  have inside: "?b ! (length pre + k) = w ! k" if k: "k < length w" for k
  proof -
    have w: "ordinary (w ! k)" "s ! (length pre + k) = w ! k" "length pre + k < length s"
      using p k by (simp_all add: list_all_length nth_append)
    have "\<not> ordinary (s ! i)" if i: "(q', eq') \<in> words c" "i = length s - length eq'" "i < length s" for q' eq' i
    proof -
      obtain u where "s = u @ eq'" "eq' = [] \<or> \<not> ordinary (hd eq')" using ok [OF i(1)] by (auto simp: word_ok_def suffix_def)
      then show ?thesis using i(2,3) by (cases eq') auto
    qed
    then have "length pre + k \<noteq> length s - length eq'" if "(q', eq') \<in> words c" for q' eq' using that w by metis
    then have "\<not> (\<exists>(q, eq) \<in> words c. length pre + k = length s - length eq)" by blast
    then show ?thesis using nth [of "length pre + k"] w(2,3) by (simp add: nth_append)
  qed
  have "?b ! (length pre + length w) = CHR 0x00" using nth [of "length pre + length w"] assms(3) p(1,2) by force
  moreover have "drop (length pre) ?b = take (length w) (drop (length pre) ?b) @ (drop (length pre) ?b ! length w) #
      drop (Suc (length w)) (drop (length pre) ?b)"
    by (rule id_take_nth_drop) (use p(1,2) in simp)
  moreover have "take (length w) (drop (length pre) ?b) = w"
    by (rule nth_equalityI) (use inside p(1,2) in simp_all)
  ultimately have "drop (length pre) ?b = w @ CHR 0x00 # drop (Suc (length w)) (drop (length pre) ?b)"
    using p(1,2) by simp
  moreover have "CHR 0x00 \<notin> set w" using assms(2) p(1,2) by simp
  ultimately show ?thesis using p(1,2) by (simp add: c_string_def takeWhile_append)
qed

theorem nulterminate_words_witness:
  "\<exists>c q eq. parsecmd ''ls a>b'' = Some (Inr c) \<and> (q, eq) \<in> words c \<and> c_string (nulterminate c (''ls a>b'' @ [CHR 0x00])) q = ''a''"
proof -
  let ?c = "REDIR (EXEC [(''ls a>b'', '' a>b''), (''a>b'', ''>b'')]) ''b'' '''' 0x601 1"
  have "parsecmd ''ls a>b'' = Some (Inr ?c)" by code_simp
  then show ?thesis using nulterminate_words [of "''ls a>b''" ?c "''a>b''" "''>b''"] by (intro exI [of _ ?c]) auto
qed

end
