(* ===== verification/Sh_Props.thy ===== *)
theory Sh_Props
  imports Sh
begin

text \<open>
  A round trip for the parser of the shell: \<open>unparse\<close> writes any command tree as a command line, and
  \<^verbatim>\<open>parsecmd\<close> reads that line back as the same tree.
\<close>

section \<open>Every command tree has a text\<close>

datatype rkind = In | Out | App

datatype tree = TExec "string list" | TRedir tree rkind string | TPipe tree tree | TList tree tree | TBack tree

fun rkind_mode :: "rkind \<Rightarrow> int \<times> int" where
  "rkind_mode In = (0, 0)"
| "rkind_mode Out = (0x601, 1)"
| "rkind_mode App = (0x201, 1)"

fun rkind_text :: "rkind \<Rightarrow> string" where
  "rkind_text In = ''<''"
| "rkind_text Out = ''>''"
| "rkind_text App = ''>>''"

definition word_of_ptrs :: "string \<times> string \<Rightarrow> string" where
  "word_of_ptrs = (\<lambda>(q, eq). take (length q - length eq) q)"

text \<open>A command whose words are the text between their pointers.\<close>

fun reads_as :: "cmd \<Rightarrow> tree \<Rightarrow> bool" where
  "reads_as (EXEC argv) (TExec ws) \<longleftrightarrow> map word_of_ptrs argv = ws"
| "reads_as (REDIR c q eq mode fd) (TRedir t k f) \<longleftrightarrow> reads_as c t \<and> word_of_ptrs (q, eq) = f \<and> (mode, fd) = rkind_mode k"
| "reads_as (PIPE c d) (TPipe t u) \<longleftrightarrow> reads_as c t \<and> reads_as d u"
| "reads_as (LIST c d) (TList t u) \<longleftrightarrow> reads_as c t \<and> reads_as d u"
| "reads_as (BACK c) (TBack t) \<longleftrightarrow> reads_as c t"
| "reads_as _ _ \<longleftrightarrow> False"

definition plain_word :: "string \<Rightarrow> bool" where
  "plain_word w \<longleftrightarrow> w \<noteq> [] \<and> list_all ordinary w"

primrec tree_ok :: "tree \<Rightarrow> bool" where
  "tree_ok (TExec ws) \<longleftrightarrow> length ws < MAXARGS \<and> list_all plain_word ws"
| "tree_ok (TRedir t k f) \<longleftrightarrow> tree_ok t \<and> plain_word f"
| "tree_ok (TPipe t u) \<longleftrightarrow> tree_ok t \<and> tree_ok u"
| "tree_ok (TList t u) \<longleftrightarrow> tree_ok t \<and> tree_ok u"
| "tree_ok (TBack t) \<longleftrightarrow> tree_ok t"

primrec unparse :: "tree \<Rightarrow> string" where
  "unparse (TExec ws) = concat (map (\<lambda>w. w @ '' '') ws)"
| "unparse (TRedir t k f) = ''('' @ unparse t @ '')'' @ rkind_text k @ f @ '' ''"
| "unparse (TPipe t u) = ''('' @ unparse t @ '')|('' @ unparse u @ '')''"
| "unparse (TList t u) = ''('' @ unparse t @ '');('' @ unparse u @ '')''"
| "unparse (TBack t) = ''('' @ unparse t @ '')&''"

text \<open>What may follow a command: the end of the line or a closing parenthesis.\<close>

definition ends :: "string \<Rightarrow> bool" where
  "ends k \<longleftrightarrow> k = [] \<or> hd k = CHR '')''"

lemma endsE: "ends k \<Longrightarrow> (k = [] \<Longrightarrow> P) \<Longrightarrow> (\<And>r. k = CHR '')'' # r \<Longrightarrow> P) \<Longrightarrow> P"
  by (cases k) (auto simp: ends_def)

lemma skip_ends [simp]: "ends k \<Longrightarrow> skip_space k = k"
  by (erule endsE) (auto simp: whitespace_def)

lemma peek_ends [simp]: "ends k \<Longrightarrow> strchr toks (CHR '')'') = None \<Longrightarrow> peek k toks = (k, False)"
  by (erule endsE) (auto simp: peek_def whitespace_def)

lemma peek_char: "c \<notin> set whitespace \<Longrightarrow> peek (c # s) toks = (c # s, strchr toks c \<noteq> None)"
  by (simp add: peek_def)

lemma gettoken_plain: "plain_word w \<Longrightarrow> gettoken (w @ CHR '' '' # r) = (CHR ''a'', w @ CHR '' '' # r, CHR '' '' # r, skip_space r)"
proof -
  assume "plain_word w"
  then obtain c v where w: "w = c # v" "ordinary c" "list_all ordinary v" by (cases w) (auto simp: plain_word_def)
  have "skip_word (v @ CHR '' '' # r) = CHR '' '' # r"
    using w(3) by (induction v) (auto simp: ordinary_def whitespace_def symbols_def)
  then have sk: "skip_word (w @ CHR '' '' # r) = CHR '' '' # r" using w(1,2) by (simp add: ordinary_def)
  have "c \<notin> set whitespace" "c \<notin> set symbols" using w(2) by (simp_all add: ordinary_def)
  then have "gettoken (c # s) = (CHR ''a'', c # s, skip_word (c # s), skip_space (skip_word (c # s)))" for s
    by (simp add: gettoken_def symbols_def Let_def del: skip_word.simps)
  then show ?thesis using sk unfolding w(1) by (simp add: whitespace_def del: skip_word.simps)
qed

lemma skip_unparse: "tree_ok t \<Longrightarrow> ends k \<Longrightarrow> skip_space (unparse t @ k) = unparse t @ k"
proof (cases t)
  case (TExec ws)
  assume "tree_ok t" "ends k"
  then show ?thesis using TExec by (cases ws; cases "hd ws") (auto simp: plain_word_def ordinary_def)
qed (auto simp: whitespace_def)

lemma after_sym [simp]:
  "after_token (CHR ''|'' # s) = skip_space s" "after_token (CHR ''('' # s) = skip_space s"
  "after_token (CHR '')'' # s) = skip_space s" "after_token (CHR '';'' # s) = skip_space s"
  "after_token (CHR ''&'' # s) = skip_space s"
  by (simp_all add: after_token_def gettoken_def whitespace_def)

lemma parseredirs_none: "peek s ''<>'' = (s', False) \<Longrightarrow> parseredirs s = Some (Inr ([], s'))"
  by (subst parseredirs.simps) simp

lemma parseredirs_one:
  assumes "plain_word f" "ends k"
  shows "\<exists>q eq. parseredirs (rkind_text r @ f @ CHR '' '' # k) =
    Some (Inr ([(q, eq, fst (rkind_mode r), snd (rkind_mode r))], k)) \<and> word_of_ptrs (q, eq) = f"
proof -
  have e: "parseredirs k = Some (Inr ([], k))" using assms(2) by (intro parseredirs_none) simp
  obtain c v where f: "f = c # v" "ordinary c" using assms(1) by (cases f) (auto simp: plain_word_def)
  then have sp: "skip_space (f @ CHR '' '' # k) = f @ CHR '' '' # k" "c \<noteq> CHR ''>''" by (auto simp: ordinary_def symbols_def)
  let ?t = "case r of In \<Rightarrow> CHR ''<'' | Out \<Rightarrow> CHR ''>'' | App \<Rightarrow> CHR ''+''"
  have "\<exists>q0 e0. gettoken (rkind_text r @ f @ CHR '' '' # k) = (?t, q0, e0, f @ CHR '' '' # k)"
    using sp f(1) by (cases r) (auto simp: gettoken_def whitespace_def)
  moreover have "peek (rkind_text r @ f @ CHR '' '' # k) ''<>'' = (rkind_text r @ f @ CHR '' '' # k, True)"
    by (cases r) (auto simp: peek_char whitespace_def)
  ultimately have "parseredirs (rkind_text r @ f @ CHR '' '' # k) =
      Some (Inr (redir_of ?t (f @ CHR '' '' # k) (CHR '' '' # k) @ [], k))"
    using gettoken_plain [OF assms(1), of k] e assms(2) by (subst parseredirs.simps) (auto simp: pbind_def)
  then show ?thesis by (cases r) (auto simp: redir_of_def word_of_ptrs_def)
qed

lemma peek_words:
  assumes "list_all plain_word ws" "ends k" "strchr toks (CHR '')'') = None" "set toks \<subseteq> set symbols"
  shows "peek (concat (map (\<lambda>w. w @ '' '') ws) @ k) toks = (concat (map (\<lambda>w. w @ '' '') ws) @ k, False)"
proof (cases ws)
  case (Cons w ws')
  then obtain c v where w: "w = c # v" "ordinary c" using assms(1) by (cases w) (auto simp: plain_word_def)
  have "strchr toks c = None \<or> c \<in> set toks" by (induction toks) auto
  then have "strchr toks c = None" using w(2) assms(4) by (auto simp: ordinary_def)
  then show ?thesis using Cons w by (simp add: peek_char ordinary_def)
qed (use assms in simp)

lemma parseexec_loop_words:
  assumes "list_all plain_word ws" "length argv + length ws < MAXARGS" "ends k"
  shows "\<exists>av. parseexec_loop argv [] (concat (map (\<lambda>w. w @ '' '') ws) @ k) = Some (Inr (argv @ av, [], k)) \<and> map word_of_ptrs av = ws"
  using assms
proof (induction ws arbitrary: argv)
  case Nil
  show ?case using Nil(3)
    by (rule endsE) (subst parseexec_loop.simps; simp add: peek_def gettoken_def whitespace_def)+
next
  case (Cons w ws)
  let ?r = "concat (map (\<lambda>w. w @ '' '') ws) @ k"
  have sp: "skip_space ?r = ?r" using skip_unparse [of "TExec ws" k] Cons.prems by simp
  obtain c v where w: "w = c # v" "ordinary c" using Cons.prems(1) by (cases w) (auto simp: plain_word_def)
  have "peek (w @ CHR '' '' # ?r) ''|)&;'' = (w @ CHR '' '' # ?r, False)"
    using w by (auto simp: peek_char ordinary_def symbols_def)
  moreover have "gettoken (w @ CHR '' '' # ?r) = (CHR ''a'', w @ CHR '' '' # ?r, CHR '' '' # ?r, ?r)"
    using gettoken_plain [of w ?r] Cons.prems(1) sp by simp
  moreover have "peek ?r ''<>'' = (?r, False)"
    using Cons.prems by (intro peek_words) (auto simp: symbols_def)
  then have "parseredirs ?r = Some (Inr ([], ?r))" by (rule parseredirs_none)
  moreover obtain av where "parseexec_loop (argv @ [(w @ CHR '' '' # ?r, CHR '' '' # ?r)]) [] ?r =
      Some (Inr ((argv @ [(w @ CHR '' '' # ?r, CHR '' '' # ?r)]) @ av, [], k))" "map word_of_ptrs av = ws"
    using Cons.IH [of "argv @ [(w @ CHR '' '' # ?r, CHR '' '' # ?r)]"] Cons.prems by auto
  ultimately show ?case using Cons.prems(2)
    by (intro exI [of _ "(w @ CHR '' '' # ?r, CHR '' '' # ?r) # av"], subst parseexec_loop.simps)
      (simp add: Let_def word_of_ptrs_def)
qed

text \<open>A tree is parsed from every text that continues with something that ends a command.\<close>

definition reads :: "tree \<Rightarrow> bool" where
  "reads t \<longleftrightarrow> (\<forall>k n. ends k \<longrightarrow> 4 * length (unparse t @ k) + 4 \<le> n \<longrightarrow>
     (\<exists>c. parseline n (unparse t @ k) = Some (Inr (c, k)) \<and> reads_as c t))"

lemma readsD: "reads t \<Longrightarrow> ends k \<Longrightarrow> 4 * length (unparse t @ k) + 4 \<le> n \<Longrightarrow>
    \<exists>c. parseline n (unparse t @ k) = Some (Inr (c, k)) \<and> reads_as c t"
  by (simp add: reads_def)

lemma fuel_Suc: "2 \<le> n \<Longrightarrow> \<exists>m. n = Suc (Suc m)" "3 \<le> n \<Longrightarrow> \<exists>m. n = Suc (Suc (Suc m))"
  by presburger+

lemma parseexec_block:
  assumes "reads t" "tree_ok t" "parseredirs (skip_space r) = Some (Inr (rs, r'))"
    and "4 * length (''('' @ unparse t @ '')'' @ r) + 2 \<le> n"
  shows "\<exists>c. parseexec n (''('' @ unparse t @ '')'' @ r) = Some (Inr (wrap rs c, r')) \<and> reads_as c t"
proof -
  obtain m where n: "n = Suc (Suc m)" using assms(4) fuel_Suc(1) [of n] by auto
  let ?k = "CHR '')'' # r"
  have k: "ends ?k" by (simp add: ends_def)
  have "4 * length (unparse t @ ?k) + 4 \<le> m" using assms(4) n by simp
  then obtain c where c: "parseline m (unparse t @ ?k) = Some (Inr (c, ?k))" "reads_as c t"
    using readsD [OF assms(1) k] by blast
  have "skip_space (unparse t @ ?k) = unparse t @ ?k" by (rule skip_unparse [OF assms(2) k])
  then have "parseexec n (''('' @ unparse t @ '')'' @ r) = Some (Inr (wrap rs c, r'))"
    using c(1) assms(3) n by (simp add: peek_char whitespace_def pbind_def)
  then show ?thesis using c(2) by blast
qed

text \<open>A text that neither redirects nor pipes.\<close>

definition stops :: "string \<Rightarrow> bool" where
  "stops r \<longleftrightarrow> ends r \<or> hd r \<in> set '';&''"

lemma stops_peek:
  assumes "stops r"
  shows "peek r ''<>'' = (r, False)" "peek r ''|'' = (r, False)" "skip_space r = r"
proof -
  consider "r = []" | s where "r = CHR '')'' # s" | s where "r = CHR '';'' # s" | s where "r = CHR ''&'' # s"
    using assms by (cases r) (auto simp: stops_def ends_def)
  then show "peek r ''<>'' = (r, False)" "peek r ''|'' = (r, False)" "skip_space r = r"
    by (cases; simp add: peek_def whitespace_def)+
qed

lemma parsepipe_block:
  assumes "reads t" "tree_ok t" "stops r" "4 * length (''('' @ unparse t @ '')'' @ r) + 3 \<le> n"
  shows "\<exists>c. parsepipe n (''('' @ unparse t @ '')'' @ r) = Some (Inr (c, r)) \<and> reads_as c t"
proof -
  obtain m where n: "n = Suc m" using assms(4) by (cases n) auto
  have "parseredirs (skip_space r) = Some (Inr ([], r))" using stops_peek [OF assms(3)] by (simp add: parseredirs_none)
  then obtain c where "parseexec m (''('' @ unparse t @ '')'' @ r) = Some (Inr (c, r))" "reads_as c t"
    using parseexec_block [OF assms(1,2), of r "[]" r m] assms(4) n by (auto simp: wrap_def)
  then show ?thesis using n stops_peek [OF assms(3)] by (simp add: pbind_def)
qed

lemma reads_exec:
  assumes "tree_ok (TExec ws)"
  shows "reads (TExec ws)"
  unfolding reads_def
proof (intro allI impI)
  fix k n assume k: "ends k" and n: "4 * length (unparse (TExec ws) @ k) + 4 \<le> n"
  obtain m where m: "n = Suc (Suc (Suc m))" using n fuel_Suc(2) [of n] by auto
  let ?s = "unparse (TExec ws) @ k"
  have "peek ?s ''('' = (?s, False)" "peek ?s ''<>'' = (?s, False)"
    using peek_words [OF _ k] assms by (simp_all add: symbols_def)
  moreover obtain av where "parseexec_loop [] [] ?s = Some (Inr (av, [], k))" "map word_of_ptrs av = ws"
    using parseexec_loop_words [of ws "[]" k] assms k by auto
  moreover have "back_loop c k = (c, k)" for c using k by (subst back_loop.simps) simp
  ultimately show "\<exists>c. parseline n ?s = Some (Inr (c, k)) \<and> reads_as c (TExec ws)"
    using k m parseredirs_none [of ?s ?s] by (simp add: pbind_def wrap_def)
qed

lemma reads_redir:
  assumes "reads t" "tree_ok (TRedir t r f)"
  shows "reads (TRedir t r f)"
  unfolding reads_def
proof (intro allI impI)
  fix k n assume k: "ends k" and n: "4 * length (unparse (TRedir t r f) @ k) + 4 \<le> n"
  obtain m where m: "n = Suc (Suc m)" using n fuel_Suc(1) [of n] by auto
  let ?r = "rkind_text r @ f @ CHR '' '' # k"
  have sp: "skip_space ?r = ?r" by (cases r) (simp_all add: whitespace_def)
  obtain q eq where q: "parseredirs ?r = Some (Inr ([(q, eq, fst (rkind_mode r), snd (rkind_mode r))], k))" "word_of_ptrs (q, eq) = f"
    using parseredirs_one [of f k r] assms(2) k by auto
  obtain c where c: "parseexec m (''('' @ unparse t @ '')'' @ ?r) = Some (Inr (wrap [(q, eq, fst (rkind_mode r), snd (rkind_mode r))] c, k))" "reads_as c t"
    using parseexec_block [OF assms(1), of ?r _ k m] assms(2) q(1) n m sp by auto
  moreover have "back_loop d k = (d, k)" for d using k by (subst back_loop.simps) simp
  ultimately show "\<exists>c. parseline n (unparse (TRedir t r f) @ k) = Some (Inr (c, k)) \<and> reads_as c (TRedir t r f)"
    using k m q(2) by (cases "rkind_mode r") (simp add: pbind_def wrap_def)
qed

lemma reads_pipe:
  assumes "reads t" "reads u" "tree_ok (TPipe t u)"
  shows "reads (TPipe t u)"
  unfolding reads_def
proof (intro allI impI)
  fix k n assume k: "ends k" and n: "4 * length (unparse (TPipe t u) @ k) + 4 \<le> n"
  obtain m where m: "n = Suc (Suc m)" using n fuel_Suc(1) [of n] by auto
  let ?u = "''('' @ unparse u @ '')'' @ k"
  have "parseredirs (skip_space (CHR ''|'' # ?u)) = Some (Inr ([], CHR ''|'' # ?u))"
    by (simp add: parseredirs_none peek_char whitespace_def)
  then obtain c where c: "parseexec m (''('' @ unparse t @ '')'' @ CHR ''|'' # ?u) = Some (Inr (c, CHR ''|'' # ?u))" "reads_as c t"
    using parseexec_block [OF assms(1), of "CHR ''|'' # ?u" "[]" "CHR ''|'' # ?u" m] assms(3) n m by (auto simp: wrap_def)
  obtain d where "parsepipe m ?u = Some (Inr (d, k))" "reads_as d u"
    using parsepipe_block [OF assms(2), of k m] assms(3) n m k by (auto simp: stops_def)
  moreover have "back_loop d k = (d, k)" for d using k by (subst back_loop.simps) simp
  ultimately show "\<exists>c. parseline n (unparse (TPipe t u) @ k) = Some (Inr (c, k)) \<and> reads_as c (TPipe t u)"
    using k m c by (simp add: pbind_def peek_char whitespace_def)
qed

lemma reads_list:
  assumes "reads t" "reads u" "tree_ok (TList t u)"
  shows "reads (TList t u)"
  unfolding reads_def
proof (intro allI impI)
  fix k n assume k: "ends k" and n: "4 * length (unparse (TList t u) @ k) + 4 \<le> n"
  obtain m where m: "n = Suc (Suc m)" using n fuel_Suc(1) [of n] by auto
  let ?u = "''('' @ unparse u @ '')'' @ k"
  obtain c where c: "parsepipe (Suc m) (''('' @ unparse t @ '')'' @ CHR '';'' # ?u) = Some (Inr (c, CHR '';'' # ?u))" "reads_as c t"
    using parsepipe_block [OF assms(1), of "CHR '';'' # ?u" "Suc m"] assms(3) n m by (auto simp: stops_def)
  obtain d where "parsepipe m ?u = Some (Inr (d, k))" "reads_as d u"
    using parsepipe_block [OF assms(2), of k m] assms(3) n m k by (auto simp: stops_def)
  moreover have "back_loop d k = (d, k)" "back_loop c (CHR '';'' # ?u) = (c, CHR '';'' # ?u)" for d
    using k by (subst back_loop.simps, simp add: peek_char whitespace_def)+
  ultimately show "\<exists>c. parseline n (unparse (TList t u) @ k) = Some (Inr (c, k)) \<and> reads_as c (TList t u)"
    using k m c by (simp add: pbind_def peek_char whitespace_def del: parsepipe.simps)
qed

lemma reads_back:
  assumes "reads t" "tree_ok (TBack t)"
  shows "reads (TBack t)"
  unfolding reads_def
proof (intro allI impI)
  fix k n assume k: "ends k" and n: "4 * length (unparse (TBack t) @ k) + 4 \<le> n"
  obtain m where m: "n = Suc m" using n by (cases n) auto
  obtain c where c: "parsepipe m (''('' @ unparse t @ '')'' @ CHR ''&'' # k) = Some (Inr (c, CHR ''&'' # k))" "reads_as c t"
    using parsepipe_block [OF assms(1), of "CHR ''&'' # k" m] assms(2) n m by (auto simp: stops_def)
  have "back_loop (BACK c) k = (BACK c, k)" using k by (subst back_loop.simps) simp
  then have "back_loop c (CHR ''&'' # k) = (BACK c, k)" using k by (subst back_loop.simps) (simp add: peek_char whitespace_def)
  then show "\<exists>c. parseline n (unparse (TBack t) @ k) = Some (Inr (c, k)) \<and> reads_as c (TBack t)"
    using k m c by (simp add: pbind_def)
qed

lemma reads_all: "tree_ok t \<Longrightarrow> reads t"
  by (induction t) (simp_all add: reads_exec reads_redir reads_pipe reads_list reads_back)

text \<open>
  C35: Every command tree has a command line: for each tree of simple commands with up to nine plain words,
  redirections, pipes, lists and background commands, \<^verbatim>\<open>parsecmd\<close> reads the fully parenthesised text of
  the tree back as that tree, with the open modes and descriptors of the redirections.
\<close>

theorem parsecmd_unparse:
  assumes "tree_ok t"
  shows "\<exists>c. parsecmd (unparse t) = Some (Inr c) \<and> reads_as c t"
proof -
  obtain c where "parseline (parse_fuel (unparse t)) (unparse t) = Some (Inr (c, []))" "reads_as c t"
    using readsD [OF reads_all [OF assms], of "[]" "parse_fuel (unparse t)"] by (auto simp: parse_fuel_def ends_def)
  then show ?thesis by (simp add: parsecmd_def pbind_def peek_def)
qed

theorem parsecmd_unparse_witness:
  "\<exists>c. parsecmd ''((ls a )|(wc ))>f '' = Some (Inr c) \<and>
     reads_as c (TRedir (TPipe (TExec [''ls'', ''a'']) (TExec [''wc''])) Out ''f'')"
  using parsecmd_unparse [of "TRedir (TPipe (TExec [''ls'', ''a'']) (TExec [''wc''])) Out ''f''"]
  by (simp add: plain_word_def ordinary_def whitespace_def symbols_def MAXARGS_def)

end
