(* ===== verification/Spec2Isabelle.thy ===== *)
theory Spec2Isabelle
  imports Vm_Props Trap Sched_Props Pipe_Props Console_Props Uart_Props Log_Props Log_Reserve String_Props Freewalk Fs_Props Grep Vprintf_Props Sh_Props
begin

text \<open>
  \<^bold>\<open>Verification of the xv6 kernel for RISC-V with copy-on-write fork\<close>

  The program is a small Unix kernel (\<^verbatim>\<open>kernel/\<close>) with user programs (\<^verbatim>\<open>user/\<close>) and a tool that makes its
  disk image (\<^verbatim>\<open>mkfs/\<close>). The kernel hands out physical pages (\<^verbatim>\<open>kalloc.c\<close>, with a reference count for pages
  shared copy-on-write), builds Sv39 page tables in them (\<^verbatim>\<open>vm.c\<close>), runs processes on several harts
  (\<^verbatim>\<open>proc.c\<close>, \<^verbatim>\<open>spinlock.c\<close>, \<^verbatim>\<open>swtch.S\<close>, \<^verbatim>\<open>trap.c\<close>), and stores files through a buffer cache (\<^verbatim>\<open>bio.c\<close>), a
  write-ahead log (\<^verbatim>\<open>log.c\<close>) and a file system (\<^verbatim>\<open>fs.c\<close>) on a virtio disk (\<^verbatim>\<open>virtio_disk.c\<close>). Pipes, the
  console and the serial port are ring buffers. System calls (\<^verbatim>\<open>syscall.c\<close>, \<^verbatim>\<open>sysproc.c\<close>, \<^verbatim>\<open>sysfile.c\<close>, \<^verbatim>\<open>exec.c\<close>)
  compose these parts.

  \<^bold>\<open>How code is represented.\<close> A function of the kernel is a function on the state that returns a \<open>res\<close>:
  \<open>Ok\<close> with a value and the new state, \<open>Panic\<close> for \<^verbatim>\<open>panic\<close>, \<open>Sleep\<close> where it calls \<^verbatim>\<open>sleep\<close>, \<open>Switch\<close> where it
  gives up the processor without sleeping, and \<open>Fault\<close> where C leaves the behaviour undefined. \<open>andthen\<close> sequences
  such functions and \<open>for_each\<close> is a counted loop (\<open>Xv6_Prelude\<close>). The state is a chain of records, each
  extending the one before as one component uses another: \<open>kmem\<close> (memory, reference counts, free list),
  \<open>kproc\<close>, \<open>kbio\<close>, \<open>klog\<close>, \<open>kfs\<close>, \<open>kcons\<close>, \<open>kfile\<close>, \<open>kvirt\<close> and \<open>ktrap\<close>. Memory is a function from 64-bit addresses to
  bytes, so page tables, the free list and user pages overlap in it as they do in the machine. C
  integers are words of their width where they can wrap, and natural numbers or integers in loops
  bounded by tests made on words. A critical section of a spin lock is one step of these functions; what
  justifies this is proved on the models of several harts below.

  \<^bold>\<open>Theories and sources.\<close>
  \<^item> \<open>Xv6_Prelude\<close>: results, little-endian words in memory, generic lemmas. \<open>Riscv\<close>: \<^verbatim>\<open>riscv.h\<close>, \<^verbatim>\<open>memlayout.h\<close>,
    \<^verbatim>\<open>start.c\<close>. \<open>CString\<close>, \<open>String_Props\<close>: \<^verbatim>\<open>string.c\<close>. \<open>Printf\<close>: \<^verbatim>\<open>printf.c\<close>.
  \<^item> \<open>Kalloc\<close>: \<^verbatim>\<open>kalloc.c\<close>, with the locale \<open>page_allocator\<close> interpreted on it. \<open>Vm\<close>: all of \<^verbatim>\<open>vm.c\<close>. \<open>Pagetable\<close>,
    \<open>Walk\<close>, \<open>Uvm\<close>, \<open>Cow\<close>, \<open>Cowfault\<close>, \<open>Ustore\<close>, \<open>Uspace\<close>, \<open>Ucopy\<close>, \<open>Frame\<close>: the invariant of page tables, address
    spaces and reference counts and what each operation does to it. \<open>Vm_Props\<close>, \<open>Freewalk\<close>: the properties.
  \<^item> \<open>Proc\<close>: \<^verbatim>\<open>proc.c\<close>, \<^verbatim>\<open>sleeplock.c\<close>. \<open>Spinlock\<close>: \<^verbatim>\<open>spinlock.c\<close> on all harts. \<open>Sched\<close>, \<open>Sched_Props\<close>: \<^verbatim>\<open>scheduler\<close>, \<^verbatim>\<open>sched\<close>,
    \<^verbatim>\<open>yield\<close>, \<^verbatim>\<open>sleep\<close>, \<^verbatim>\<open>exit\<close> and \<^verbatim>\<open>swtch.S\<close> on all harts.
  \<^item> \<open>Bio\<close>, \<open>Bcache\<close>: \<^verbatim>\<open>bio.c\<close> and the invariant of the cache. \<open>Log\<close>, \<open>Blocks\<close>, \<open>Log_Steps\<close>, \<open>Log_Props\<close>, \<open>Log_Reserve\<close>: \<^verbatim>\<open>log.c\<close>.
    \<open>Fs\<close>, \<open>Fs_Props\<close>: \<^verbatim>\<open>fs.c\<close>. \<open>Virtio\<close>: \<^verbatim>\<open>virtio_disk.c\<close>.
  \<^item> \<open>Console\<close>: \<^verbatim>\<open>console.c\<close>, \<^verbatim>\<open>uart.c\<close>. \<open>File\<close>: \<^verbatim>\<open>file.c\<close>, \<^verbatim>\<open>pipe.c\<close>. \<open>Ring\<close>: the locale \<open>ring\<close> of a queue in an array
    with wrapping counters, interpreted on the pipe, the console and the serial port. \<open>Pipe_Props\<close>,
    \<open>Console_Props\<close>, \<open>Uart_Props\<close>, over the states of \<open>Kuser\<close> and \<open>Boot_State\<close>: the properties.
  \<^item> \<open>Process\<close>: \<^verbatim>\<open>fork\<close>, \<^verbatim>\<open>exit\<close>, \<^verbatim>\<open>wait\<close>, \<^verbatim>\<open>exec.c\<close>. \<open>Syscall\<close>: \<^verbatim>\<open>syscall.c\<close>, \<^verbatim>\<open>sysproc.c\<close>, \<^verbatim>\<open>sysfile.c\<close>. \<open>Trap\<close>: \<^verbatim>\<open>trap.c\<close>, \<^verbatim>\<open>plic.c\<close>,
    \<^verbatim>\<open>main.c\<close>.
  \<^item> \<open>Ulib\<close>, \<open>Vprintf_Props\<close>: \<^verbatim>\<open>user/ulib.c\<close>, \<^verbatim>\<open>user/printf.c\<close>. \<open>Grep\<close>: \<^verbatim>\<open>user/grep.c\<close>. \<open>Sh\<close>, \<open>Sh_Props\<close>: the parser of \<^verbatim>\<open>user/sh.c\<close>.

  \<^bold>\<open>What is shown.\<close>
  \<^item> Memory. After \<^verbatim>\<open>kinit\<close> every page is handed out once. \<^verbatim>\<open>uvmcopy\<close> gives the child the contents of the parent
    and leaves neither able to store without a fault; after it any interleaving of stores by the two goes
    unseen by the other; the fault handler makes the page private or fails without effect. Growing and
    shrinking, copying out and in, and freeing an address space do what they should to every address
    space, and a half-copied one makes \<^verbatim>\<open>freewalk\<close> panic.
  \<^item> Harts. At most one hart is inside each spin lock; no two harts are on one kernel stack; the checks of
    \<^verbatim>\<open>sched\<close> do not fire in \<^verbatim>\<open>yield\<close>, \<^verbatim>\<open>sleep\<close> and \<^verbatim>\<open>exit\<close>; no wake-up is lost; saved contexts are kept.
  \<^item> Disk. \<^verbatim>\<open>commit\<close> is atomic under crashes at any block write, crashes of the recovery included; log space
    is enough for 29 blocks, and not for the 30 that \<^verbatim>\<open>begin_op\<close> promises; \<^verbatim>\<open>balloc\<close> and \<^verbatim>\<open>bfree\<close> keep the bitmap.
  \<^item> Streams. Pipes, console and serial port refine queues of bytes.
  \<^item> Text. \<^verbatim>\<open>memmove\<close>, \<^verbatim>\<open>safestrcpy\<close>, \<^verbatim>\<open>strncpy\<close>, the two \<^verbatim>\<open>printint\<close>s, \<^verbatim>\<open>vprintf\<close>, \<^verbatim>\<open>atoi\<close>, the matcher and the line loop of
    \<^verbatim>\<open>grep\<close>, and the parser of the shell meet declarative specifications.

  \<^bold>\<open>Bounds.\<close> \<^verbatim>\<open>freewalk\<close> recurses to the three levels of Sv39 and is a \<open>Fault\<close> below them. Searches of the buffer
  list have one more unit of fuel than there are buffers. The parser of the shell has four units of
  fuel per character and four more, and is proved never to run out. Loops of user code that look for
  a NUL byte are partial functions, with their termination proved where a property needs it. Reference counts
  are integers, since the number of mappings of a page stays far below \<open>2 ^ 31\<close>. The digit loops ask for
  a base of at least 2, which every caller passes. The block numbers of \<^verbatim>\<open>balloc\<close> are natural numbers; they
  agree with the \<^verbatim>\<open>int\<close> of the code for disks below \<open>2 ^ 31\<close> blocks. The shell parser is the tree that
  \<^verbatim>\<open>parsecmd\<close> builds; its NUL bytes are written by \<open>nulterminate\<close>, and memory for nodes never runs out.

  \<^bold>\<open>Code outside the sources.\<close> The devices are not part of the program. The disk appears twice: as the
  registers and rings of the driver in \<open>Virtio\<close>, and below the buffer cache as \<open>disk_rw\<close>, the contract of
  \<^verbatim>\<open>virtio_disk_rw\<close>, that a block is read or written whole when the call returns; the two are not connected.
  The serial port is its input queue and the room in its output register.

  \<^bold>\<open>Not modelled.\<close> \<^verbatim>\<open>entry.S\<close>, \<^verbatim>\<open>trampoline.S\<close> and \<^verbatim>\<open>kernelvec.S\<close> only save and load registers around the modelled
  handlers. \<^verbatim>\<open>defs.h\<close>, \<^verbatim>\<open>types.h\<close> and \<^verbatim>\<open>user.h\<close> are declarations, and \<^verbatim>\<open>sysinfo.h\<close> is unused. \<^verbatim>\<open>usertests.c\<close>, \<^verbatim>\<open>grind.c\<close>,
  \<^verbatim>\<open>forktest.c\<close>, \<^verbatim>\<open>stressfs.c\<close>, \<^verbatim>\<open>cowTest.c\<close>, \<^verbatim>\<open>sysinfotest.c\<close>, \<^verbatim>\<open>attacktest.c\<close> and the other small programs of \<^verbatim>\<open>user/\<close> are tests
  and sequences of system calls; so are \<^verbatim>\<open>runcmd\<close> and \<^verbatim>\<open>main\<close> of the shell. \<^verbatim>\<open>umalloc.c\<close> is left out, as no modelled
  program depends on where its memory lies. \<^verbatim>\<open>mkfs.c\<close> runs on the host. Weak memory ordering is not
  modelled: memory operations of the harts interleave.
\<close>

section \<open>Boot: the free list\<close>

text \<open>
  C7: \<^verbatim>\<open>kinit\<close> followed by any number of \<^verbatim>\<open>kalloc\<close> calls, up to the number \<open>n\<close> of whole pages between
  the end of the kernel and \<^verbatim>\<open>PHYSTOP\<close>, hands out pairwise distinct non-null pages of that range.
\<close>

theorem kinit_alloc_distinct:
  assumes "0 < end_addr s" "end_addr s \<le> PHYSTOP" "freelist s = 0"
  shows "\<exists>s' n. kinit s = Ok () s' \<and> unat (PGROUNDUP (end_addr s)) + n * 4096 = unat PHYSTOP \<and>
    (\<forall>k \<le> n. length (fst (kalloc_pages.alloc_many k s')) = k \<and>
       distinct (fst (kalloc_pages.alloc_many k s')) \<and> 0 \<notin> set (fst (kalloc_pages.alloc_many k s')) \<and>
       set (fst (kalloc_pages.alloc_many k s')) \<subseteq> set (pages_from (PGROUNDUP (end_addr s)) n))"
proof -
  obtain s' n where k: "kinit s = Ok () s'" "unat (PGROUNDUP (end_addr s)) + n * 4096 = unat PHYSTOP"
    "kinv s' (rev (pages_from (PGROUNDUP (end_addr s)) n))"
    using kinit_kinv [OF assms] by blast
  have len: "length (pages_from p n) = n" for p by (simp add: pages_from_def)
  have "length (fst (kalloc_pages.alloc_many j s')) = j \<and>
       distinct (fst (kalloc_pages.alloc_many j s')) \<and> 0 \<notin> set (fst (kalloc_pages.alloc_many j s')) \<and>
       set (fst (kalloc_pages.alloc_many j s')) \<subseteq> set (pages_from (PGROUNDUP (end_addr s)) n)"
    if "j \<le> n" for j
    using kalloc_pages.alloc_many_take [OF k(3), of j] kalloc_pages.alloc_many_distinct [OF k(3), of j] that
    by (auto simp: len dest!: in_set_takeD)
  with k(1,2) show ?thesis by blast
qed

theorem kinit_alloc_distinct_witness:
  "\<exists>s' n. kinit \<lparr>mem = (\<lambda>_. 0), refcnt = (\<lambda>_. 0), freelist = 0, end_addr = 0x80020000\<rparr> = Ok () s' \<and> n = 0x7FE0 \<and>
     distinct (fst (kalloc_pages.alloc_many n s'))"
proof -
  let ?s = "\<lparr>mem = (\<lambda>_. 0), refcnt = (\<lambda>_. 0), freelist = 0, end_addr = 0x80020000\<rparr> :: kmem"
  obtain s' n where k: "kinit ?s = Ok () s'" "unat (PGROUNDUP (end_addr ?s)) + n * 4096 = unat PHYSTOP"
    "\<forall>k \<le> n. distinct (fst (kalloc_pages.alloc_many k s'))"
    using kinit_alloc_distinct [of ?s] by (auto simp: layout_defs)
  have "n = 0x7FE0" using k(2) by (simp add: layout_defs PGROUNDUP_def)
  with k show ?thesis by blast
qed

end
